(* ===== verification/Prelude.thy ===== *)
theory Prelude
  imports "HOL-Library.Word" "HOL-Library.Monad_Syntax"
begin

text \<open>
  What the components share: the machine types of the C code, byte buffers with checked
  reads and writes, and the little-endian byte encoding of integers.

  A buffer is a list of bytes. A read or a write outside the buffer is undefined behaviour
  in C and the value \<^term>\<open>None\<close> here, so a theorem that an operation returns
  \<^term>\<open>Some\<close> also says that it stays inside its memory. Memory that the C code has
  allocated and not yet written holds bytes chosen by a parameter (named \<open>junk\<close>), over
  which the theorems are universally quantified.
\<close>

section \<open>Machine types\<close>

type_synonym byte = "8 word"
type_synonym bytes = "byte list"
type_synonym u16 = "16 word"
type_synonym u32 = "32 word"
type_synonym u64 = "64 word"

named_theorems mem_simps \<open>reads of a buffer after writes, moves and reallocations\<close>
named_theorems codec_simps \<open>encoding and decoding of integers as bytes\<close>

section \<open>Buffers\<close>

text \<open>\<open>memcpy\<close> from a buffer, \<open>memcpy\<close> into a buffer, \<open>memmove\<close> inside
  one buffer and \<open>realloc\<close>.\<close>

definition rd :: "nat \<Rightarrow> nat \<Rightarrow> 'a list \<Rightarrow> 'a list option" where
  "rd off n b = (if off + n \<le> length b then Some (take n (drop off b)) else None)"

definition wr :: "nat \<Rightarrow> 'a list \<Rightarrow> 'a list \<Rightarrow> 'a list option" where
  "wr off xs b =
     (if off + length xs \<le> length b
      then Some (take off b @ xs @ drop (off + length xs) b) else None)"

definition mem_move :: "nat \<Rightarrow> nat \<Rightarrow> nat \<Rightarrow> 'a list \<Rightarrow> 'a list option" where
  "mem_move dst src n b = do { xs \<leftarrow> rd src n b; wr dst xs b }"

definition mem_realloc :: "(nat \<Rightarrow> 'a) \<Rightarrow> nat \<Rightarrow> 'a list \<Rightarrow> 'a list" where
  "mem_realloc junk n b = take n b @ map junk [length b..<n]"

lemma length_mem_realloc [simp]: "length (mem_realloc junk n b) = n"
  by (simp add: mem_realloc_def)

lemma rd_Some_iff: "rd off n b = Some xs \<longleftrightarrow> off + n \<le> length b \<and> xs = take n (drop off b)"
  by (auto simp: rd_def)

lemma rd_lengthD: "rd off n b = Some xs \<Longrightarrow> length xs = n"
  by (auto simp: rd_def split: if_splits)

lemma rd_ok [mem_simps]: "off + n \<le> length b \<Longrightarrow> rd off n b = Some (take n (drop off b))"
  by (simp add: rd_def)

lemma wr_lengthD: "wr off xs b = Some b' \<Longrightarrow> length b' = length b"
  by (auto simp: wr_def split: if_splits)

lemma wr_ok_iff: "(\<exists>b'. wr off xs b = Some b') \<longleftrightarrow> off + length xs \<le> length b"
  by (simp add: wr_def)

lemma wr_ok: "off + length xs \<le> length b \<Longrightarrow> \<exists>b'. wr off xs b = Some b'"
  by (simp add: wr_def)

lemma wr_SomeD:
  "wr off xs b = Some b' \<Longrightarrow>
     off + length xs \<le> length b \<and> b' = take off b @ xs @ drop (off + length xs) b"
  by (simp add: wr_def split: if_splits)

lemma nth_wr_in:
  assumes "wr off xs b = Some b'" and "off \<le> i" and "i < off + length xs"
  shows "b' ! i = xs ! (i - off)"
proof -
  have "b' ! i = (xs @ drop (off + length xs) b) ! (i - off)"
    using wr_SomeD [OF assms(1)] assms(2) by (simp add: nth_append not_less)
  then show ?thesis using assms(2,3) by (simp add: nth_append less_diff_conv2)
qed

lemma nth_wr_out:
  assumes "wr off xs b = Some b'" and "i < off \<or> off + length xs \<le> i" and "i < length b"
  shows "b' ! i = b ! i"
proof (cases "i < off")
  case True
  then show ?thesis using wr_SomeD [OF assms(1)] by (simp add: nth_append)
next
  case False
  with assms(2) have le: "off + length xs \<le> i" by simp
  then have "b' ! i = (xs @ drop (off + length xs) b) ! (i - off)"
    using wr_SomeD [OF assms(1)] by (simp add: nth_append)
  also have "\<dots> = drop (off + length xs) b ! (i - off - length xs)"
    using le by (subst nth_append) auto
  also have "\<dots> = b ! i" using le assms(3) by (subst nth_drop) simp_all
  finally show ?thesis .
qed

lemma rd_eqI:
  assumes le: "off + n \<le> length b" and len: "length b' = length b"
    and eq: "\<And>i. i < n \<Longrightarrow> b' ! (off + i) = b ! (off + i)"
  shows "rd off n b' = rd off n b"
proof -
  have "take n (drop off b') = take n (drop off b)"
    using le len eq by (intro nth_equalityI) simp_all
  then show ?thesis using le len by (simp add: rd_def)
qed

lemma rd_wr_same [mem_simps]:
  assumes "wr off xs b = Some b'" and "n = length xs"
  shows "rd off n b' = Some xs"
proof -
  have l: "length b' = length b" and o: "off + length xs \<le> length b"
    using wr_lengthD [OF assms(1)] wr_SomeD [OF assms(1)] by simp_all
  have "take n (drop off b') = xs"
    using wr_SomeD [OF assms(1)] assms(2) by simp
  then show ?thesis using l o assms(2) by (simp add: rd_def)
qed

lemma rd_wr_other [mem_simps]:
  assumes "wr off xs b = Some b'" and "o2 + n \<le> off \<or> off + length xs \<le> o2"
  shows "rd o2 n b' = rd o2 n b"
proof (cases "o2 + n \<le> length b")
  case True
  have "b' ! (o2 + i) = b ! (o2 + i)" if "i < n" for i
  proof -
    from that assms(2) have "o2 + i < off \<or> off + length xs \<le> o2 + i" by linarith
    then show ?thesis using that True by (intro nth_wr_out [OF assms(1)]) simp_all
  qed
  then show ?thesis by (rule rd_eqI [OF True wr_lengthD [OF assms(1)]])
next
  case False
  then show ?thesis using wr_lengthD [OF assms(1)] by (simp add: rd_def)
qed

lemma mem_move_ok:
  assumes "src + n \<le> length b" and "dst + n \<le> length b"
  shows "\<exists>b'. mem_move dst src n b = Some b'"
  using assms by (auto simp: mem_move_def rd_def intro!: wr_ok)

lemma mem_move_lengthD: "mem_move dst src n b = Some b' \<Longrightarrow> length b' = length b"
  by (auto simp: mem_move_def bind_eq_Some_conv dest: wr_lengthD)

lemma mem_moveE:
  assumes "mem_move dst src n b = Some b'"
  obtains xs where "src + n \<le> length b" and "xs = take n (drop src b)" and "length xs = n"
    and "wr dst xs b = Some b'"
  using assms by (auto simp: mem_move_def bind_eq_Some_conv rd_Some_iff)

lemma nth_mem_move_in:
  assumes "mem_move dst src n b = Some b'" and "i < n"
  shows "b' ! (dst + i) = b ! (src + i)"
  using assms(1)
proof (rule mem_moveE)
  fix xs
  assume xs: "src + n \<le> length b" "xs = take n (drop src b)" "length xs = n"
    and w: "wr dst xs b = Some b'"
  have "b' ! (dst + i) = xs ! (dst + i - dst)"
    using xs assms(2) by (intro nth_wr_in [OF w]) simp_all
  then show ?thesis using xs assms(2) by simp
qed

lemma nth_mem_move_out:
  assumes "mem_move dst src n b = Some b'" and "i < dst \<or> dst + n \<le> i" and "i < length b"
  shows "b' ! i = b ! i"
  using assms(1) by (rule mem_moveE) (use assms(2,3) in \<open>auto intro: nth_wr_out\<close>)

lemma rd_mem_move_in [mem_simps]:
  assumes "mem_move dst src n b = Some b'" and "dst \<le> off" and "off + k \<le> dst + n"
  shows "rd off k b' = rd (src + (off - dst)) k b"
proof -
  from assms have b: "src + n \<le> length b" "dst + n \<le> length b" "length b' = length b"
    by (auto simp: mem_move_def bind_eq_Some_conv rd_def wr_def split: if_splits)
  have "take k (drop off b') = take k (drop (src + (off - dst)) b)"
  proof (rule nth_equalityI)
    show "length (take k (drop off b')) = length (take k (drop (src + (off - dst)) b))"
      using b assms(2,3) by simp
    fix i assume "i < length (take k (drop off b'))"
    then have i: "i < k" by simp
    have "b' ! (dst + (off - dst + i)) = b ! (src + (off - dst + i))"
      using i assms(2,3) by (intro nth_mem_move_in [OF assms(1)]) simp
    then show "take k (drop off b') ! i = take k (drop (src + (off - dst)) b) ! i"
      using i b assms(2,3) by (simp add: add.assoc)
  qed
  then show ?thesis using b assms(2,3) by (simp add: rd_def)
qed

lemma rd_mem_move_out [mem_simps]:
  assumes "mem_move dst src n b = Some b'" and "off + k \<le> dst \<or> dst + n \<le> off"
  shows "rd off k b' = rd off k b"
proof (cases "off + k \<le> length b")
  case True
  have "b' ! (off + i) = b ! (off + i)" if "i < k" for i
  proof -
    from that assms(2) have "off + i < dst \<or> dst + n \<le> off + i" by linarith
    then show ?thesis using that True by (intro nth_mem_move_out [OF assms(1)]) simp_all
  qed
  then show ?thesis by (rule rd_eqI [OF True mem_move_lengthD [OF assms(1)]])
next
  case False
  then show ?thesis using mem_move_lengthD [OF assms(1)] by (simp add: rd_def)
qed

lemma rd_mem_realloc [mem_simps]:
  "off + k \<le> n \<Longrightarrow> off + k \<le> length b \<Longrightarrow> rd off k (mem_realloc junk n b) = rd off k b"
  by (simp add: rd_def mem_realloc_def take_drop)

section \<open>Little-endian integers\<close>

fun le_nat :: "bytes \<Rightarrow> nat" where
  "le_nat [] = 0"
| "le_nat (b # bs) = unat b + 256 * le_nat bs"

fun le_bytes :: "nat \<Rightarrow> nat \<Rightarrow> bytes" where
  "le_bytes 0 v = []"
| "le_bytes (Suc n) v = of_nat v # le_bytes n (v div 256)"

lemma length_le_bytes [simp]: "length (le_bytes n v) = n"
  by (induction n v rule: le_bytes.induct) auto

lemma le_nat_less: "le_nat bs < 256 ^ length bs"
proof (induction bs)
  case (Cons b bs)
  have "unat b < 256" using unsigned_less [of b] by simp
  then have "unat b + 256 * le_nat bs < 256 * (le_nat bs + 1)" by simp
  also have "\<dots> \<le> 256 * 256 ^ length bs" using Cons.IH by (intro mult_le_mono) auto
  finally show ?case by simp
qed simp

lemma unat_of_nat_byte [simp]: "unat (of_nat v :: byte) = v mod 256"
  by (simp add: unat_of_nat)

lemma le_nat_le_bytes [codec_simps]: "le_nat (le_bytes n v) = v mod 256 ^ n"
proof (induction n v rule: le_bytes.induct)
  case (2 n v)
  have "v mod 256 + 256 * (v div 256 mod 256 ^ n) = v mod (256 * 256 ^ n)"
    by (simp add: mod_mult2_eq)
  with 2 show ?case by simp
qed simp

lemma le_bytes_le_nat [codec_simps]: "le_bytes (length bs) (le_nat bs) = bs"
proof (induction bs)
  case (Cons b bs)
  have u: "unat b < 256" using unsigned_less [of b] by simp
  have "(of_nat (unat b + 256 * le_nat bs) :: byte) = b"
  proof -
    have "unat (of_nat (unat b + 256 * le_nat bs) :: byte) = unat b"
      using u by (subst unat_of_nat_byte) simp
    then show ?thesis by (rule word_unat_eq_iff [THEN iffD2])
  qed
  with u Cons show ?case by simp
qed simp

lemma le_bytes_mod: "le_bytes n (v mod 256 ^ n) = le_bytes n v"
  using le_bytes_le_nat [of "le_bytes n v"] by (simp add: le_nat_le_bytes)

lemma le_bytes_zero [simp]: "le_bytes n 0 = replicate n 0"
  by (induction n) auto

lemma le_nat_replicate_zero [simp]: "le_nat (replicate n 0) = 0"
  by (induction n) auto

section \<open>Conversions between widths\<close>

lemma unat_ucast: "unat (ucast (w :: 'a::len word) :: 'b::len word) = unat w mod 2 ^ LENGTH('b)"
  by (simp add: unsigned_ucast_eq take_bit_eq_mod)

lemma sint_ucast_32: "sint (ucast (v :: u64) :: u32) = signed_take_bit 31 (sint v)"
  unfolding sint_uint by (simp add: signed_take_bit_take_bit unsigned_ucast_eq)

lemma sint_ucast_16: "sint (ucast (v :: u64) :: u16) = signed_take_bit 15 (sint v)"
  unfolding sint_uint by (simp add: signed_take_bit_take_bit unsigned_ucast_eq)

lemma sint_scast_32: "sint (scast (x :: u32) :: u64) = sint x"
  by (simp add: sint_up_scast is_up)

lemma sint_scast_16: "sint (scast (x :: u16) :: u64) = sint x"
  by (simp add: sint_up_scast is_up)

lemma unat_less_numeral:
  "unat (b :: byte) < 256" "unat (w :: u16) < 65536" "unat (d :: u32) < 4294967296"
  "unat (q :: u64) < 18446744073709551616"
  using unsigned_less [of b] unsigned_less [of w] unsigned_less [of d] unsigned_less [of q]
  by simp_all

lemma sint_range_16: "-32768 \<le> sint (w :: u16)" "sint w < 32768"
  using sint_ge [of w] sint_lt [of w] by simp_all

lemma sint_range_32: "-2147483648 \<le> sint (d :: u32)" "sint d < 2147483648"
  using sint_ge [of d] sint_lt [of d] by simp_all

lemma sint_range_64: "-9223372036854775808 \<le> sint (q :: u64)" "sint q < 9223372036854775808"
  using sint_ge [of q] sint_lt [of q] by simp_all

lemma sint_small_32: "unat (d :: u32) < 2 ^ 31 \<Longrightarrow> sint d = int (unat d)"
proof -
  assume "unat d < 2 ^ 31"
  then have "int (unat d) < int (2 ^ 31)" by (simp only: of_nat_less_iff)
  then have "uint d < 2147483648" by simp
  then have "signed_take_bit 31 (uint d) = uint d"
    by (intro signed_take_bit_int_eq_self) (simp_all add: order_trans [OF _ uint_ge_0])
  then show "sint d = int (unat d)" by (simp add: sint_uint)
qed

lemma sint_inject: "sint (x :: 'a::len word) = sint y \<longleftrightarrow> x = y"
  by (auto dest: signed_word_eqI)

lemma sint_plus_ok:
  "- (2 ^ 63) \<le> sint x + sint y \<Longrightarrow> sint x + sint y < 2 ^ 63 \<Longrightarrow> sint (x + y :: u64) = sint x + sint y"
  by (simp add: sint_word_ariths signed_take_bit_int_eq_self)

lemma sint_minus_ok:
  "- (2 ^ 63) \<le> sint x - sint y \<Longrightarrow> sint x - sint y < 2 ^ 63 \<Longrightarrow> sint (x - y :: u64) = sint x - sint y"
  by (simp add: sint_word_ariths signed_take_bit_int_eq_self)

lemma sint_nonneg_unat: "0 \<le> sint (x :: u64) \<Longrightarrow> sint x = int (unat x)"
  using uint_sint [of x] sint_range_64(2) [of x] by (simp add: take_bit_int_eq_self)

lemma sint_of_nat: "n < 2 ^ 63 \<Longrightarrow> sint (of_nat n :: u64) = int n"
  by (simp add: signed_of_nat signed_take_bit_int_eq_self)

lemma word_of_sint: "word_of_int (sint x) = x"
  by simp

end
