(* ===== verification/Dict.thy ===== *)
theory Dict
  imports Prelude "HOL-Library.Multiset"
begin

text \<open>
  Redis dict.c: the chained hash table behind the keyspace, with two tables and incremental
  rehashing. A bucket is its chain, the head first; \<open>table = NULL\<close> is the empty list of
  buckets. Reading a bucket outside the table is \<^term>\<open>None\<close>, and so is a failed
  \<open>assert\<close>. The type's hash function is a parameter; \<open>dictCompareKeys\<close> is equality
  of keys. \<open>unsigned long\<close> sizes and counters are naturals: they are bounded by the
  number of entries, far below \<open>2 ^ 64\<close>.

  The abstraction is a finite map (\<open>dict_abs\<close>); \<open>dict_wf\<close> is the invariant of the two
  tables. The operations keep the invariant and refine lookup, update and removal of the map,
  in every phase of a rehash.
\<close>

unbundle bit_operations_syntax

section \<open>Data\<close>

record ('k, 'v) dictht =
  table :: "('k \<times> 'v) list list"
  ht_size :: nat
  sizemask :: nat
  used :: nat

record ('k, 'v) dict =
  ht0 :: "('k, 'v) dictht"
  ht1 :: "('k, 'v) dictht"
  rehashidx :: int
  iterators :: int

type_synonym 'k hash_fn = "'k \<Rightarrow> u32"

text \<open>A pointer to an entry: the table, the bucket and the place in its chain.\<close>

type_synonym entry_ref = "nat \<times> nat \<times> nat"

definition DICT_HT_INITIAL_SIZE :: nat where "DICT_HT_INITIAL_SIZE = 4"
definition dict_force_resize_ratio :: nat where "dict_force_resize_ratio = 5"
definition LONG_MAX :: nat where "LONG_MAX = 2 ^ 63 - 1"

definition dictIsRehashing :: "('k, 'v) dict \<Rightarrow> bool" where
  "dictIsRehashing d \<longleftrightarrow> rehashidx d \<noteq> -1"

definition dictSize :: "('k, 'v) dict \<Rightarrow> nat" where
  "dictSize d = used (ht0 d) + used (ht1 d)"

definition bucket :: "('k, 'v) dictht \<Rightarrow> nat \<Rightarrow> ('k \<times> 'v) list option" where
  "bucket ht i = (if i < length (table ht) then Some (table ht ! i) else None)"

definition set_bucket :: "('k, 'v) dictht \<Rightarrow> nat \<Rightarrow> ('k \<times> 'v) list \<Rightarrow> ('k, 'v) dictht" where
  "set_bucket ht i c = ht\<lparr>table := (table ht)[i := c]\<rparr>"

text \<open>\<open>idx = h & sizemask\<close>.\<close>

definition ht_index :: "'k hash_fn \<Rightarrow> ('k, 'v) dictht \<Rightarrow> 'k \<Rightarrow> nat" where
  "ht_index hash ht k = unat (hash k) AND sizemask ht"

section \<open>Creation and resizing\<close>

definition dictReset :: "('k, 'v) dictht" where
  "dictReset = \<lparr>table = [], ht_size = 0, sizemask = 0, used = 0\<rparr>"

definition dictCreate :: "('k, 'v) dict" where
  "dictCreate = \<lparr>ht0 = dictReset, ht1 = dictReset, rehashidx = -1, iterators = 0\<rparr>"

function dictNextPower_loop :: "nat \<Rightarrow> nat \<Rightarrow> nat" where
  "dictNextPower_loop sz i = (if i \<ge> sz \<or> i = 0 then i else dictNextPower_loop sz (i * 2))"
  by pat_completeness auto
termination
  by (relation "measure (\<lambda>(sz, i). sz - i)") auto

definition dictNextPower :: "nat \<Rightarrow> nat" where
  "dictNextPower sz =
     (if sz \<ge> LONG_MAX then LONG_MAX else dictNextPower_loop sz DICT_HT_INITIAL_SIZE)"

definition dictExpand :: "('k, 'v) dict \<Rightarrow> nat \<Rightarrow> ('k, 'v) dict \<times> bool" where
  "dictExpand d sz =
     (let realsize = dictNextPower sz in
      if dictIsRehashing d \<or> used (ht0 d) > sz then (d, False)
      else let n = \<lparr>table = replicate realsize [], ht_size = realsize,
                    sizemask = realsize - 1, used = 0\<rparr>
           in if table (ht0 d) = [] then (d\<lparr>ht0 := n\<rparr>, True)
              else (d\<lparr>ht1 := n, rehashidx := 0\<rparr>, True))"

text \<open>\<open>minimal\<close> is a C \<open>int\<close>; \<open>can_resize\<close> is the static \<open>dict_can_resize\<close>.\<close>

definition dictResize :: "bool \<Rightarrow> ('k, 'v) dict \<Rightarrow> ('k, 'v) dict \<times> bool" where
  "dictResize can_resize d =
     (if \<not> can_resize \<or> dictIsRehashing d then (d, False)
      else let minimal = sint (of_nat (used (ht0 d)) :: u32);
               minimal = (if minimal < int DICT_HT_INITIAL_SIZE then int DICT_HT_INITIAL_SIZE
                          else minimal)
           in dictExpand d (nat minimal))"

definition dictExpandIfNeeded :: "bool \<Rightarrow> ('k, 'v) dict \<Rightarrow> ('k, 'v) dict \<times> bool" where
  "dictExpandIfNeeded can_resize d =
     (if dictIsRehashing d then (d, True)
      else if ht_size (ht0 d) = 0 then dictExpand d DICT_HT_INITIAL_SIZE
      else if used (ht0 d) \<ge> ht_size (ht0 d) \<and>
              (can_resize \<or> used (ht0 d) div ht_size (ht0 d) > dict_force_resize_ratio)
      then dictExpand d (used (ht0 d) * 2)
      else (d, True))"

section \<open>Incremental rehashing\<close>

text \<open>\<open>while (table[rehashidx] == NULL) rehashidx++\<close>.\<close>

function rehash_skip :: "'e list list \<Rightarrow> nat \<Rightarrow> nat option" where
  "rehash_skip t i =
     (if i < length t then (if t ! i = [] then rehash_skip t (Suc i) else Some i) else None)"
  by pat_completeness auto
termination
  by (relation "measure (\<lambda>(t, i). length t - i)") auto

text \<open>Moving the entries of one bucket, each to the head of its bucket in the new table.\<close>

fun rehash_move ::
  "'k hash_fn \<Rightarrow> ('k \<times> 'v) list \<Rightarrow> ('k, 'v) dictht \<Rightarrow> ('k, 'v) dictht \<Rightarrow>
     (('k, 'v) dictht \<times> ('k, 'v) dictht) option" where
  "rehash_move hash [] h0 h1 = Some (h0, h1)"
| "rehash_move hash (de # nextde) h0 h1 = do {
     let h = ht_index hash h1 (fst de);
     c \<leftarrow> bucket h1 h;
     rehash_move hash nextde (h0\<lparr>used := used h0 - 1\<rparr>)
       (set_bucket h1 h (de # c) \<lparr>used := used h1 + 1\<rparr>) }"

text \<open>One turn of the loop of \<open>dictRehash\<close>, when the old table still holds entries.\<close>

definition rehash_one :: "'k hash_fn \<Rightarrow> ('k, 'v) dict \<Rightarrow> ('k, 'v) dict option" where
  "rehash_one hash d =
     (if \<not> int (ht_size (ht0 d)) > rehashidx d \<or> rehashidx d < 0 then None
      else do {
        i \<leftarrow> rehash_skip (table (ht0 d)) (nat (rehashidx d));
        c \<leftarrow> bucket (ht0 d) i;
        (h0, h1) \<leftarrow> rehash_move hash c (ht0 d) (ht1 d);
        Some (d\<lparr>ht0 := set_bucket h0 i [], ht1 := h1, rehashidx := int i + 1\<rparr>) })"

fun dictRehash_loop :: "'k hash_fn \<Rightarrow> ('k, 'v) dict \<Rightarrow> nat \<Rightarrow> (('k, 'v) dict \<times> bool) option" where
  "dictRehash_loop hash d 0 = Some (d, True)"
| "dictRehash_loop hash d (Suc n) =
     (if used (ht0 d) = 0
      then Some (d\<lparr>ht0 := ht1 d, ht1 := dictReset, rehashidx := -1\<rparr>, False)
      else do { d \<leftarrow> rehash_one hash d; dictRehash_loop hash d n })"

definition dictRehash :: "'k hash_fn \<Rightarrow> ('k, 'v) dict \<Rightarrow> nat \<Rightarrow> (('k, 'v) dict \<times> bool) option" where
  "dictRehash hash d n =
     (if \<not> dictIsRehashing d then Some (d, False) else dictRehash_loop hash d n)"

definition dictRehashStep :: "'k hash_fn \<Rightarrow> ('k, 'v) dict \<Rightarrow> ('k, 'v) dict option" where
  "dictRehashStep hash d =
     (if iterators d = 0 then map_option fst (dictRehash hash d 1) else Some d)"

definition maybe_step :: "'k hash_fn \<Rightarrow> ('k, 'v) dict \<Rightarrow> ('k, 'v) dict option" where
  "maybe_step hash d = (if dictIsRehashing d then dictRehashStep hash d else Some d)"

section \<open>Lookup\<close>

text \<open>The walk along a chain: the place of the first entry with the key.\<close>

fun chain_find :: "'k \<Rightarrow> ('k \<times> 'v) list \<Rightarrow> nat option" where
  "chain_find k [] = None"
| "chain_find k (he # hes) = (if k = fst he then Some 0 else map_option Suc (chain_find k hes))"

text \<open>The loop over the two tables that \<open>dictFind\<close> and \<open>_dictKeyIndex\<close> share.\<close>

definition dict_search :: "'k hash_fn \<Rightarrow> ('k, 'v) dict \<Rightarrow> 'k \<Rightarrow> entry_ref option option" where
  "dict_search hash d k = do {
     c0 \<leftarrow> bucket (ht0 d) (ht_index hash (ht0 d) k);
     case chain_find k c0 of
       Some p \<Rightarrow> Some (Some (0, ht_index hash (ht0 d) k, p))
     | None \<Rightarrow>
         if \<not> dictIsRehashing d then Some None
         else do {
           c1 \<leftarrow> bucket (ht1 d) (ht_index hash (ht1 d) k);
           Some (map_option (\<lambda>p. (1, ht_index hash (ht1 d) k, p)) (chain_find k c1)) } }"

definition dictFind ::
  "'k hash_fn \<Rightarrow> ('k, 'v) dict \<Rightarrow> 'k \<Rightarrow> (('k, 'v) dict \<times> entry_ref option) option" where
  "dictFind hash d k =
     (if ht_size (ht0 d) = 0 then Some (d, None)
      else do {
        d \<leftarrow> maybe_step hash d;
        r \<leftarrow> dict_search hash d k;
        Some (d, r) })"

definition ref_ht :: "('k, 'v) dict \<Rightarrow> nat \<Rightarrow> ('k, 'v) dictht" where
  "ref_ht d t = (if t = 0 then ht0 d else ht1 d)"

definition dictGetVal :: "('k, 'v) dict \<Rightarrow> entry_ref \<Rightarrow> 'v option" where
  "dictGetVal d r = (case r of (t, i, p) \<Rightarrow> do {
     c \<leftarrow> bucket (ref_ht d t) i;
     if p < length c then Some (snd (c ! p)) else None })"

definition dictSetVal :: "('k, 'v) dict \<Rightarrow> entry_ref \<Rightarrow> 'v \<Rightarrow> ('k, 'v) dict option" where
  "dictSetVal d r v = (case r of (t, i, p) \<Rightarrow> do {
     c \<leftarrow> bucket (ref_ht d t) i;
     if p < length c
     then let ht = set_bucket (ref_ht d t) i (c[p := (fst (c ! p), v)])
          in Some (if t = 0 then d\<lparr>ht0 := ht\<rparr> else d\<lparr>ht1 := ht\<rparr>)
     else None })"

definition dictFetchValue ::
  "'k hash_fn \<Rightarrow> ('k, 'v) dict \<Rightarrow> 'k \<Rightarrow> (('k, 'v) dict \<times> 'v option) option" where
  "dictFetchValue hash d k = do {
     (d, r) \<leftarrow> dictFind hash d k;
     case r of None \<Rightarrow> Some (d, None)
     | Some he \<Rightarrow> do { v \<leftarrow> dictGetVal d he; Some (d, Some v) } }"

section \<open>Adding, replacing\<close>

text \<open>The index in the table that gets new entries, as the C \<open>int\<close> it is returned in;
  -1 when the key exists or the table cannot be expanded.\<close>

definition dictKeyIndex ::
  "'k hash_fn \<Rightarrow> bool \<Rightarrow> ('k, 'v) dict \<Rightarrow> 'k \<Rightarrow> (('k, 'v) dict \<times> int) option" where
  "dictKeyIndex hash can_resize d k =
     (let (d, ok) = dictExpandIfNeeded can_resize d in
      if \<not> ok then Some (d, -1)
      else do {
        r \<leftarrow> dict_search hash d k;
        case r of Some _ \<Rightarrow> Some (d, -1)
        | None \<Rightarrow>
            let ht = (if dictIsRehashing d then ht1 d else ht0 d)
            in Some (d, sint (of_nat (ht_index hash ht k) :: u32)) })"

text \<open>The value of the new entry is what the allocator left there (\<open>junk\<close>).\<close>

definition dictAddRaw ::
  "'k hash_fn \<Rightarrow> bool \<Rightarrow> 'v \<Rightarrow> ('k, 'v) dict \<Rightarrow> 'k \<Rightarrow>
     (('k, 'v) dict \<times> entry_ref option) option" where
  "dictAddRaw hash can_resize junk d k = do {
     d \<leftarrow> maybe_step hash d;
     (d, index) \<leftarrow> dictKeyIndex hash can_resize d k;
     if index = -1 then Some (d, None)
     else if index < 0 then None
     else do {
       let t = (if dictIsRehashing d then 1 else 0);
       let ht = (if dictIsRehashing d then ht1 d else ht0 d);
       c \<leftarrow> bucket ht (nat index);
       let ht = set_bucket ht (nat index) ((k, junk) # c) \<lparr>used := used ht + 1\<rparr>;
       Some (if dictIsRehashing d then d\<lparr>ht1 := ht\<rparr> else d\<lparr>ht0 := ht\<rparr>,
             Some (t, nat index, 0)) } }"

definition dictAdd ::
  "'k hash_fn \<Rightarrow> bool \<Rightarrow> 'v \<Rightarrow> ('k, 'v) dict \<Rightarrow> 'k \<Rightarrow> 'v \<Rightarrow> (('k, 'v) dict \<times> bool) option" where
  "dictAdd hash can_resize junk d k v = do {
     (d, entry) \<leftarrow> dictAddRaw hash can_resize junk d k;
     case entry of None \<Rightarrow> Some (d, False)
     | Some e \<Rightarrow> do { d \<leftarrow> dictSetVal d e v; Some (d, True) } }"

definition dictReplace ::
  "'k hash_fn \<Rightarrow> bool \<Rightarrow> 'v \<Rightarrow> ('k, 'v) dict \<Rightarrow> 'k \<Rightarrow> 'v \<Rightarrow> (('k, 'v) dict \<times> bool) option" where
  "dictReplace hash can_resize junk d k v = do {
     (d, added) \<leftarrow> dictAdd hash can_resize junk d k v;
     if added then Some (d, True)
     else do {
       (d, entry) \<leftarrow> dictFind hash d k;
       case entry of None \<Rightarrow> None
       | Some e \<Rightarrow> do { d \<leftarrow> dictSetVal d e v; Some (d, False) } } }"

definition dictReplaceRaw ::
  "'k hash_fn \<Rightarrow> bool \<Rightarrow> 'v \<Rightarrow> ('k, 'v) dict \<Rightarrow> 'k \<Rightarrow>
     (('k, 'v) dict \<times> entry_ref option) option" where
  "dictReplaceRaw hash can_resize junk d k = do {
     (d, entry) \<leftarrow> dictFind hash d k;
     case entry of Some e \<Rightarrow> Some (d, Some e)
     | None \<Rightarrow> dictAddRaw hash can_resize junk d k }"

section \<open>Removal\<close>

fun chain_unlink :: "'k \<Rightarrow> ('k \<times> 'v) list \<Rightarrow> ('k \<times> 'v) list option" where
  "chain_unlink k [] = None"
| "chain_unlink k (he # hes) =
     (if k = fst he then Some hes else map_option ((#) he) (chain_unlink k hes))"

text \<open>Unlinking from one table: the new table, or \<^term>\<open>None\<close> inside when the key is not
  there.\<close>

definition ht_delete ::
  "'k hash_fn \<Rightarrow> ('k, 'v) dictht \<Rightarrow> 'k \<Rightarrow> ('k, 'v) dictht option option" where
  "ht_delete hash ht k = do {
     c \<leftarrow> bucket ht (ht_index hash ht k);
     Some (map_option (\<lambda>c'. set_bucket ht (ht_index hash ht k) c' \<lparr>used := used ht - 1\<rparr>)
       (chain_unlink k c)) }"

definition dictGenericDelete ::
  "'k hash_fn \<Rightarrow> ('k, 'v) dict \<Rightarrow> 'k \<Rightarrow> (('k, 'v) dict \<times> bool) option" where
  "dictGenericDelete hash d k =
     (if ht_size (ht0 d) = 0 then Some (d, False)
      else do {
        d \<leftarrow> maybe_step hash d;
        r0 \<leftarrow> ht_delete hash (ht0 d) k;
        case r0 of Some ht \<Rightarrow> Some (d\<lparr>ht0 := ht\<rparr>, True)
        | None \<Rightarrow>
            if \<not> dictIsRehashing d then Some (d, False)
            else do {
              r1 \<leftarrow> ht_delete hash (ht1 d) k;
              case r1 of Some ht \<Rightarrow> Some (d\<lparr>ht1 := ht\<rparr>, True)
              | None \<Rightarrow> Some (d, False) } })"

definition dictDelete :: "'k hash_fn \<Rightarrow> ('k, 'v) dict \<Rightarrow> 'k \<Rightarrow> (('k, 'v) dict \<times> bool) option" where
  "dictDelete hash d k = dictGenericDelete hash d k"

definition dictEmpty :: "('k, 'v) dict \<Rightarrow> ('k, 'v) dict" where
  "dictEmpty d = d\<lparr>ht0 := dictReset, ht1 := dictReset, rehashidx := -1, iterators := 0\<rparr>"

section \<open>Lists of entries with distinct keys\<close>

lemma map_of_perm:
  assumes "mset xs = mset ys" and "distinct (map fst xs)"
  shows "distinct (map fst ys)" and "map_of ys = map_of xs"
proof -
  have "mset (map fst xs) = mset (map fst ys)" using assms(1) by simp
  then show d: "distinct (map fst ys)" using assms(2) by (metis mset_eq_imp_distinct_iff)
  have "set xs = set ys" using assms(1) by (metis set_mset_mset)
  then show "map_of ys = map_of xs"
    using assms(2) d by (simp add: map_of_inject_set)
qed

lemma map_of_insert_perm:
  assumes "mset ys = add_mset (k, v) (mset xs)" and "distinct (map fst xs)" and "k \<notin> fst ` set xs"
  shows "distinct (map fst ys)" and "map_of ys = (map_of xs)(k \<mapsto> v)"
  using map_of_perm [of "(k, v) # xs" ys] assms by simp_all

lemma map_of_delete_perm:
  assumes "mset xs = add_mset (k, v) (mset ys)" and "distinct (map fst xs)"
  shows "distinct (map fst ys)" and "map_of ys = (map_of xs)(k := None)" and "map_of xs k = Some v"
    and "k \<notin> fst ` set ys"
proof -
  have "mset xs = mset ((k, v) # ys)" using assms(1) by simp
  note p = map_of_perm [OF this assms(2)]
  show "distinct (map fst ys)" "k \<notin> fst ` set ys" using p(1) by simp_all
  then have "map_of ys k = None" by (simp add: map_of_eq_None_iff)
  then show "map_of ys = (map_of xs)(k := None)" unfolding p(2) [symmetric] by auto
  show "map_of xs k = Some v" using p(2) by (metis fun_upd_same map_of.simps(2) fst_conv snd_conv)
qed

lemma map_of_update_perm:
  assumes "mset xs = add_mset (k, v0) M" and "mset ys = add_mset (k, v) M"
    and "distinct (map fst xs)"
  shows "distinct (map fst ys)" and "map_of ys = (map_of xs)(k \<mapsto> v)"
proof -
  obtain zs where zs: "mset zs = M" by (metis ex_mset)
  have x: "mset xs = add_mset (k, v0) (mset zs)" and y: "mset ys = add_mset (k, v) (mset zs)"
    using assms(1,2) zs by simp_all
  note d = map_of_delete_perm [OF x assms(3)]
  show "distinct (map fst ys)" "map_of ys = (map_of xs)(k \<mapsto> v)"
    using map_of_insert_perm [OF y d(1) d(4)] d(2) by simp_all
qed

lemma mset_concat_update:
  "i < length t \<Longrightarrow> mset (concat (t[i := c])) + mset (t ! i) = mset (concat t) + mset c"
proof (induction t arbitrary: i)
  case (Cons x t)
  then show ?case by (cases i) (simp_all add: ac_simps)
qed simp

section \<open>Invariant and abstraction\<close>

definition ents :: "('k, 'v) dictht \<Rightarrow> ('k \<times> 'v) list" where
  "ents ht = concat (table ht)"

definition dict_list :: "('k, 'v) dict \<Rightarrow> ('k \<times> 'v) list" where
  "dict_list d = ents (ht0 d) @ ents (ht1 d)"

definition dict_abs :: "('k, 'v) dict \<Rightarrow> 'k \<rightharpoonup> 'v" where
  "dict_abs d = map_of (dict_list d)"

text \<open>A table is absent or has \<open>2 ^ m\<close> buckets; the counter is exact; every entry is in the
  bucket its hash names.\<close>

definition ht_shape :: "('k, 'v) dictht \<Rightarrow> bool" where
  "ht_shape ht \<longleftrightarrow>
     (if table ht = [] then ht_size ht = 0 \<and> sizemask ht = 0
      else \<exists>m. 2 \<le> m \<and> m \<le> 31 \<and> ht_size ht = 2 ^ m \<and> length (table ht) = 2 ^ m \<and>
               sizemask ht = 2 ^ m - 1)"

definition ht_placed :: "'k hash_fn \<Rightarrow> ('k, 'v) dictht \<Rightarrow> bool" where
  "ht_placed hash ht \<longleftrightarrow>
     (\<forall>i < length (table ht). \<forall>e \<in> set (table ht ! i). ht_index hash ht (fst e) = i)"

definition ht_wf :: "'k hash_fn \<Rightarrow> ('k, 'v) dictht \<Rightarrow> bool" where
  "ht_wf hash ht \<longleftrightarrow> ht_shape ht \<and> ht_placed hash ht \<and> used ht = length (ents ht)"

text \<open>Keys are distinct over both tables; the second table exists exactly during a rehash, and
  the buckets below \<open>rehashidx\<close> have been moved.\<close>

definition dict_wf :: "'k hash_fn \<Rightarrow> ('k, 'v) dict \<Rightarrow> bool" where
  "dict_wf hash d \<longleftrightarrow> ht_wf hash (ht0 d) \<and> ht_wf hash (ht1 d) \<and> distinct (map fst (dict_list d)) \<and>
     (if rehashidx d = -1 then table (ht1 d) = []
      else 0 \<le> rehashidx d \<and> rehashidx d \<le> int (ht_size (ht0 d)) \<and>
           table (ht0 d) \<noteq> [] \<and> table (ht1 d) \<noteq> [] \<and>
           (\<forall>i < nat (rehashidx d). table (ht0 d) ! i = []))"

lemma dict_wfD:
  assumes "dict_wf hash d"
  shows "ht_wf hash (ht0 d)" and "ht_wf hash (ht1 d)" and "distinct (map fst (dict_list d))"
    and "\<not> dictIsRehashing d \<Longrightarrow> table (ht1 d) = []"
    and "dictIsRehashing d \<Longrightarrow> 0 \<le> rehashidx d \<and> rehashidx d \<le> int (ht_size (ht0 d)) \<and>
           table (ht0 d) \<noteq> [] \<and> table (ht1 d) \<noteq> []"
    and "dictIsRehashing d \<Longrightarrow> i < nat (rehashidx d) \<Longrightarrow> table (ht0 d) ! i = []"
  using assms by (auto simp: dict_wf_def dictIsRehashing_def split: if_splits)

lemma ht_wfD:
  assumes "ht_wf hash ht"
  shows "ht_shape ht" and "ht_placed hash ht" and "used ht = length (ents ht)"
  using assms by (simp_all add: ht_wf_def)

lemma ht_shape_cases:
  assumes "ht_shape ht" and "table ht \<noteq> []"
  obtains m where "2 \<le> m" and "m \<le> 31" and "ht_size ht = 2 ^ m" and "length (table ht) = 2 ^ m"
    and "sizemask ht = 2 ^ m - 1"
  using assms by (auto simp: ht_shape_def)

lemma table_length: "ht_shape ht \<Longrightarrow> ht_size ht = length (table ht)"
  by (auto simp: ht_shape_def split: if_splits)

lemma table_absent: "ht_shape ht \<Longrightarrow> ht_size ht = 0 \<longleftrightarrow> table ht = []"
  by (simp add: table_length)

lemma and_mask_mod: "(x :: nat) AND (2 ^ m - 1) = x mod 2 ^ m"
  unfolding mask_eq_exp_minus_1 [symmetric] take_bit_eq_mask [symmetric] take_bit_eq_mod ..

lemma ht_index_less:
  assumes "ht_shape ht" and "table ht \<noteq> []"
  shows "ht_index hash ht k < length (table ht)"
  using assms by (rule ht_shape_cases) (simp only: ht_index_def and_mask_mod, simp)

lemma ht_index_int:
  assumes "ht_shape ht" and "table ht \<noteq> []"
  shows "sint (of_nat (ht_index hash ht k) :: u32) = int (ht_index hash ht k)"
proof -
  have "ht_index hash ht k < 2 ^ 31"
    using ht_index_less [OF assms, of hash k] power_increasing [of _ 31 "2::nat"]
    by (rule_tac ht_shape_cases [OF assms]) (metis less_le_trans one_le_numeral)
  then show ?thesis by (simp add: sint_small_32 unat_of_nat)
qed

lemma bucket_index:
  assumes "ht_shape ht" and "table ht \<noteq> []"
  shows "bucket ht (ht_index hash ht k) = Some (table ht ! ht_index hash ht k)"
  using ht_index_less [OF assms] by (simp add: bucket_def)

lemma dictReset_wf [simp]: "ht_wf hash dictReset" and ents_dictReset [simp]: "ents dictReset = []"
  by (simp_all add: dictReset_def ht_wf_def ht_shape_def ht_placed_def ents_def)

section \<open>Bucket updates\<close>

lemma set_bucket_simps [simp]:
  "ht_size (set_bucket ht i c) = ht_size ht" "sizemask (set_bucket ht i c) = sizemask ht"
  "used (set_bucket ht i c) = used ht" "table (set_bucket ht i c) = (table ht)[i := c]"
  "ht_index hash (set_bucket ht i c) = ht_index hash ht"
  "ht_index hash (ht\<lparr>used := n\<rparr>) = ht_index hash ht"
  by (simp_all add: set_bucket_def ht_index_def fun_eq_iff)

lemma ents_used [simp]: "ents (ht\<lparr>used := n\<rparr>) = ents ht"
  by (simp add: ents_def)

lemma ht_shape_set_bucket:
  "ht_shape ht \<Longrightarrow> ht_shape (set_bucket ht i c \<lparr>used := n\<rparr>)" "ht_shape ht \<Longrightarrow> ht_shape (set_bucket ht i c)"
  by (auto simp: ht_shape_def split: if_splits)

lemma ht_placed_set_bucket:
  assumes "ht_placed hash ht" and "\<forall>e \<in> set c. ht_index hash ht (fst e) = i"
  shows "ht_placed hash (set_bucket ht i c \<lparr>used := n\<rparr>)" "ht_placed hash (set_bucket ht i c)"
proof -
  have "\<forall>e \<in> set ((table ht)[i := c] ! j). ht_index hash ht (fst e) = j"
    if "j < length (table ht)" for j
    using assms that by (cases "j = i") (simp_all add: ht_placed_def)
  then show "ht_placed hash (set_bucket ht i c \<lparr>used := n\<rparr>)" "ht_placed hash (set_bucket ht i c)"
    by (simp_all add: ht_placed_def)
qed

lemma mset_ents_set_bucket:
  assumes "i < length (table ht)"
  shows "mset (ents (set_bucket ht i c \<lparr>used := n\<rparr>)) + mset (table ht ! i) = mset (ents ht) + mset c"
    and "mset (ents (set_bucket ht i c)) + mset (table ht ! i) = mset (ents ht) + mset c"
  using mset_concat_update [OF assms, of c] by (simp_all add: ents_def)

lemma ht_wf_update_bucket:
  assumes wf: "ht_wf hash ht" and i: "i < length (table ht)"
    and placed: "\<forall>e \<in> set c. ht_index hash ht (fst e) = i"
    and n: "n + length (table ht ! i) = used ht + length c"
  shows "ht_wf hash (set_bucket ht i c \<lparr>used := n\<rparr>)"
proof -
  have "size (mset (ents (set_bucket ht i c \<lparr>used := n\<rparr>)) + mset (table ht ! i)) =
      size (mset (ents ht) + mset c)"
    by (simp only: mset_ents_set_bucket(1) [OF i])
  then have "n = length (ents (set_bucket ht i c \<lparr>used := n\<rparr>))"
    using n ht_wfD(3) [OF wf] by simp
  then show ?thesis
    using ht_wfD(1,2) [OF wf] placed
    by (simp add: ht_wf_def ht_shape_set_bucket ht_placed_set_bucket)
qed

lemma placedD: "ht_placed hash ht \<Longrightarrow> i < length (table ht) \<Longrightarrow> e \<in> set (table ht ! i) \<Longrightarrow>
    ht_index hash ht (fst e) = i"
  by (simp add: ht_placed_def)

text \<open>Linking a new entry at the head of its bucket.\<close>

lemma ht_insert:
  assumes wf: "ht_wf hash ht" and ne: "table ht \<noteq> []" and i: "i = ht_index hash ht (fst e)"
  defines "ht' \<equiv> set_bucket ht i (e # (table ht ! i)) \<lparr>used := used ht + 1\<rparr>"
  shows "ht_wf hash ht'" and "mset (ents ht') = add_mset e (mset (ents ht))"
proof -
  have lt: "i < length (table ht)" using ht_index_less [OF ht_wfD(1) [OF wf] ne] i by simp
  show "ht_wf hash ht'" unfolding ht'_def
    using placedD [OF ht_wfD(2) [OF wf] lt] i
    by (intro ht_wf_update_bucket [OF wf lt]) auto
  show "mset (ents ht') = add_mset e (mset (ents ht))"
    using mset_ents_set_bucket(1) [OF lt, where c = "e # (table ht ! i)" and n = "used ht + 1"]
    unfolding ht'_def by simp
qed

section \<open>Rehashing keeps the entries\<close>

lemma rehash_move_ok:
  assumes "ht_wf hash h1" and "table h1 \<noteq> []" and "length c \<le> used h0"
  shows "\<exists>h1'. rehash_move hash c h0 h1 = Some (h0\<lparr>used := used h0 - length c\<rparr>, h1') \<and>
    ht_wf hash h1' \<and> table h1' \<noteq> [] \<and> mset (ents h1') = mset c + mset (ents h1)"
  using assms
proof (induction c arbitrary: h0 h1)
  case (Cons e c)
  let ?i = "ht_index hash h1 (fst e)"
  let ?h1 = "set_bucket h1 ?i (e # (table h1 ! ?i)) \<lparr>used := used h1 + 1\<rparr>"
  note ins = ht_insert [OF Cons.prems(1,2) refl, of e]
  have "table ?h1 \<noteq> []" using Cons.prems(2) by simp
  moreover have "length c \<le> used (h0\<lparr>used := used h0 - 1\<rparr>)" using Cons.prems(3) by simp
  ultimately show ?case
    using Cons.IH [OF ins(1)] ins(2) bucket_index [OF ht_wfD(1) [OF Cons.prems(1)] Cons.prems(2)]
    by fastforce
qed simp

lemma rehash_skip_ok:
  assumes "\<exists>j. i \<le> j \<and> j < length t \<and> t ! j \<noteq> []"
  shows "\<exists>j. rehash_skip t i = Some j \<and> i \<le> j \<and> j < length t \<and> t ! j \<noteq> [] \<and>
    (\<forall>l. i \<le> l \<longrightarrow> l < j \<longrightarrow> t ! l = [])"
  using assms
proof (induction t i rule: rehash_skip.induct)
  case (1 t i)
  show ?case
  proof (cases "t ! i = []")
    case True
    then have "\<exists>j. Suc i \<le> j \<and> j < length t \<and> t ! j \<noteq> []"
      using "1.prems" by (metis le_eq_less_or_eq Suc_leI)
    moreover have "i < length t" using "1.prems" by auto
    ultimately obtain j where j: "rehash_skip t (Suc i) = Some j" "Suc i \<le> j" "j < length t"
      "t ! j \<noteq> []" "\<forall>l. Suc i \<le> l \<longrightarrow> l < j \<longrightarrow> t ! l = []"
      using "1.IH" True by blast
    have "\<forall>l. i \<le> l \<longrightarrow> l < j \<longrightarrow> t ! l = []"
      using j(5) True by (metis Suc_leI le_eq_less_or_eq)
    then show ?thesis
      using j True \<open>i < length t\<close> by (subst rehash_skip.simps) auto
  next
    case False
    then show ?thesis using "1.prems" by (subst rehash_skip.simps) auto
  qed
qed

lemma dict_abs_perm:
  assumes "mset (dict_list d') = mset (dict_list d)" and "distinct (map fst (dict_list d))"
  shows "distinct (map fst (dict_list d'))" and "dict_abs d' = dict_abs d"
  using map_of_perm [OF assms(1) [symmetric] assms(2)] by (simp_all add: dict_abs_def)

lemma used_nonempty:
  assumes "ht_wf hash ht" and "used ht \<noteq> 0"
  shows "\<exists>j. j < length (table ht) \<and> table ht ! j \<noteq> []"
proof -
  have "concat (table ht) \<noteq> []" using assms ht_wfD(3) [OF assms(1)] by (auto simp: ents_def)
  then show ?thesis by (metis concat_eq_Nil_conv in_set_conv_nth)
qed

text \<open>What one bucket's move keeps: the invariant, the entries, the phase and the number of safe
  iterators.\<close>

definition same_content :: "'k hash_fn \<Rightarrow> ('k, 'v) dict \<Rightarrow> ('k, 'v) dict \<Rightarrow> bool" where
  "same_content hash d d' \<longleftrightarrow>
     dict_wf hash d' \<and> mset (dict_list d') = mset (dict_list d) \<and> iterators d' = iterators d"

lemma same_content_trans:
  "same_content hash d d' \<Longrightarrow> same_content hash d' d'' \<Longrightarrow> same_content hash d d''"
  by (simp add: same_content_def)

lemma same_contentD:
  assumes "same_content hash d d'" and "dict_wf hash d"
  shows "dict_wf hash d'" and "dict_abs d' = dict_abs d"
    and "set (dict_list d') = set (dict_list d)" and "iterators d' = iterators d"
  using assms dict_abs_perm(2) [of d' d] dict_wfD(3) [OF assms(2)]
  by (auto simp: same_content_def dest: mset_eq_setD)

lemma same_content_refl: "dict_wf hash d \<Longrightarrow> same_content hash d d"
  by (simp add: same_content_def)

lemma rehash_one_ok:
  assumes wf: "dict_wf hash d" and re: "dictIsRehashing d" and u: "used (ht0 d) \<noteq> 0"
  obtains d' where "rehash_one hash d = Some d'" and "same_content hash d d'" and "dictIsRehashing d'"
    and "ht_size (ht0 d') = ht_size (ht0 d)" and "rehashidx d < rehashidx d'"
proof -
  note w0 = dict_wfD(1) [OF wf] and w1 = dict_wfD(2) [OF wf] and r = dict_wfD(5) [OF wf re]
    and low = dict_wfD(6) [OF wf re]
  have sz: "ht_size (ht0 d) = length (table (ht0 d))" by (rule table_length [OF ht_wfD(1) [OF w0]])
  obtain j where j: "j < length (table (ht0 d))" "table (ht0 d) ! j \<noteq> []"
    using used_nonempty [OF w0 u] by blast
  then have "nat (rehashidx d) \<le> j" using low by (meson not_le)
  with j obtain i where i: "rehash_skip (table (ht0 d)) (nat (rehashidx d)) = Some i"
    "nat (rehashidx d) \<le> i" "i < length (table (ht0 d))"
    "\<forall>l. nat (rehashidx d) \<le> l \<longrightarrow> l < i \<longrightarrow> table (ht0 d) ! l = []"
    using rehash_skip_ok [of "nat (rehashidx d)" "table (ht0 d)"] by blast
  let ?c = "table (ht0 d) ! i"
  have "mset (ents (set_bucket (ht0 d) i [])) + mset ?c = mset (ents (ht0 d))"
    using mset_ents_set_bucket(2) [OF i(3), of "[]"] by simp
  then have m0: "mset ?c + mset (ents (set_bucket (ht0 d) i [])) = mset (ents (ht0 d))"
    by (simp add: add.commute)
  then have "length ?c + length (ents (set_bucket (ht0 d) i [])) = used (ht0 d)"
    using ht_wfD(3) [OF w0] by (metis size_mset size_union)
  then have lc: "length ?c \<le> used (ht0 d)" by simp
  obtain h1 where h1: "rehash_move hash ?c (ht0 d) (ht1 d) =
      Some ((ht0 d)\<lparr>used := used (ht0 d) - length ?c\<rparr>, h1)" "ht_wf hash h1" "table h1 \<noteq> []"
      "mset (ents h1) = mset ?c + mset (ents (ht1 d))"
    using rehash_move_ok [OF w1 _ lc] r by blast
  let ?h0 = "set_bucket ((ht0 d)\<lparr>used := used (ht0 d) - length ?c\<rparr>) i []"
  let ?d = "d\<lparr>ht0 := ?h0, ht1 := h1, rehashidx := int i + 1\<rparr>"
  have h0_eq: "?h0 = set_bucket (ht0 d) i [] \<lparr>used := used (ht0 d) - length ?c\<rparr>"
    by (simp add: set_bucket_def)
  have one: "rehash_one hash d = Some ?d"
    using i h1 r sz j \<open>nat (rehashidx d) \<le> j\<close> by (auto simp: rehash_one_def bucket_def)
  have w0': "ht_wf hash ?h0"
    unfolding h0_eq using lc by (intro ht_wf_update_bucket [OF w0 i(3)]) simp_all
  have l: "mset (dict_list ?d) = mset (dict_list d)"
    by (simp add: dict_list_def h0_eq m0 [symmetric] h1(4) ac_simps)
  have "\<forall>l < i + 1. table ?h0 ! l = []"
    using i(3,4) low by (auto simp: nth_list_update less_Suc_eq nat_less_iff)
      (metis not_le)
  then have "dict_wf hash ?d"
    using w0' h1 r i sz dict_abs_perm(1) [OF l dict_wfD(3) [OF wf]]
    by (auto simp: dict_wf_def nat_add_distrib)
  then have "same_content hash d ?d" using l by (simp add: same_content_def)
  then show ?thesis
    using that [OF one] i(2) r by (simp add: dictIsRehashing_def)
qed

text \<open>When the old table is empty the new one takes its place.\<close>

lemma rehash_finish_ok:
  assumes wf: "dict_wf hash d" and re: "dictIsRehashing d" and u: "used (ht0 d) = 0"
  defines "d' \<equiv> d\<lparr>ht0 := ht1 d, ht1 := dictReset, rehashidx := -1\<rparr>"
  shows "same_content hash d d'" and "table (ht0 d') \<noteq> []" and "\<not> dictIsRehashing d'"
proof -
  have "ents (ht0 d) = []" using u ht_wfD(3) [OF dict_wfD(1) [OF wf]] by simp
  then have l: "dict_list d' = dict_list d" by (simp add: d'_def dict_list_def)
  then have "dict_wf hash d'"
    using dict_wfD(2,3) [OF wf] by (simp add: dict_wf_def d'_def dictReset_def)
      (metis dictReset_def dictReset_wf)
  then show "same_content hash d d'" using l by (simp add: same_content_def d'_def)
  show "table (ht0 d') \<noteq> []" "\<not> dictIsRehashing d'"
    using dict_wfD(5) [OF wf re] by (simp_all add: d'_def dictIsRehashing_def)
qed

text \<open>A run of \<open>n\<close> steps keeps the content; it ends the rehash (return value 0) if
  \<open>n\<close> exceeds the number of buckets that are left.\<close>

lemma dictRehash_loop_ok:
  assumes "dict_wf hash d" and "dictIsRehashing d"
  shows "\<exists>d' b. dictRehash_loop hash d n = Some (d', b) \<and> same_content hash d d' \<and>
    table (ht0 d') \<noteq> [] \<and> (b \<longleftrightarrow> dictIsRehashing d') \<and>
    (int (ht_size (ht0 d)) - rehashidx d < int n \<longrightarrow> \<not> b)"
  using assms
proof (induction n arbitrary: d)
  case 0
  then show ?case using dict_wfD(5) [OF 0] by (auto simp: same_content_refl)
next
  case (Suc n)
  show ?case
  proof (cases "used (ht0 d) = 0")
    case True
    then show ?thesis using rehash_finish_ok [OF Suc.prems True] by auto
  next
    case False
    obtain d' where one: "rehash_one hash d = Some d'" and s: "same_content hash d d'"
      and r: "dictIsRehashing d'" and sz: "ht_size (ht0 d') = ht_size (ht0 d)"
      and idx: "rehashidx d < rehashidx d'"
      using rehash_one_ok [OF Suc.prems False] by blast
    have wf': "dict_wf hash d'" using s by (simp add: same_content_def)
    from Suc.IH [OF wf' r] obtain d'' b where
      "dictRehash_loop hash d' n = Some (d'', b)" "same_content hash d' d''"
      "table (ht0 d'') \<noteq> []" "b \<longleftrightarrow> dictIsRehashing d''"
      "int (ht_size (ht0 d')) - rehashidx d' < int n \<longrightarrow> \<not> b" by blast
    then show ?thesis using one False same_content_trans [OF s] sz idx by auto
  qed
qed

lemma dictRehash_ok:
  assumes "dict_wf hash d"
  obtains d' b where "dictRehash hash d n = Some (d', b)" and "same_content hash d d'"
    and "b \<longleftrightarrow> dictIsRehashing d'" and "int (ht_size (ht0 d)) - rehashidx d < int n \<Longrightarrow> \<not> b"
    and "table (ht0 d) \<noteq> [] \<Longrightarrow> table (ht0 d') \<noteq> []"
proof (cases "dictIsRehashing d")
  case True
  then show ?thesis
    using dictRehash_loop_ok [OF assms True, of n] that by (auto simp: dictRehash_def)
next
  case False
  then show ?thesis using that [of d False] same_content_refl [OF assms] by (simp add: dictRehash_def)
qed

lemma maybe_step_ok:
  assumes "dict_wf hash d"
  obtains d' where "maybe_step hash d = Some d'" and "same_content hash d d'"
    and "table (ht0 d) \<noteq> [] \<Longrightarrow> table (ht0 d') \<noteq> []"
proof (cases "dictIsRehashing d \<and> iterators d = 0")
  case True
  obtain d' b where "dictRehash hash d 1 = Some (d', b)" "same_content hash d d'"
    "table (ht0 d) \<noteq> [] \<Longrightarrow> table (ht0 d') \<noteq> []"
    using dictRehash_ok [OF assms, of 1] by metis
  then show ?thesis using that [of d'] True by (simp add: maybe_step_def dictRehashStep_def)
next
  case False
  then show ?thesis
    using that [of d] same_content_refl [OF assms] by (auto simp: maybe_step_def dictRehashStep_def)
qed

section \<open>Expansion\<close>

declare dictNextPower_loop.simps [simp del]

lemma dictNextPower_loop_ok:
  assumes "i = 2 ^ a" and "a \<le> 31" and "sz \<le> 2 ^ 31"
  shows "\<exists>m. dictNextPower_loop sz i = 2 ^ m \<and> a \<le> m \<and> m \<le> 31 \<and> sz \<le> 2 ^ m"
  using assms
proof (induction sz i arbitrary: a rule: dictNextPower_loop.induct)
  case (1 sz i)
  show ?case
  proof (cases "i \<ge> sz")
    case True
    then show ?thesis using 1 by (subst dictNextPower_loop.simps) auto
  next
    case False
    then have "a \<noteq> 31" using "1.prems" by auto
    then have "\<exists>m. dictNextPower_loop sz (i * 2) = 2 ^ m \<and> Suc a \<le> m \<and> m \<le> 31 \<and> sz \<le> 2 ^ m"
      using 1 False by (intro "1.IH") auto
    then show ?thesis using False "1.prems" by (subst dictNextPower_loop.simps) auto
  qed
qed

lemma dictNextPower_ok:
  assumes "sz \<le> 2 ^ 31"
  obtains m where "dictNextPower sz = 2 ^ m" and "2 \<le> m" and "m \<le> 31" and "sz \<le> 2 ^ m"
proof -
  have "sz < LONG_MAX" using assms by (simp add: LONG_MAX_def)
  then show ?thesis
    using dictNextPower_loop_ok [of 4 2 sz] assms that
    by (auto simp: dictNextPower_def DICT_HT_INITIAL_SIZE_def)
qed

lemma ents_blank [simp]:
  "ents \<lparr>table = replicate n [], ht_size = a, sizemask = b, used = c\<rparr> = []"
  by (simp add: ents_def)

lemma dictExpand_ok:
  assumes wf: "dict_wf hash d" and "\<not> dictIsRehashing d" and "used (ht0 d) \<le> sz" and "sz \<le> 2 ^ 31"
  obtains d' where "dictExpand d sz = (d', True)" and "same_content hash d d'"
    and "table (ht0 d') \<noteq> []"
proof -
  obtain m where m: "dictNextPower sz = 2 ^ m" "2 \<le> m" "m \<le> 31" using dictNextPower_ok [OF assms(4)] .
  let ?n = "\<lparr>table = replicate (2 ^ m) [], ht_size = 2 ^ m, sizemask = 2 ^ m - 1, used = 0\<rparr>
    :: ('a, 'b) dictht"
  have n: "ht_wf hash ?n" "table ?n \<noteq> []"
    using m by (auto simp: ht_wf_def ht_shape_def ht_placed_def)
  note t1 = dict_wfD(4) [OF wf assms(2)]
  show ?thesis
  proof (cases "table (ht0 d) = []")
    case True
    then have "dict_list (d\<lparr>ht0 := ?n\<rparr>) = dict_list d" by (simp add: dict_list_def) (simp add: ents_def)
    then have "same_content hash d (d\<lparr>ht0 := ?n\<rparr>)"
      using n wf assms(2) by (simp add: same_content_def dict_wf_def dictIsRehashing_def)
    then show ?thesis
      using that True n assms m by (simp add: dictExpand_def Let_def)
  next
    case False
    have "ents (ht1 d) = []" using t1 by (simp add: ents_def)
    then have "dict_list (d\<lparr>ht1 := ?n, rehashidx := 0\<rparr>) = dict_list d" by (simp add: dict_list_def)
    then have "same_content hash d (d\<lparr>ht1 := ?n, rehashidx := 0\<rparr>)"
      using n wf assms(2) False by (simp add: same_content_def dict_wf_def dictIsRehashing_def)
    then show ?thesis
      using that False n assms m by (simp add: dictExpand_def Let_def)
  qed
qed

lemma dictExpandIfNeeded_ok:
  assumes wf: "dict_wf hash d" and cap: "dictSize d < 2 ^ 30"
  obtains d' where "dictExpandIfNeeded can d = (d', True)" and "same_content hash d d'"
    and "table (ht0 d') \<noteq> []"
proof -
  note w0 = dict_wfD(1) [OF wf]
  have u: "used (ht0 d) < 2 ^ 30" using cap by (simp add: dictSize_def)
  consider "dictIsRehashing d" | "\<not> dictIsRehashing d" "ht_size (ht0 d) = 0"
    | "\<not> dictIsRehashing d" "ht_size (ht0 d) \<noteq> 0"
      "used (ht0 d) \<ge> ht_size (ht0 d) \<and>
        (can \<or> used (ht0 d) div ht_size (ht0 d) > dict_force_resize_ratio)"
    | "\<not> dictIsRehashing d" "ht_size (ht0 d) \<noteq> 0"
      "\<not> (used (ht0 d) \<ge> ht_size (ht0 d) \<and>
        (can \<or> used (ht0 d) div ht_size (ht0 d) > dict_force_resize_ratio))"
    by blast
  then show ?thesis
  proof cases
    case 1
    then show ?thesis
      using that [of d] dict_wfD(5) [OF wf 1] same_content_refl [OF wf]
      by (simp add: dictExpandIfNeeded_def)
  next
    case 2
    then have "used (ht0 d) = 0"
      using ht_wfD(3) [OF w0] table_absent [OF ht_wfD(1) [OF w0]] by (simp add: ents_def)
    then show ?thesis
      using dictExpand_ok [OF wf 2(1), of DICT_HT_INITIAL_SIZE] 2 that
      by (auto simp: dictExpandIfNeeded_def DICT_HT_INITIAL_SIZE_def)
  next
    case 3
    then show ?thesis
      using dictExpand_ok [OF wf 3(1), of "used (ht0 d) * 2"] u that
      by (auto simp: dictExpandIfNeeded_def)
  next
    case 4
    then show ?thesis
      using that [of d] same_content_refl [OF wf] table_absent [OF ht_wfD(1) [OF w0]]
      by (auto simp: dictExpandIfNeeded_def)
  qed
qed

section \<open>Lookup is lookup of the map\<close>

lemma chain_find_None: "chain_find k c = None \<longleftrightarrow> k \<notin> fst ` set c"
  by (induction c) (auto simp: image_iff)

lemma chain_find_Some: "chain_find k c = Some p \<Longrightarrow> p < length c \<and> fst (c ! p) = k"
  by (induction c arbitrary: p) (auto split: if_splits)

definition ref_entry :: "('k, 'v) dict \<Rightarrow> entry_ref \<Rightarrow> ('k \<times> 'v) option" where
  "ref_entry d r = (case r of (t, i, p) \<Rightarrow>
     if i < length (table (ref_ht d t)) \<and> p < length (table (ref_ht d t) ! i)
     then Some (table (ref_ht d t) ! i ! p) else None)"

lemma ents_bucket:
  assumes "i < length (table ht)" and "p < length (table ht ! i)"
  shows "table ht ! i ! p \<in> set (ents ht)"
  using assms by (auto simp: ents_def intro!: bexI [of _ "table ht ! i"])

lemma ref_entry_in: "ref_entry d r = Some e \<Longrightarrow> e \<in> set (dict_list d)"
  by (auto simp: ref_entry_def ref_ht_def dict_list_def ents_bucket split: prod.splits if_splits)

lemma key_in_bucket:
  assumes "ht_wf hash ht" and "k \<in> fst ` set (ents ht)"
  shows "k \<in> fst ` set (table ht ! ht_index hash ht k)"
proof -
  obtain e where e: "e \<in> set (ents ht)" "fst e = k" using assms(2) by auto
  then obtain c where "c \<in> set (table ht)" "e \<in> set c" by (auto simp: ents_def)
  then obtain i where "i < length (table ht)" "e \<in> set (table ht ! i)"
    by (metis in_set_conv_nth)
  then show ?thesis using placedD [OF ht_wfD(2) [OF assms(1)], of i e] e by auto
qed

lemma dict_abs_None: "dict_abs d k = None \<longleftrightarrow> k \<notin> fst ` set (dict_list d)"
  by (simp add: dict_abs_def map_of_eq_None_iff)

lemma dict_abs_Some: "dict_wf hash d \<Longrightarrow> dict_abs d k = Some v \<longleftrightarrow> (k, v) \<in> set (dict_list d)"
  using dict_wfD(3) [of hash d] by (simp add: dict_abs_def map_of_eq_Some_iff)

lemma dict_search_ok:
  assumes wf: "dict_wf hash d" and ne: "table (ht0 d) \<noteq> []"
  obtains "dict_search hash d k = Some None" and "dict_abs d k = None"
  | r v where "dict_search hash d k = Some (Some r)" and "ref_entry d r = Some (k, v)"
    and "dict_abs d k = Some v"
proof -
  note w0 = dict_wfD(1) [OF wf] and w1 = dict_wfD(2) [OF wf] and goals = that
  let ?i = "ht_index hash (ht0 d) k" and ?j = "ht_index hash (ht1 d) k"
  note b0 = bucket_index [OF ht_wfD(1) [OF w0] ne, of hash k]
  have found: thesis
    if "dict_search hash d k = Some (Some r)" "ref_entry d r = Some e" "fst e = k" for r e
    using goals(2) [OF that(1), of "snd e"] that(2,3) ref_entry_in [OF that(2)]
    by (auto simp: dict_abs_Some [OF wf])
  show ?thesis
  proof (cases "chain_find k (table (ht0 d) ! ?i)")
    case (Some p)
    then have "dict_search hash d k = Some (Some (0, ?i, p))" by (simp add: dict_search_def b0)
    moreover have "ref_entry d (0, ?i, p) = Some (table (ht0 d) ! ?i ! p)"
      using chain_find_Some [OF Some] ht_index_less [OF ht_wfD(1) [OF w0] ne]
      by (simp add: ref_entry_def ref_ht_def)
    ultimately show ?thesis using found chain_find_Some [OF Some] by blast
  next
    case None
    then have k0: "k \<notin> fst ` set (ents (ht0 d))"
      using key_in_bucket [OF w0] by (auto simp: chain_find_None)
    show ?thesis
    proof (cases "dictIsRehashing d")
      case False
      then have "ents (ht1 d) = []" using dict_wfD(4) [OF wf] by (simp add: ents_def)
      then have "dict_abs d k = None" using k0 by (simp add: dict_abs_None dict_list_def)
      then show ?thesis
        using None False by (intro that(1)) (simp_all add: dict_search_def b0)
    next
      case True
      then have ne1: "table (ht1 d) \<noteq> []" using dict_wfD(5) [OF wf] by simp
      note b1 = bucket_index [OF ht_wfD(1) [OF w1] ne1, of hash k]
      show ?thesis
      proof (cases "chain_find k (table (ht1 d) ! ?j)")
        case none1: None
        then have "k \<notin> fst ` set (ents (ht1 d))"
          using key_in_bucket [OF w1] by (auto simp: chain_find_None)
        then have "dict_abs d k = None" using k0 by (auto simp: dict_abs_None dict_list_def)
        then show ?thesis
          using None none1 True by (intro that(1)) (simp_all add: dict_search_def b0 b1)
      next
        case (Some p)
        then have "dict_search hash d k = Some (Some (1, ?j, p))"
          using None True by (simp add: dict_search_def b0 b1)
        moreover have "ref_entry d (1, ?j, p) = Some (table (ht1 d) ! ?j ! p)"
          using chain_find_Some [OF Some] ht_index_less [OF ht_wfD(1) [OF w1] ne1]
          by (simp add: ref_entry_def ref_ht_def)
        ultimately show ?thesis using found chain_find_Some [OF Some] by blast
      qed
    qed
  qed
qed

lemma dict_empty_abs:
  assumes "dict_wf hash d" and "table (ht0 d) = []"
  shows "dict_abs d = Map.empty"
proof -
  have "\<not> dictIsRehashing d" using dict_wfD(5) [OF assms(1)] assms(2) by auto
  then show ?thesis
    using dict_wfD(4) [OF assms(1)] assms(2) by (simp add: dict_abs_def dict_list_def ents_def)
qed

lemma dictFind_ok:
  assumes wf: "dict_wf hash d"
  obtains d' where "dictFind hash d k = Some (d', None)" and "same_content hash d d'"
    and "dict_abs d k = None"
  | d' r v where "dictFind hash d k = Some (d', Some r)" and "same_content hash d d'"
    and "ref_entry d' r = Some (k, v)" and "dict_abs d k = Some v"
proof (cases "table (ht0 d) = []")
  case True
  then show ?thesis
    using that(1) [of d] dict_empty_abs [OF wf] same_content_refl [OF wf]
      table_absent [OF ht_wfD(1) [OF dict_wfD(1) [OF wf]]] by (simp add: dictFind_def)
next
  case False
  then have sz: "ht_size (ht0 d) \<noteq> 0"
    using table_absent [OF ht_wfD(1) [OF dict_wfD(1) [OF wf]]] by simp
  obtain d' where st: "maybe_step hash d = Some d'" and sc: "same_content hash d d'"
    and ne: "table (ht0 d') \<noteq> []" using maybe_step_ok [OF wf] False by metis
  note s = same_contentD [OF sc wf]
  from s(1) ne show ?thesis
  proof (cases rule: dict_search_ok [of hash d' k])
    case 1
    then show ?thesis using that(1) [of d'] st sz sc s(2) by (simp add: dictFind_def)
  next
    case (2 r v)
    then show ?thesis using that(2) [of d' r v] st sz sc s(2) by (simp add: dictFind_def)
  qed
qed

lemma dictGetVal_ref: "ref_entry d r = Some (k, v) \<Longrightarrow> dictGetVal d r = Some v"
  by (auto simp: ref_entry_def dictGetVal_def bucket_def split: prod.splits if_splits)

lemma dictFetchValue_ok:
  assumes wf: "dict_wf hash d"
  obtains d' where "dictFetchValue hash d k = Some (d', dict_abs d k)" and "same_content hash d d'"
proof (cases rule: dictFind_ok [OF wf, of k])
  case (1 d')
  then show ?thesis using that by (simp add: dictFetchValue_def)
next
  case (2 d' r v)
  then show ?thesis using that dictGetVal_ref [OF 2(3)] by (simp add: dictFetchValue_def)
qed

section \<open>Adding, replacing and removing\<close>

lemma dictSize_list: "dict_wf hash d \<Longrightarrow> dictSize d = length (dict_list d)"
  using ht_wfD(3) [OF dict_wfD(1), of hash d] ht_wfD(3) [OF dict_wfD(2), of hash d]
  by (simp add: dictSize_def dict_list_def)

lemma dictSize_card: "dict_wf hash d \<Longrightarrow> dictSize d = card (dom (dict_abs d))"
  using dict_wfD(3) [of hash d] distinct_card [of "map fst (dict_list d)"]
  by (simp add: dictSize_list dict_abs_def dom_map_of_conv_image_fst)

lemma same_content_size:
  "same_content hash d d' \<Longrightarrow> dict_wf hash d \<Longrightarrow> dictSize d' = dictSize d"
  using dictSize_list [of hash d] dictSize_list [of hash d'] mset_eq_length
  by (auto simp: same_content_def)

text \<open>Rewriting the value of one entry of a table.\<close>

lemma ht_set_val:
  fixes v :: 'v
  assumes wf: "ht_wf hash ht" and i: "i < length (table ht)" and p: "p < length (table ht ! i)"
    and e: "table ht ! i ! p = (k, v0)"
  defines "ht' \<equiv> set_bucket ht i ((table ht ! i)[p := (k, v)])"
  shows "ht_wf hash ht'" and "add_mset (k, v0) (mset (ents ht')) = add_mset (k, v) (mset (ents ht))"
    and "used ht' = used ht"
proof -
  let ?c = "table ht ! i" and ?c' = "(table ht ! i)[p := (k, v)]"
  have k: "ht_index hash ht k = i"
    using placedD [OF ht_wfD(2) [OF wf] i nth_mem [OF p]] e by simp
  have "\<forall>x \<in> set ?c'. ht_index hash ht (fst x) = i"
    using placedD [OF ht_wfD(2) [OF wf] i] k set_update_subset_insert [of ?c p "(k, v)"] by fastforce
  moreover have "ht' = set_bucket ht i ?c' \<lparr>used := used ht\<rparr>"
    by (simp add: ht'_def set_bucket_def)
  ultimately show "ht_wf hash ht'" by (simp only:) (intro ht_wf_update_bucket [OF wf i]; simp)
  obtain M where c: "mset ?c = add_mset (k, v0) M"
    using nth_mem [OF p] e by (metis insert_DiffM set_mset_mset)
  then have c': "mset ?c' = add_mset (k, v) M" using p e by (simp add: mset_update)
  show "add_mset (k, v0) (mset (ents ht')) = add_mset (k, v) (mset (ents ht))"
    using mset_ents_set_bucket(2) [OF i, of ?c'] c c' by (simp add: ht'_def)
  show "used ht' = used ht" by (simp add: ht'_def)
qed

lemma dictSetVal_ok:
  assumes wf: "dict_wf hash d" and r: "ref_entry d r = Some (k, v0)"
  obtains d' where "dictSetVal d r v = Some d'" and "dict_wf hash d'"
    and "dict_abs d' = (dict_abs d)(k \<mapsto> v)" and "iterators d' = iterators d"
    and "dictSize d' = dictSize d"
proof -
  obtain t i p where rr: "r = (t, i, p)" by (cases r)
  let ?ht = "ref_ht d t"
  have ip: "i < length (table ?ht)" "p < length (table ?ht ! i)" "table ?ht ! i ! p = (k, v0)"
    using r by (auto simp: rr ref_entry_def split: if_splits)
  have wfh: "ht_wf hash ?ht" using dict_wfD(1,2) [OF wf] by (simp add: ref_ht_def)
  define ht' where "ht' = set_bucket ?ht i ((table ?ht ! i)[p := (k, v)])"
  note h = ht_set_val [OF wfh ip, where v = v, folded ht'_def]
  define d' where "d' = (if t = 0 then d\<lparr>ht0 := ht'\<rparr> else d\<lparr>ht1 := ht'\<rparr>)"
  have set: "dictSetVal d r v = Some d'"
    using ip by (simp add: dictSetVal_def rr bucket_def d'_def ht'_def Let_def)
  have "add_mset (k, v0) (mset (dict_list d')) = add_mset (k, v) (mset (dict_list d))"
  proof -
    have "add_mset a (A + X) = add_mset b (A + Y) \<and> add_mset a (X + A) = add_mset b (Y + A)"
      if eq: "add_mset a X = add_mset b Y" for a b and A X Y :: "('a \<times> 'b) multiset"
    proof -
      have "A + add_mset a X = A + add_mset b Y" "add_mset a X + A = add_mset b Y + A"
        by (simp_all only: eq)
      then show ?thesis by simp
    qed
    then show ?thesis using h(2) by (cases "t = 0") (simp_all add: dict_list_def d'_def ref_ht_def)
  qed
  moreover have "(k, v0) \<in> set (dict_list d)" using ref_entry_in [OF r] .
  then obtain M where M: "mset (dict_list d) = add_mset (k, v0) M"
    by (metis insert_DiffM set_mset_mset)
  ultimately have M': "mset (dict_list d') = add_mset (k, v) M"
    by (simp add: add_mset_commute)
  note u = map_of_update_perm [OF M M' dict_wfD(3) [OF wf]]
  have "table (ht0 d) ! i \<noteq> []" if "t = 0" using ip that by (auto simp: ref_ht_def)
  then have low: "(table (ht0 d))[i := c] ! l = []"
    if "t = 0" "dictIsRehashing d" "l < nat (rehashidx d)" for l c
    using dict_wfD(6) [OF wf that(2,3)] dict_wfD(6) [OF wf that(2), of i] that
    by (cases "l = i") auto
  then have "dict_wf hash d'"
    using wf h(1) u(1) by (cases "t = 0")
      (auto simp: dict_wf_def d'_def ht'_def ref_ht_def dictIsRehashing_def split: if_splits)
  moreover have "dict_abs d' = (dict_abs d)(k \<mapsto> v)" using u(2) by (simp add: dict_abs_def)
  moreover have "iterators d' = iterators d" "dictSize d' = dictSize d"
    using h(3) by (auto simp: d'_def dictSize_def ref_ht_def)
  ultimately show ?thesis using that set by blast
qed

lemma dictAddRaw_ok:
  assumes wf: "dict_wf hash d" and cap: "dictSize d < 2 ^ 30"
  obtains d' where "dictAddRaw hash can junk d k = Some (d', None)" and "same_content hash d d'"
    and "dict_abs d k \<noteq> None"
  | d' r where "dictAddRaw hash can junk d k = Some (d', Some r)" and "dict_wf hash d'"
    and "dict_abs d k = None" and "ref_entry d' r = Some (k, junk)"
    and "dict_abs d' = (dict_abs d)(k \<mapsto> junk)" and "iterators d' = iterators d"
    and "dictSize d' = Suc (dictSize d)"
proof -
  obtain d1 where d1: "maybe_step hash d = Some d1" "same_content hash d d1"
    using maybe_step_ok [OF wf] by metis
  note s1 = same_contentD [OF d1(2) wf]
  have "dictSize d1 < 2 ^ 30" using same_content_size [OF d1(2) wf] cap by simp
  then obtain d2 where d2: "dictExpandIfNeeded can d1 = (d2, True)" "same_content hash d1 d2"
    and ne: "table (ht0 d2) \<noteq> []" using dictExpandIfNeeded_ok [OF s1(1)] by metis
  note sc = same_content_trans [OF d1(2) d2(2)]
  note s = same_contentD [OF sc wf]
  show ?thesis
  proof (cases rule: dict_search_ok [OF s(1) ne, of k])
    case (2 r v)
    then show ?thesis
      using that(1) [of d2] d1 d2 sc s(2) by (simp add: dictAddRaw_def dictKeyIndex_def)
  next
    case 1
    define t where "t = (if dictIsRehashing d2 then 1 else 0 :: nat)"
    define ht where "ht = (if dictIsRehashing d2 then ht1 d2 else ht0 d2)"
    have wfh: "ht_wf hash ht" and neh: "table ht \<noteq> []"
      using dict_wfD(1,2,5) [OF s(1)] ne by (auto simp: ht_def)
    let ?i = "ht_index hash ht k"
    define ht' where "ht' = set_bucket ht ?i ((k, junk) # (table ht ! ?i)) \<lparr>used := used ht + 1\<rparr>"
    have "?i = ht_index hash ht (fst (k, junk))" by simp
    note ins = ht_insert [OF wfh neh this, folded ht'_def]
    define d3 where "d3 = (if dictIsRehashing d2 then d2\<lparr>ht1 := ht'\<rparr> else d2\<lparr>ht0 := ht'\<rparr>)"
    note lt = ht_index_less [OF ht_wfD(1) [OF wfh] neh, of hash k]
    have add: "dictAddRaw hash can junk d k = Some (d3, Some (t, ?i, 0))"
      using d1(1) d2(1) 1(1) ht_index_int [OF ht_wfD(1) [OF wfh] neh, of hash k]
        bucket_index [OF ht_wfD(1) [OF wfh] neh, of hash k]
      by (simp add: dictAddRaw_def dictKeyIndex_def Let_def ht_def [symmetric] t_def [symmetric]
          d3_def ht'_def)
    have l: "mset (dict_list d3) = add_mset (k, junk) (mset (dict_list d2))"
      using ins(2) by (auto simp: dict_list_def d3_def ht_def split: if_splits)
    have "k \<notin> fst ` set (dict_list d2)" using 1(2) by (simp add: dict_abs_None)
    note u = map_of_insert_perm [OF l dict_wfD(3) [OF s(1)] this]
    have "table ht' \<noteq> []" using neh by (simp add: ht'_def)
    then have "dict_wf hash d3"
      using s(1) ins(1) u(1) ne
      by (auto simp: dict_wf_def d3_def dictIsRehashing_def split: if_splits)
    moreover have "ref_entry d3 (t, ?i, 0) = Some (k, junk)"
      using lt by (auto simp: ref_entry_def ref_ht_def d3_def t_def ht'_def ht_def split: if_splits)
    moreover have "dict_abs d3 = (dict_abs d)(k \<mapsto> junk)"
      using u(2) s(2) by (simp add: dict_abs_def)
    moreover have "dictSize d3 = Suc (dictSize d)"
      using same_content_size [OF sc wf]
      by (auto simp: dictSize_def d3_def ht'_def ht_def split: if_splits)
    ultimately show ?thesis
      using that(2) [OF add] 1(2) s(2,4) by (simp add: d3_def)
  qed
qed

lemma dictAdd_ok:
  assumes wf: "dict_wf hash d" and cap: "dictSize d < 2 ^ 30"
  obtains d' where "dictAdd hash can junk d k v = Some (d', dict_abs d k = None)"
    and "dict_wf hash d'" and "iterators d' = iterators d"
    and "dict_abs d' = (if dict_abs d k = None then (dict_abs d)(k \<mapsto> v) else dict_abs d)"
proof (cases rule: dictAddRaw_ok [OF wf cap, of can junk k])
  case (1 d')
  then show ?thesis
    using that [of d'] same_contentD [OF 1(2) wf] by (auto simp: dictAdd_def)
next
  case (2 d' r)
  obtain d'' where "dictSetVal d' r v = Some d''" "dict_wf hash d''"
    "dict_abs d'' = (dict_abs d')(k \<mapsto> v)" "iterators d'' = iterators d'"
    using dictSetVal_ok [OF 2(2,4)] by metis
  then show ?thesis using that 2 by (simp add: dictAdd_def)
qed

lemma dictReplace_ok:
  assumes wf: "dict_wf hash d" and cap: "dictSize d < 2 ^ 30"
  obtains d' where "dictReplace hash can junk d k v = Some (d', dict_abs d k = None)"
    and "dict_wf hash d'" and "iterators d' = iterators d"
    and "dict_abs d' = (dict_abs d)(k \<mapsto> v)"
proof -
  obtain d1 where d1: "dictAdd hash can junk d k v = Some (d1, dict_abs d k = None)"
    "dict_wf hash d1" "iterators d1 = iterators d"
    "dict_abs d1 = (if dict_abs d k = None then (dict_abs d)(k \<mapsto> v) else dict_abs d)"
    by (rule dictAdd_ok [OF wf cap])
  show ?thesis
  proof (cases "dict_abs d k = None")
    case True
    then show ?thesis using that d1 by (simp add: dictReplace_def)
  next
    case False
    then have "dict_abs d1 k \<noteq> None" using d1(4) by simp
    then show ?thesis
    proof (cases rule: dictFind_ok [OF d1(2), of k])
      case (2 d2 r w)
      note s = same_contentD [OF 2(2) d1(2)]
      obtain d3 where "dictSetVal d2 r v = Some d3" "dict_wf hash d3"
        "dict_abs d3 = (dict_abs d2)(k \<mapsto> v)" "iterators d3 = iterators d2"
        using dictSetVal_ok [OF s(1) 2(3)] by metis
      then show ?thesis using that 2 s d1 False by (simp add: dictReplace_def)
    qed simp
  qed
qed

lemma chain_unlink_None: "chain_unlink k c = None \<longleftrightarrow> k \<notin> fst ` set c"
  by (induction c) (auto simp: image_iff)

lemma chain_unlink_Some:
  "chain_unlink k c = Some c' \<Longrightarrow> \<exists>v. mset c = add_mset (k, v) (mset c')"
  by (induction c arbitrary: c') (auto split: if_splits)

lemma ht_delete_ok:
  assumes wf: "ht_wf hash ht" and ne: "table ht \<noteq> []"
  obtains "ht_delete hash ht k = Some None" and "k \<notin> fst ` set (ents ht)"
  | ht' v where "ht_delete hash ht k = Some (Some ht')" and "ht_wf hash ht'"
    and "mset (ents ht) = add_mset (k, v) (mset (ents ht'))" and "ht_size ht' = ht_size ht"
    and "table ht' \<noteq> []" and "\<And>l. table ht ! l = [] \<Longrightarrow> table ht' ! l = []"
proof -
  let ?i = "ht_index hash ht k"
  note b = bucket_index [OF ht_wfD(1) [OF wf] ne, of hash k]
    and lt = ht_index_less [OF ht_wfD(1) [OF wf] ne, of hash k]
  show ?thesis
  proof (cases "chain_unlink k (table ht ! ?i)")
    case None
    then have "k \<notin> fst ` set (ents ht)" using key_in_bucket [OF wf] by (auto simp: chain_unlink_None)
    then show ?thesis using that(1) None b by (simp add: ht_delete_def)
  next
    case (Some c)
    obtain v where v: "mset (table ht ! ?i) = add_mset (k, v) (mset c)"
      using chain_unlink_Some [OF Some] by blast
    let ?ht = "set_bucket ht ?i c \<lparr>used := used ht - 1\<rparr>"
    have m: "mset (ents ht) = add_mset (k, v) (mset (ents ?ht))"
      using mset_ents_set_bucket(1) [OF lt, where c = c and n = "used ht - 1"] v by simp
    have "length (ents ht) = Suc (length (ents ?ht))" using arg_cong [OF m, of size] by simp
    moreover have "length (table ht ! ?i) = Suc (length c)" using arg_cong [OF v, of size] by simp
    moreover have "set c \<subseteq> set (table ht ! ?i)"
      using arg_cong [OF v, of set_mset] by auto
    ultimately have "ht_wf hash ?ht"
      using placedD [OF ht_wfD(2) [OF wf] lt] ht_wfD(3) [OF wf]
      by (intro ht_wf_update_bucket [OF wf lt]) auto
    moreover have "table ?ht ! l = []" if "table ht ! l = []" for l
      using that v lt by (cases "l = ?i") auto
    moreover have "ht_delete hash ht k = Some (Some ?ht)" using Some b by (simp add: ht_delete_def)
    ultimately show ?thesis using that(2) [of ?ht v] m ne by simp
  qed
qed

lemma dictGenericDelete_ok:
  assumes wf: "dict_wf hash d"
  obtains d' where "dictGenericDelete hash d k = Some (d', dict_abs d k \<noteq> None)"
    and "dict_wf hash d'" and "dict_abs d' = (dict_abs d)(k := None)"
    and "iterators d' = iterators d"
proof (cases "table (ht0 d) = []")
  case True
  have "ht_size (ht0 d) = 0"
    using True table_absent [OF ht_wfD(1) [OF dict_wfD(1) [OF wf]]] by simp
  then show ?thesis
    using that [of d] dict_empty_abs [OF wf True] wf by (simp add: dictGenericDelete_def)
next
  case False
  then have sz: "ht_size (ht0 d) \<noteq> 0"
    using table_absent [OF ht_wfD(1) [OF dict_wfD(1) [OF wf]]] by simp
  obtain e where st: "maybe_step hash d = Some e" and sc: "same_content hash d e"
    and ne: "table (ht0 e) \<noteq> []" using maybe_step_ok [OF wf] False by metis
  note s = same_contentD [OF sc wf]
  note w0 = dict_wfD(1) [OF s(1)] and w1 = dict_wfD(2) [OF s(1)]
  show ?thesis
  proof (cases rule: ht_delete_ok [OF w0 ne, of k])
    case (2 h v)
    let ?d = "e\<lparr>ht0 := h\<rparr>"
    have m: "mset (dict_list e) = add_mset (k, v) (mset (dict_list ?d))"
      using 2(3) by (simp add: dict_list_def)
    note u = map_of_delete_perm [OF m dict_wfD(3) [OF s(1)]]
    have "dict_wf hash ?d"
      using s(1) 2 u(1) by (auto simp: dict_wf_def split: if_splits)
    then show ?thesis
      using that [of ?d] st sz 2(1) s u(2,3) by (simp add: dictGenericDelete_def dict_abs_def)
  next
    case 1
    show ?thesis
    proof (cases "dictIsRehashing e")
      case False
      then have "dict_abs e k = None"
        using 1 dict_wfD(4) [OF s(1)] by (simp add: dict_abs_None dict_list_def ents_def)
      then show ?thesis
        using that [of e] st sz 1(1) s False by (simp add: dictGenericDelete_def fun_upd_idem)
    next
      case True
      then have ne1: "table (ht1 e) \<noteq> []" using dict_wfD(5) [OF s(1)] by simp
      show ?thesis
      proof (cases rule: ht_delete_ok [OF w1 ne1, of k])
        case none: 1
        then have "dict_abs e k = None" using 1 by (auto simp: dict_abs_None dict_list_def)
        then show ?thesis
          using that [of e] st sz 1(1) none(1) s True by (simp add: dictGenericDelete_def fun_upd_idem)
      next
        case (2 h v)
        let ?d = "e\<lparr>ht1 := h\<rparr>"
        have m: "mset (dict_list e) = add_mset (k, v) (mset (dict_list ?d))"
          using 2(3) by (simp add: dict_list_def)
        note u = map_of_delete_perm [OF m dict_wfD(3) [OF s(1)]]
        have "dict_wf hash ?d"
          using s(1) 2 u(1) True by (auto simp: dict_wf_def dictIsRehashing_def split: if_splits)
        then show ?thesis
          using that [of ?d] st sz 1(1) 2(1) s u(2,3) True
          by (simp add: dictGenericDelete_def dict_abs_def)
      qed
    qed
  qed
qed

lemma dictCreate_wf: "dict_wf hash dictCreate" and dictCreate_abs: "dict_abs dictCreate = Map.empty"
  by (simp_all add: dict_wf_def dictCreate_def dict_list_def dict_abs_def)
    (simp_all add: dictReset_def)

lemma dictEmpty_ok: "dict_wf hash (dictEmpty d)" "dict_abs (dictEmpty d) = Map.empty"
  by (simp_all add: dict_wf_def dictEmpty_def dict_list_def dict_abs_def)
    (simp_all add: dictReset_def)

lemma dictResize_ok:
  assumes wf: "dict_wf hash d" and u: "used (ht0 d) < 2 ^ 31"
  obtains d' where "dictResize can d = (d', can \<and> \<not> dictIsRehashing d)" and "same_content hash d d'"
proof (cases "can \<and> \<not> dictIsRehashing d")
  case False
  then show ?thesis using that [of d] same_content_refl [OF wf] by (auto simp: dictResize_def)
next
  case True
  have m: "sint (of_nat (used (ht0 d)) :: u32) = int (used (ht0 d))"
    using u by (simp add: sint_small_32 unat_of_nat)
  let ?m = "max (used (ht0 d)) DICT_HT_INITIAL_SIZE"
  have "?m \<le> 2 ^ 31" using u by (simp add: DICT_HT_INITIAL_SIZE_def)
  then obtain d' where d': "dictExpand d ?m = (d', True)" "same_content hash d d'"
    using dictExpand_ok [OF wf, of ?m] True by (metis max.cobounded1)
  have "dictResize can d = dictExpand d ?m"
    using True by (simp add: dictResize_def m max_def DICT_HT_INITIAL_SIZE_def Let_def)
  then show ?thesis using that d' True by simp
qed

section \<open>The map interface\<close>

text \<open>What the clients of a hash table rely on: lookups that may reorganise the table but keep
  the map, and updates that say whether the key was there. Updates that can add a key need room.\<close>

locale finite_map =
  fixes invar :: "'s \<Rightarrow> bool" and abs :: "'s \<Rightarrow> 'k \<rightharpoonup> 'v" and cap :: nat
    and lookup :: "'s \<Rightarrow> 'k \<Rightarrow> ('s \<times> 'v option) option"
    and add :: "'s \<Rightarrow> 'k \<Rightarrow> 'v \<Rightarrow> ('s \<times> bool) option"
    and replace :: "'s \<Rightarrow> 'k \<Rightarrow> 'v \<Rightarrow> ('s \<times> bool) option"
    and delete :: "'s \<Rightarrow> 'k \<Rightarrow> ('s \<times> bool) option"
  assumes lookup_law: "invar s \<Longrightarrow>
      \<exists>s'. lookup s k = Some (s', abs s k) \<and> invar s' \<and> abs s' = abs s"
    and add_law: "invar s \<Longrightarrow> card (dom (abs s)) < cap \<Longrightarrow>
      \<exists>s'. add s k v = Some (s', abs s k = None) \<and> invar s' \<and>
        abs s' = (if abs s k = None then (abs s)(k \<mapsto> v) else abs s)"
    and replace_law: "invar s \<Longrightarrow> card (dom (abs s)) < cap \<Longrightarrow>
      \<exists>s'. replace s k v = Some (s', abs s k = None) \<and> invar s' \<and> abs s' = (abs s)(k \<mapsto> v)"
    and delete_law: "invar s \<Longrightarrow>
      \<exists>s'. delete s k = Some (s', abs s k \<noteq> None) \<and> invar s' \<and> abs s' = (abs s)(k := None)"
    and finite_law: "invar s \<Longrightarrow> finite (dom (abs s))"

text \<open>A sequence of calls on a table, and what it does on a map.\<close>

datatype ('k, 'v) map_op = Lookup 'k | Add 'k 'v | Replace 'k 'v | Delete 'k

datatype 'v map_res = Found "'v option" | Flag bool

fun map_call ::
  "('s \<Rightarrow> 'k \<Rightarrow> ('s \<times> 'v option) option) \<Rightarrow> ('s \<Rightarrow> 'k \<Rightarrow> 'v \<Rightarrow> ('s \<times> bool) option) \<Rightarrow>
   ('s \<Rightarrow> 'k \<Rightarrow> 'v \<Rightarrow> ('s \<times> bool) option) \<Rightarrow> ('s \<Rightarrow> 'k \<Rightarrow> ('s \<times> bool) option) \<Rightarrow>
   's \<Rightarrow> ('k, 'v) map_op \<Rightarrow> ('s \<times> 'v map_res) option" where
  "map_call lk ad rp dl s (Lookup k) = map_option (\<lambda>(s, r). (s, Found r)) (lk s k)"
| "map_call lk ad rp dl s (Add k v) = map_option (\<lambda>(s, r). (s, Flag r)) (ad s k v)"
| "map_call lk ad rp dl s (Replace k v) = map_option (\<lambda>(s, r). (s, Flag r)) (rp s k v)"
| "map_call lk ad rp dl s (Delete k) = map_option (\<lambda>(s, r). (s, Flag r)) (dl s k)"

fun map_spec :: "('k \<rightharpoonup> 'v) \<Rightarrow> ('k, 'v) map_op \<Rightarrow> ('k \<rightharpoonup> 'v) \<times> 'v map_res" where
  "map_spec m (Lookup k) = (m, Found (m k))"
| "map_spec m (Add k v) = (if m k = None then m(k \<mapsto> v) else m, Flag (m k = None))"
| "map_spec m (Replace k v) = (m(k \<mapsto> v), Flag (m k = None))"
| "map_spec m (Delete k) = (m(k := None), Flag (m k \<noteq> None))"

fun run_calls :: "('s \<Rightarrow> 'o \<Rightarrow> ('s \<times> 'r) option) \<Rightarrow> 's \<Rightarrow> 'o list \<Rightarrow> ('s \<times> 'r list) option" where
  "run_calls f s [] = Some (s, [])"
| "run_calls f s (c # cs) = do {
     (s, r) \<leftarrow> f s c;
     (s, rs) \<leftarrow> run_calls f s cs;
     Some (s, r # rs) }"

fun run_spec :: "('m \<Rightarrow> 'o \<Rightarrow> 'm \<times> 'r) \<Rightarrow> 'm \<Rightarrow> 'o list \<Rightarrow> 'm \<times> 'r list" where
  "run_spec g m [] = (m, [])"
| "run_spec g m (c # cs) =
     (let (m, r) = g m c; (m, rs) = run_spec g m cs in (m, r # rs))"

lemma card_map_spec: "finite (dom m) \<Longrightarrow> card (dom (fst (map_spec m c))) \<le> Suc (card (dom m))"
  by (cases c) (auto simp: card_insert_if card_Diff_singleton_if le_SucI split: if_splits)

context finite_map
begin

lemma call_refines:
  assumes "invar s" and "card (dom (abs s)) < cap"
  shows "\<exists>s'. map_call lookup add replace delete s c = Some (s', snd (map_spec (abs s) c)) \<and>
    invar s' \<and> abs s' = fst (map_spec (abs s) c)"
proof (cases c)
  case (Lookup k)
  then show ?thesis using lookup_law [OF assms(1), of k] by auto
next
  case (Add k v)
  then show ?thesis using add_law [OF assms, of k v] by auto
next
  case (Replace k v)
  then show ?thesis using replace_law [OF assms, of k v] by auto
next
  case (Delete k)
  then show ?thesis using delete_law [OF assms(1), of k] by auto
qed

text \<open>Any sequence of calls answers as the map does, as long as there is room.\<close>

lemma run_refines:
  assumes "invar s" and "card (dom (abs s)) + length cs \<le> cap"
  shows "\<exists>s'. run_calls (map_call lookup add replace delete) s cs =
      Some (s', snd (run_spec map_spec (abs s) cs)) \<and>
    invar s' \<and> abs s' = fst (run_spec map_spec (abs s) cs)"
  using assms
proof (induction cs arbitrary: s)
  case (Cons c cs)
  obtain s1 where s1: "map_call lookup add replace delete s c = Some (s1, snd (map_spec (abs s) c))"
    "invar s1" "abs s1 = fst (map_spec (abs s) c)"
    using call_refines [OF Cons.prems(1), of c] Cons.prems(2) by auto
  have "card (dom (abs s1)) + length cs \<le> cap"
    using card_map_spec [OF finite_law [OF Cons.prems(1)], of c] Cons.prems(2) s1(3) by simp
  from Cons.IH [OF s1(2) this] s1 show ?case
    by (auto simp: case_prod_beta split_beta Let_def)
qed simp

end

interpretation dict_map: finite_map "dict_wf hash" dict_abs "2 ^ 30" "dictFetchValue hash"
  "dictAdd hash can junk" "dictReplace hash can junk" "dictDelete hash"
  for hash :: "'k \<Rightarrow> u32" and can :: bool and junk :: 'v
proof unfold_locales
  fix d :: "('k, 'v) dict" and k v
  assume wf: "dict_wf hash d"
  show "\<exists>d'. dictFetchValue hash d k = Some (d', dict_abs d k) \<and> dict_wf hash d' \<and> dict_abs d' = dict_abs d"
    using dictFetchValue_ok [OF wf, of k] same_contentD [OF _ wf] by metis
  show "\<exists>d'. dictDelete hash d k = Some (d', dict_abs d k \<noteq> None) \<and> dict_wf hash d' \<and>
      dict_abs d' = (dict_abs d)(k := None)"
    using dictGenericDelete_ok [OF wf, of k] unfolding dictDelete_def by metis
  show "finite (dom (dict_abs d))" by (simp add: dict_abs_def finite_dom_map_of)
  assume "card (dom (dict_abs d)) < 2 ^ 30"
  then have cap: "dictSize d < 2 ^ 30" by (simp add: dictSize_card [OF wf])
  show "\<exists>d'. dictAdd hash can junk d k v = Some (d', dict_abs d k = None) \<and> dict_wf hash d' \<and>
      dict_abs d' = (if dict_abs d k = None then (dict_abs d)(k \<mapsto> v) else dict_abs d)"
    using dictAdd_ok [OF wf cap, of can junk k v] by metis
  show "\<exists>d'. dictReplace hash can junk d k v = Some (d', dict_abs d k = None) \<and> dict_wf hash d' \<and>
      dict_abs d' = (dict_abs d)(k \<mapsto> v)"
    using dictReplace_ok [OF wf cap, of can junk k v] by metis
qed

section \<open>Properties\<close>

text \<open>C2: any sequence of lookups, additions, replacements and removals on a hash table, in
  whatever phase of its incremental rehashing and whatever the hash function, gives the answers
  of a finite map, never reads outside a table, and leaves a well-formed table, as long as the entries
  and the calls are at most \<open>2 ^ 30\<close> together.\<close>

theorem dict_run_refines:
  assumes "dict_wf hash d" and "dictSize d + length cs \<le> 2 ^ 30"
  shows "\<exists>d'. run_calls (map_call (dictFetchValue hash) (dictAdd hash can junk)
        (dictReplace hash can junk) (dictDelete hash)) d cs =
      Some (d', snd (run_spec map_spec (dict_abs d) cs)) \<and>
    dict_wf hash d' \<and> dict_abs d' = fst (run_spec map_spec (dict_abs d) cs)"
  using dict_map.run_refines [OF assms(1), of cs can junk] assms(2) dictSize_card [OF assms(1)]
  by simp

text \<open>A table of four buckets at the start of its rehash to eight.\<close>

definition growing_table :: "(nat, nat) dict" where
  "growing_table = \<lparr>ht0 = \<lparr>table = [[(4, 40), (8, 80)], [], [(2, 20)], []], ht_size = 4, sizemask = 3, used = 3\<rparr>,
     ht1 = \<lparr>table = replicate 8 [], ht_size = 8, sizemask = 7, used = 0\<rparr>, rehashidx = 0, iterators = 0\<rparr>"

lemma growing_table_wf: "dict_wf of_nat growing_table"
proof -
  have m: "\<exists>m::nat. 2 \<le> m \<and> m \<le> 31 \<and> (4::nat) = 2 ^ m \<and> (3::nat) = 2 ^ m - 1" "\<exists>m::nat. 2 \<le> m \<and> m \<le> 31 \<and> (8::nat) = 2 ^ m \<and> (7::nat) = 2 ^ m - 1"
    by (rule exI [of _ 2], simp) (rule exI [of _ 3], simp)
  have i: "ht_index of_nat (ht0 growing_table) 4 = 0" "ht_index of_nat (ht0 growing_table) 8 = 0" "ht_index of_nat (ht0 growing_table) 2 = 2"
    by code_simp+
  have "ht_wf of_nat (ht0 growing_table)" using m(1) i
    by (auto simp: ht_wf_def ht_shape_def ht_placed_def ents_def growing_table_def less_Suc_eq numeral_eq_Suc)
  moreover have "ht_wf of_nat (ht1 growing_table)" using m(2)
    by (auto simp: ht_wf_def ht_shape_def ht_placed_def ents_def growing_table_def)
  ultimately show ?thesis by (simp add: dict_wf_def) (simp add: growing_table_def dict_list_def ents_def)
qed

lemma growing_table_abs: "dict_abs growing_table = [4 \<mapsto> 40, 8 \<mapsto> 80, 2 \<mapsto> 20]" "dictSize growing_table = 3"
  "dictIsRehashing growing_table"
  by (simp_all add: dict_abs_def dict_list_def ents_def growing_table_def dictSize_def dictIsRehashing_def fun_upd_twist)

theorem dict_run_refines_witness:
  "\<exists>d'. run_calls (map_call (dictFetchValue of_nat) (dictAdd of_nat True 0)
        (dictReplace of_nat True 0) (dictDelete of_nat)) growing_table
        [Add 1 10, Add 1 20, Replace 2 30, Lookup 8, Delete 1, Lookup 1] =
      Some (d', [Flag True, Flag False, Flag False, Found (Some 80), Flag True, Found None]) \<and>
    dict_wf of_nat d' \<and> dict_abs d' = [4 \<mapsto> 40, 8 \<mapsto> 80, 2 \<mapsto> 30]"
  using dict_run_refines [OF growing_table_wf, of
      "[Add 1 10, Add 1 20, Replace 2 30, Lookup 8, Delete 1, Lookup 1]" True 0]
  by (simp add: growing_table_abs)

text \<open>C30: \<open>dictRehash\<close> with any number of steps succeeds, keeps the map, and finishes the
  rehash (returns 0) when the steps exceed the buckets that are left.\<close>

theorem dictRehash_completes:
  assumes "dict_wf hash d"
  shows "\<exists>d' b. dictRehash hash d n = Some (d', b) \<and> dict_wf hash d' \<and> dict_abs d' = dict_abs d \<and>
    (b \<longleftrightarrow> dictIsRehashing d') \<and> (int (ht_size (ht0 d)) - rehashidx d < int n \<longrightarrow> \<not> dictIsRehashing d')"
proof -
  obtain d' b where "dictRehash hash d n = Some (d', b)" and "same_content hash d d'"
    and "b \<longleftrightarrow> dictIsRehashing d'" and "int (ht_size (ht0 d)) - rehashidx d < int n \<longrightarrow> \<not> b"
    by (rule dictRehash_ok [OF assms, of n]) blast
  then show ?thesis using same_contentD(1,2) [OF _ assms] by blast
qed

theorem dictRehash_completes_witness:
  "dictIsRehashing growing_table \<and> (\<exists>d'. dictRehash of_nat growing_table 5 = Some (d', False) \<and>
     \<not> dictIsRehashing d' \<and> dict_abs d' 8 = Some 80)"
proof -
  have "int (ht_size (ht0 growing_table)) - rehashidx growing_table < int 5" by (simp add: growing_table_def)
  then show ?thesis using dictRehash_completes [OF growing_table_wf, of 5] growing_table_abs by auto
qed

end
