(* ===== verification/Dict_Scan.thy ===== *)
theory Dict_Scan
  imports Dict
begin

text \<open>
  Redis dict.c, \<open>dictScan\<close>: the stateless iteration over a hash table that may be resized
  between the calls. The cursor is a 64 bit word, incremented from its high bits down; the
  callback is the list of the entries it is called on.

  The invariant of a scan is stated on reversed cursors read as numbers: a call on a table of
  \<open>2 ^ n\<close> buckets emits every entry whose reversed hash lies in the cursor's block of
  \<open>2 ^ (64 - n)\<close> numbers, and returns the start of the next block. So an entry that stays
  in the table is emitted before the cursor is back at 0, for tables of any sizes at rest, and
  for a rehash whose calls find the cursor aligned with the smaller table. The last section
  shows that without the alignment an entry can be missed.
\<close>

unbundle bit_operations_syntax

section \<open>The code\<close>

text \<open>The loop of \<open>rev\<close>, with the shift \<open>s\<close>, the mask and the value.\<close>

function rev_loop :: "nat \<Rightarrow> u64 \<Rightarrow> u64 \<Rightarrow> u64" where
  "rev_loop s msk v =
     (if s div 2 > 0
      then let s' = s div 2; msk' = msk XOR push_bit s' msk
           in rev_loop s' msk' ((drop_bit s' v AND msk') OR (push_bit s' v AND NOT msk'))
      else v)"
  by pat_completeness auto
termination
  by (relation "measure (\<lambda>(s, msk, v). s)") auto

definition dict_rev :: "u64 \<Rightarrow> u64" where
  "dict_rev v = rev_loop 64 (NOT 0) v"

definition ht_mask :: "('k, 'v) dictht \<Rightarrow> u64" where
  "ht_mask ht = of_nat (sizemask ht)"

text \<open>The loop over the expansions of the cursor in the larger table.\<close>

definition expand_next :: "u64 \<Rightarrow> u64 \<Rightarrow> u64" where
  "expand_next m0 v = (((v OR m0) + 1) AND NOT m0) OR (v AND m0)"

partial_function (option) scan_expand ::
  "('k, 'v) dictht \<Rightarrow> u64 \<Rightarrow> u64 \<Rightarrow> u64 \<Rightarrow> ('k \<times> 'v) list \<Rightarrow> (('k \<times> 'v) list \<times> u64) option" where
  "scan_expand t1 m0 m1 v out =
     (case bucket t1 (unat (v AND m1)) of None \<Rightarrow> None
      | Some c \<Rightarrow>
        if expand_next m0 v AND (m0 XOR m1) \<noteq> 0
        then scan_expand t1 m0 m1 (expand_next m0 v) (out @ c)
        else Some (out @ c, expand_next m0 v))"

text \<open>Setting the unmasked bits and incrementing the reversed cursor.\<close>

definition scan_next :: "u64 \<Rightarrow> u64 \<Rightarrow> u64" where
  "scan_next m0 v = dict_rev (dict_rev (v OR NOT m0) + 1)"

definition dictScan :: "('k, 'v) dict \<Rightarrow> u64 \<Rightarrow> (('k \<times> 'v) list \<times> u64) option" where
  "dictScan d v =
     (if dictSize d = 0 then Some ([], 0)
      else if \<not> dictIsRehashing d then do {
        let m0 = ht_mask (ht0 d);
        out \<leftarrow> bucket (ht0 d) (unat (v AND m0));
        Some (out, scan_next m0 v) }
      else do {
        let (t0, t1) = (if ht_size (ht0 d) > ht_size (ht1 d) then (ht1 d, ht0 d) else (ht0 d, ht1 d));
        let m0 = ht_mask t0;
        let m1 = ht_mask t1;
        c \<leftarrow> bucket t0 (unat (v AND m0));
        (out, v) \<leftarrow> scan_expand t1 m0 m1 v c;
        Some (out, scan_next m0 v) })"

text \<open>A whole iteration: one call per state of the table, from the cursor the last one
  returned.\<close>

fun scan_run :: "('k, 'v) dict list \<Rightarrow> u64 \<Rightarrow> (('k \<times> 'v) list \<times> u64) option" where
  "scan_run [] v = Some ([], v)"
| "scan_run (d # ds) v = do {
     (out, v) \<leftarrow> dictScan d v;
     (outs, v) \<leftarrow> scan_run ds v;
     Some (out @ outs, v) }"

section \<open>The bit trick is a reversal\<close>

declare rev_loop.simps [simp del]

definition rev_step :: "nat \<Rightarrow> u64 \<Rightarrow> u64 \<Rightarrow> u64" where
  "rev_step s m v = (drop_bit s v AND m) OR (push_bit s v AND NOT m)"

text \<open>A mask that selects every other group of \<open>s\<close> bits, and the exchange of two neighbouring
  groups.\<close>

definition alt_mask :: "nat \<Rightarrow> u64 \<Rightarrow> bool" where
  "alt_mask s m \<longleftrightarrow> (\<forall>i < 64. bit m i \<longleftrightarrow> even (i div s))"

definition swap_group :: "nat \<Rightarrow> nat \<Rightarrow> nat" where
  "swap_group s i = (if even (i div s) then i + s else i - s)"

definition mirror :: "nat \<Rightarrow> nat \<Rightarrow> nat" where
  "mirror n i = (i div n) * n + (n - 1 - i mod n)"

lemma rev_loop_step:
  "0 < s \<Longrightarrow> rev_loop (2 * s) msk v =
    rev_loop s (msk XOR push_bit s msk) (rev_step s (msk XOR push_bit s msk) v)"
  by (subst rev_loop.simps) (simp add: Let_def rev_step_def)

lemma bit_rev_step:
  "bit (rev_step s m v) i \<longleftrightarrow> i < 64 \<and> (if bit m i then bit v (i + s) else s \<le> i \<and> bit v (i - s))"
  by (auto simp: rev_step_def bit_simps ac_simps dest: bit_imp_le_length)

lemma div_minus_step: "0 < s \<Longrightarrow> (i - s) div s = i div s - (1::nat)"
  by (cases "s \<le> i") (simp_all add: le_div_geq)

lemma alt_mask_step:
  assumes "alt_mask (2 * s) m" and "s > 0"
  shows "alt_mask s (m XOR push_bit s m)"
  unfolding alt_mask_def
proof (intro allI impI)
  fix i :: nat
  assume i: "i < 64"
  define q where "q = i div s"
  have e: "s \<le> i \<longleftrightarrow> q > 0" using assms(2) by (simp add: q_def div_greater_zero_iff)
  have m: "bit m j \<longleftrightarrow> even (j div s div 2)" if "j < 64" for j
    using assms(1) that by (simp add: alt_mask_def div_mult2_eq [symmetric] mult.commute)
  have "bit (m XOR push_bit s m) i \<longleftrightarrow> even (q div 2) \<noteq> (q > 0 \<and> even ((q - 1) div 2))"
    using i e m [of i] m [of "i - s"] div_minus_step [OF assms(2), of i]
    by (simp add: bit_simps q_def)
  then show "bit (m XOR push_bit s m) i \<longleftrightarrow> even (i div s)"
    unfolding q_def [symmetric] by presburger
qed

lemma mirror_div:
  assumes "0 < n"
  shows "mirror n i div n = i div n"
proof -
  have "i mod n < n" using assms by simp
  then have "(n - 1 - i mod n) div n = 0" by simp
  then show ?thesis using assms by (simp add: mirror_def)
qed

lemma swap_group_mirror:
  assumes "0 < n"
  shows "swap_group n (mirror n i) = mirror (2 * n) i"
proof -
  define q where "q = i div n"
  define r where "r = i mod n"
  have r: "r < n" using assms by (simp add: r_def)
  have q2: "i div (2 * n) = q div 2" by (simp add: q_def div_mult2_eq mult.commute)
  have r2: "i mod (2 * n) = (q mod 2) * n + r"
    unfolding q_def r_def using mod_mult2_eq [of i n 2] by (simp add: mult.commute)
  have m: "mirror n i = q * n + (n - 1 - r)" by (simp add: mirror_def flip: q_def r_def)
  have m2: "mirror (2 * n) i = q div 2 * (2 * n) + (2 * n - 1 - (q mod 2 * n + r))"
    by (simp add: mirror_def q2 r2)
  have d: "mirror n i div n = q" using mirror_div [OF assms, of i] by (simp add: q_def)
  show ?thesis
  proof (cases "even q")
    case True
    then obtain j where q: "q = 2 * j" by (rule evenE)
    then have "q div 2 = j" "q mod 2 = 0" by simp_all
    then show ?thesis using q r m2 d by (simp add: m swap_group_def algebra_simps)
  next
    case False
    then obtain j where q: "q = 2 * j + 1" by (rule oddE)
    then have "q div 2 = j" "q mod 2 = 1" by presburger+
    then show ?thesis using q r m2 d by (simp add: m swap_group_def algebra_simps)
  qed
qed

lemma mirror_less:
  assumes "i < 64" and "n * k = 64"
  shows "mirror n i < 64"
proof -
  have n: "0 < n" using assms(2) by (cases n) auto
  have "i div n < k" using assms n by (metis less_mult_imp_div_less mult.commute)
  then have "(i div n + 1) * n \<le> k * n" by (intro mult_le_mono) auto
  moreover have "mirror n i < (i div n + 1) * n" using n by (simp add: mirror_def)
  ultimately show ?thesis using assms(2) by (simp add: mult.commute)
qed

lemma bit_rev_loop:
  assumes "alt_mask (2 ^ k) m" and "k \<le> 6" and "i < 64"
  shows "bit (rev_loop (2 ^ k) m v) i = bit v (mirror (2 ^ k) i)"
  using assms
proof (induction k arbitrary: m v)
  case 0
  then show ?case by (subst rev_loop.simps) (simp add: mirror_def)
next
  case (Suc k)
  let ?m = "m XOR push_bit (2 ^ k) m"
  have alt: "alt_mask (2 ^ k) ?m" using Suc.prems(1) by (intro alt_mask_step) simp_all
  have "(2::nat) ^ k * 2 ^ (6 - k) = 64"
    using Suc.prems(2) by (simp flip: power_add)
  then have less: "mirror (2 ^ k) i < 64" using Suc.prems(3) mirror_less by blast
  have odd_le: "2 ^ k \<le> x" if "odd (x div 2 ^ k)" for x :: nat
    using that by (cases "x < 2 ^ k") (simp_all add: not_less)
  have "bit (rev_loop (2 ^ Suc k) m v) i = bit (rev_step (2 ^ k) ?m v) (mirror (2 ^ k) i)"
    using Suc.IH [OF alt _ Suc.prems(3)] Suc.prems(2) rev_loop_step [of "2 ^ k" m v] by simp
  also have "\<dots> = bit v (swap_group (2 ^ k) (mirror (2 ^ k) i))"
    using less alt by (auto simp: bit_rev_step alt_mask_def swap_group_def dest: odd_le)
  finally show ?case by (simp add: swap_group_mirror)
qed

lemma dict_rev_reverses: "dict_rev v = word_reverse v"
proof (rule bit_word_eqI)
  fix i
  assume "i < LENGTH(64)"
  then have i: "i < 64" by simp
  have "alt_mask (2 ^ 6) (NOT 0)" by (simp add: alt_mask_def bit_simps)
  then have "bit (rev_loop (2 ^ 6) (NOT 0) v) i = bit v (mirror (2 ^ 6) i)"
    using bit_rev_loop i by blast
  then show "bit (dict_rev v) i = bit (word_reverse v) i"
    using i by (simp add: dict_rev_def mirror_def bit_word_reverse_iff)
qed

section \<open>Positions of cursors and of hashes\<close>

text \<open>The place of a cursor, or of a hash, in the order of the scan.\<close>

definition pos :: "u64 \<Rightarrow> nat" where
  "pos v = unat (word_reverse v)"

lemma pos_0 [simp]: "pos 0 = 0"
proof -
  have "word_reverse (0 :: u64) = 0" by (rule bit_word_eqI) (simp add: bit_word_reverse_iff)
  then show ?thesis by (simp add: pos_def)
qed

lemma pos_eq_0: "pos v = 0 \<longleftrightarrow> v = 0"
proof
  assume "pos v = 0"
  then have "word_reverse v = 0" by (simp add: pos_def word_unat_eq_iff)
  then have "word_reverse (word_reverse v) = word_reverse 0" by simp
  then show "v = 0" using pos_0 by (simp add: pos_def word_unat_eq_iff)
qed simp

lemma take_bit_word_eq_iff:
  "n \<le> 64 \<Longrightarrow> take_bit n (v :: u64) = take_bit n w \<longleftrightarrow> (\<forall>i < n. bit v i = bit w i)"
  by (simp add: bit_eq_iff bit_simps) (meson less_le_trans)

lemma unat_drop_bit: "unat (drop_bit k (w :: u64)) = unat w div 2 ^ k"
  by (simp only: unat_drop_bit_eq) (simp add: drop_bit_eq_div)

lemma unat_take_bit: "unat (take_bit k (w :: u64)) = unat w mod 2 ^ k"
  by (simp add: unsigned_take_bit_eq take_bit_eq_mod del: take_bit_eq_mod) (simp add: take_bit_eq_mod)

lemma drop_bit_reverse_eq_iff:
  assumes "n \<le> 64"
  shows "drop_bit (64 - n) (word_reverse (v :: u64)) = drop_bit (64 - n) (word_reverse w) \<longleftrightarrow>
    (\<forall>i < n. bit v i = bit w i)"
proof
  assume e: "drop_bit (64 - n) (word_reverse v) = drop_bit (64 - n) (word_reverse w)"
  show "\<forall>i < n. bit v i = bit w i"
  proof (intro allI impI)
    fix i
    assume "i < n"
    then have "bit (drop_bit (64 - n) (word_reverse x)) (n - 1 - i) = bit x i" for x :: u64
      using assms less_imp_diff_less [of 63 64 i] by (simp add: bit_drop_bit_eq bit_word_reverse_iff)
    then show "bit v i = bit w i" using e by metis
  qed
next
  assume e: "\<forall>i < n. bit v i = bit w i"
  show "drop_bit (64 - n) (word_reverse v) = drop_bit (64 - n) (word_reverse w)"
  proof (rule bit_word_eqI)
    fix i
    assume "i < LENGTH(64)"
    then show "bit (drop_bit (64 - n) (word_reverse v)) i = bit (drop_bit (64 - n) (word_reverse w)) i"
      using assms e bit_imp_le_length [of "word_reverse v" "64 - n + i"]
        bit_imp_le_length [of "word_reverse w" "64 - n + i"]
      by (cases "i < n") (auto simp: bit_drop_bit_eq bit_word_reverse_iff)
  qed
qed

lemma same_block:
  assumes "n \<le> 64"
  shows "unat v mod 2 ^ n = unat w mod 2 ^ n \<longleftrightarrow> pos v div 2 ^ (64 - n) = pos w div 2 ^ (64 - n)"
proof -
  have "unat v mod 2 ^ n = unat w mod 2 ^ n \<longleftrightarrow> take_bit n v = take_bit n w"
    by (simp add: word_unat_eq_iff unat_take_bit)
  moreover have "pos v div 2 ^ (64 - n) = pos w div 2 ^ (64 - n) \<longleftrightarrow>
      drop_bit (64 - n) (word_reverse v) = drop_bit (64 - n) (word_reverse w)"
    by (simp add: pos_def word_unat_eq_iff unat_drop_bit)
  ultimately show ?thesis
    using take_bit_word_eq_iff [OF assms, of v w] drop_bit_reverse_eq_iff [OF assms, of v w] by blast
qed

lemma unat_and_mask: "unat ((v :: u64) AND mask n) = unat v mod 2 ^ n"
  by (simp only: unat_take_bit flip: take_bit_eq_mask)

text \<open>The next cursor is the start of the next block.\<close>

lemma pos_scan_next:
  assumes "n \<le> 64"
  shows "pos (scan_next (mask n) v) = (pos v div 2 ^ (64 - n) + 1) * 2 ^ (64 - n) mod 2 ^ 64"
proof -
  have rev: "word_reverse (v OR NOT (mask n)) = word_reverse v OR mask (64 - n)"
    using assms by (intro bit_word_eqI) (auto simp: bit_word_reverse_iff bit_simps)
  have "word_reverse v OR mask (64 - n) =
      push_bit (64 - n) (drop_bit (64 - n) (word_reverse v)) OR mask (64 - n)"
    by (intro bit_word_eqI) (auto simp: bit_simps)
  also have "\<dots> = push_bit (64 - n) (drop_bit (64 - n) (word_reverse v)) + mask (64 - n)"
    by (intro disjunctive_add [symmetric]) (auto simp: bit_simps)
  finally have "(word_reverse v OR mask (64 - n)) + 1 =
      push_bit (64 - n) (drop_bit (64 - n) (word_reverse v)) + 2 ^ (64 - n)"
    by (simp add: mask_eq_exp_minus_1)
  then have "pos (scan_next (mask n) v) =
      unat (push_bit (64 - n) (drop_bit (64 - n) (word_reverse v)) + 2 ^ (64 - n))"
    by (simp add: pos_def scan_next_def dict_rev_reverses rev)
  also have "push_bit (64 - n) (drop_bit (64 - n) (word_reverse v)) + 2 ^ (64 - n) =
      of_nat ((pos v div 2 ^ (64 - n) + 1) * 2 ^ (64 - n))"
    by (simp add: pos_def push_bit_eq_mult algebra_simps flip: unat_drop_bit)
  finally show ?thesis by (simp only: unat_of_nat) simp
qed

section \<open>The expansions of a cursor\<close>

lemma expand_next_add: "n < 64 \<Longrightarrow> expand_next (mask n) v = v + 2 ^ n"
proof -
  let ?h = "v AND NOT (mask n)" and ?a = "v AND mask n"
  have v: "v = ?h + ?a"
    by (subst disjunctive_add) (auto simp: bit_simps intro!: bit_word_eqI)
  have "v OR mask n = ?h + mask n"
    by (subst disjunctive_add) (auto simp: bit_simps intro!: bit_word_eqI)
  then have "(v OR mask n) + 1 = ?h + 2 ^ n" by (simp add: mask_eq_exp_minus_1)
  moreover have low: "take_bit n (?h + 2 ^ n) = 0"
  proof -
    have "?h = push_bit n (drop_bit n v)" by (intro bit_word_eqI) (auto simp: bit_simps)
    then have "?h + 2 ^ n = push_bit n (drop_bit n v + 1)" by (simp add: push_bit_eq_mult algebra_simps)
    then show ?thesis by (simp add: bit_eq_iff bit_simps)
  qed
  moreover have "x AND NOT (mask n) = x" if "take_bit n x = 0" for x :: u64
    using that by (intro bit_word_eqI) (auto simp: bit_eq_iff bit_simps)
  ultimately have "expand_next (mask n) v = (?h + 2 ^ n) OR ?a" by (simp add: expand_next_def)
  moreover have "(?h + 2 ^ n) OR ?a = (?h + 2 ^ n) + ?a"
  proof (rule disjunctive_add [symmetric])
    fix i
    have "\<not> bit (?h + 2 ^ n) i" if "i < n"
      using low that bit_take_bit_iff [of n "?h + 2 ^ n" i] by simp
    then show "\<not> bit (?h + 2 ^ n) i \<or> \<not> bit ?a i" by (auto simp: bit_simps)
  qed
  ultimately have "expand_next (mask n) v = (?h + ?a) + 2 ^ n" by (simp only: ac_simps)
  also have "?h + ?a = v" by (rule v [symmetric])
  finally show ?thesis .
qed

lemma and_xor_masks:
  assumes "n0 \<le> n1" and "n1 \<le> 64"
  shows "(v :: u64) AND (mask n0 XOR mask n1) = 0 \<longleftrightarrow> unat v mod 2 ^ n1 = unat v mod 2 ^ n0"
proof -
  have "v AND (mask n0 XOR mask n1) = 0 \<longleftrightarrow> take_bit n1 v = take_bit n0 v"
    using assms by (auto simp: bit_eq_iff bit_simps)
  then show ?thesis by (simp add: word_unat_eq_iff unat_take_bit)
qed


lemma expand_index:
  assumes n: "n0 \<le> n1" "n1 < 64" and v: "unat v mod 2 ^ n1 = a + x * 2 ^ n0" "a < 2 ^ n0"
  shows "unat (expand_next (mask n0) v) mod 2 ^ n1 = a + (x + 1) mod 2 ^ (n1 - n0) * 2 ^ n0"
proof -
  have "unat (v + 2 ^ n0) mod 2 ^ n1 = (unat v + 2 ^ n0) mod 2 ^ n1"
  proof -
    have "unat (v + 2 ^ n0) = (unat v + 2 ^ n0) mod 2 ^ 64"
      using unat_of_nat [of "unat v + 2 ^ n0", where 'a = 64] by simp
    moreover have "(2::nat) ^ n1 dvd 2 ^ 64" using n by (intro le_imp_power_dvd) simp
    ultimately show ?thesis by (metis mod_mod_cancel)
  qed
  also have "\<dots> = (unat v mod 2 ^ n1 + 2 ^ n0) mod 2 ^ n1" by (simp add: mod_simps)
  also have "\<dots> = (a + (x + 1) * 2 ^ n0) mod (2 ^ n0 * 2 ^ (n1 - n0))"
    using v n by (simp add: algebra_simps flip: power_add)
  also have "\<dots> = a + (x + 1) mod 2 ^ (n1 - n0) * 2 ^ n0"
    using v(2) by (simp only: mod_mult2_eq mod_mult_self1 mod_less div_mult_self1 power_not_zero
        zero_neq_numeral not_False_eq_True div_less add_0_right add_0_left add.commute mult.commute)
  finally show ?thesis using expand_next_add [of n0 v] n by simp
qed

text \<open>The loop reads the larger table at the indices \<open>a + x * 2 ^ n0\<close> for all \<open>x\<close> from the
  cursor's own to the last, and stops with the cursor's low bits as they were.\<close>

lemma scan_expand_ok:
  assumes len: "length (table t1) = 2 ^ n1" and n: "n0 \<le> n1" "n1 < 64"
    and v: "unat v mod 2 ^ n1 = a + x * 2 ^ n0" "a < 2 ^ n0" and x: "x + k + 1 = 2 ^ (n1 - n0)"
  shows "\<exists>v'. scan_expand t1 (mask n0) (mask n1) v out =
      Some (out @ concat (map (\<lambda>y. table t1 ! (a + y * 2 ^ n0)) [x..<2 ^ (n1 - n0)]), v') \<and>
    unat v' mod 2 ^ n0 = a"
  using v(1) x
proof (induction k arbitrary: v x out)
  case (Suc k)
  have i: "bucket t1 (unat (v AND mask n1)) = Some (table t1 ! (a + x * 2 ^ n0))"
    using len Suc.prems(1) by (simp add: bucket_def unat_and_mask flip: Suc.prems(1))
  have step: "unat (expand_next (mask n0) v) mod 2 ^ n1 = a + (x + 1) * 2 ^ n0"
    using expand_index [OF n Suc.prems(1) v(2)] Suc.prems(2) by simp
  moreover have "(a + (x + 1) * 2 ^ n0) mod 2 ^ n0 = a"
    using v(2) by (simp only: mod_mult_self1 mod_less)
  ultimately have more: "expand_next (mask n0) v AND (mask n0 XOR mask n1) \<noteq> 0"
    using and_xor_masks [of n0 n1] n v(2) mod_mod_cancel [of "2 ^ n0" "2 ^ n1" "unat (expand_next (mask n0) v)"]
    by (metis add_left_imp_eq add_0_right le_imp_power_dvd less_or_eq_imp_le mult_is_0 nat.distinct(1)
        power_not_zero zero_neq_numeral Suc_eq_plus1)
  have "x < 2 ^ (n1 - n0)" using Suc.prems(2) by simp
  then show ?case
    using Suc.IH [OF step, of "out @ table t1 ! (a + x * 2 ^ n0)"] Suc.prems(2) i more
    by (subst scan_expand.simps) (simp add: upt_conv_Cons [of x])
next
  case 0
  have i: "bucket t1 (unat (v AND mask n1)) = Some (table t1 ! (a + x * 2 ^ n0))"
    using len "0.prems"(1) by (simp add: bucket_def unat_and_mask flip: "0.prems"(1))
  have "unat (expand_next (mask n0) v) mod 2 ^ n1 = a"
    using expand_index [OF n "0.prems"(1) v(2)] "0.prems"(2) by simp
  then have "unat (expand_next (mask n0) v) mod 2 ^ n0 = a"
    and "expand_next (mask n0) v AND (mask n0 XOR mask n1) = 0"
    using and_xor_masks [of n0 n1] n v(2) mod_mod_cancel [of "2 ^ n0" "2 ^ n1" "unat (expand_next (mask n0) v)"]
    by (simp_all add: le_imp_power_dvd)
  moreover have "[x..<2 ^ (n1 - n0)] = [x]" using "0.prems"(2) by (simp flip: "0.prems"(2))
  ultimately show ?case using i by (subst scan_expand.simps) simp
qed

section \<open>One call\<close>

text \<open>The smaller table of a call, and the condition on the cursor under which the call is
  complete.\<close>

definition scan_size :: "('k, 'v) dict \<Rightarrow> nat" where
  "scan_size d =
     (if dictIsRehashing d then min (ht_size (ht0 d)) (ht_size (ht1 d)) else ht_size (ht0 d))"

definition scan_aligned :: "('k, 'v) dict \<Rightarrow> u64 \<Rightarrow> bool" where
  "scan_aligned d v \<longleftrightarrow>
     (dictIsRehashing d \<longrightarrow> v AND (ht_mask (ht0 d) XOR ht_mask (ht1 d)) = 0)"

definition hash_cursor :: "'k hash_fn \<Rightarrow> 'k \<Rightarrow> u64" where
  "hash_cursor hash k = ucast (hash k)"

lemma ht_index_cursor:
  "sizemask ht = 2 ^ n - 1 \<Longrightarrow> ht_index hash ht k = unat (hash_cursor hash k) mod 2 ^ n"
  using unat_less_numeral(3) [of "hash k"]
  by (simp add: ht_index_def hash_cursor_def unat_ucast and_mask_mod del: One_nat_def)

lemma ht_mask_mask: "sizemask ht = 2 ^ n - 1 \<Longrightarrow> ht_mask ht = mask n"
  by (simp add: ht_mask_def mask_eq_exp_minus_1 of_nat_diff)

lemma bucket_cursor:
  assumes "length (table ht) = 2 ^ n" and "sizemask ht = 2 ^ n - 1"
  shows "bucket ht (unat (v AND ht_mask ht)) = Some (table ht ! (unat v mod 2 ^ n))"
  using assms by (simp add: bucket_def ht_mask_mask unat_and_mask)

lemma key_in_table:
  assumes "ht_wf hash ht" and "sizemask ht = 2 ^ n - 1" and "k \<in> fst ` set (ents ht)"
  shows "k \<in> fst ` set (table ht ! (unat (hash_cursor hash k) mod 2 ^ n))"
  using key_in_bucket [OF assms(1,3)] by (simp add: ht_index_cursor [OF assms(2)])

text \<open>The expansions of an aligned cursor cover the larger table's part of the block.\<close>

lemma scan_expand_complete:
  assumes w1: "ht_wf hash t1" and l1: "length (table t1) = 2 ^ n1" "sizemask t1 = 2 ^ n1 - 1"
    and n: "n0 \<le> n1" "n1 \<le> 31"
  shows "\<exists>out' v'. scan_expand t1 (mask n0) (mask n1) v out = Some (out @ out', v') \<and>
    unat v' mod 2 ^ n0 = unat v mod 2 ^ n0 \<and>
    (v AND (mask n0 XOR mask n1) = 0 \<longrightarrow> (\<forall>k \<in> fst ` set (ents t1).
      unat (hash_cursor hash k) mod 2 ^ n0 = unat v mod 2 ^ n0 \<longrightarrow> k \<in> fst ` set out'))"
proof -
  define a where "a = unat v mod 2 ^ n0"
  define x where "x = unat v mod 2 ^ n1 div 2 ^ n0"
  have pw: "(2::nat) ^ n1 = 2 ^ n0 * 2 ^ (n1 - n0)" using n by (simp flip: power_add)
  have split: "i mod 2 ^ n1 = i mod 2 ^ n0 + i mod 2 ^ n1 div 2 ^ n0 * 2 ^ n0" for i :: nat
    using n by (metis add.commute div_mult_mod_eq le_imp_power_dvd mod_mod_cancel)
  have lt: "i mod 2 ^ n1 div 2 ^ n0 < 2 ^ (n1 - n0)" for i :: nat
    by (rule less_mult_imp_div_less) (simp add: pw mult.commute)
  have v: "unat v mod 2 ^ n1 = a + x * 2 ^ n0" and "a < 2 ^ n0"
    unfolding a_def x_def using split by simp_all
  obtain j where j: "x + j + 1 = 2 ^ (n1 - n0)"
    using lt [of "unat v"] less_iff_Suc_add [of x "2 ^ (n1 - n0)"] by (auto simp: x_def)
  obtain v' where ok: "scan_expand t1 (mask n0) (mask n1) v out =
      Some (out @ concat (map (\<lambda>y. table t1 ! (a + y * 2 ^ n0)) [x..<2 ^ (n1 - n0)]), v')"
    "unat v' mod 2 ^ n0 = a"
    using scan_expand_ok [OF l1(1) n(1) _ v \<open>a < 2 ^ n0\<close> j] n(2) by force
  have "k \<in> fst ` set (concat (map (\<lambda>y. table t1 ! (a + y * 2 ^ n0)) [x..<2 ^ (n1 - n0)]))"
    if "v AND (mask n0 XOR mask n1) = 0" and k: "k \<in> fst ` set (ents t1)"
      and h: "unat (hash_cursor hash k) mod 2 ^ n0 = unat v mod 2 ^ n0" for k
  proof -
    have "x = 0" using that(1) and_xor_masks [OF n(1), of v] n(2) by (simp add: x_def)
    moreover have "k \<in> fst ` set (table t1 ! (a +
        unat (hash_cursor hash k) mod 2 ^ n1 div 2 ^ n0 * 2 ^ n0))"
      using key_in_table [OF w1 l1(2) k] split [of "unat (hash_cursor hash k)"] h
      by (simp add: a_def)
    ultimately show ?thesis using lt [of "unat (hash_cursor hash k)"] by force
  qed
  then show ?thesis using ok by (auto simp: a_def)
qed

lemma dictScan_rehashing:
  assumes wf: "dict_wf hash d" and sz: "dictSize d \<noteq> 0" and re: "dictIsRehashing d"
  shows "\<exists>n out v'. scan_size d = 2 ^ n \<and> n \<le> 31 \<and> dictScan d v = Some (out, scan_next (mask n) v') \<and>
    unat v' mod 2 ^ n = unat v mod 2 ^ n \<and>
    (scan_aligned d v \<longrightarrow> (\<forall>k \<in> dom (dict_abs d).
      unat (hash_cursor hash k) mod 2 ^ n = unat v mod 2 ^ n \<longrightarrow> k \<in> fst ` set out))"
proof -
  define t where "t = (if ht_size (ht0 d) > ht_size (ht1 d) then (ht1 d, ht0 d) else (ht0 d, ht1 d))"
  obtain t0 t1 where t: "t = (t0, t1)" by (cases t)
  have tt: "{t0, t1} = {ht0 d, ht1 d}" and le: "ht_size t0 \<le> ht_size t1"
    using t by (auto simp: t_def split: if_splits)
  have w: "ht_wf hash t0" "ht_wf hash t1" and ne: "table t0 \<noteq> []" "table t1 \<noteq> []"
    using t dict_wfD(1,2) [OF wf] dict_wfD(5) [OF wf re] by (auto simp: t_def split: if_splits)
  obtain n0 where n0: "n0 \<le> 31" "ht_size t0 = 2 ^ n0" "length (table t0) = 2 ^ n0" "sizemask t0 = 2 ^ n0 - 1"
    by (rule ht_shape_cases [OF ht_wfD(1) [OF w(1)] ne(1)]) blast
  obtain n1 where n1: "n1 \<le> 31" "ht_size t1 = 2 ^ n1" "length (table t1) = 2 ^ n1" "sizemask t1 = 2 ^ n1 - 1"
    by (rule ht_shape_cases [OF ht_wfD(1) [OF w(2)] ne(2)]) blast
  have n: "n0 \<le> n1" using le n0(2) n1(2) by simp
  have bits: "scan_size d = 2 ^ n0"
    using t re n0(2) by (auto simp: scan_size_def t_def split: if_splits)
  have al: "scan_aligned d v \<longleftrightarrow> v AND (mask n0 XOR mask n1) = 0"
    using t re ht_mask_mask [OF n0(4)] ht_mask_mask [OF n1(4)]
    by (auto simp: scan_aligned_def t_def xor.commute split: if_splits)
  define c where "c = table t0 ! (unat v mod 2 ^ n0)"
  obtain out' v' where ex: "scan_expand t1 (mask n0) (mask n1) v c = Some (c @ out', v')"
      "unat v' mod 2 ^ n0 = unat v mod 2 ^ n0"
      "v AND (mask n0 XOR mask n1) = 0 \<longrightarrow> (\<forall>k \<in> fst ` set (ents t1).
         unat (hash_cursor hash k) mod 2 ^ n0 = unat v mod 2 ^ n0 \<longrightarrow> k \<in> fst ` set out')"
    using scan_expand_complete [OF w(2) n1(3,4) n n1(1), of v c] by blast
  have "dictScan d v = Some (c @ out', scan_next (mask n0) v')"
    using sz re ex(1) bucket_cursor [OF n0(3,4), of v]
    unfolding dictScan_def t_def [symmetric] t
    by (simp add: c_def ht_mask_mask [OF n0(4)] ht_mask_mask [OF n1(4)])
  moreover have "k \<in> fst ` set (c @ out')" if "scan_aligned d v" and k: "k \<in> dom (dict_abs d)"
    and h: "unat (hash_cursor hash k) mod 2 ^ n0 = unat v mod 2 ^ n0" for k
  proof -
    have "k \<in> fst ` set (ents (ht0 d)) \<union> fst ` set (ents (ht1 d))"
      using k dict_abs_None [of d k] by (auto simp: dict_list_def image_Un)
    then have "k \<in> fst ` set (ents t0) \<or> k \<in> fst ` set (ents t1)" using tt by (auto simp: doubleton_eq_iff)
    then show ?thesis
      using key_in_table [OF w(1) n0(4), of k] ex(3) al that(1) h by (auto simp: c_def image_Un)
  qed
  ultimately show ?thesis using bits n0(1) ex(2) by blast
qed

lemma dictScan_at_rest:
  assumes wf: "dict_wf hash d" and sz: "dictSize d \<noteq> 0" and re: "\<not> dictIsRehashing d"
  shows "\<exists>n out. scan_size d = 2 ^ n \<and> n \<le> 31 \<and> dictScan d v = Some (out, scan_next (mask n) v) \<and>
    (\<forall>k \<in> dom (dict_abs d).
      unat (hash_cursor hash k) mod 2 ^ n = unat v mod 2 ^ n \<longrightarrow> k \<in> fst ` set out)"
proof -
  note w = dict_wfD(1) [OF wf]
  have e1: "table (ht1 d) = []" by (rule dict_wfD(4) [OF wf re])
  then have "used (ht1 d) = 0" using ht_wfD(3) [OF dict_wfD(2) [OF wf]] by (simp add: ents_def)
  then have "ents (ht0 d) \<noteq> []" using sz ht_wfD(3) [OF w] by (simp add: dictSize_def)
  then have "table (ht0 d) \<noteq> []" by (auto simp: ents_def)
  then obtain n where n: "n \<le> 31" "ht_size (ht0 d) = 2 ^ n" "length (table (ht0 d)) = 2 ^ n" "sizemask (ht0 d) = 2 ^ n - 1"
    by (rule ht_shape_cases [OF ht_wfD(1) [OF w]]) blast
  have "dictScan d v = Some (table (ht0 d) ! (unat v mod 2 ^ n), scan_next (mask n) v)"
    using sz re bucket_cursor [OF n(3,4), of v] by (simp add: dictScan_def ht_mask_mask [OF n(4)])
  moreover have "k \<in> fst ` set (table (ht0 d) ! (unat v mod 2 ^ n))" if "k \<in> dom (dict_abs d)"
    and "unat (hash_cursor hash k) mod 2 ^ n = unat v mod 2 ^ n" for k
  proof -
    have "k \<in> fst ` set (ents (ht0 d))"
      using that(1) e1 dict_abs_None [of d k] by (auto simp: dict_list_def ents_def)
    then show ?thesis using key_in_table [OF w n(4)] that(2) by metis
  qed
  ultimately show ?thesis using n re by (auto simp: scan_size_def)
qed

text \<open>Both cases: the call succeeds, returns the start of the next block, and emits the entries of
  the cursor's block.\<close>

lemma dictScan_step:
  assumes wf: "dict_wf hash d" and sz: "dictSize d \<noteq> 0"
  obtains n out v' where "scan_size d = 2 ^ n" and "n \<le> 31" and "dictScan d v = Some (out, v')"
    and "pos v' = (pos v div 2 ^ (64 - n) + 1) * 2 ^ (64 - n) mod 2 ^ 64"
    and "scan_aligned d v \<Longrightarrow> k \<in> dom (dict_abs d) \<Longrightarrow>
      pos (hash_cursor hash k) div 2 ^ (64 - n) = pos v div 2 ^ (64 - n) \<Longrightarrow> k \<in> fst ` set out"
proof -
  have "\<exists>n out v'. scan_size d = 2 ^ n \<and> n \<le> 31 \<and> dictScan d v = Some (out, scan_next (mask n) v') \<and>
    unat v' mod 2 ^ n = unat v mod 2 ^ n \<and>
    (scan_aligned d v \<longrightarrow> (\<forall>k \<in> dom (dict_abs d).
      unat (hash_cursor hash k) mod 2 ^ n = unat v mod 2 ^ n \<longrightarrow> k \<in> fst ` set out))"
    using dictScan_rehashing [OF wf sz, of v] dictScan_at_rest [OF wf sz, of v]
    by (cases "dictIsRehashing d") blast+
  then obtain n out w where n: "scan_size d = 2 ^ n" "n \<le> 31"
    and o: "dictScan d v = Some (out, scan_next (mask n) w)" "unat w mod 2 ^ n = unat v mod 2 ^ n"
    and c: "scan_aligned d v \<longrightarrow> (\<forall>k \<in> dom (dict_abs d).
      unat (hash_cursor hash k) mod 2 ^ n = unat v mod 2 ^ n \<longrightarrow> k \<in> fst ` set out)" by blast
  have "n \<le> 64" using n by simp
  show ?thesis
    using that [OF n o(1)] c same_block [OF \<open>n \<le> 64\<close>] o(2) pos_scan_next [OF \<open>n \<le> 64\<close>, of w] by metis
qed

lemma dictScan_total: "dict_wf hash d \<Longrightarrow> \<exists>out v'. dictScan d v = Some (out, v')"
  by (cases "dictSize d = 0") (simp add: dictScan_def, metis dictScan_step)

lemma pos_less: "pos v < 2 ^ 64"
  using unsigned_less [of "word_reverse v"] by (simp add: pos_def)

lemma dictScan_emits:
  assumes "dict_wf hash d" and k: "k \<in> dom (dict_abs d)" and al: "scan_aligned d v"
    and sc: "dictScan d v = Some (out, v')" and le: "pos v \<le> pos (hash_cursor hash k)"
  shows "k \<in> fst ` set out \<or> v' \<noteq> 0 \<and> pos v' \<le> pos (hash_cursor hash k)"
proof -
  have "dictSize d \<noteq> 0"
    using k dictSize_list [OF assms(1)] dict_abs_None [of d k] by auto
  then show ?thesis
  proof (rule dictScan_step [OF assms(1), where v = v and k = k])
    fix n out1 v1
    assume s1: "dictScan d v = Some (out1, v1)"
      and p1: "pos v1 = (pos v div 2 ^ (64 - n) + 1) * 2 ^ (64 - n) mod 2 ^ 64"
      and e1: "scan_aligned d v \<Longrightarrow> k \<in> dom (dict_abs d) \<Longrightarrow>
        pos (hash_cursor hash k) div 2 ^ (64 - n) = pos v div 2 ^ (64 - n) \<Longrightarrow> k \<in> fst ` set out1"
  let ?B = "(2::nat) ^ (64 - n)" and ?h = "pos (hash_cursor hash k)"
  show ?thesis
  proof (cases "?h div ?B = pos v div ?B")
    case True
    then show ?thesis using e1 al k sc s1 by simp
  next
    case False
    then have "pos v div ?B + 1 \<le> ?h div ?B" using div_le_mono [OF le, of ?B] by simp
    then have "(pos v div ?B + 1) * ?B \<le> ?h" by (simp only: less_eq_div_iff_mult_less_eq zero_less_power)
    moreover from this have "pos v1 = (pos v div ?B + 1) * ?B"
      using p1 pos_less [of "hash_cursor hash k"] by simp
    ultimately have "pos v1 \<le> ?h" "pos v1 \<noteq> 0" by simp_all
    then show ?thesis using sc s1 pos_0 by auto
  qed
qed
qed

section \<open>Whole iterations\<close>

lemma scan_size_aligned:
  assumes wf: "dict_wf hash d" and n: "scan_size d = 2 ^ n" and p: "2 ^ (64 - n) dvd pos v"
  shows "scan_aligned d v"
proof (cases "dictIsRehashing d")
  case True
  note w = dict_wfD(1,2) [OF wf]
  obtain n0 where n0: "n0 \<le> 31" "ht_size (ht0 d) = 2 ^ n0" "sizemask (ht0 d) = 2 ^ n0 - 1"
    using dict_wfD(5) [OF wf True] ht_shape_cases [OF ht_wfD(1) [OF w(1)]] by metis
  obtain n1 where n1: "n1 \<le> 31" "ht_size (ht1 d) = 2 ^ n1" "sizemask (ht1 d) = 2 ^ n1 - 1"
    using dict_wfD(5) [OF wf True] ht_shape_cases [OF ht_wfD(1) [OF w(2)]] by metis
  have nm: "n = min n0 n1" using n n0 n1 True by (simp add: scan_size_def min_def split: if_splits)
  have "\<not> bit v i" if "n \<le> i" "i < 64" for i
  proof -
    have "pos v mod 2 ^ (64 - n) = 0" using p by simp
    then have "take_bit (64 - n) (word_reverse v) = 0"
      by (simp add: pos_def word_unat_eq_iff unat_take_bit)
    then have "\<not> bit (take_bit (64 - n) (word_reverse v)) (63 - i)" by simp
    then show ?thesis using that by (auto simp: bit_take_bit_iff bit_word_reverse_iff)
  qed
  then have "i < n0 \<and> i < n1" if "bit v i" "i < 64" for i
    using that nm by (meson min_le_iff_disj not_less)
  then have "v AND (mask n0 XOR mask n1) = 0"
    by (intro bit_word_eqI) (auto simp: bit_simps)
  then show ?thesis using ht_mask_mask [OF n0(3)] ht_mask_mask [OF n1(3)] by (simp add: scan_aligned_def)
qed (simp add: scan_aligned_def)

lemma scan_run_emits:
  assumes "\<forall>d \<in> set ds. dict_wf hash d \<and> k \<in> dom (dict_abs d)" and "sorted (map scan_size ds)"
    and "\<forall>d \<in> set ds. \<forall>n. scan_size d = 2 ^ n \<longrightarrow> 2 ^ (64 - n) dvd pos v"
    and "scan_run ds v = Some (out, v')" and "pos v \<le> pos (hash_cursor hash k)"
  shows "k \<in> fst ` set out \<or> (ds = [] \<or> v' \<noteq> 0) \<and> pos v' \<le> pos (hash_cursor hash k)"
  using assms
proof (induction ds arbitrary: v out)
  case (Cons d ds)
  have wf: "dict_wf hash d" and k: "k \<in> dom (dict_abs d)" using Cons.prems(1) by auto
  obtain o1 v1 o2 where s: "dictScan d v = Some (o1, v1)" "scan_run ds v1 = Some (o2, v')" "out = o1 @ o2"
    using Cons.prems(4) by (auto simp: bind_eq_Some_conv)
  have sz: "dictSize d \<noteq> 0"
    using k dictSize_list [OF wf] dict_abs_None [of d k] by auto
  obtain n where n: "scan_size d = 2 ^ n" "n \<le> 31"
    and p1: "pos v1 = (pos v div 2 ^ (64 - n) + 1) * 2 ^ (64 - n) mod 2 ^ 64"
    using s(1) by (rule_tac dictScan_step [OF wf sz, where v = v and k = k]) auto
  have "scan_aligned d v" using scan_size_aligned [OF wf n(1)] n(1) Cons.prems(3) by simp
  then have one: "k \<in> fst ` set o1 \<or> v1 \<noteq> 0 \<and> pos v1 \<le> pos (hash_cursor hash k)"
    by (rule dictScan_emits [OF wf k _ s(1) Cons.prems(5)])
  have "2 ^ (64 - m) dvd pos v1" if "d' \<in> set ds" "scan_size d' = 2 ^ m" for d' m
  proof -
    have "(2::nat) ^ n \<le> 2 ^ m" using Cons.prems(2) that n(1) by (metis list.simps(9) sorted_simps(2) imageI set_map)
    then have "n \<le> m" by simp
    then have "(2::nat) ^ (64 - m) dvd 2 ^ (64 - n)" by (intro le_imp_power_dvd) simp
    moreover have "2 ^ (64 - n) dvd pos v1"
      unfolding p1 by (intro dvd_mod dvd_triv_right le_imp_power_dvd) simp
    ultimately show ?thesis by (rule dvd_trans)
  qed
  then have "k \<in> fst ` set o2 \<or> (ds = [] \<or> v' \<noteq> 0) \<and> pos v' \<le> pos (hash_cursor hash k)"
    if "pos v1 \<le> pos (hash_cursor hash k)"
    using Cons.IH [OF _ _ _ s(2) that] Cons.prems(1,2) by simp
  then show ?case using one s by (cases ds) auto
qed simp

lemma scan_cycle:
  assumes wf: "dict_wf hash d" and sz: "dictSize d \<noteq> 0" and n: "scan_size d = 2 ^ n" "n \<le> 31"
    and i: "i + j + 1 = 2 ^ n" and p: "pos v = i * 2 ^ (64 - n)"
  shows "\<exists>out. scan_run (replicate (j + 1) d) v = Some (out, 0)"
  using i p
proof (induction j arbitrary: i v)
  case 0
  obtain o1 v1 where s: "dictScan d v = Some (o1, v1)" "pos v1 = (i + 1) * 2 ^ (64 - n) mod 2 ^ 64"
    using "0.prems" n by (rule_tac dictScan_step [OF wf sz, where v = v]) (auto)
  moreover have "i + 1 = 2 ^ n" using "0.prems" by simp
  ultimately have "pos v1 = 0" using n(2) by (simp only:) (simp flip: power_add)
  then show ?case using s(1) pos_eq_0 by simp
next
  case (Suc j)
  obtain o1 v1 where s: "dictScan d v = Some (o1, v1)" "pos v1 = (i + 1) * 2 ^ (64 - n) mod 2 ^ 64"
    using Suc.prems n by (rule_tac dictScan_step [OF wf sz, where v = v]) (auto)
  have "(i + 1) * 2 ^ (64 - n) < 2 ^ n * 2 ^ (64 - n)" using Suc.prems(1) by (intro mult_strict_right_mono) auto
  also have "\<dots> = 2 ^ 64" using n(2) by (simp flip: power_add)
  finally have "pos v1 = (i + 1) * 2 ^ (64 - n)" using s(2) by simp
  then obtain out where "scan_run (replicate (j + 1) d) v1 = Some (out, 0)"
    using Suc.IH [of "i + 1" v1] Suc.prems(1) by auto
  moreover have "scan_run (d # ds) v = Some (o1 @ out, 0)" if "scan_run ds v1 = Some (out, 0)" for ds out
    using that s(1) by simp
  ultimately have "scan_run (d # replicate (j + 1) d) v = Some (o1 @ out, 0)" by blast
  then show ?case by (metis Suc_eq_plus1 replicate_Suc)
qed

section \<open>A scan across a shrinking rehash\<close>

text \<open>Sixteen buckets that hold one key, and the same table when \<open>dictResize\<close> has started to
  shrink it to four buckets.\<close>

definition sparse_table :: "(nat, nat) dict" where
  "sparse_table = dictCreate\<lparr>ht0 := \<lparr>table = (replicate 16 [])[4 := [(4, 7)]], ht_size = 16,
     sizemask = 15, used = 1\<rparr>\<rparr>"

definition shrinking_table :: "(nat, nat) dict" where
  "shrinking_table = fst (dictResize True sparse_table)"

lemma sparse_table_wf: "dict_wf of_nat sparse_table"
proof -
  have m: "\<exists>m::nat. 2 \<le> m \<and> m \<le> 31 \<and> (16::nat) = 2 ^ m \<and> (15::nat) = 2 ^ m - 1"
    by (rule exI [of _ 4]) simp
  have i: "ht_index of_nat (ht0 sparse_table) 4 = 4" by code_simp
  have c: "concat ((replicate 16 [])[4 := [(4::nat, 7::nat)]]) = [(4, 7)]" by code_simp
  show ?thesis using m i
    by (auto simp: dict_wf_def sparse_table_def ht_wf_def ht_shape_def ht_placed_def dictCreate_def
        dictReset_def dict_list_def ents_def nth_list_update c)
qed

lemma sparse_table_abs: "dict_abs sparse_table = [4 \<mapsto> 7]"
proof -
  have "dict_list sparse_table = [(4, 7)]" by code_simp
  then show ?thesis by (simp add: dict_abs_def)
qed

lemma shrinking_table_ok: "dict_wf of_nat shrinking_table" "dict_abs shrinking_table = [4 \<mapsto> 7]"
proof -
  have u: "used (ht0 sparse_table) < 2 ^ 31" by (simp add: sparse_table_def)
  have "same_content of_nat sparse_table shrinking_table"
    by (rule dictResize_ok [OF sparse_table_wf u, of True]) (simp add: shrinking_table_def)
  then show "dict_wf of_nat shrinking_table" "dict_abs shrinking_table = [4 \<mapsto> 7]"
    using same_contentD(1,2) [OF _ sparse_table_wf] sparse_table_abs by auto
qed

lemma shrinking_table_eq:
  "shrinking_table = \<lparr>ht0 = ht0 sparse_table, ht1 = \<lparr>table = replicate 4 [], ht_size = 4,
     sizemask = 3, used = 0\<rparr>, rehashidx = 0, iterators = 0\<rparr>"
  by (simp add: shrinking_table_def sparse_table_def dictCreate_def dictReset_def dictResize_def
      dictExpand_def dictNextPower_def DICT_HT_INITIAL_SIZE_def LONG_MAX_def
      dictNextPower_loop.simps dictIsRehashing_def Let_def)

text \<open>The loop unrolled, to evaluate it.\<close>

fun expand_steps ::
  "nat \<Rightarrow> ('k, 'v) dictht \<Rightarrow> u64 \<Rightarrow> u64 \<Rightarrow> u64 \<Rightarrow> ('k \<times> 'v) list \<Rightarrow> (('k \<times> 'v) list \<times> u64) option" where
  "expand_steps 0 t1 m0 m1 v out = None"
| "expand_steps (Suc n) t1 m0 m1 v out =
     (let c = table t1 ! unat (v AND m1); v' = expand_next m0 v
      in if unat (v AND m1) \<ge> length (table t1) then None
         else if v' AND (m0 XOR m1) \<noteq> 0 then expand_steps n t1 m0 m1 v' (out @ c)
         else Some (out @ c, v'))"

lemma expand_steps_ok: "expand_steps n t1 m0 m1 v out = Some r \<Longrightarrow> scan_expand t1 m0 m1 v out = Some r"
  by (induction n t1 m0 m1 v out rule: expand_steps.induct)
    (subst scan_expand.simps, auto simp: Let_def bucket_def split: if_splits)+

lemma scan_rehashing_eval:
  assumes "dictIsRehashing d" and "dictSize d \<noteq> 0" and "ht_size (ht0 d) > ht_size (ht1 d)"
    and "bucket (ht1 d) (unat (v AND ht_mask (ht1 d))) = Some c"
    and "expand_steps n (ht0 d) (ht_mask (ht1 d)) (ht_mask (ht0 d)) v c = Some (out, v')"
    and "scan_next (ht_mask (ht1 d)) v' = v''"
  shows "dictScan d v = Some (out, v'')"
  using assms expand_steps_ok [OF assms(5)] by (simp add: dictScan_def)

lemma shrinking_table_rehashing:
  "dictIsRehashing shrinking_table" "dictSize shrinking_table \<noteq> 0"
  "ht_size (ht0 shrinking_table) > ht_size (ht1 shrinking_table)"
  unfolding shrinking_table_eq by code_simp+

lemma shrinking_scan_calls:
  "dictScan sparse_table 0 = Some ([], 8)"
  "dictScan shrinking_table 0 = Some ([(4, 7)], 2)"
  "dictScan shrinking_table 8 = Some ([], 2)"
  "dictScan shrinking_table 2 = Some ([], 1)"
  "dictScan shrinking_table 1 = Some ([], 3)"
  "dictScan shrinking_table 3 = Some ([], 0)"
  subgoal by code_simp
  subgoal by (rule scan_rehashing_eval [OF shrinking_table_rehashing, where n = 4 and c = "[]" and v' = 16];
      unfold shrinking_table_eq; code_simp)
  subgoal by (rule scan_rehashing_eval [OF shrinking_table_rehashing, where n = 4 and c = "[]" and v' = 16];
      unfold shrinking_table_eq; code_simp)
  subgoal by (rule scan_rehashing_eval [OF shrinking_table_rehashing, where n = 4 and c = "[]" and v' = 18];
      unfold shrinking_table_eq; code_simp)
  subgoal by (rule scan_rehashing_eval [OF shrinking_table_rehashing, where n = 4 and c = "[]" and v' = 17];
      unfold shrinking_table_eq; code_simp)
  subgoal by (rule scan_rehashing_eval [OF shrinking_table_rehashing, where n = 4 and c = "[]" and v' = 19];
      unfold shrinking_table_eq; code_simp)
  done

lemma replicate_4: "replicate 4 x = [x, x, x, x]"
  by (simp add: numeral_eq_Suc)

lemma shrinking_cycle:
  "scan_run [shrinking_table, shrinking_table, shrinking_table, shrinking_table] 0 = Some ([(4, 7)], 0)"
  by (simp add: shrinking_scan_calls)

section \<open>Properties\<close>

text \<open>C6: a scan from cursor 0 back to cursor 0 visits every key that is in the table at every
  call, whatever happens to the table between the calls (additions, removals, rehashing steps, a
  growth of the table), as long as the smallest table in use never shrinks.\<close>

theorem dictScan_complete:
  assumes "ds \<noteq> []" and "\<forall>d \<in> set ds. dict_wf hash d \<and> k \<in> dom (dict_abs d)"
    and "sorted (map scan_size ds)" and "scan_run ds 0 = Some (out, 0)"
  shows "k \<in> fst ` set out"
  using scan_run_emits [OF assms(2,3) _ assms(4)] assms(1) by simp

theorem dictScan_complete_witness:
  "\<exists>out. scan_run [shrinking_table, shrinking_table, shrinking_table, shrinking_table] 0 = Some (out, 0) \<and> 4 \<in> fst ` set out"
proof -
  let ?ds = "[shrinking_table, shrinking_table, shrinking_table, shrinking_table]"
  have ne: "?ds \<noteq> []" and sorted: "sorted (map scan_size ?ds)" by simp_all
  have wf: "\<forall>d \<in> set ?ds. dict_wf of_nat d \<and> 4 \<in> dom (dict_abs d)"
    using shrinking_table_ok by simp
  show ?thesis
    using dictScan_complete [OF ne wf sorted shrinking_cycle] shrinking_cycle by blast
qed

text \<open>C31: a scan of a table that does not change returns to cursor 0 after one call per bucket of
  its smallest table, also in the middle of a rehash, and has then visited every key.\<close>

theorem dictScan_terminates:
  assumes "dict_wf hash d" and "dictSize d \<noteq> 0"
  shows "\<exists>out. scan_run (replicate (scan_size d) d) 0 = Some (out, 0) \<and>
    dom (dict_abs d) \<subseteq> fst ` set out"
proof -
  obtain n where n: "scan_size d = 2 ^ n" "n \<le> 31"
    by (rule dictScan_step [OF assms, where v = 0])
  have "0 + (2 ^ n - 1) + 1 = (2::nat) ^ n" by simp
  then obtain out where o: "scan_run (replicate (2 ^ n - 1 + 1) d) 0 = Some (out, 0)"
    using scan_cycle [OF assms n, of 0 "2 ^ n - 1" 0] by auto
  let ?ds = "replicate (2 ^ n - 1 + 1) d"
  have "k \<in> fst ` set out" if "k \<in> dom (dict_abs d)" for k
    using scan_run_emits [where ds = ?ds and v = 0 and k = k, OF _ _ _ o] that assms(1)
    by (auto simp: sorted_wrt_iff_nth_less)
  then show ?thesis using o n(1) by auto
qed

theorem dictScan_terminates_witness:
  "\<exists>out. scan_run [shrinking_table, shrinking_table, shrinking_table, shrinking_table] 0 = Some (out, 0) \<and> {4} \<subseteq> fst ` set out"
proof -
  have s: "scan_size shrinking_table = 4"
    by (simp add: scan_size_def shrinking_table_eq sparse_table_def dictIsRehashing_def)
  have "dictSize shrinking_table \<noteq> 0"
    by (simp add: dictSize_card [OF shrinking_table_ok(1)] shrinking_table_ok(2))
  from dictScan_terminates [OF shrinking_table_ok(1) this] show ?thesis
    unfolding s shrinking_table_ok(2) replicate_4 by (simp only: dom_fun_upd dom_empty option.distinct if_False)
qed

text \<open>C37: when the table shrinks between two calls, a scan can miss an element that is in the table
  all the time. After one call on sixteen buckets the cursor is 8; the next call, on the pair of
  four and sixteen buckets, expands it to the buckets 8 and 12 and not to 4, because the loop over
  the expansions counts up from the cursor's own middle bits, and bucket 4 comes later in the
  reversed order of the sixteen buckets. The scan ends without the key 4.\<close>

theorem dictScan_misses_on_shrink:
  "\<exists>ds out. scan_run ds 0 = Some (out, 0) \<and> ds \<noteq> [] \<and>
     list_all (\<lambda>d. dict_wf of_nat d \<and> dict_abs d = [4 \<mapsto> 7]) ds \<and> (4::nat, 7::nat) \<notin> set out"
proof -
  let ?ds = "[sparse_table, shrinking_table, shrinking_table, shrinking_table, shrinking_table]"
  have "scan_run ?ds 0 = Some ([], 0)" by (simp add: shrinking_scan_calls)
  then show ?thesis
    using sparse_table_wf sparse_table_abs shrinking_table_ok
    by (intro exI [of _ ?ds] exI [of _ "[]"]) auto
qed

end
