(* ===== verification/Endianconv.thy ===== *)
theory Endianconv
  imports Prelude
begin

text \<open>
  Redis endianconv.c and endianconv.h: reversing the bytes of an integer in memory, and the
  variants that do so on a big-endian host only. The host is a parameter, so what the other
  components store is shown not to depend on it.
\<close>

section \<open>Hosts\<close>

datatype endian = Little_Endian | Big_Endian

text \<open>The object representation of an \<open>n\<close>-byte unsigned integer on the host, and the
  integer a representation stands for.\<close>

definition host_bytes :: "endian \<Rightarrow> nat \<Rightarrow> nat \<Rightarrow> bytes" where
  "host_bytes h n v = (case h of Little_Endian \<Rightarrow> le_bytes n v | Big_Endian \<Rightarrow> rev (le_bytes n v))"

definition host_nat :: "endian \<Rightarrow> bytes \<Rightarrow> nat" where
  "host_nat h bs = (case h of Little_Endian \<Rightarrow> le_nat bs | Big_Endian \<Rightarrow> le_nat (rev bs))"

lemma length_host_bytes [simp]: "length (host_bytes h n v) = n"
  by (simp add: host_bytes_def split: endian.split)

lemma host_nat_host_bytes [codec_simps]: "host_nat h (host_bytes h n v) = v mod 256 ^ n"
  by (simp add: host_nat_def host_bytes_def codec_simps split: endian.split)

section \<open>memrev16, memrev32, memrev64\<close>

text \<open>One exchange of two bytes through the temporary \<open>t\<close>.\<close>

definition swap_bytes :: "nat \<Rightarrow> nat \<Rightarrow> bytes \<Rightarrow> bytes" where
  "swap_bytes i j x = (let t = x ! i in x[i := x ! j, j := t])"

definition memrev16 :: "nat \<Rightarrow> bytes \<Rightarrow> bytes option" where
  "memrev16 p b = do { x \<leftarrow> rd p 2 b; wr p (swap_bytes 0 1 x) b }"

definition memrev32 :: "nat \<Rightarrow> bytes \<Rightarrow> bytes option" where
  "memrev32 p b = do { x \<leftarrow> rd p 4 b; wr p (swap_bytes 1 2 (swap_bytes 0 3 x)) b }"

definition memrev64 :: "nat \<Rightarrow> bytes \<Rightarrow> bytes option" where
  "memrev64 p b = do {
     x \<leftarrow> rd p 8 b;
     wr p (swap_bytes 3 4 (swap_bytes 2 5 (swap_bytes 1 6 (swap_bytes 0 7 x)))) b }"

definition intrev16 :: "endian \<Rightarrow> u16 \<Rightarrow> u16" where
  "intrev16 h v =
     (case memrev16 0 (host_bytes h 2 (unat v)) of Some b \<Rightarrow> of_nat (host_nat h b) | None \<Rightarrow> v)"

definition intrev32 :: "endian \<Rightarrow> u32 \<Rightarrow> u32" where
  "intrev32 h v =
     (case memrev32 0 (host_bytes h 4 (unat v)) of Some b \<Rightarrow> of_nat (host_nat h b) | None \<Rightarrow> v)"

definition intrev64 :: "endian \<Rightarrow> u64 \<Rightarrow> u64" where
  "intrev64 h v =
     (case memrev64 0 (host_bytes h 8 (unat v)) of Some b \<Rightarrow> of_nat (host_nat h b) | None \<Rightarrow> v)"

text \<open>The macros of endianconv.h: nothing on a little-endian host, a reversal otherwise.\<close>

definition memrev16ifbe :: "endian \<Rightarrow> nat \<Rightarrow> bytes \<Rightarrow> bytes option" where
  "memrev16ifbe h p b = (if h = Little_Endian then Some b else memrev16 p b)"

definition memrev32ifbe :: "endian \<Rightarrow> nat \<Rightarrow> bytes \<Rightarrow> bytes option" where
  "memrev32ifbe h p b = (if h = Little_Endian then Some b else memrev32 p b)"

definition memrev64ifbe :: "endian \<Rightarrow> nat \<Rightarrow> bytes \<Rightarrow> bytes option" where
  "memrev64ifbe h p b = (if h = Little_Endian then Some b else memrev64 p b)"

definition intrev32ifbe :: "endian \<Rightarrow> u32 \<Rightarrow> u32" where
  "intrev32ifbe h v = (if h = Little_Endian then v else intrev32 h v)"

section \<open>The swaps are a reversal\<close>

lemma list2_eq: "length xs = 2 \<longleftrightarrow> (\<exists>a b. xs = [a, b])"
  by (auto simp: numeral_eq_Suc length_Suc_conv)

lemma list4_eq: "length xs = 4 \<longleftrightarrow> (\<exists>a b c d. xs = [a, b, c, d])"
  by (auto simp: numeral_eq_Suc length_Suc_conv)

lemma list8_eq: "length xs = 8 \<longleftrightarrow> (\<exists>a b c d e f g h. xs = [a, b, c, d, e, f, g, h])"
  by (auto simp: numeral_eq_Suc length_Suc_conv)

lemma length_swap_bytes [simp]: "length (swap_bytes i j x) = length x"
  by (simp add: swap_bytes_def Let_def)

lemma memrev16_rev: "length x = 2 \<Longrightarrow> swap_bytes 0 1 x = rev x"
  by (drule list2_eq [THEN iffD1]) (auto simp: swap_bytes_def)

lemma memrev32_rev: "length x = 4 \<Longrightarrow> swap_bytes 1 2 (swap_bytes 0 3 x) = rev x"
  by (drule list4_eq [THEN iffD1]) (auto simp: swap_bytes_def numeral_eq_Suc)

lemma memrev64_rev:
  "length x = 8 \<Longrightarrow>
     swap_bytes 3 4 (swap_bytes 2 5 (swap_bytes 1 6 (swap_bytes 0 7 x))) = rev x"
  by (drule list8_eq [THEN iffD1]) (auto simp: swap_bytes_def numeral_eq_Suc)

lemma memrev_eq:
  "memrev16 p b = rd p 2 b \<bind> (\<lambda>x. wr p (rev x) b)"
  "memrev32 p b = rd p 4 b \<bind> (\<lambda>x. wr p (rev x) b)"
  "memrev64 p b = rd p 8 b \<bind> (\<lambda>x. wr p (rev x) b)"
  by (simp_all only: memrev16_def memrev32_def memrev64_def memrev16_rev memrev32_rev memrev64_rev
      rd_lengthD cong: Option.bind_cong)

lemma rev_whole: "length x = n \<Longrightarrow> rd 0 n x \<bind> (\<lambda>y. wr 0 (rev y) x) = Some (rev x)"
  by (simp add: rd_def wr_def)

lemma memrev_whole [mem_simps]:
  "length x = 2 \<Longrightarrow> memrev16 0 x = Some (rev x)"
  "length x = 4 \<Longrightarrow> memrev32 0 x = Some (rev x)"
  "length x = 8 \<Longrightarrow> memrev64 0 x = Some (rev x)"
  by (simp_all add: memrev_eq rev_whole)

lemma wr_rev:
  "wr p (rev xs) b \<bind> (\<lambda>b'. rd p (length xs) b' \<bind> (\<lambda>x. wr p (rev x) b')) = wr p xs b"
  by (auto simp: wr_def rd_def)

text \<open>Storing an integer and then calling the macro leaves its little-endian bytes in memory,
  whatever the host.\<close>

lemma host_store_le:
  "wr p (host_bytes h 2 v) b \<bind> memrev16ifbe h p = wr p (le_bytes 2 v) b"
  "wr p (host_bytes h 4 v) b \<bind> memrev32ifbe h p = wr p (le_bytes 4 v) b"
  "wr p (host_bytes h 8 v) b \<bind> memrev64ifbe h p = wr p (le_bytes 8 v) b"
  using wr_rev [of p "le_bytes 2 v" b] wr_rev [of p "le_bytes 4 v" b]
    wr_rev [of p "le_bytes 8 v" b]
  unfolding memrev16ifbe_def memrev32ifbe_def memrev64ifbe_def memrev_eq host_bytes_def
    length_le_bytes
  by (cases h; simp only: endian.case endian.distinct simp_thms if_True if_False bind_runit)+

text \<open>Loading bytes, calling the macro and reading the integer gives the little-endian value.\<close>

lemma host_load_le:
  "length x = 2 \<Longrightarrow> memrev16ifbe h 0 x \<bind> (\<lambda>y. Some (host_nat h y)) = Some (le_nat x)"
  "length x = 4 \<Longrightarrow> memrev32ifbe h 0 x \<bind> (\<lambda>y. Some (host_nat h y)) = Some (le_nat x)"
  "length x = 8 \<Longrightarrow> memrev64ifbe h 0 x \<bind> (\<lambda>y. Some (host_nat h y)) = Some (le_nat x)"
  by (cases h; simp add: memrev16ifbe_def memrev32ifbe_def memrev64ifbe_def host_nat_def mem_simps)+

text \<open>Reversing the bytes of an integer twice gives it back, on both hosts.\<close>

lemma rev_le_nat: "le_bytes (length xs) (le_nat (rev xs)) = rev xs"
  using le_bytes_le_nat [of "rev xs"] by simp

lemma intrev32_eq: "intrev32 h v = of_nat (le_nat (rev (le_bytes 4 (unat v))))"
  by (cases h) (simp_all add: intrev32_def mem_simps host_nat_def host_bytes_def)

lemma intrev16_eq: "intrev16 h v = of_nat (le_nat (rev (le_bytes 2 (unat v))))"
  by (cases h) (simp_all add: intrev16_def mem_simps host_nat_def host_bytes_def)

lemma intrev64_eq: "intrev64 h v = of_nat (le_nat (rev (le_bytes 8 (unat v))))"
  by (cases h) (simp_all add: intrev64_def mem_simps host_nat_def host_bytes_def)

lemma le_nat_rev_rev:
  "u < 256 ^ n \<Longrightarrow> le_nat (rev (le_bytes n (le_nat (rev (le_bytes n u))))) = u"
  using rev_le_nat [of "le_bytes n u"] by (simp add: codec_simps)

lemma intrev_involution [simp]:
  "intrev16 h (intrev16 h v) = v" "intrev32 h (intrev32 h w) = w" "intrev64 h (intrev64 h x) = x"
proof -
  have "unat (of_nat (le_nat (rev (le_bytes 2 u))) :: u16) = le_nat (rev (le_bytes 2 u))" for u
    using le_nat_less [of "rev (le_bytes 2 u)"] by (simp add: unat_of_nat)
  then show "intrev16 h (intrev16 h v) = v"
    using le_nat_rev_rev [of "unat v" 2] unat_less_numeral(2) [of v] by (simp add: intrev16_eq)
  have "unat (of_nat (le_nat (rev (le_bytes 4 u))) :: u32) = le_nat (rev (le_bytes 4 u))" for u
    using le_nat_less [of "rev (le_bytes 4 u)"] by (simp add: unat_of_nat)
  then show "intrev32 h (intrev32 h w) = w"
    using le_nat_rev_rev [of "unat w" 4] unat_less_numeral(3) [of w] by (simp add: intrev32_eq)
  have "unat (of_nat (le_nat (rev (le_bytes 8 u))) :: u64) = le_nat (rev (le_bytes 8 u))" for u
    using le_nat_less [of "rev (le_bytes 8 u)"] by (simp add: unat_of_nat)
  then show "intrev64 h (intrev64 h x) = x"
    using le_nat_rev_rev [of "unat x" 8] unat_less_numeral(4) [of x] by (simp add: intrev64_eq)
qed

lemma intrev32ifbe_involution [simp]: "intrev32ifbe h (intrev32ifbe h v) = v"
  by (simp add: intrev32ifbe_def)

lemma intrev32ifbe_0 [simp]: "intrev32ifbe h 0 = 0"
  by (simp add: intrev32ifbe_def intrev32_eq)

end
