(* ===== verification/Intset.thy ===== *)
theory Intset
  imports Endianconv
begin

text \<open>
  Redis intset.c: the sorted array of integers that a small set of integers is stored in.
  The array holds 16, 32 or 64 bit elements, little-endian; it is upgraded in place when a
  value does not fit. The model keeps the bytes: every read and write goes to
  \<open>contents\<close> and is \<^term>\<open>None\<close> outside the allocation, 32 bit sizes wrap, and a
  signed overflow of the C \<open>int\<close>s of the binary search is \<^term>\<open>None\<close>.

  The abstraction is the list of the elements (\<open>intset_rep\<close>), strictly sorted; the
  operations refine those of a set of integers.
\<close>

section \<open>Data\<close>

text \<open>The two header fields hold what \<open>intrev32ifbe\<close> produced on the host.\<close>

record intset =
  encoding :: u32
  len_field :: u32
  contents :: bytes

definition INTSET_ENC_INT16 :: nat where "INTSET_ENC_INT16 = 2"
definition INTSET_ENC_INT32 :: nat where "INTSET_ENC_INT32 = 4"
definition INTSET_ENC_INT64 :: nat where "INTSET_ENC_INT64 = 8"

lemmas intset_enc_defs = INTSET_ENC_INT16_def INTSET_ENC_INT32_def INTSET_ENC_INT64_def

definition intset_enc :: "endian \<Rightarrow> intset \<Rightarrow> nat" where
  "intset_enc h is = unat (intrev32ifbe h (encoding is))"

definition intset_len :: "endian \<Rightarrow> intset \<Rightarrow> u32" where
  "intset_len h is = intrev32ifbe h (len_field is)"

text \<open>\<open>INT32_MIN\<close> to \<open>INT32_MAX\<close> and \<open>INT16_MIN\<close> to \<open>INT16_MAX\<close> written out.\<close>

definition intsetValueEncoding :: "u64 \<Rightarrow> nat" where
  "intsetValueEncoding v =
     (if sint v < -2147483648 \<or> sint v > 2147483647 then INTSET_ENC_INT64
      else if sint v < -32768 \<or> sint v > 32767 then INTSET_ENC_INT32
      else INTSET_ENC_INT16)"

section \<open>Element access\<close>

definition intsetGetEncoded :: "endian \<Rightarrow> intset \<Rightarrow> int \<Rightarrow> nat \<Rightarrow> u64 option" where
  "intsetGetEncoded h is pos enc =
     (if pos < 0 then None
      else if enc = INTSET_ENC_INT64 then do {
        v64 \<leftarrow> rd (nat pos * 8) 8 (contents is);
        v64 \<leftarrow> memrev64ifbe h 0 v64;
        Some (of_nat (host_nat h v64)) }
      else if enc = INTSET_ENC_INT32 then do {
        v32 \<leftarrow> rd (nat pos * 4) 4 (contents is);
        v32 \<leftarrow> memrev32ifbe h 0 v32;
        Some (scast (of_nat (host_nat h v32) :: u32)) }
      else do {
        v16 \<leftarrow> rd (nat pos * 2) 2 (contents is);
        v16 \<leftarrow> memrev16ifbe h 0 v16;
        Some (scast (of_nat (host_nat h v16) :: u16)) })"

definition intsetGet_at :: "endian \<Rightarrow> intset \<Rightarrow> int \<Rightarrow> u64 option" where
  "intsetGet_at h is pos = intsetGetEncoded h is pos (intset_enc h is)"

definition intsetSet :: "endian \<Rightarrow> intset \<Rightarrow> int \<Rightarrow> u64 \<Rightarrow> intset option" where
  "intsetSet h is pos value =
     (if pos < 0 then None
      else if intset_enc h is = INTSET_ENC_INT64 then do {
        c \<leftarrow> wr (nat pos * 8) (host_bytes h 8 (unat value)) (contents is);
        c \<leftarrow> memrev64ifbe h (nat pos * 8) c;
        Some (is\<lparr>contents := c\<rparr>) }
      else if intset_enc h is = INTSET_ENC_INT32 then do {
        c \<leftarrow> wr (nat pos * 4) (host_bytes h 4 (unat (ucast value :: u32))) (contents is);
        c \<leftarrow> memrev32ifbe h (nat pos * 4) c;
        Some (is\<lparr>contents := c\<rparr>) }
      else do {
        c \<leftarrow> wr (nat pos * 2) (host_bytes h 2 (unat (ucast value :: u16))) (contents is);
        c \<leftarrow> memrev16ifbe h (nat pos * 2) c;
        Some (is\<lparr>contents := c\<rparr>) })"

definition intsetNew :: "endian \<Rightarrow> intset" where
  "intsetNew h =
     \<lparr>encoding = intrev32ifbe h (of_nat INTSET_ENC_INT16), len_field = 0, contents = []\<rparr>"

definition intsetResize :: "endian \<Rightarrow> (nat \<Rightarrow> byte) \<Rightarrow> intset \<Rightarrow> u32 \<Rightarrow> intset" where
  "intsetResize h junk is n =
     (let size = n * intrev32ifbe h (encoding is)
      in is\<lparr>contents := mem_realloc junk (unat size) (contents is)\<rparr>)"

text \<open>Positions are C \<open>int\<close>s, so unsigned positions are read as signed ones.\<close>

section \<open>Search\<close>

text \<open>Signed 32 bit addition: an overflow is undefined in C.\<close>

definition int_add :: "int \<Rightarrow> int \<Rightarrow> int option" where
  "int_add a b = (if -(2 ^ 31) \<le> a + b \<and> a + b < 2 ^ 31 then Some (a + b) else None)"

text \<open>The binary search loop over \<open>(min, max, mid, cur)\<close>. Its bounds are never negative
  where \<open>min + max\<close> is halved, so \<open>div\<close> is the C division.\<close>

function intsetSearch_loop ::
  "endian \<Rightarrow> intset \<Rightarrow> u64 \<Rightarrow> int \<Rightarrow> int \<Rightarrow> int \<Rightarrow> u64 \<Rightarrow> (int \<times> int \<times> u64) option" where
  "intsetSearch_loop h is value lo hi mid cur =
     (if hi \<ge> lo then
        case int_add lo hi of None \<Rightarrow> None
        | Some s \<Rightarrow>
          (case intsetGet_at h is (s div 2) of None \<Rightarrow> None
           | Some c \<Rightarrow>
             if sint value > sint c then intsetSearch_loop h is value (s div 2 + 1) hi (s div 2) c
             else if sint value < sint c then intsetSearch_loop h is value lo (s div 2 - 1) (s div 2) c
             else Some (lo, s div 2, c))
      else Some (lo, mid, cur))"
  by pat_completeness auto
termination
  by (relation "measure (\<lambda>(h, is, value, lo, hi, mid, cur). nat (hi + 1 - lo))")
    (auto simp: int_add_def split: if_splits)

text \<open>The result is the return value and \<open>*pos\<close>. The length minus one is converted to
  \<open>int\<close>.\<close>

definition intsetSearch :: "endian \<Rightarrow> intset \<Rightarrow> u64 \<Rightarrow> (bool \<times> u32) option" where
  "intsetSearch h is value =
     (if intset_len h is = 0 then Some (False, 0)
      else do {
        last \<leftarrow> intsetGet_at h is (sint (intset_len h is - 1));
        if sint value > sint last then Some (False, intset_len h is)
        else do {
          first \<leftarrow> intsetGet_at h is 0;
          if sint value < sint first then Some (False, 0)
          else do {
            (lo, mid, cur) \<leftarrow>
              intsetSearch_loop h is value 0 (sint (intset_len h is - 1)) (-1) (-1);
            if value = cur then Some (True, of_int mid) else Some (False, of_int lo) } } })"

section \<open>Updates\<close>

text \<open>\<open>while (length--) set(length + prepend, getEncoded(length, curenc))\<close>.\<close>

fun intsetUpgrade_loop :: "endian \<Rightarrow> nat \<Rightarrow> int \<Rightarrow> nat \<Rightarrow> intset \<Rightarrow> intset option" where
  "intsetUpgrade_loop h 0 prepend curenc is = Some is"
| "intsetUpgrade_loop h (Suc len) prepend curenc is = do {
     v \<leftarrow> intsetGetEncoded h is (int len) curenc;
     is' \<leftarrow> intsetSet h is (int len + prepend) v;
     intsetUpgrade_loop h len prepend curenc is' }"

definition intsetUpgradeAndAdd ::
  "endian \<Rightarrow> (nat \<Rightarrow> byte) \<Rightarrow> intset \<Rightarrow> u64 \<Rightarrow> intset option" where
  "intsetUpgradeAndAdd h junk is value = do {
     let curenc = intset_enc h is;
     let newenc = intsetValueEncoding value;
     let len = sint (intset_len h is);
     let prepend = (if sint value < 0 then 1 else 0);
     let is = is\<lparr>encoding := intrev32ifbe h (of_nat newenc)\<rparr>;
     let is = intsetResize h junk is (intset_len h is + 1);
     is \<leftarrow> (if len < 0 then None else intsetUpgrade_loop h (nat len) prepend curenc is);
     is \<leftarrow> (if prepend = 1 then intsetSet h is 0 value
            else intsetSet h is (sint (intset_len h is)) value);
     Some (is\<lparr>len_field := intrev32ifbe h (intset_len h is + 1)\<rparr>) }"

definition intsetMoveTail :: "endian \<Rightarrow> intset \<Rightarrow> u32 \<Rightarrow> u32 \<Rightarrow> intset option" where
  "intsetMoveTail h is from to = do {
     let n = intset_len h is - from;
     let size = (if intset_enc h is = INTSET_ENC_INT64 then 8
                 else if intset_enc h is = INTSET_ENC_INT32 then 4 else 2);
     c \<leftarrow> mem_move (unat to * size) (unat from * size) (unat (n * of_nat size)) (contents is);
     Some (is\<lparr>contents := c\<rparr>) }"

definition intsetAdd ::
  "endian \<Rightarrow> (nat \<Rightarrow> byte) \<Rightarrow> intset \<Rightarrow> u64 \<Rightarrow> (intset \<times> bool) option" where
  "intsetAdd h junk is value =
     (if intsetValueEncoding value > intset_enc h is
      then map_option (\<lambda>is'. (is', True)) (intsetUpgradeAndAdd h junk is value)
      else do {
        (found, pos) \<leftarrow> intsetSearch h is value;
        if found then Some (is, False)
        else do {
          let is = intsetResize h junk is (intset_len h is + 1);
          is \<leftarrow> (if pos < intset_len h is then intsetMoveTail h is pos (pos + 1) else Some is);
          is \<leftarrow> intsetSet h is (sint pos) value;
          Some (is\<lparr>len_field := intrev32ifbe h (intset_len h is + 1)\<rparr>, True) } })"

definition intsetRemove ::
  "endian \<Rightarrow> (nat \<Rightarrow> byte) \<Rightarrow> intset \<Rightarrow> u64 \<Rightarrow> (intset \<times> bool) option" where
  "intsetRemove h junk is value =
     (if intsetValueEncoding value \<le> intset_enc h is then do {
        (found, pos) \<leftarrow> intsetSearch h is value;
        if found then do {
          let len = intset_len h is;
          is \<leftarrow> (if pos < len - 1 then intsetMoveTail h is (pos + 1) pos else Some is);
          let is = intsetResize h junk is (len - 1);
          Some (is\<lparr>len_field := intrev32ifbe h (len - 1)\<rparr>, True) }
        else Some (is, False) }
      else Some (is, False))"

section \<open>Queries\<close>

definition intsetFind :: "endian \<Rightarrow> intset \<Rightarrow> u64 \<Rightarrow> bool option" where
  "intsetFind h is value =
     (if intsetValueEncoding value \<le> intset_enc h is
      then map_option fst (intsetSearch h is value) else Some False)"

text \<open>The argument \<open>r\<close> is what \<open>rand()\<close> returned; the remainder is taken in
  unsigned arithmetic, and is undefined for an empty set.\<close>

definition intsetRandom :: "endian \<Rightarrow> intset \<Rightarrow> u32 \<Rightarrow> u64 option" where
  "intsetRandom h is r =
     (if intset_len h is = 0 then None else intsetGet_at h is (sint (r mod intset_len h is)))"

definition intsetGet :: "endian \<Rightarrow> intset \<Rightarrow> u32 \<Rightarrow> u64 option option" where
  "intsetGet h is pos =
     (if pos < intset_len h is then map_option Some (intsetGet_at h is (sint pos)) else Some None)"

definition intsetLen :: "endian \<Rightarrow> intset \<Rightarrow> u32" where
  "intsetLen h is = intset_len h is"

text \<open>\<open>length * encoding\<close> is computed in 32 bits and then widened to \<open>size_t\<close>.\<close>

definition intsetBlobLen :: "endian \<Rightarrow> intset \<Rightarrow> u64" where
  "intsetBlobLen h is = 8 + ucast (intset_len h is * intrev32ifbe h (encoding is))"

section \<open>Encoding of one element\<close>

definition valid_enc :: "nat \<Rightarrow> bool" where
  "valid_enc e \<longleftrightarrow> e = 2 \<or> e = 4 \<or> e = 8"

definition dec_elem :: "nat \<Rightarrow> bytes \<Rightarrow> u64" where
  "dec_elem e x =
     (if e = 8 then of_nat (le_nat x)
      else if e = 4 then scast (of_nat (le_nat x) :: u32)
      else scast (of_nat (le_nat x) :: u16))"

definition slot :: "nat \<Rightarrow> bytes \<Rightarrow> nat \<Rightarrow> u64 option" where
  "slot e c i = map_option (dec_elem e) (rd (i * e) e c)"

lemma scast_ucast_in_range:
  fixes v :: u64
  shows "-2147483648 \<le> sint v \<Longrightarrow> sint v \<le> 2147483647 \<Longrightarrow> scast (ucast v :: u32) = v"
    and "-32768 \<le> sint v \<Longrightarrow> sint v \<le> 32767 \<Longrightarrow> scast (ucast v :: u16) = v"
  by (simp_all add: sint_inject [symmetric] sint_scast_32 sint_scast_16 sint_ucast_32 sint_ucast_16
      signed_take_bit_int_eq_self)

lemma le_bytes_ucast:
  fixes v :: u64
  shows "le_bytes 4 (unat (ucast v :: u32)) = le_bytes 4 (unat v)"
    and "le_bytes 2 (unat (ucast v :: u16)) = le_bytes 2 (unat v)"
  using le_bytes_mod [of 4 "unat v"] le_bytes_mod [of 2 "unat v"]
  by (simp_all add: unat_ucast)

lemma dec_elem_le_bytes:
  assumes "intsetValueEncoding v \<le> e" and "valid_enc e"
  shows "dec_elem e (le_bytes e (unat v)) = v"
proof -
  have m: "of_nat (unat v mod 2 ^ 32) = (ucast v :: u32)" "of_nat (unat v mod 2 ^ 16) = (ucast v :: u16)"
    by (simp_all add: word_unat_eq_iff unat_of_nat unat_ucast)
  have "unat v mod 256 ^ 8 = unat v" using unat_less_numeral(4) [of v] by simp
  then show ?thesis
    using assms m scast_ucast_in_range [of v]
    by (auto simp: dec_elem_def valid_enc_def codec_simps intsetValueEncoding_def intset_enc_defs
        not_less split: if_splits)
qed

lemma GetEncoded_eq [mem_simps]:
  assumes "valid_enc e" and "0 \<le> pos"
  shows "intsetGetEncoded h is pos e = slot e (contents is) (nat pos)"
proof -
  note l = host_load_le [of _ h]
  have "rd (nat pos * n) n (contents is) \<bind> (\<lambda>x. F x) = map_option g (rd (nat pos * n) n (contents is))"
    if "\<And>x. length x = n \<Longrightarrow> F x = Some (g x)" for n F and g :: "bytes \<Rightarrow> u64"
    using that by (auto simp: map_option_case bind_eq_Some_conv rd_lengthD split: option.split)
  note step = this
  have "memrev64ifbe h 0 x \<bind> (\<lambda>y. Some (of_nat (host_nat h y))) = Some (of_nat (le_nat x) :: u64)"
    if "length x = 8" for x
    using l(3) [OF that] by (cases "memrev64ifbe h 0 x") auto
  moreover have "memrev32ifbe h 0 x \<bind> (\<lambda>y. Some (scast (of_nat (host_nat h y) :: u32)))
      = Some (scast (of_nat (le_nat x) :: u32) :: u64)" if "length x = 4" for x
    using l(2) [OF that] by (cases "memrev32ifbe h 0 x") auto
  moreover have "memrev16ifbe h 0 x \<bind> (\<lambda>y. Some (scast (of_nat (host_nat h y) :: u16)))
      = Some (scast (of_nat (le_nat x) :: u16) :: u64)" if "length x = 2" for x
    using l(1) [OF that] by (cases "memrev16ifbe h 0 x") auto
  ultimately show ?thesis
    using assms
    by (auto simp: intsetGetEncoded_def slot_def dec_elem_def valid_enc_def intset_enc_defs
        fun_eq_iff intro!: step)
qed

lemma Set_eq [mem_simps]:
  assumes "valid_enc (intset_enc h is)" and "0 \<le> pos"
  shows "intsetSet h is pos v =
    map_option (\<lambda>c. is\<lparr>contents := c\<rparr>)
      (wr (nat pos * intset_enc h is) (le_bytes (intset_enc h is) (unat v)) (contents is))"
proof -
  have step: "wr p (host_bytes h n w) b \<bind> (\<lambda>c. F c \<bind> (\<lambda>c. Some (f c))) =
      map_option f (wr p x b)"
    if "wr p (host_bytes h n w) b \<bind> F = wr p x b" for p n w b x F and f :: "bytes \<Rightarrow> intset"
    by (simp add: that [symmetric] map_option_case bind_assoc split: Option.bind_split option.split)
  show ?thesis
    using assms
    by (auto simp: intsetSet_def valid_enc_def intset_enc_defs
        step [OF host_store_le(1)] step [OF host_store_le(2)] step [OF host_store_le(3)]
        le_bytes_ucast)
qed

section \<open>Slots after writes and moves\<close>

lemma slot_le: "(i::nat) < j \<Longrightarrow> i * e + e \<le> j * e"
  by (metis Suc_leI add.commute mult_Suc mult_le_mono1)

lemma slot_wr_same:
  assumes "wr (j * e) (le_bytes e (unat v)) c = Some c'" and "valid_enc e"
    and "intsetValueEncoding v \<le> e"
  shows "slot e c' j = Some v"
  using rd_wr_same [OF assms(1)] dec_elem_le_bytes [OF assms(3,2)] by (simp add: slot_def)

lemma slot_wr_other:
  assumes "wr (j * e) x c = Some c'" and "length x = e" and "i * d + d \<le> j * e \<or> j * e + e \<le> i * d"
  shows "slot d c' i = slot d c i"
  unfolding slot_def by (subst rd_wr_other [OF assms(1)]) (use assms(2,3) in auto)

lemma slot_wr_neq:
  assumes "wr (j * e) x c = Some c'" and "length x = e" and "i \<noteq> j"
  shows "slot e c' i = slot e c i"
  using assms slot_le [of i j e] slot_le [of j i e]
  by (intro slot_wr_other [OF assms(1,2)]) (auto simp: neq_iff)

lemma slot_realloc:
  assumes "i * e + e \<le> n" and "i * e + e \<le> length c"
  shows "slot e (mem_realloc junk n c) i = slot e c i"
  using assms by (simp add: slot_def rd_mem_realloc)

lemma slot_move_in:
  assumes "mem_move (t * e) (s * e) (n * e) c = Some c'" and "t \<le> i" and "i < t + n"
  shows "slot e c' i = slot e c (s + (i - t))"
proof -
  have "t * e \<le> i * e" "i * e + e \<le> t * e + n * e"
    using assms(2,3) slot_le [of i "t + n" e] by (simp_all add: add_mult_distrib)
  then have "rd (i * e) e c' = rd (s * e + (i * e - t * e)) e c"
    by (rule rd_mem_move_in [OF assms(1)])
  also have "s * e + (i * e - t * e) = (s + (i - t)) * e"
    by (simp add: add_mult_distrib diff_mult_distrib)
  finally show ?thesis by (simp add: slot_def)
qed

lemma slot_move_out:
  assumes "mem_move (t * e) (s * e) (n * e) c = Some c'" and "i < t \<or> t + n \<le> i"
  shows "slot e c' i = slot e c i"
proof -
  have "i * e + e \<le> t * e \<or> t * e + n * e \<le> i * e"
    using assms(2) slot_le [of i t e] by (auto simp: add_mult_distrib [symmetric] mult_le_mono1)
  then show ?thesis by (simp add: slot_def rd_mem_move_out [OF assms(1)])
qed

section \<open>Representation\<close>

definition sorted_sint :: "u64 list \<Rightarrow> bool" where
  "sorted_sint vs \<longleftrightarrow> sorted_wrt (\<lambda>a b. sint a < sint b) vs"

definition intset_rep :: "endian \<Rightarrow> intset \<Rightarrow> u64 list \<Rightarrow> bool" where
  "intset_rep h is vs \<longleftrightarrow>
     valid_enc (intset_enc h is) \<and>
     unat (intset_len h is) = length vs \<and> length vs < 2 ^ 28 \<and>
     length (contents is) = length vs * intset_enc h is \<and>
     (\<forall>i < length vs. slot (intset_enc h is) (contents is) i = Some (vs ! i)) \<and>
     (\<forall>v \<in> set vs. intsetValueEncoding v \<le> intset_enc h is) \<and>
     sorted_sint vs"

lemma intset_repD:
  assumes "intset_rep h is vs"
  shows "valid_enc (intset_enc h is)" and "unat (intset_len h is) = length vs"
    and "length vs < 2 ^ 28" and "length (contents is) = length vs * intset_enc h is"
    and "i < length vs \<Longrightarrow> slot (intset_enc h is) (contents is) i = Some (vs ! i)"
    and "v \<in> set vs \<Longrightarrow> intsetValueEncoding v \<le> intset_enc h is"
    and "sorted_sint vs"
  using assms by (auto simp: intset_rep_def)

lemma rep_get:
  assumes "intset_rep h is vs" and "0 \<le> p" and "p < int (length vs)"
  shows "intsetGet_at h is p = Some (vs ! nat p)"
  using assms intset_repD(1,5) [OF assms(1)] by (simp add: intsetGet_at_def GetEncoded_eq nat_less_iff)

lemma sorted_sintD: "sorted_sint vs \<Longrightarrow> i < j \<Longrightarrow> j < length vs \<Longrightarrow> sint (vs ! i) < sint (vs ! j)"
  by (simp add: sorted_sint_def sorted_wrt_iff_nth_less)

lemma rep_len_sint:
  assumes "intset_rep h is vs"
  shows "sint (intset_len h is) = int (length vs)"
    and "vs \<noteq> [] \<Longrightarrow> sint (intset_len h is - 1) = int (length vs) - 1"
    and "vs = [] \<longleftrightarrow> intset_len h is = 0"
proof -
  note l = intset_repD(2,3) [OF assms]
  show "sint (intset_len h is) = int (length vs)"
    using l by (simp add: sint_small_32)
  show e: "vs = [] \<longleftrightarrow> intset_len h is = 0"
    using l(1) by (metis length_0_conv unat_eq_zero)
  assume "vs \<noteq> []"
  then have "unat (intset_len h is - 1) = length vs - 1"
    using e l by (simp add: unat_minus_one)
  then show "sint (intset_len h is - 1) = int (length vs) - 1"
    using l \<open>vs \<noteq> []\<close> by (simp add: sint_small_32 of_nat_diff Suc_le_eq)
qed

section \<open>Search is correct\<close>

text \<open>The position found: below it the smaller elements, at and above it the larger ones.\<close>

definition splits_at :: "u64 list \<Rightarrow> u64 \<Rightarrow> nat \<Rightarrow> bool" where
  "splits_at vs v p \<longleftrightarrow> p \<le> length vs \<and> (\<forall>i < p. sint (vs ! i) < sint v) \<and>
     (\<forall>i. p \<le> i \<longrightarrow> i < length vs \<longrightarrow> sint v < sint (vs ! i))"

declare intsetSearch_loop.simps [simp del]

lemma intsetSearch_loop_ok:
  assumes "intset_rep h is vs" and "0 \<le> lo" and "lo \<le> int (length vs)" and "hi < int (length vs)"
    and "\<forall>i. int i < lo \<longrightarrow> sint (vs ! i) < sint v"
    and "\<forall>i. hi < int i \<longrightarrow> i < length vs \<longrightarrow> sint v < sint (vs ! i)"
    and "cur \<noteq> v \<or> lo \<le> hi"
  shows "\<exists>l m c. intsetSearch_loop h is v lo hi mid cur = Some (l, m, c) \<and> 0 \<le> l \<and>
    (if c = v then 0 \<le> m \<and> m < int (length vs) \<and> vs ! nat m = v else splits_at vs v (nat l))"
  using assms
proof (induction h "is" v lo hi mid cur rule: intsetSearch_loop.induct)
  case (1 h "is" v lo hi mid cur)
  note n = intset_repD(3) [OF "1.prems"(1)] and srt = intset_repD(7) [OF "1.prems"(1)]
  show ?case
  proof (cases "lo \<le> hi")
    case False
    have "intsetSearch_loop h is v lo hi mid cur = Some (lo, mid, cur)"
      using False by (subst intsetSearch_loop.simps) simp
    moreover have "splits_at vs v (nat lo)"
      using "1.prems" False by (auto simp: splits_at_def)
    ultimately show ?thesis using "1.prems"(2,7) False by auto
  next
    case True
    let ?m = "(lo + hi) div 2"
    have m: "0 \<le> ?m" "lo \<le> ?m" "?m \<le> hi" "?m < int (length vs)"
      using True "1.prems"(2,4) by linarith+
    have s: "int_add lo hi = Some (lo + hi)"
      using "1.prems"(2,4) True n by (simp add: int_add_def)
    have g: "intsetGet_at h is ?m = Some (vs ! nat ?m)"
      by (rule rep_get [OF "1.prems"(1) m(1,4)])
    consider "sint v > sint (vs ! nat ?m)" | "sint v < sint (vs ! nat ?m)" | "v = vs ! nat ?m"
      using sint_inject [of v "vs ! nat ?m"] by linarith
    then show ?thesis
    proof cases
      case 1
      have "\<forall>i. int i < ?m + 1 \<longrightarrow> sint (vs ! i) < sint v"
      proof (intro allI impI)
        fix i assume "int i < ?m + 1"
        then have "i < nat ?m \<or> i = nat ?m" using m(1) by linarith
        then show "sint (vs ! i) < sint v"
          using 1 sorted_sintD [OF srt, of i "nat ?m"] m by (auto simp: nat_less_iff)
      qed
      moreover have "vs ! nat ?m \<noteq> v" using 1 by auto
      moreover have "intsetSearch_loop h is v lo hi mid cur =
          intsetSearch_loop h is v (?m + 1) hi ?m (vs ! nat ?m)"
        using True s g 1 by (subst intsetSearch_loop.simps) simp
      ultimately show ?thesis
        using "1.IH"(1) [OF True s g 1] "1.prems"(1,4,6) m by simp
    next
      case 2
      have "\<forall>i. ?m - 1 < int i \<longrightarrow> i < length vs \<longrightarrow> sint v < sint (vs ! i)"
      proof (intro allI impI)
        fix i assume "?m - 1 < int i" "i < length vs"
        then have "nat ?m < i \<or> i = nat ?m" using m(1) by linarith
        then show "sint v < sint (vs ! i)"
          using 2 sorted_sintD [OF srt, of "nat ?m" i] \<open>i < length vs\<close> by auto
      qed
      moreover have "vs ! nat ?m \<noteq> v" using 2 by auto
      moreover have "intsetSearch_loop h is v lo hi mid cur =
          intsetSearch_loop h is v lo (?m - 1) ?m (vs ! nat ?m)"
        using True s g 2 by (subst intsetSearch_loop.simps) simp
      moreover have "\<not> sint v > sint (vs ! nat ?m)" using 2 by simp
      ultimately show ?thesis
        using "1.IH"(2) [OF True s g _ 2] "1.prems"(1,2,3,5) m by simp
    next
      case 3
      then show ?thesis
        using True s g m "1.prems" by (subst intsetSearch_loop.simps) auto
    qed
  qed
qed

lemma splits_at_notin: "splits_at vs v p \<Longrightarrow> v \<notin> set vs"
  by (metis in_set_conv_nth less_irrefl not_le splits_at_def)

lemma intsetSearch_ok:
  assumes "intset_rep h is vs"
  obtains p where "intsetSearch h is v = Some (v \<in> set vs, of_nat p)"
    and "v \<in> set vs \<Longrightarrow> p < length vs \<and> vs ! p = v"
    and "v \<notin> set vs \<Longrightarrow> splits_at vs v p"
proof (cases "vs = []")
  case True
  then have "intsetSearch h is v = Some (False, of_nat 0)"
    using rep_len_sint(3) [OF assms] by (simp add: intsetSearch_def)
  with True that [of 0] show ?thesis by (simp add: splits_at_def)
next
  case False
  note len = rep_len_sint(1,2) [OF assms] and n0 = rep_len_sint(3) [OF assms]
    and srt = intset_repD(7) [OF assms] and wlen = intset_repD(2) [OF assms]
  have last: "intsetGet_at h is (sint (intset_len h is - 1)) = Some (vs ! (length vs - 1))"
    using rep_get [OF assms, of "int (length vs) - 1"] False
    by (simp add: len nat_diff_distrib Suc_le_eq)
  have first: "intsetGet_at h is 0 = Some (vs ! 0)"
    using rep_get [OF assms, of 0] False by simp
  consider "sint v > sint (vs ! (length vs - 1))" | "sint v < sint (vs ! 0)"
    | "sint v \<le> sint (vs ! (length vs - 1))" "sint (vs ! 0) \<le> sint v"
    by linarith
  then show ?thesis
  proof cases
    case 1
    have "sint (vs ! i) < sint v" if "i < length vs" for i
    proof (cases "i = length vs - 1")
      case True
      then show ?thesis using 1 by simp
    next
      case False
      then have "sint (vs ! i) < sint (vs ! (length vs - 1))"
        using that by (intro sorted_sintD [OF srt]) simp_all
      then show ?thesis using 1 by simp
    qed
    then have sp: "splits_at vs v (length vs)" by (simp add: splits_at_def)
    have "intsetSearch h is v = Some (False, intset_len h is)"
      using 1 False last n0 by (simp add: intsetSearch_def)
    moreover have "intset_len h is = of_nat (length vs)" by (simp flip: wlen)
    ultimately show ?thesis
      using that [of "length vs"] sp splits_at_notin [OF sp] by simp
  next
    case 2
    have gt: "sint v < sint (vs ! i)" if "i < length vs" for i
      using 2 sorted_sintD [OF srt, of 0 i] that by (cases "i = 0") auto
    moreover have "\<not> sint v > sint (vs ! (length vs - 1))"
      using gt [of "length vs - 1"] False by simp
    moreover have "splits_at vs v 0" using gt by (simp add: splits_at_def)
    ultimately show ?thesis
      using that [of 0] 2 False last first n0
      by (simp add: intsetSearch_def splits_at_notin)
  next
    case 3
    have "(-1::u64) \<noteq> v \<or> (0::int) \<le> int (length vs) - 1" using False by (simp add: Suc_le_eq)
    then obtain l m c where loop:
      "intsetSearch_loop h is v 0 (int (length vs) - 1) (-1) (-1) = Some (l, m, c)"
      and l: "0 \<le> l" and r: "if c = v then 0 \<le> m \<and> m < int (length vs) \<and> vs ! nat m = v
        else splits_at vs v (nat l)"
      using intsetSearch_loop_ok [OF assms, of 0 "int (length vs) - 1" v "-1" "-1"] by auto
    have "intsetSearch h is v = Some (if v = c then (True, of_int m) else (False, of_int l))"
      using 3 False loop last first n0 len by (simp add: intsetSearch_def)
    then show ?thesis
      using that [of "nat m"] that [of "nat l"] r l nth_mem [of "nat m" vs] splits_at_notin
      by (cases "c = v") (auto simp: of_nat_nat nat_less_iff)
  qed
qed

section \<open>Updates are correct\<close>

lemma new_rep: "intset_rep h (intsetNew h) []"
  by (simp add: intset_rep_def intsetNew_def intset_enc_def intset_len_def valid_enc_def
      intset_enc_defs sorted_sint_def)

lemma enc_field_simps [simp]:
  "intset_enc h (is\<lparr>contents := c\<rparr>) = intset_enc h is"
  "intset_enc h (is\<lparr>len_field := l\<rparr>) = intset_enc h is"
  "intset_len h (is\<lparr>contents := c\<rparr>) = intset_len h is"
  "intset_len h (is\<lparr>encoding := e\<rparr>) = intset_len h is"
  "intset_len h (is\<lparr>len_field := intrev32ifbe h n\<rparr>) = n"
  "intset_enc h (is\<lparr>encoding := intrev32ifbe h (of_nat k)\<rparr>) = k mod 2 ^ 32"
  by (simp_all add: intset_enc_def intset_len_def unat_of_nat)

lemma resize_eq:
  assumes "unat n * intset_enc h is < 2 ^ 32"
  shows "intsetResize h junk is n =
    is\<lparr>contents := mem_realloc junk (unat n * intset_enc h is) (contents is)\<rparr>"
  using assms by (simp add: intsetResize_def intset_enc_def unat_word_ariths)

lemma valid_enc_le: "valid_enc e \<Longrightarrow> e \<le> 8" and valid_enc_pos: "valid_enc e \<Longrightarrow> 0 < e"
  by (auto simp: valid_enc_def)

lemma unat_Suc_len: "unat (l :: u32) = n \<Longrightarrow> n < 2 ^ 28 \<Longrightarrow> unat (l + 1) = n + 1"
  by (simp add: unat_word_ariths)

text \<open>Inserting at a split position keeps the list sorted and is \<^const>\<open>insort_key\<close>.\<close>

lemma splits_at_insort:
  assumes "splits_at vs v p" and "sorted_sint vs"
  shows "take p vs @ v # drop p vs = insort_key sint v vs"
proof -
  have p: "p \<le> length vs" using assms(1) by (simp add: splits_at_def)
  have "insort_key sint v (ws @ us) = ws @ v # us"
    if "\<forall>w \<in> set ws. sint w < sint v" and "\<forall>u \<in> set us. sint v < sint u" for ws us
    using that by (induction ws; cases us) auto
  moreover have "\<forall>w \<in> set (take p vs). sint w < sint v"
    using assms(1) by (auto simp: splits_at_def in_set_conv_nth)
  moreover have "\<forall>u \<in> set (drop p vs). sint v < sint u"
    using assms(1) by (auto simp: splits_at_def in_set_conv_nth)
  ultimately have "insort_key sint v (take p vs @ drop p vs) = take p vs @ v # drop p vs"
    by blast
  then show ?thesis by simp
qed

lemma sorted_insort_sint:
  assumes "sorted_sint vs" and "v \<notin> set vs"
  shows "sorted_sint (insort_key sint v vs)"
proof -
  have "sorted_wrt (\<lambda>a b. sint a < sint b) (insort_key sint v vs)"
    using assms unfolding sorted_sint_def
    by (induction vs) (auto simp: set_insort_key sint_inject [symmetric])
  then show ?thesis by (simp add: sorted_sint_def)
qed

lemma upgrade_loop_ok:
  assumes "valid_enc cur" and "valid_enc (intset_enc h is)" and "cur \<le> intset_enc h is"
    and "length (contents is) = (length vs + 1) * intset_enc h is" and "n \<le> length vs"
    and "p \<le> 1" and "\<forall>i < n. slot cur (contents is) i = Some (vs ! i)"
    and "\<forall>i. n \<le> i \<longrightarrow> i < length vs \<longrightarrow> slot (intset_enc h is) (contents is) (i + p) = Some (vs ! i)"
    and "\<forall>v \<in> set vs. intsetValueEncoding v \<le> intset_enc h is"
  shows "\<exists>c. intsetUpgrade_loop h n (int p) cur is = Some (is\<lparr>contents := c\<rparr>) \<and>
     length c = length (contents is) \<and>
     (\<forall>i < length vs. slot (intset_enc h is) c (i + p) = Some (vs ! i))"
  using assms
proof (induction n arbitrary: "is")
  case 0
  then show ?case by (auto intro!: exI [of _ "contents is"])
next
  case (Suc k)
  let ?e = "intset_enc h is" and ?c = "contents is"
  have k: "k < length vs" using Suc.prems(5) by simp
  have get: "intsetGetEncoded h is (int k) cur = Some (vs ! k)"
    using Suc.prems(1,7) by (simp add: GetEncoded_eq)
  have "(k + p) * ?e + ?e \<le> length ?c"
    using k Suc.prems(4,6) slot_le [of "k + p" "length vs + 1" ?e] by simp
  then obtain c where w: "wr ((k + p) * ?e) (le_bytes ?e (unat (vs ! k))) ?c = Some c"
    using wr_ok [of "(k + p) * ?e" "le_bytes ?e (unat (vs ! k))" ?c] by auto
  have set: "intsetSet h is (int k + int p) (vs ! k) = Some (is\<lparr>contents := c\<rparr>)"
    using Suc.prems(2) w by (simp add: Set_eq nat_int_add)
  have old: "slot cur c i = Some (vs ! i)" if "i < k" for i
  proof -
    have "i * cur + cur \<le> k * cur" using that by (rule slot_le)
    also have "\<dots> \<le> (k + p) * ?e" using Suc.prems(3) by (intro mult_le_mono) simp_all
    finally show ?thesis
      using slot_wr_other [OF w, of i cur] Suc.prems(7) that by simp
  qed
  have new: "slot ?e c (i + p) = Some (vs ! i)" if "k \<le> i" "i < length vs" for i
  proof (cases "i = k")
    case True
    then show ?thesis
      using slot_wr_same [OF w] Suc.prems(2,9) k by simp
  next
    case False
    then show ?thesis
      using slot_wr_neq [OF w, of "i + p"] Suc.prems(8) that by simp
  qed
  from Suc.IH [of "is\<lparr>contents := c\<rparr>"] show ?case
    using Suc.prems old new wr_lengthD [OF w] get set by auto
qed

lemma encoding_cases:
  "intsetValueEncoding v = 2 \<or> intsetValueEncoding v = 4 \<or> intsetValueEncoding v = 8"
  by (simp add: intsetValueEncoding_def intset_enc_defs)

lemma valid_value_enc: "valid_enc (intsetValueEncoding v)"
  using encoding_cases by (simp add: valid_enc_def)

text \<open>A value that needs a wider encoding than another value lies outside its range.\<close>

lemma wider_value:
  assumes "intsetValueEncoding w < intsetValueEncoding v"
  shows "if sint v < 0 then sint v < sint w else sint w < sint v"
  using assms by (auto simp: intsetValueEncoding_def intset_enc_defs split: if_splits)

lemma wider_splits:
  assumes "\<forall>w \<in> set vs. intsetValueEncoding w < intsetValueEncoding v"
  shows "splits_at vs v (if sint v < 0 then 0 else length vs)"
  using assms wider_value by (fastforce simp: splits_at_def)

lemma insort_rep:
  assumes "sorted_sint vs" and "splits_at vs v p" and "length vs + 1 < 2 ^ 28"
    and "valid_enc e" and "intset_enc h is = e" and "unat (intset_len h is) = length vs + 1"
    and "length (contents is) = (length vs + 1) * e"
    and "\<And>i. i < p \<Longrightarrow> slot e (contents is) i = Some (vs ! i)"
    and "slot e (contents is) p = Some v"
    and "\<And>i. p \<le> i \<Longrightarrow> i < length vs \<Longrightarrow> slot e (contents is) (i + 1) = Some (vs ! i)"
    and "\<forall>w \<in> set (v # vs). intsetValueEncoding w \<le> e"
  shows "intset_rep h is (insort_key sint v vs)"
proof -
  have eq: "insort_key sint v vs = take p vs @ v # drop p vs"
    using splits_at_insort [OF assms(2,1)] by simp
  have p: "p \<le> length vs" using assms(2) by (simp add: splits_at_def)
  have slots: "slot e (contents is) i = Some ((take p vs @ v # drop p vs) ! i)" if "i < length vs + 1" for i
  proof -
    consider "i < p" | "i = p" | j where "i = j + 1" "p \<le> j"
      by (metis Suc_eq_plus1 less_Suc_eq_le less_antisym not_less_eq old.nat.exhaust zero_less_Suc linorder_neqE_nat less_imp_Suc_add le_add1)
    then show ?thesis
      using assms(8-10) that p by cases (auto simp: nth_append Suc_diff_le)
  qed
  have "sorted_sint (insort_key sint v vs)"
    using assms(1) splits_at_notin [OF assms(2)] by (rule sorted_insort_sint)
  moreover have "\<forall>i < length vs + 1. slot e (contents is) i = Some (insort_key sint v vs ! i)"
    using slots by (simp add: eq)
  ultimately show ?thesis
    using assms p by (simp add: intset_rep_def set_insort_key)
qed

lemma intsetUpgradeAndAdd_ok:
  assumes rep: "intset_rep h is vs" and cap: "length vs + 1 < 2 ^ 28"
    and wide: "intsetValueEncoding v > intset_enc h is"
  obtains is' where "intsetUpgradeAndAdd h junk is v = Some is'"
    and "intset_rep h is' (insort_key sint v vs)" and "v \<notin> set vs"
proof -
  let ?e = "intsetValueEncoding v" and ?n = "length vs" and ?old = "intset_enc h is"
  define p where "p = (if sint v < 0 then 1 else 0 :: nat)"
  note len = rep_len_sint(1) [OF rep] and wlen = intset_repD(2) [OF rep]
  have e: "valid_enc ?e" and e8: "?e \<le> 8" using valid_value_enc valid_enc_le by auto
  have Sn: "unat (intset_len h is + 1) = ?n + 1"
    using unat_Suc_len wlen intset_repD(3) [OF rep] by blast
  have lt: "\<forall>w \<in> set vs. intsetValueEncoding w < ?e"
    using intset_repD(6) [OF rep] wide by (meson le_less_trans)
  note sp = wider_splits [OF lt]
  have sz: "(?n + 1) * ?e < 2 ^ 32"
  proof -
    have "(?n + 1) * ?e \<le> 2 ^ 28 * 8" using cap e8 by (intro mult_le_mono) simp_all
    then show ?thesis by simp
  qed
  define is1 where "is1 = is\<lparr>encoding := intrev32ifbe h (of_nat ?e)\<rparr>"
  have is1 [simp]: "intset_enc h is1 = ?e" "intset_len h is1 = intset_len h is"
    "contents is1 = contents is"
    using e8 by (simp_all add: is1_def)
  define is2 where "is2 = intsetResize h junk is1 (intset_len h is1 + 1)"
  have is2: "is2 = is1\<lparr>contents := mem_realloc junk ((?n + 1) * ?e) (contents is)\<rparr>"
    using sz Sn by (simp add: is2_def resize_eq)
  have is2_simps: "intset_enc h is2 = ?e" "intset_len h is2 = intset_len h is"
    "length (contents is2) = (?n + 1) * ?e"
    by (simp_all add: is2)
  have fold: "intsetResize h junk (is\<lparr>encoding := intrev32ifbe h (of_nat ?e)\<rparr>)
      (intset_len h is + 1) = is2"
    by (simp add: is2_def is1_def)
  have old: "\<forall>i < ?n. slot ?old (contents is2) i = Some (vs ! i)"
  proof (intro allI impI)
    fix i assume i: "i < ?n"
    then have "i * ?old + ?old \<le> ?n * ?old" by (rule slot_le)
    moreover have "?n * ?old \<le> (?n + 1) * ?e" using wide by (intro mult_le_mono) simp_all
    ultimately have "slot ?old (contents is2) i = slot ?old (contents is) i"
      unfolding is2 using intset_repD(4) [OF rep] by (simp add: slot_realloc)
    then show "slot ?old (contents is2) i = Some (vs ! i)" using intset_repD(5) [OF rep i] by simp
  qed
  have "p \<le> 1" by (simp add: p_def)
  then obtain c where loop: "intsetUpgrade_loop h ?n (int p) ?old is2 = Some (is2\<lparr>contents := c\<rparr>)"
    and lc: "length c = (?n + 1) * ?e" and c: "\<forall>i < ?n. slot ?e c (i + p) = Some (vs ! i)"
    using upgrade_loop_ok [of ?old h is2 vs ?n p] intset_repD(1) [OF rep] e wide old lt
    by (auto simp: is2_simps less_imp_le)
  let ?q = "if p = 1 then 0 else ?n"
  have "?q * ?e + ?e \<le> length c" by (simp add: lc)
  then obtain c' where w: "wr (?q * ?e) (le_bytes ?e (unat v)) c = Some c'"
    using wr_ok [of "?q * ?e" "le_bytes ?e (unat v)" c] by auto
  let ?is' = "is2\<lparr>contents := c', len_field := intrev32ifbe h (intset_len h is + 1)\<rparr>"
  have up: "intsetUpgradeAndAdd h junk is v = Some ?is'"
    using loop w e len
    by (simp add: intsetUpgradeAndAdd_def fold p_def Set_eq is2_simps split: if_splits)
  have "intset_rep h ?is' (insort_key sint v vs)"
  proof (rule insort_rep [OF intset_repD(7) [OF rep] sp cap e])
    show "unat (intset_len h ?is') = ?n + 1" using Sn by simp
    show "length (contents ?is') = (?n + 1) * ?e" using wr_lengthD [OF w] lc by simp
    show "slot ?e (contents ?is') (if sint v < 0 then 0 else ?n) = Some v"
      using slot_wr_same [OF w e] by (simp add: p_def split: if_splits)
    show "slot ?e (contents ?is') i = Some (vs ! i)" if "i < (if sint v < 0 then 0 else ?n)" for i
      using c slot_wr_neq [OF w, of i] that by (auto simp: p_def split: if_splits)
    show "slot ?e (contents ?is') (i + 1) = Some (vs ! i)"
      if "(if sint v < 0 then 0 else ?n) \<le> i" "i < ?n" for i
      using c slot_wr_neq [OF w, of "i + 1"] that by (auto simp: p_def split: if_splits)
  qed (use lt in \<open>auto simp: is2_simps less_imp_le\<close>)
  then show ?thesis using that up splits_at_notin [OF sp] by blast
qed

lemma intsetMoveTail_ok:
  assumes "valid_enc (intset_enc h is)" and "unat (intset_len h is) = n" and "n < 2 ^ 28"
    and "unat from \<le> n"
    and "(unat to + (n - unat from)) * intset_enc h is \<le> length (contents is)"
    and "n * intset_enc h is \<le> length (contents is)"
  obtains c where "intsetMoveTail h is from to = Some (is\<lparr>contents := c\<rparr>)"
    and "mem_move (unat to * intset_enc h is) (unat from * intset_enc h is)
           ((n - unat from) * intset_enc h is) (contents is) = Some c"
proof -
  let ?e = "intset_enc h is"
  have e: "(if ?e = INTSET_ENC_INT64 then 8 else if ?e = INTSET_ENC_INT32 then 4 else 2) = ?e"
    using assms(1) by (auto simp: valid_enc_def intset_enc_defs)
  have "(n - unat from) * ?e \<le> 2 ^ 28 * 8"
    using assms(3) valid_enc_le [OF assms(1)] by (intro mult_le_mono) simp_all
  then have "(n - unat from) * ?e < 2 ^ 32" by simp
  moreover have "unat (intset_len h is - from) = n - unat from"
    using assms(2,4) by (simp add: unat_sub word_le_nat_alt)
  moreover have "unat (of_nat ?e :: u32) = ?e"
    using valid_enc_le [OF assms(1)] by (simp add: unat_of_nat)
  ultimately have b: "unat ((intset_len h is - from) * of_nat ?e) = (n - unat from) * ?e"
    by (simp add: unat_word_ariths)
  have "unat from * ?e + (n - unat from) * ?e \<le> length (contents is)"
    using assms(4,6) by (simp flip: add_mult_distrib)
  moreover have "unat to * ?e + (n - unat from) * ?e \<le> length (contents is)"
    using assms(5) by (simp add: add_mult_distrib)
  ultimately obtain c where "mem_move (unat to * ?e) (unat from * ?e) ((n - unat from) * ?e)
      (contents is) = Some c"
    using mem_move_ok by blast
  then show ?thesis
    using that by (simp add: intsetMoveTail_def e b)
qed

lemma intsetAdd_ok:
  assumes rep: "intset_rep h is vs" and cap: "length vs + 1 < 2 ^ 28"
  obtains is' where "intsetAdd h junk is v = Some (is', v \<notin> set vs)"
    and "intset_rep h is' (if v \<in> set vs then vs else insort_key sint v vs)"
proof (cases "intsetValueEncoding v > intset_enc h is")
  case True
  then show ?thesis
    using that intsetUpgradeAndAdd_ok [OF rep cap True, of junk] by (auto simp: intsetAdd_def)
next
  case False
  let ?e = "intset_enc h is" and ?n = "length vs"
  note wlen = intset_repD(2) [OF rep] and e = intset_repD(1) [OF rep]
  obtain p where search: "intsetSearch h is v = Some (v \<in> set vs, of_nat p)"
    and p: "v \<in> set vs \<Longrightarrow> p < ?n \<and> vs ! p = v" "v \<notin> set vs \<Longrightarrow> splits_at vs v p"
    using intsetSearch_ok [OF rep] by blast
  show ?thesis
  proof (cases "v \<in> set vs")
    case True
    then show ?thesis using that [of "is"] False search rep by (simp add: intsetAdd_def)
  next
    case new: False
    note sp = p(2) [OF new]
    have pn: "p \<le> ?n" using sp by (simp add: splits_at_def)
    have up: "unat (of_nat p :: u32) = p" using pn cap by (simp add: unat_of_nat)
    have up1: "unat (of_nat p + 1 :: u32) = p + 1" using pn cap up by (simp add: unat_word_ariths)
    have Sn: "unat (intset_len h is + 1) = ?n + 1"
      using unat_Suc_len wlen intset_repD(3) [OF rep] by blast
    have "(?n + 1) * ?e \<le> 2 ^ 28 * 8"
      using cap valid_enc_le [OF e] by (intro mult_le_mono) simp_all
    then have sz: "(?n + 1) * ?e < 2 ^ 32" by simp
    define is1 where "is1 = is\<lparr>contents := mem_realloc junk ((?n + 1) * ?e) (contents is)\<rparr>"
    have res: "intsetResize h junk is (intset_len h is + 1) = is1"
      using sz Sn by (simp add: resize_eq is1_def)
    have is1: "intset_enc h is1 = ?e" "intset_len h is1 = intset_len h is"
      "length (contents is1) = (?n + 1) * ?e" by (simp_all add: is1_def)
    have slots1: "slot ?e (contents is1) i = Some (vs ! i)" if "i < ?n" for i
      using intset_repD(4,5) [OF rep] slot_le [OF that, of ?e] that
      by (simp add: is1_def slot_realloc)
    have lt: "of_nat p < intset_len h is \<longleftrightarrow> p < ?n"
      using up wlen by (simp add: word_less_nat_alt)
    obtain c where mv: "(if of_nat p < intset_len h is
        then intsetMoveTail h is1 (of_nat p) (of_nat p + 1) else Some is1) = Some (is1\<lparr>contents := c\<rparr>)"
      and c: "length c = (?n + 1) * ?e" "\<And>i. i < p \<Longrightarrow> slot ?e c i = Some (vs ! i)"
        "\<And>i. p \<le> i \<Longrightarrow> i < ?n \<Longrightarrow> slot ?e c (i + 1) = Some (vs ! i)"
    proof (cases "p < ?n")
      case True
      obtain c where m: "intsetMoveTail h is1 (of_nat p) (of_nat p + 1) = Some (is1\<lparr>contents := c\<rparr>)"
        and mm: "mem_move ((p + 1) * ?e) (p * ?e) ((?n - p) * ?e) (contents is1) = Some c"
        using intsetMoveTail_ok [of h is1 ?n "of_nat p" "of_nat p + 1"] e is1 wlen up up1 True cap
        by auto
      show ?thesis
      proof (rule that)
        show "length c = (?n + 1) * ?e" using mem_move_lengthD [OF mm] is1(3) by simp
        show "slot ?e c i = Some (vs ! i)" if "i < p" for i
          using slot_move_out [OF mm, of i] slots1 [of i] that True by simp
        show "slot ?e c (i + 1) = Some (vs ! i)" if "p \<le> i" "i < ?n" for i
          using slot_move_in [OF mm, of "i + 1"] slots1 [of i] that by simp
      qed (use m lt True in simp)
    next
      case False
      with that [of "contents is1"] is1 lt slots1 pn show ?thesis by (auto simp: is1_def)
    qed
    have "p * ?e + ?e \<le> length c" using pn c(1) slot_le [of p "?n + 1" ?e] by simp
    then obtain c' where w: "wr (p * ?e) (le_bytes ?e (unat v)) c = Some c'"
      using wr_ok [of "p * ?e" "le_bytes ?e (unat v)" c] by auto
    have spos: "nat (sint (of_nat p :: u32)) = p" "0 \<le> sint (of_nat p :: u32)"
      using up pn cap by (simp_all add: sint_small_32)
    let ?is' = "is1\<lparr>contents := c', len_field := intrev32ifbe h (intset_len h is + 1)\<rparr>"
    have "intsetSet h (is1\<lparr>contents := c\<rparr>) (sint (of_nat p :: u32)) v = Some (is1\<lparr>contents := c'\<rparr>)"
      using w e is1 spos by (simp add: Set_eq)
    then have "intsetAdd h junk is v = Some (?is', True)"
      using False new search mv is1 by (simp add: intsetAdd_def res)
    moreover have "intset_rep h ?is' (insort_key sint v vs)"
    proof (rule insort_rep [OF intset_repD(7) [OF rep] sp cap e])
      show "slot ?e (contents ?is') p = Some v"
        using slot_wr_same [OF w e] False by simp
      show "slot ?e (contents ?is') i = Some (vs ! i)" if "i < p" for i
        using slot_wr_neq [OF w, of i] c(2) that by simp
      show "slot ?e (contents ?is') (i + 1) = Some (vs ! i)" if "p \<le> i" "i < ?n" for i
        using slot_wr_neq [OF w, of "i + 1"] c(3) [of i] that by simp
      show "length (contents ?is') = (?n + 1) * ?e" using wr_lengthD [OF w] c(1) by simp
      show "\<forall>w \<in> set (v # vs). intsetValueEncoding w \<le> ?e"
        using False intset_repD(6) [OF rep] by auto
    qed (use Sn is1 in simp_all)
    ultimately show ?thesis using that new by simp
  qed
qed

lemma remove1_at:
  assumes "sorted_sint vs" and "p < length vs"
  shows "remove1 (vs ! p) vs = take p vs @ drop (p + 1) vs"
proof -
  have "vs ! p \<notin> set (take p vs)"
    using sorted_sintD [OF assms(1), of _ p] assms(2) by (fastforce simp: in_set_conv_nth)
  then have "remove1 (vs ! p) (take p vs @ vs ! p # drop (p + 1) vs) = take p vs @ drop (p + 1) vs"
    by (simp add: remove1_append)
  then show ?thesis using id_take_nth_drop [OF assms(2)] by simp
qed

lemma sorted_remove1_sint: "sorted_sint vs \<Longrightarrow> sorted_sint (remove1 v vs)"
  unfolding sorted_sint_def by (induction vs) (auto dest: notin_set_remove1 in_set_remove1)

text \<open>The tail of the bytes moves down over the element at \<open>p\<close>.\<close>

lemma remove_tail_ok:
  assumes rep: "intset_rep h is vs" and p: "p < length vs"
  obtains c where "(if of_nat p < intset_len h is - 1
       then intsetMoveTail h is (of_nat p + 1) (of_nat p) else Some is) = Some (is\<lparr>contents := c\<rparr>)"
    and "length c = length vs * intset_enc h is"
    and "\<And>i. i < p \<Longrightarrow> slot (intset_enc h is) c i = Some (vs ! i)"
    and "\<And>i. p < i \<Longrightarrow> i < length vs \<Longrightarrow> slot (intset_enc h is) c (i - 1) = Some (vs ! i)"
proof -
  let ?e = "intset_enc h is" and ?n = "length vs"
  note wlen = intset_repD(2) [OF rep] and e = intset_repD(1) [OF rep] and n = intset_repD(3) [OF rep]
    and lc = intset_repD(4) [OF rep] and slots = intset_repD(5) [OF rep]
  have up: "unat (of_nat p :: u32) = p" using p n by (simp add: unat_of_nat)
  have up1: "unat (of_nat p + 1 :: u32) = p + 1" using p n up by (simp add: unat_word_ariths)
  have "intset_len h is \<noteq> 0" using wlen p by auto
  then have "unat (intset_len h is - 1) = ?n - 1" using wlen by (simp add: unat_minus_one)
  then have lt: "of_nat p < intset_len h is - 1 \<longleftrightarrow> p < ?n - 1"
    using up by (simp add: word_less_nat_alt)
  show ?thesis
  proof (cases "p < ?n - 1")
    case True
    have "(p + (?n - (p + 1))) * ?e \<le> length (contents is)"
      unfolding lc using p by (intro mult_le_mono) simp_all
    then obtain c where m: "intsetMoveTail h is (of_nat p + 1) (of_nat p) = Some (is\<lparr>contents := c\<rparr>)"
      and mm: "mem_move (p * ?e) ((p + 1) * ?e) ((?n - (p + 1)) * ?e) (contents is) = Some c"
      using intsetMoveTail_ok [of h "is" ?n "of_nat p + 1" "of_nat p"] e wlen n up up1 p lc
      by auto
    show ?thesis
    proof (rule that)
      show "length c = ?n * ?e" using mem_move_lengthD [OF mm] lc by simp
      show "slot ?e c i = Some (vs ! i)" if "i < p" for i
        using slot_move_out [OF mm, of i] slots that p by simp
      show "slot ?e c (i - 1) = Some (vs ! i)" if "p < i" "i < ?n" for i
        using slot_move_in [OF mm, of "i - 1"] slots [of i] that by (simp add: Suc_le_eq)
    qed (use m lt True in simp)
  next
    case False
    with that [of "contents is"] lc lt slots p show ?thesis by auto
  qed
qed

lemma intsetRemove_ok:
  assumes rep: "intset_rep h is vs"
  obtains is' where "intsetRemove h junk is v = Some (is', v \<in> set vs)"
    and "intset_rep h is' (remove1 v vs)"
proof (cases "v \<in> set vs")
  case False
  obtain p where "intsetSearch h is v = Some (v \<in> set vs, of_nat p)"
    using intsetSearch_ok [OF rep] by blast
  then show ?thesis
    using that [of "is"] False rep by (simp add: intsetRemove_def remove1_idem)
next
  case True
  let ?e = "intset_enc h is" and ?n = "length vs"
  note wlen = intset_repD(2) [OF rep] and e = intset_repD(1) [OF rep] and n = intset_repD(3) [OF rep]
  obtain p where search: "intsetSearch h is v = Some (True, of_nat p)" and p: "p < ?n" "vs ! p = v"
    using intsetSearch_ok [OF rep] True by metis
  obtain c where mv: "(if of_nat p < intset_len h is - 1
       then intsetMoveTail h is (of_nat p + 1) (of_nat p) else Some is) = Some (is\<lparr>contents := c\<rparr>)"
    and lc: "length c = ?n * ?e" and c: "\<And>i. i < p \<Longrightarrow> slot ?e c i = Some (vs ! i)"
      "\<And>i. p < i \<Longrightarrow> i < ?n \<Longrightarrow> slot ?e c (i - 1) = Some (vs ! i)"
    using remove_tail_ok [OF rep p(1)] by blast
  have "intset_len h is \<noteq> 0" using wlen p by auto
  then have wn: "unat (intset_len h is - 1) = ?n - 1" using wlen by (simp add: unat_minus_one)
  have "(?n - 1) * ?e \<le> 2 ^ 28 * 8"
    using n valid_enc_le [OF e] by (intro mult_le_mono) simp_all
  then have res: "intsetResize h junk (is\<lparr>contents := c\<rparr>) (intset_len h is - 1) =
      is\<lparr>contents := mem_realloc junk ((?n - 1) * ?e) c\<rparr>"
    using resize_eq [of "intset_len h is - 1" h "is\<lparr>contents := c\<rparr>" junk] wn by simp
  let ?is' = "is\<lparr>contents := mem_realloc junk ((?n - 1) * ?e) c,
      len_field := intrev32ifbe h (intset_len h is - 1)\<rparr>"
  have keep: "slot ?e (mem_realloc junk ((?n - 1) * ?e) c) i = slot ?e c i" if "i < ?n - 1" for i
    using slot_le [OF that, of ?e] lc p slot_le [of i ?n ?e] that by (intro slot_realloc) simp_all
  have r: "remove1 v vs = take p vs @ drop (p + 1) vs"
    using remove1_at [OF intset_repD(7) [OF rep] p(1)] p(2) by simp
  have "\<forall>i < ?n - 1. slot ?e (contents ?is') i = Some (remove1 v vs ! i)"
    using keep c(1) c(2) [of "Suc _"] p(1) by (auto simp: r nth_append not_less)
  then have "intset_rep h ?is' (remove1 v vs)"
    using rep wn True sorted_remove1_sint [of vs v] set_remove1_subset [of v vs]
    by (auto simp: intset_rep_def length_remove1)
  moreover have "intsetValueEncoding v \<le> ?e" using intset_repD(6) [OF rep True] .
  then have "intsetRemove h junk is v = Some (?is', True)"
    using search mv res by (simp add: intsetRemove_def)
  ultimately show ?thesis using that True by simp
qed

lemma intsetFind_ok: "intset_rep h is vs \<Longrightarrow> intsetFind h is v = Some (v \<in> set vs)"
  using intsetSearch_ok [of h "is" vs v] intset_repD(6) [of h "is" vs v]
  by (auto simp: intsetFind_def)

lemma rep_get_word:
  fixes pos :: u32
  assumes "intset_rep h is vs" and "unat pos < length vs"
  shows "intsetGet_at h is (sint pos) = Some (vs ! unat pos)"
proof -
  have "sint pos = int (unat pos)"
    using assms intset_repD(3) [OF assms(1)] by (intro sint_small_32) simp
  then show ?thesis using rep_get [OF assms(1), of "int (unat pos)"] assms(2)
    by (simp only: nat_int of_nat_less_iff of_nat_0_le_iff)
qed

lemma intsetGet_ok:
  assumes "intset_rep h is vs"
  shows "intsetGet h is pos = Some (if unat pos < length vs then Some (vs ! unat pos) else None)"
  using intset_repD(2) [OF assms] rep_get_word [OF assms, of pos]
  by (simp add: intsetGet_def word_less_nat_alt)

lemma intsetRandom_ok:
  assumes "intset_rep h is vs" and "vs \<noteq> []"
  shows "\<exists>v \<in> set vs. intsetRandom h is r = Some v"
proof -
  let ?i = "r mod intset_len h is"
  have nz: "intset_len h is \<noteq> 0" using rep_len_sint(3) [OF assms(1)] assms(2) by simp
  then have "?i < intset_len h is" by (simp add: word_mod_less_divisor word_neq_0_conv)
  then have "unat ?i < length vs" using intset_repD(2) [OF assms(1)] by (simp add: word_less_nat_alt)
  then show ?thesis
    using rep_get_word [OF assms(1), of ?i] nz by (auto simp: intsetRandom_def)
qed

lemma sorted_sint_distinct: "sorted_sint vs \<Longrightarrow> distinct vs"
  unfolding sorted_sint_def by (induction vs) auto

lemma intsetLen_ok: "intset_rep h is vs \<Longrightarrow> unat (intsetLen h is) = card (set vs)"
  using intset_repD(2,7) [of h "is" vs]
  by (simp add: intsetLen_def sorted_sint_distinct distinct_card)

section \<open>Properties\<close>

text \<open>C4: adding an integer to a set that represents the sorted list \<open>vs\<close> never leaves the
  buffer, reports whether the integer is new, and gives the set that represents the sorted
  insertion, upgrading the element width when the value needs it, for any content of fresh
  memory and on both hosts.\<close>

theorem intsetAdd_refines:
  assumes "intset_rep h is vs" and "length vs + 1 < 2 ^ 28"
  shows "\<exists>is'. intsetAdd h junk is v = Some (is', v \<notin> set vs) \<and>
    intset_rep h is' (if v \<in> set vs then vs else insort_key sint v vs)"
  using intsetAdd_ok [OF assms] by metis

lemma intset_5_rep:
  obtains is' where "intsetAdd h junk (intsetNew h) 5 = Some (is', True)" and "intset_rep h is' [5]"
  using intsetAdd_ok [OF new_rep, where h = h and junk = junk and v = 5] by auto

theorem intsetAdd_refines_witness:
  "\<exists>is'. intsetAdd Big_Endian (\<lambda>_. 7) (intsetNew Big_Endian) 70000 = Some (is', True) \<and>
    intset_rep Big_Endian is' [70000]"
  using intsetAdd_refines [OF new_rep, where h = Big_Endian and junk = "\<lambda>_. 7" and v = 70000] by simp

text \<open>C26: removing an integer never leaves the buffer, reports whether the integer was there,
  and gives the set without it.\<close>

theorem intsetRemove_refines:
  assumes "intset_rep h is vs"
  shows "\<exists>is'. intsetRemove h junk is v = Some (is', v \<in> set vs) \<and> intset_rep h is' (remove1 v vs)"
  using intsetRemove_ok [OF assms] by metis

theorem intsetRemove_refines_witness:
  "\<exists>is is'. intsetAdd Little_Endian (\<lambda>_. 0) (intsetNew Little_Endian) 5 = Some (is, True) \<and>
     intsetRemove Little_Endian (\<lambda>_. 0) is 5 = Some (is', True) \<and> intset_rep Little_Endian is' []"
proof -
  obtain s where s: "intsetAdd Little_Endian (\<lambda>_. 0) (intsetNew Little_Endian) 5 = Some (s, True)"
    "intset_rep Little_Endian s [5]" by (rule intset_5_rep)
  show ?thesis using intsetRemove_refines [OF s(2), where junk = "\<lambda>_. 0" and v = 5] s(1) by simp
qed

text \<open>The binary search stays inside the buffer and without signed overflow, returns 1
  exactly for a member, with its position, and otherwise the position that splits the smaller
  elements from the larger ones.\<close>

lemma intsetSearch_correct:
  assumes "intset_rep h is vs"
  shows "\<exists>p. intsetSearch h is v = Some (v \<in> set vs, of_nat p) \<and>
    (if v \<in> set vs then p < length vs \<and> vs ! p = v else splits_at vs v p)"
  using intsetSearch_ok [OF assms, of v] by metis

end
