(* ===== verification/Util.thy ===== *)
theory Util
  imports Prelude
begin

text \<open>
  Redis util.c: conversions between 64 bit integers and their decimal representation, and amounts of
  memory with units. A \<open>long long\<close> is a \<^typ>\<open>u64\<close> read
  with \<^const>\<open>sint\<close>; a \<open>char\<close> is a \<^typ>\<open>byte\<close>, signed where the code
  compares it.

  The conversions are inverse to each other: this is what makes it safe to store a string as an
  integer.
\<close>

section \<open>Characters\<close>

abbreviation (input) STAR :: byte where "STAR \<equiv> 42"
abbreviation (input) MINUS :: byte where "MINUS \<equiv> 45"
abbreviation (input) ZERO :: byte where "ZERO \<equiv> 48"
abbreviation (input) ONE :: byte where "ONE \<equiv> 49"
abbreviation (input) NINE :: byte where "NINE \<equiv> 57"
abbreviation (input) QMARK :: byte where "QMARK \<equiv> 63"
abbreviation (input) LBRACK :: byte where "LBRACK \<equiv> 91"
abbreviation (input) BSLASH :: byte where "BSLASH \<equiv> 92"
abbreviation (input) RBRACK :: byte where "RBRACK \<equiv> 93"
abbreviation (input) CARET :: byte where "CARET \<equiv> 94"

text \<open>\<open>c >= lo && c <= hi\<close> on signed characters.\<close>

definition char_in :: "byte \<Rightarrow> byte \<Rightarrow> byte \<Rightarrow> bool" where
  "char_in lo hi c \<longleftrightarrow> sint lo \<le> sint c \<and> sint c \<le> sint hi"

definition tolower :: "int \<Rightarrow> int" where
  "tolower c = (if 65 \<le> c \<and> c \<le> 90 then c + 32 else c)"

definition strcasecmp_eq :: "bytes \<Rightarrow> bytes \<Rightarrow> bool" where
  "strcasecmp_eq s t \<longleftrightarrow> map (tolower \<circ> uint) s = map (tolower \<circ> uint) t"

text \<open>The bytes of an ASCII text.\<close>

definition ascii :: "string \<Rightarrow> bytes" where
  "ascii s = map of_char s"

section \<open>Integers to decimal\<close>

definition LLONG_MAX :: u64 where "LLONG_MAX = 0x7FFFFFFFFFFFFFFF"
definition LLONG_MIN :: u64 where "LLONG_MIN = 0x8000000000000000"
definition ULLONG_MAX :: u64 where "ULLONG_MAX = 0xFFFFFFFFFFFFFFFF"

text \<open>The \<open>do .. while\<close> loop that fills the buffer backwards; \<open>acc\<close> is what is already
  behind the pointer.\<close>

function ll2string_digits :: "u64 \<Rightarrow> bytes \<Rightarrow> bytes" where
  "ll2string_digits v acc =
     (let acc = (ZERO + ucast (v mod 10)) # acc; v = v div 10
      in if v \<noteq> 0 then ll2string_digits v acc else acc)"
  by pat_completeness auto
termination
proof (relation "measure (\<lambda>(v, acc). unat v)")
  fix v x :: u64
  assume "x = v div 10" "x \<noteq> 0"
  then have "unat x = unat v div 10" by (simp add: unat_div)
  moreover have "unat x > 0" using \<open>x \<noteq> 0\<close> by (simp add: unat_gt_0)
  ultimately have "unat x < unat v" by simp
  then show "((x, acc), v, acc') \<in> measure (\<lambda>(v, acc). unat v)" for acc acc' :: bytes
    by simp
qed simp

declare ll2string_digits.simps [simp del]

text \<open>The bytes written before the final NUL.\<close>

definition ll2string :: "nat \<Rightarrow> u64 \<Rightarrow> bytes" where
  "ll2string len value =
     (if len = 0 then []
      else let v = (if sint value < 0 then - value else value);
               p = ll2string_digits v [];
               p = (if sint value < 0 then MINUS # p else p);
               l = (if length p + 1 > len then len - 1 else length p)
           in take l p)"

section \<open>Decimal to integers\<close>

fun string2ll_loop :: "u64 \<Rightarrow> bytes \<Rightarrow> u64 option" where
  "string2ll_loop v [] = Some v"
| "string2ll_loop v (c # p) =
     (if char_in ZERO NINE c then
        if v > ULLONG_MAX div 10 then None
        else let v = v * 10
             in if v > ULLONG_MAX - ucast (c - ZERO) then None
                else string2ll_loop (v + ucast (c - ZERO)) p
      else None)"

definition string2ll :: "bytes \<Rightarrow> u64 option" where
  "string2ll s =
     (case s of [] \<Rightarrow> None
      | c # cs \<Rightarrow>
        if length s = 1 \<and> c = ZERO then Some 0
        else let negative = (c = MINUS); p = (if negative then cs else s)
        in case p of [] \<Rightarrow> None
           | d # p \<Rightarrow>
             if char_in ONE NINE d then
               (case string2ll_loop (ucast (d - ZERO)) p of None \<Rightarrow> None
                | Some v \<Rightarrow>
                  if negative then
                    if v > (- (LLONG_MIN + 1)) + 1 then None else Some (- v)
                  else if v > LLONG_MAX then None else Some v)
             else if d = ZERO \<and> length s = 1 then Some 0
             else None)"

text \<open>\<open>long\<close> and \<open>long long\<close> have the same range.\<close>

definition string2l :: "bytes \<Rightarrow> u64 option" where
  "string2l s =
     (case string2ll s of None \<Rightarrow> None
      | Some llval \<Rightarrow>
        if sint llval < sint LLONG_MIN \<or> sint llval > sint LLONG_MAX then None else Some llval)"

section \<open>Amounts of memory\<close>

text \<open>\<open>strtoll\<close> of the standard library on a sign and digits: it saturates.\<close>

fun dec_value :: "nat \<Rightarrow> bytes \<Rightarrow> nat" where
  "dec_value a [] = a"
| "dec_value a (c # cs) = dec_value (a * 10 + (unat c - 48)) cs"

definition strtoll :: "bytes \<Rightarrow> u64" where
  "strtoll s =
     (case s of c # cs \<Rightarrow>
        if c = MINUS then (if dec_value 0 cs > 2 ^ 63 then LLONG_MIN else - of_nat (dec_value 0 cs))
        else if dec_value 0 s \<ge> 2 ^ 63 then LLONG_MAX else of_nat (dec_value 0 s)
      | [] \<Rightarrow> 0)"

definition memtoll :: "bytes \<Rightarrow> u64 \<times> bool" where
  "memtoll p =
     (let (sign, rest) = (case p of c # cs \<Rightarrow> if c = MINUS then ([c], cs) else ([], p) | [] \<Rightarrow> ([], p));
          digits = sign @ takeWhile (char_in ZERO NINE) rest;
          u = dropWhile (char_in ZERO NINE) rest;
          (mul, err) =
            (if u = [] \<or> strcasecmp_eq u (ascii ''b'') then (1, False)
             else if strcasecmp_eq u (ascii ''k'') then (1000, False)
             else if strcasecmp_eq u (ascii ''kb'') then (1024, False)
             else if strcasecmp_eq u (ascii ''m'') then (1000 * 1000, False)
             else if strcasecmp_eq u (ascii ''mb'') then (1024 * 1024, False)
             else if strcasecmp_eq u (ascii ''g'') then (1000 * 1000 * 1000, False)
             else if strcasecmp_eq u (ascii ''gb'') then (1024 * 1024 * 1024, False)
             else (1, True))
      in if length digits \<ge> 128 then (LLONG_MAX, True)
         else (strtoll digits * mul, err))"

section \<open>The decimal representation\<close>

definition digit :: "byte \<Rightarrow> bool" where
  "digit c \<longleftrightarrow> 48 \<le> unat c \<and> unat c \<le> 57"

definition dchar :: "nat \<Rightarrow> byte" where
  "dchar n = of_nat (48 + n)"

lemma unat_dchar: "n < 10 \<Longrightarrow> unat (dchar n) = 48 + n"
  unfolding dchar_def by (subst unat_of_nat) simp

function dec :: "nat \<Rightarrow> bytes" where
  "dec n = (if n < 10 then [dchar n] else dec (n div 10) @ [dchar (n mod 10)])"
  by pat_completeness auto
termination by (relation "measure id") auto

declare dec.simps [simp del]

lemma sint_byte: "sint (c :: byte) = (if unat c < 128 then int (unat c) else int (unat c) - 256)"
proof -
  have "(int n + 128) mod 256 - 128 = (if n < 128 then int n else int n - 256)" if "n < 256" for n
  proof (cases "n < 128")
    case False
    then have "(int n + 128) mod 256 = (int n - 128) mod 256"
      using mod_add_self2 [of "int n - 128" 256] by (simp add: add.commute)
    then show ?thesis using False that by simp
  qed simp
  then have "(int (unat c) + 128) mod 256 - 128 =
      (if unat c < 128 then int (unat c) else int (unat c) - 256)"
    using unat_less_numeral(1) by blast
  then show ?thesis
    by (simp only: sint_uint signed_take_bit_eq_take_bit_shift take_bit_eq_mod of_nat_unat) simp
qed

lemma char_in_digit: "char_in ZERO NINE c \<longleftrightarrow> digit c" "char_in ONE NINE c \<longleftrightarrow> digit c \<and> c \<noteq> ZERO"
  using unat_less_numeral(1) [of c]
  by (auto simp: char_in_def digit_def sint_byte word_unat_eq_iff simp del: of_nat_unat)

lemma dec_digits: "\<forall>c \<in> set (dec n). digit c"
proof (induction n rule: dec.induct)
  case (1 n)
  then show ?case by (subst dec.simps) (auto simp: digit_def unat_dchar)
qed

lemma dec_nonempty [simp]: "dec n \<noteq> []"
  by (subst dec.simps) simp

lemma dec_value_append: "dec_value a (xs @ [c]) = dec_value a xs * 10 + (unat c - 48)"
  by (induction xs arbitrary: a) auto

lemma dec_value_dec: "dec_value 0 (dec n) = n"
proof (induction n rule: dec.induct)
  case (1 n)
  show ?case
  proof (cases "n < 10")
    case True
    then show ?thesis by (subst dec.simps) (simp add: unat_dchar)
  next
    case False
    then show ?thesis using 1 by (subst dec.simps) (simp add: dec_value_append unat_dchar)
  qed
qed

lemma hd_dec: "0 < n \<Longrightarrow> hd (dec n) \<noteq> ZERO"
proof (induction n rule: dec.induct)
  case (1 n)
  show ?case
  proof (cases "n < 10")
    case True
    then show ?thesis using "1.prems" by (subst dec.simps) (simp add: word_unat_eq_iff unat_dchar)
  next
    case False
    then have "dec n = dec (n div 10) @ [dchar (n mod 10)]" by (subst dec.simps) simp
    then show ?thesis using 1 False by simp
  qed
qed

lemma dec_value_ge: "a * 10 ^ length xs \<le> dec_value a xs"
proof (induction xs arbitrary: a)
  case (Cons x xs)
  have "a * 10 ^ length (x # xs) \<le> (a * 10 + (unat x - 48)) * 10 ^ length xs"
    by (simp add: algebra_simps)
  then show ?case using Cons.IH [of "a * 10 + (unat x - 48)"] unfolding dec_value.simps by (rule le_trans)
qed simp

lemma dec_unique:
  assumes "\<forall>c \<in> set xs. digit c" and "xs \<noteq> []" and "hd xs \<noteq> ZERO"
  shows "dec (dec_value 0 xs) = xs"
  using assms
proof (induction xs rule: rev_induct)
  case (snoc x xs)
  have x: "48 \<le> unat x" "unat x \<le> 57" using snoc.prems(1) by (auto simp: digit_def)
  show ?case
  proof (cases "xs = []")
    case True
    then show ?thesis using x by (subst dec.simps) (simp add: word_unat_eq_iff unat_dchar)
  next
    case False
    then have hd: "hd xs \<noteq> ZERO" and xs: "dec (dec_value 0 xs) = xs"
      using snoc by (simp_all add: hd_append)
    have "dec_value 0 xs \<noteq> 0"
    proof
      assume "dec_value 0 xs = 0"
      then have "xs = [ZERO]" using xs by (subst (asm) dec.simps) (simp add: dchar_def)
      then show False using hd by simp
    qed
    moreover obtain d where d: "unat x = 48 + d" "d < 10" 
      using x by (intro that [of "unat x - 48"]) simp_all
    then have "x = dchar d" by (simp add: word_unat_eq_iff unat_dchar)
    ultimately show ?thesis
      using d xs by (subst dec.simps) (simp add: dec_value_append)
  qed
qed simp

section \<open>The conversions\<close>

lemma digits_dec: "ll2string_digits v acc = dec (unat v) @ acc"
proof (induction v acc rule: ll2string_digits.induct)
  case (1 v acc)
  have m: "ZERO + ucast (v mod 10) = dchar (unat v mod 10)"
    by (simp add: word_unat_eq_iff unat_dchar unat_word_ariths unat_ucast unat_mod)
  have d: "unat (v div 10) = unat v div 10" by (simp add: unat_div)
  then have z: "v div 10 = 0 \<longleftrightarrow> unat v < 10" by (simp add: word_unat_eq_iff div_eq_0_iff)
  show ?case
  proof (cases "v div 10 = 0")
    case True
    then show ?thesis
      using z by (subst ll2string_digits.simps, subst dec.simps) (simp add: Let_def m)
  next
    case False
    then show ?thesis
      using z d 1 m by (subst ll2string_digits.simps, subst dec.simps) (simp add: Let_def)
  qed
qed

lemma string2ll_loop_dec:
  assumes "\<forall>c \<in> set p. digit c"
  shows "string2ll_loop v p =
    (if dec_value (unat v) p < 2 ^ 64 then Some (of_nat (dec_value (unat v) p)) else None)"
  using assms
proof (induction p arbitrary: v)
  case Nil
  then show ?case using unat_less_numeral(4) [of v] by simp
next
  case (Cons c p)
  define d where "d = unat c - 48"
  have c: "unat c = 48 + d" "d < 10" using Cons.prems by (auto simp: digit_def d_def)
  have cd: "char_in ZERO NINE c" using Cons.prems by (simp add: char_in_digit)
  have ud: "unat (ucast (c - ZERO) :: u64) = d"
    using c unat_less_numeral(1) [of c] by (simp add: unat_ucast unat_sub word_le_nat_alt)
  have big: "dec_value (unat v) (c # p) \<ge> unat v * 10 + d"
    using dec_value_ge [of "unat v * 10 + d" p] by (simp add: c order_trans [rotated])
  have m: "unat (ULLONG_MAX div 10) = 1844674407370955161" "unat ULLONG_MAX = 18446744073709551615"
    by (simp_all add: ULLONG_MAX_def unat_div)
  have small: "unat (v * 10) = unat v * 10" if "unat v \<le> 1844674407370955161"
    using that by (simp add: unat_word_ariths)
  have sub: "unat (ULLONG_MAX - ucast (c - ZERO)) = 18446744073709551615 - d"
    using ud c(2) m by (simp add: unat_sub word_le_nat_alt)
  show ?case
  proof (cases "unat v * 10 + d < 2 ^ 64")
    case True
    then have v: "unat v \<le> 1844674407370955161" by simp
    then have "\<not> v > ULLONG_MAX div 10" and "\<not> v * 10 > ULLONG_MAX - ucast (c - ZERO)"
      using True small sub m by (simp_all add: word_less_nat_alt)
    moreover have "unat (v * 10 + ucast (c - ZERO)) = unat v * 10 + d"
      using True small [OF v] ud by (simp add: unat_word_ariths(1) [of "v * 10"])
    ultimately show ?thesis using Cons cd c by (simp add: Let_def)
  next
    case False
    have "v > ULLONG_MAX div 10 \<or> v * 10 > ULLONG_MAX - ucast (c - ZERO)"
    proof (cases "unat v \<le> 1844674407370955161")
      case True
      with False have "18446744073709551615 - d < unat v * 10" using c(2) by simp
      then show ?thesis using True small sub by (simp add: word_less_nat_alt)
    next
      case False
      then show ?thesis using m by (simp add: word_less_nat_alt)
    qed
    then show ?thesis using big False cd c by (auto simp: Let_def)
  qed
qed

lemma string2ll_loop_digits: "string2ll_loop v p = Some w \<Longrightarrow> \<forall>c \<in> set p. digit c"
  by (induction v p rule: string2ll_loop.induct) (auto simp: char_in_digit Let_def split: if_splits)

lemma length_dec: "n < 10 ^ Suc k \<Longrightarrow> length (dec n) \<le> Suc k"
proof (induction k arbitrary: n)
  case 0
  then show ?case by (subst dec.simps) simp
next
  case (Suc k)
  show ?case
  proof (cases "n < 10")
    case True
    then show ?thesis by (subst dec.simps) simp
  next
    case False
    have "n div 10 < 10 ^ Suc k" using Suc.prems by simp
    then show ?thesis using Suc.IH [of "n div 10"] False by (subst dec.simps) simp
  qed
qed

lemma sint_u64: "sint (v :: u64) = (if unat v < 2 ^ 63 then int (unat v) else int (unat v) - 2 ^ 64)"
proof -
  have "(int n + 2 ^ 63) mod 2 ^ 64 - 2 ^ 63 = (if n < 2 ^ 63 then int n else int n - 2 ^ 64)"
    if "n < 2 ^ 64" for n
  proof (cases "n < 2 ^ 63")
    case False
    then have "(int n + 2 ^ 63) mod 2 ^ 64 = (int n - 2 ^ 63) mod 2 ^ 64"
      using mod_add_self2 [of "int n - 2 ^ 63" "2 ^ 64"] by (simp add: add.commute)
    then show ?thesis using False that by simp
  qed simp
  moreover have "unat v < 2 ^ 64" using unat_less_numeral(4) [of v] by simp
  ultimately have "(int (unat v) + 2 ^ 63) mod 2 ^ 64 - 2 ^ 63 =
      (if unat v < 2 ^ 63 then int (unat v) else int (unat v) - 2 ^ 64)" by blast
  then show ?thesis
    by (simp only: sint_uint signed_take_bit_eq_take_bit_shift take_bit_eq_mod of_nat_unat) simp
qed

text \<open>What \<open>ll2string\<close> writes when the buffer is large enough for any number.\<close>

definition llrep :: "u64 \<Rightarrow> bytes" where
  "llrep v = (if unat v < 2 ^ 63 then dec (unat v) else MINUS # dec (2 ^ 64 - unat v))"

lemma unat_neg: "unat (v :: u64) \<noteq> 0 \<Longrightarrow> unat (- v) = 2 ^ 64 - unat v"
proof -
  assume "unat v \<noteq> 0"
  have "(of_nat (2 ^ 64 - unat v) :: u64) + of_nat (unat v) = of_nat (2 ^ 64 - unat v + unat v)"
    by (simp only: of_nat_add)
  also have "\<dots> = 0" using unat_less_numeral(4) [of v] by simp
  finally have "- v = of_nat (2 ^ 64 - unat v)" by (simp add: minus_unique add.commute)
  then show "unat (- v) = 2 ^ 64 - unat v"
    using \<open>unat v \<noteq> 0\<close> by (simp only: unat_of_nat) simp
qed

lemma ll2string_rep:
  assumes "22 \<le> len"
  shows "ll2string len v = llrep v"
proof -
  have d: "length (dec n) \<le> 20" if "n < 2 ^ 64" for n
    using length_dec [of n 19] that by simp
  show ?thesis
  proof (cases "unat v < 2 ^ 63")
    case True
    then show ?thesis using assms d [of "unat v"]
      by (simp add: ll2string_def llrep_def sint_u64 digits_dec Let_def)
  next
    case False
    then have "unat (- v) = 2 ^ 64 - unat v" by (intro unat_neg) simp
    then show ?thesis using assms False d [of "2 ^ 64 - unat v"] unat_less_numeral(4) [of v]
      by (simp add: ll2string_def llrep_def sint_u64 digits_dec Let_def del: of_nat_unat)
  qed
qed

lemma magnitude_bounds:
  "(- (LLONG_MIN + 1)) + 1 = 0x8000000000000000" "- LLONG_MIN = 0x8000000000000000" "LLONG_MAX = 0x7FFFFFFFFFFFFFFF"
  by (simp_all add: LLONG_MIN_def LLONG_MAX_def)

text \<open>The parser after the sign, on a number without leading zero.\<close>

lemma string2ll_dec:
  assumes "0 < n" and "n < 2 ^ 64"
  obtains d p where "dec n = d # p" and "char_in ONE NINE d"
    and "string2ll_loop (ucast (d - ZERO)) p = Some (of_nat n)"
proof -
  obtain d p where e: "dec n = d # p" by (cases "dec n") simp_all
  have d: "digit d" "d \<noteq> ZERO" and p: "\<forall>c \<in> set p. digit c"
    using dec_digits [of n] hd_dec [OF assms(1)] e by auto
  have u: "unat (ucast (d - ZERO) :: u64) = unat d - 48"
    using d(1) unat_less_numeral(1) [of d] by (auto simp: digit_def unat_ucast unat_sub word_le_nat_alt)
  have "dec_value (unat (ucast (d - ZERO) :: u64)) p = n"
    using dec_value_dec [of n] by (simp add: e u)
  then show ?thesis using that [OF e] d p string2ll_loop_dec [OF p] assms(2) by (simp add: char_in_digit)
qed

lemma string2ll_rep: "string2ll (llrep v) = Some v"
proof (cases "unat v < 2 ^ 63")
  case True
  show ?thesis
  proof (cases "unat v = 0")
    case True
    then have "v = 0" by (simp add: word_unat_eq_iff)
    then show ?thesis by (simp add: llrep_def string2ll_def dec.simps dchar_def)
  next
    case False
    then have n: "0 < unat v" "unat v < 2 ^ 64" using \<open>unat v < 2 ^ 63\<close> by simp_all
    show ?thesis
    proof (rule string2ll_dec [OF n])
      fix d p
      assume "dec (unat v) = d # p" "char_in ONE NINE d" "string2ll_loop (ucast (d - ZERO)) p = Some (of_nat (unat v))"
      moreover from this(2) have "d \<noteq> MINUS" "d \<noteq> ZERO" by (auto simp: char_in_digit digit_def)
      ultimately show ?thesis
        using \<open>unat v < 2 ^ 63\<close>
        by (simp add: llrep_def string2ll_def magnitude_bounds word_less_nat_alt)
    qed
  qed
next
  case False
  have n: "0 < 2 ^ 64 - unat v" "2 ^ 64 - unat v < 2 ^ 64" "2 ^ 64 - unat v \<le> 2 ^ 63"
    using False unat_less_numeral(4) [of v] by simp_all
  have m: "unat (- v) = 2 ^ 64 - unat v" using False by (intro unat_neg) simp
  have "of_nat (unat (- v)) = - v" by simp
  then have neg: "of_nat (2 ^ 64 - unat v) = - v" by (simp only: m)
  show ?thesis
  proof (rule string2ll_dec [OF n(1,2)])
    fix d p
    assume "dec (2 ^ 64 - unat v) = d # p" "char_in ONE NINE d"
      "string2ll_loop (ucast (d - ZERO)) p = Some (of_nat (2 ^ 64 - unat v))"
    then show ?thesis
      using False n(3) m unfolding neg
      by (auto simp: llrep_def string2ll_def magnitude_bounds word_less_nat_alt)
  qed
qed

text \<open>The converse: the digits that the parser accepts are the representation of their value.\<close>

lemma string2ll_loop_dec_value:
  assumes d: "char_in ONE NINE d" and l: "string2ll_loop (ucast (d - ZERO)) p = Some w"
  shows "dec (unat w) = d # p" and "0 < unat w"
proof -
  have dd: "digit d" "d \<noteq> ZERO" using d by (simp_all add: char_in_digit)
  have p: "\<forall>c \<in> set p. digit c" by (rule string2ll_loop_digits [OF l])
  have u: "unat (ucast (d - ZERO) :: u64) = unat d - 48"
    using dd(1) unat_less_numeral(1) [of d] by (auto simp: digit_def unat_ucast unat_sub word_le_nat_alt)
  have v: "dec_value 0 (d # p) < 2 ^ 64" "w = of_nat (dec_value 0 (d # p))"
    using l string2ll_loop_dec [OF p, of "ucast (d - ZERO)"] by (auto simp: u split: if_splits)
  then have w: "unat w = dec_value 0 (d # p)" by (simp only: unat_of_nat) simp
  show "dec (unat w) = d # p" unfolding w using dd p by (intro dec_unique) simp_all
  have "unat d - 48 > 0" using dd by (simp add: digit_def word_unat_eq_iff)
  then have "1 * 10 ^ length p \<le> dec_value (unat d - 48) p"
    using dec_value_ge [of "unat d - 48" p] mult_le_mono1 [of 1 "unat d - 48" "10 ^ length p"] by linarith
  then show "0 < unat w" unfolding w by (simp add: Suc_le_eq order_less_le_trans [rotated])
qed

lemma string2ll_canonical:
  assumes "string2ll s = Some v"
  shows "s = llrep v"
proof (cases "s = [ZERO]")
  case True
  then show ?thesis using assms by (simp add: string2ll_def llrep_def dec.simps dchar_def)
next
  case False
  then obtain c cs where s: "s = c # cs" using assms by (cases s) (auto simp: string2ll_def)
  show ?thesis
  proof (cases "c = MINUS")
    case True
    then obtain d p w where p: "cs = d # p" "char_in ONE NINE d"
        "string2ll_loop (ucast (d - ZERO)) p = Some w" "unat w \<le> 2 ^ 63" "v = - w"
      using assms False s
      by (auto simp: string2ll_def magnitude_bounds word_less_nat_alt split: list.splits if_splits option.splits)
    have w: "dec (unat w) = cs" "0 < unat w" using string2ll_loop_dec_value [OF p(2,3)] p(1) by simp_all
    have "unat v = 2 ^ 64 - unat w" unfolding p(5) using w(2) by (intro unat_neg) simp
    moreover from this have "\<not> unat v < 2 ^ 63" using p(4) by simp
    ultimately show ?thesis using True s w unat_less_numeral(4) [of w] by (simp add: llrep_def)
  next
    case False
    then obtain w where p: "char_in ONE NINE c" "string2ll_loop (ucast (c - ZERO)) cs = Some w"
        "unat w < 2 ^ 63" "v = w"
      using assms \<open>s \<noteq> [ZERO]\<close> s
      by (auto simp: string2ll_def magnitude_bounds word_less_nat_alt split: list.splits if_splits option.splits)
    then show ?thesis using s string2ll_loop_dec_value(1) [OF p(1,2)] by (simp add: llrep_def)
  qed
qed

text \<open>C28: \<open>string2ll\<close> accepts exactly the strings that \<open>ll2string\<close> writes, and is its inverse, on
  all 64 bit integers. So a string that is stored as an integer is read back unchanged.\<close>

theorem string2ll_iff:
  assumes "22 \<le> len"
  shows "string2ll s = Some v \<longleftrightarrow> s = ll2string len v"
  using string2ll_rep string2ll_canonical ll2string_rep [OF assms] by metis

theorem string2ll_iff_witness: "string2ll (ascii ''-42'') = Some (- 42)"
proof -
  have "ascii ''-42'' = ll2string 32 (- 42)" by code_simp
  then show ?thesis using string2ll_iff [of 32 "ascii ''-42''" "- 42"] by simp
qed

end
