(* ===== verification/Util_Match.thy ===== *)
theory Util_Match
  imports Util
begin

text \<open>
  Redis util.c: glob-style pattern matching (\<open>stringmatchlen\<close>), on NUL terminated buffers. On the
  text of a pattern built from stars, single characters, literals and classes the matcher returns
  what the declarative matching of the pattern says. The last section has two patterns on which it
  does not: one makes it read behind the pattern, the other matches the empty string.
\<close>

section \<open>Glob-style matching\<close>

text \<open>A pointer into a NUL terminated buffer is the rest of the buffer, the NUL included; the
  remaining length is counted apart, as in the code. Reading at the end of the buffer, and moving a
  pointer further than one past its end, is \<^term>\<open>None\<close>.\<close>

definition advance :: "bytes \<Rightarrow> bytes option" where
  "advance s = (case s of [] \<Rightarrow> None | _ # t \<Rightarrow> Some t)"

definition char_at :: "bytes \<Rightarrow> byte option" where
  "char_at s = (case s of [] \<Rightarrow> None | c # _ \<Rightarrow> Some c)"

definition eq_char :: "bool \<Rightarrow> byte \<Rightarrow> byte \<Rightarrow> bool" where
  "eq_char nocase a b = (if nocase then tolower (sint a) = tolower (sint b) else a = b)"

definition in_range :: "bool \<Rightarrow> byte \<Rightarrow> byte \<Rightarrow> byte \<Rightarrow> bool" where
  "in_range nocase a b x =
     (let start = sint a; end = sint b; c = sint x;
          (start, end) = (if start > end then (end, start) else (start, end));
          (start, end, c) = (if nocase then (tolower start, tolower end, tolower c) else (start, end, c))
      in c \<ge> start \<and> c \<le> end)"

text \<open>The loop over a class. It returns the pointer and the length after the \<open>pattern++\<close> that
  follows the \<open>switch\<close>; where the pattern ends inside the class, that step and the step back
  before it cancel.\<close>

fun class_loop :: "bool \<Rightarrow> byte option \<Rightarrow> bytes \<Rightarrow> int \<Rightarrow> bool \<Rightarrow> (bytes \<times> int \<times> bool) option" where
  "class_loop nocase x [] plen match = None"
| "class_loop nocase x (c # p) plen match =
     (if c = BSLASH then
        (case p of [] \<Rightarrow> None
         | c' # p' \<Rightarrow> do { x' \<leftarrow> x; class_loop nocase x p' (plen - 2) (match \<or> c' = x') })
      else if c = RBRACK then Some (p, plen - 1, match)
      else if plen = 0 then Some (c # p, plen, match)
      else (case p of [] \<Rightarrow> None
            | c1 # p1 \<Rightarrow>
              if c1 = MINUS \<and> plen \<ge> 3 then
                (case p1 of [] \<Rightarrow> None
                 | c2 # p2 \<Rightarrow> do {
                     x' \<leftarrow> x;
                     class_loop nocase x p2 (plen - 3) (match \<or> in_range nocase c c2 x') })
              else do { x' \<leftarrow> x; class_loop nocase x p (plen - 1) (match \<or> eq_char nocase c x') }))"

fun skip_stars :: "bytes \<Rightarrow> int \<Rightarrow> (bytes \<times> int) option" where
  "skip_stars [] plen = None"
| "skip_stars (c # p) plen = (if c = STAR then skip_stars p (plen - 1) else Some (c # p, plen))"

lemma class_loop_length:
  "class_loop nocase x p plen match = Some (p', plen', m) \<Longrightarrow> length p' \<le> length p"
proof (induction nocase x p plen match rule: class_loop.induct)
  case (2 nocase x c p plen match)
  note IH = "2.IH" and prem = "2.prems"
  show ?case
  proof (cases "c = BSLASH \<or> c = RBRACK \<or> plen = 0")
    case True
    then show ?thesis using prem IH(1)
      by (cases p; cases x; simp split: if_splits; fastforce)
  next
    case False
    show ?thesis
    proof (cases p)
      case (Cons c1 p1)
      then show ?thesis using prem IH(2,3) False
        by (cases p1; cases x; simp split: if_splits; fastforce)
    qed (use prem False in simp)
  qed
qed simp

declare class_loop.simps [simp del]

lemma skip_stars_length: "skip_stars p plen = Some (p', plen') \<Longrightarrow> length p' \<le> length p"
  by (induction p plen rule: skip_stars.induct) (auto split: if_splits)

lemma advance_length: "advance s = Some t \<Longrightarrow> length s = Suc (length t)"
  by (auto simp: advance_def split: list.splits)

text \<open>The cases of the \<open>switch\<close> that consume one character of the string: no match, or the
  pointers and lengths after \<open>pattern++\<close>.\<close>

definition one_char :: "bytes \<Rightarrow> int \<Rightarrow> bytes \<Rightarrow> int \<Rightarrow> bool \<Rightarrow> (bytes \<times> int \<times> bytes \<times> int) option option" where
  "one_char p plen s slen m =
     (if m then map_option (\<lambda>s. Some (p, plen, s, slen - 1)) (advance s) else Some None)"

definition smatch_char ::
  "bool \<Rightarrow> bytes \<Rightarrow> int \<Rightarrow> bytes \<Rightarrow> int \<Rightarrow> (bytes \<times> int \<times> bytes \<times> int) option option" where
  "smatch_char nocase p plen s slen = do {
     c \<leftarrow> char_at p;
     if c = QMARK then one_char (tl p) (plen - 1) s slen (slen \<noteq> 0)
     else if c = LBRACK then do {
       c1 \<leftarrow> char_at (tl p);
       let neg = (c1 = CARET);
       (p, plen, match) \<leftarrow> class_loop nocase (char_at s) (if neg then tl (tl p) else tl p)
                             (if neg then plen - 2 else plen - 1) False;
       one_char p plen s slen (match \<noteq> neg) }
     else do {
       let (p, plen) = (if c = BSLASH \<and> plen \<ge> 2 then (tl p, plen - 1) else (p, plen));
       c \<leftarrow> char_at p;
       x \<leftarrow> char_at s;
       one_char (tl p) (plen - 1) s slen (eq_char nocase c x) } }"

lemma one_charD: "one_char p plen s slen m = Some (Some (p', plen', s', slen')) \<Longrightarrow>
    m \<and> p' = p \<and> plen' = plen \<and> slen' = slen - 1 \<and> advance s = Some s'"
  by (auto simp: one_char_def split: if_splits)

lemma smatch_char_length:
  "smatch_char nocase p plen s slen = Some (Some (p', plen', s', slen')) \<Longrightarrow> length p' < length p"
  by (cases p; cases "tl p")
    (auto simp: smatch_char_def char_at_def bind_eq_Some_conv Let_def
      split: if_splits dest!: class_loop_length one_charD)

text \<open>\<open>smatch\<close> is the outer loop, \<open>smatch_star\<close> the loop over the string after a star.\<close>

function
  smatch :: "bool \<Rightarrow> bytes \<Rightarrow> int \<Rightarrow> bytes \<Rightarrow> int \<Rightarrow> bool option" and
  smatch_star :: "bool \<Rightarrow> bytes \<Rightarrow> int \<Rightarrow> bytes \<Rightarrow> int \<Rightarrow> bool option" where
  "smatch nocase p plen s slen =
     (if plen = 0 then Some (slen = 0)
      else if char_at p = Some STAR then
        (case skip_stars (tl p) (plen - 1) of None \<Rightarrow> None
         | Some (p, plen) \<Rightarrow> if plen = 0 then Some True else smatch_star nocase p plen s slen)
      else
        (case smatch_char nocase p plen s slen of None \<Rightarrow> None
         | Some None \<Rightarrow> Some False
         | Some (Some (p, plen, s, slen)) \<Rightarrow>
           if slen = 0 then map_option (\<lambda>(_, plen). plen = 0) (skip_stars p plen)
           else smatch nocase p plen s slen))"
| "smatch_star nocase p plen s slen =
     (if slen = 0 then Some False
      else case smatch nocase p plen s slen of None \<Rightarrow> None
           | Some found \<Rightarrow>
             if found then Some True
             else (case advance s of None \<Rightarrow> None
                   | Some s \<Rightarrow> smatch_star nocase p plen s (slen - 1)))"
  by pat_completeness auto
termination
  by (relation "measures [\<lambda>a. (case a of Inl (_, p, _, _, _) \<Rightarrow> 2 * length p
        | Inr (_, p, _, _, _) \<Rightarrow> 2 * length p + 1),
      \<lambda>a. (case a of Inl _ \<Rightarrow> 0 | Inr (_, _, _, s, _) \<Rightarrow> length s)]")
    (auto dest!: skip_stars_length smatch_char_length advance_length simp: char_at_def
      split: list.splits)

declare smatch.simps [simp del] smatch_star.simps [simp del]

text \<open>The NUL terminated buffers of two strings.\<close>

definition stringmatchlen :: "bytes \<Rightarrow> bytes \<Rightarrow> bool \<Rightarrow> bool option" where
  "stringmatchlen pattern string nocase =
     smatch nocase (pattern @ [0]) (int (length pattern)) (string @ [0]) (int (length string))"

section \<open>Patterns\<close>

text \<open>The elements of a pattern and of a class: a character that stands for itself, an escaped
  character and a range.\<close>

datatype class_item = Plain byte | Esc byte | Range byte byte

datatype glob = GStar | GAny | GLit byte | GClass bool "class_item list"

fun item_text :: "class_item \<Rightarrow> bytes" where
  "item_text (Plain c) = [c]"
| "item_text (Esc c) = [BSLASH, c]"
| "item_text (Range a b) = [a, MINUS, b]"

fun glob_item_text :: "glob \<Rightarrow> bytes" where
  "glob_item_text GStar = [STAR]"
| "glob_item_text GAny = [QMARK]"
| "glob_item_text (GLit c) = (if c \<in> {STAR, QMARK, LBRACK, BSLASH} then [BSLASH, c] else [c])"
| "glob_item_text (GClass neg items) =
     LBRACK # (if neg then [CARET] else []) @ concat (map item_text items) @ [RBRACK]"

definition glob_text :: "glob list \<Rightarrow> bytes" where
  "glob_text g = concat (map glob_item_text g)"

fun item_matches :: "bool \<Rightarrow> byte \<Rightarrow> class_item \<Rightarrow> bool" where
  "item_matches nocase x (Plain c) = eq_char nocase c x"
| "item_matches nocase x (Esc c) = (c = x)"
| "item_matches nocase x (Range a b) = in_range nocase a b x"

text \<open>What a pattern matches.\<close>

fun glob_matches :: "bool \<Rightarrow> glob list \<Rightarrow> bytes \<Rightarrow> bool" where
  "glob_matches nocase [] s = (s = [])"
| "glob_matches nocase (GStar # g) s = (\<exists>i \<le> length s. glob_matches nocase g (drop i s))"
| "glob_matches nocase (GAny # g) s = (s \<noteq> [] \<and> glob_matches nocase g (tl s))"
| "glob_matches nocase (GLit c # g) s = (s \<noteq> [] \<and> eq_char nocase c (hd s) \<and> glob_matches nocase g (tl s))"
| "glob_matches nocase (GClass neg items # g) s =
     (s \<noteq> [] \<and> ((\<exists>i \<in> set items. item_matches nocase (hd s) i) \<noteq> neg) \<and> glob_matches nocase g (tl s))"

text \<open>Classes whose text the parser splits as intended.\<close>

fun ok_item :: "class_item \<Rightarrow> bool" where
  "ok_item (Plain c) \<longleftrightarrow> c \<notin> {BSLASH, RBRACK, MINUS, CARET}"
| "ok_item (Esc c) \<longleftrightarrow> True"
| "ok_item (Range a b) \<longleftrightarrow> a \<notin> {BSLASH, RBRACK, MINUS, CARET}"

fun ok_glob :: "glob \<Rightarrow> bool" where
  "ok_glob (GClass neg items) \<longleftrightarrow> (\<forall>i \<in> set items. ok_item i)"
| "ok_glob _ \<longleftrightarrow> True"

section \<open>The loops\<close>

lemma items_hd:
  assumes "\<forall>i \<in> set items. ok_item i"
  obtains c p where "concat (map item_text items) @ RBRACK # rest = c # p" and "c \<noteq> MINUS"
    and "c \<noteq> CARET"
proof (cases items)
  case (Cons i js)
  then show ?thesis using assms that by (cases i) auto
qed (use that in simp)

lemma class_loop_items:
  assumes "\<forall>i \<in> set items. ok_item i" and "plen = int (length (concat (map item_text items))) + n" and "0 < n"
  shows "class_loop nocase (Some x) (concat (map item_text items) @ RBRACK # rest) plen m =
    Some (rest, n - 1, m \<or> (\<exists>i \<in> set items. item_matches nocase x i))"
  using assms(1,2)
proof (induction items arbitrary: plen m)
  case Nil
  then show ?case using assms(3) by (simp add: class_loop.simps)
next
  case (Cons i items)
  define p where "p = concat (map item_text items) @ RBRACK # rest"
  have IH: "class_loop nocase (Some x) p (int (length (concat (map item_text items))) + n) m =
      Some (rest, n - 1, m \<or> (\<exists>i \<in> set items. item_matches nocase x i))" for m
    using Cons by (simp add: p_def)
  show ?case
  proof (cases i)
    case (Plain c)
    obtain c1 p1 where p1: "p = c1 # p1" "c1 \<noteq> MINUS"
      unfolding p_def by (rule items_hd [of items rest]) (use Cons.prems(1) in auto)
    have "class_loop nocase (Some x) (c # p) plen m = class_loop nocase (Some x) p (plen - 1) (m \<or> eq_char nocase c x)"
      using Plain Cons.prems assms(3) p1 by (subst class_loop.simps) simp
    moreover have "plen - 1 = int (length (concat (map item_text items))) + n"
      using Cons.prems(2) Plain by simp
    ultimately show ?thesis using IH Plain by (simp add: p_def disj_assoc)
  next
    case (Esc c)
    have "class_loop nocase (Some x) (BSLASH # c # p) plen m = class_loop nocase (Some x) p (plen - 2) (m \<or> c = x)"
      by (subst class_loop.simps) simp
    moreover have "plen - 2 = int (length (concat (map item_text items))) + n"
      using Cons.prems(2) Esc by simp
    ultimately show ?thesis using IH Esc by (simp add: p_def disj_assoc)
  next
    case (Range a b)
    have l: "plen - 3 = int (length (concat (map item_text items))) + n"
      using Cons.prems(2) Range by simp
    then have "plen \<ge> 3" "plen \<noteq> 0" using assms(3) by simp_all
    then have "class_loop nocase (Some x) (a # MINUS # b # p) plen m =
        class_loop nocase (Some x) p (plen - 3) (m \<or> in_range nocase a b x)"
      using Range Cons.prems(1) by (subst class_loop.simps) simp
    then show ?thesis using IH Range l by (simp add: p_def disj_assoc)
  qed
qed

lemma skip_stars_text:
  "skip_stars (glob_text g @ [0]) (int (length (glob_text g))) =
     (let g' = dropWhile (\<lambda>t. t = GStar) g
      in Some (glob_text g' @ [0], int (length (glob_text g'))))"
proof (induction g)
  case (Cons t g)
  show ?case
  proof (cases t)
    case GStar
    then show ?thesis using Cons by (simp add: glob_text_def Let_def)
  qed (simp_all add: glob_text_def Let_def)
qed (simp add: glob_text_def)

lemma glob_text_Cons: "glob_text (t # g) = glob_item_text t @ glob_text g"
  by (simp add: glob_text_def)

lemma glob_text_Nil: "glob_text [] = []"
  by (simp add: glob_text_def)

lemma glob_item_nonempty: "glob_item_text t \<noteq> []"
  by (cases t) auto

lemma glob_text_empty: "glob_text g = [] \<longleftrightarrow> g = []"
  by (cases g) (auto simp: glob_text_Cons glob_text_Nil glob_item_nonempty)

lemma glob_matches_empty: "glob_matches nocase g [] \<longleftrightarrow> dropWhile (\<lambda>t. t = GStar) g = []"
proof (induction g)
  case (Cons t g)
  then show ?case by (cases t) auto
qed simp

lemma glob_matches_star_star:
  "glob_matches nocase (GStar # GStar # g) s = glob_matches nocase (GStar # g) s"
proof
  assume "glob_matches nocase (GStar # GStar # g) s"
  then obtain i j where "i \<le> length s" "j \<le> length (drop i s)" "glob_matches nocase g (drop j (drop i s))"
    by auto
  then show "glob_matches nocase (GStar # g) s" by (auto intro!: exI [of _ "i + j"] simp: add.commute)
next
  assume "glob_matches nocase (GStar # g) s"
  then show "glob_matches nocase (GStar # GStar # g) s"
    using glob_matches.simps(2) [of nocase "GStar # g" s] by (intro iffD2 [OF glob_matches.simps(2)] exI [of _ 0]) simp
qed

lemma glob_matches_stars:
  "glob_matches nocase (GStar # g) s = glob_matches nocase (GStar # dropWhile (\<lambda>t. t = GStar) g) s"
proof (induction g)
  case (Cons t g)
  show ?case
  proof (cases "t = GStar")
    case True
    then show ?thesis using Cons glob_matches_star_star [of nocase g s] by simp
  qed simp
qed simp

section \<open>Correctness\<close>

fun char_matches :: "bool \<Rightarrow> glob \<Rightarrow> byte \<Rightarrow> bool" where
  "char_matches nocase (GLit c) x = eq_char nocase c x"
| "char_matches nocase (GClass neg items) x = ((\<exists>i \<in> set items. item_matches nocase x i) \<noteq> neg)"
| "char_matches nocase _ x = True"

lemma glob_matches_char:
  "t \<noteq> GStar \<Longrightarrow> glob_matches nocase (t # g) (x # s) \<longleftrightarrow> char_matches nocase t x \<and> glob_matches nocase g s"
  by (cases t) auto

lemma smatch_char_text:
  assumes "ok_glob t" and "t \<noteq> GStar" and "slen \<noteq> 0" and "0 \<le> k"
    and plen: "plen = int (length (glob_item_text t)) + k"
  shows "smatch_char nocase (glob_item_text t @ r) plen (x # s) slen =
    Some (if char_matches nocase t x then Some (r, k, s, slen - 1) else None)"
proof (cases t)
  case (GClass neg items)
  define p where "p = concat (map item_text items) @ RBRACK # r"
  have ok: "\<forall>i \<in> set items. ok_item i" using assms(1) GClass by simp
  have cl: "class_loop nocase (Some x) p (int (length (concat (map item_text items))) + (k + 1)) False =
      Some (r, k, \<exists>i \<in> set items. item_matches nocase x i)"
    using class_loop_items [OF ok refl, of "k + 1" nocase x r False] assms(4) by (simp add: p_def)
  show ?thesis
  proof (cases neg)
    case True
    then have l: "plen - 2 = int (length (concat (map item_text items))) + (k + 1)"
      using plen GClass by simp
    have "class_loop nocase (Some x) p (plen - 2) False =
        Some (r, k, \<exists>i \<in> set items. item_matches nocase x i)" unfolding l by (rule cl)
    then show ?thesis using True GClass
      by (simp add: smatch_char_def char_at_def one_char_def advance_def p_def)
  next
    case False
    then have l: "plen - 1 = int (length (concat (map item_text items))) + (k + 1)"
      using plen GClass by simp
    have "class_loop nocase (Some x) p (plen - 1) False =
        Some (r, k, \<exists>i \<in> set items. item_matches nocase x i)" unfolding l by (rule cl)
    moreover obtain c p' where "p = c # p'" "c \<noteq> CARET"
      unfolding p_def by (rule items_hd [OF ok, of r])
    ultimately show ?thesis using False GClass
      by (simp add: smatch_char_def char_at_def one_char_def advance_def p_def [symmetric])
  qed
qed (use assms in \<open>auto simp: smatch_char_def char_at_def one_char_def advance_def\<close>)

lemma glob_item_not_star: "t \<noteq> GStar \<Longrightarrow> char_at (glob_item_text t @ r) \<noteq> Some STAR"
  by (cases t) (auto simp: char_at_def)

lemma smatch_star_ok:
  assumes "\<And>s. s \<noteq> [] \<Longrightarrow> smatch nocase p plen (s @ [0]) (int (length s)) = Some (glob_matches nocase g s)"
    and "\<not> glob_matches nocase g []"
  shows "smatch_star nocase p plen (s @ [0]) (int (length s)) = Some (glob_matches nocase (GStar # g) s)"
proof (induction s)
  case Nil
  then show ?case using assms(2) by (subst smatch_star.simps) simp
next
  case (Cons x s)
  have "glob_matches nocase (GStar # g) (x # s) \<longleftrightarrow>
      glob_matches nocase g (x # s) \<or> glob_matches nocase (GStar # g) s"
  proof
    assume "glob_matches nocase (GStar # g) (x # s)"
    then obtain i where i: "i \<le> Suc (length s)" "glob_matches nocase g (drop i (x # s))" by auto
    then show "glob_matches nocase g (x # s) \<or> glob_matches nocase (GStar # g) s"
      by (cases i) (auto intro: exI)
  next
    assume "glob_matches nocase g (x # s) \<or> glob_matches nocase (GStar # g) s"
    then show "glob_matches nocase (GStar # g) (x # s)"
    proof
      assume "glob_matches nocase g (x # s)"
      then show ?thesis by (intro iffD2 [OF glob_matches.simps(2)] exI [of _ 0]) simp
    next
      assume "glob_matches nocase (GStar # g) s"
      then obtain i where "i \<le> length s" "glob_matches nocase g (drop i s)" by auto
      then show ?thesis by (intro iffD2 [OF glob_matches.simps(2)] exI [of _ "Suc i"]) simp
    qed
  qed
  then show ?case using assms(1) [of "x # s"] Cons
    by (subst smatch_star.simps) (simp add: advance_def)
qed

lemma smatch_ok:
  assumes "\<forall>t \<in> set g. ok_glob t" and "s \<noteq> []"
  shows "smatch nocase (glob_text g @ [0]) (int (length (glob_text g))) (s @ [0]) (int (length s)) =
    Some (glob_matches nocase g s)"
  using assms
proof (induction "length g" arbitrary: g s rule: less_induct)
  case less
  show ?case
  proof (cases g)
    case Nil
    then show ?thesis using less.prems by (subst smatch.simps) (simp add: glob_text_Nil)
  next
    case (Cons t g1)
    show ?thesis
    proof (cases "t = GStar")
      case True
      define g2 where "g2 = dropWhile (\<lambda>t. t = GStar) g1"
      have m: "glob_matches nocase g s = glob_matches nocase (GStar # g2) s"
        using Cons True glob_matches_stars [of nocase g1 s] by (simp add: g2_def)
      have ok: "\<forall>t \<in> set g2. ok_glob t" using less.prems(1) Cons by (auto simp: g2_def dest: set_dropWhileD)
      have l: "length g2 < length g" using Cons by (simp add: g2_def length_dropWhile_le less_Suc_eq_le)
      have sk: "skip_stars (glob_text g1 @ [0]) (int (length (glob_text g1))) =
          Some (glob_text g2 @ [0], int (length (glob_text g2)))"
        by (simp add: skip_stars_text g2_def Let_def)
      show ?thesis
      proof (cases "g2 = []")
        case True
        then show ?thesis using \<open>t = GStar\<close> Cons sk m
          by (subst smatch.simps) (auto simp: glob_text_Cons glob_text_Nil char_at_def)
      next
        case False
        then have "\<not> glob_matches nocase g2 []"
          by (simp add: glob_matches_empty g2_def)
        then have "smatch_star nocase (glob_text g2 @ [0]) (int (length (glob_text g2))) (s @ [0]) (int (length s)) =
            Some (glob_matches nocase (GStar # g2) s)"
          using less.hyps [OF l ok] by (intro smatch_star_ok) auto
        moreover have "glob_text g2 \<noteq> []" using False by (simp add: glob_text_empty)
        ultimately show ?thesis using \<open>t = GStar\<close> Cons sk m
          by (subst smatch.simps) (simp add: glob_text_Cons char_at_def del: glob_matches.simps)
      qed
    next
      case False
      obtain x s' where s: "s = x # s'" using less.prems(2) by (cases s) auto
      have ch: "smatch_char nocase (glob_text g @ [0]) (int (length (glob_text g))) (s @ [0]) (int (length s)) =
          Some (if char_matches nocase t x
            then Some (glob_text g1 @ [0], int (length (glob_text g1)), s' @ [0], int (length s')) else None)"
        using smatch_char_text [of t "int (length s)" "int (length (glob_text g1))"
            "int (length (glob_text g))" nocase "glob_text g1 @ [0]" x "s' @ [0]"]
          less.prems(1) False Cons s by (simp add: glob_text_Cons)
      have ne: "glob_text g \<noteq> []" "char_at (glob_text g @ [0]) \<noteq> Some STAR"
        using Cons False glob_item_not_star [of t "glob_text g1 @ [0]"]
        by (simp_all add: glob_text_Cons glob_item_nonempty)
      show ?thesis
      proof (cases "s' = []")
        case True
        then show ?thesis using ne ch Cons False s
          by (subst smatch.simps) (simp add: skip_stars_text Let_def glob_text_empty glob_matches_char glob_matches_empty)
      next
        case s': False
        have "smatch nocase (glob_text g1 @ [0]) (int (length (glob_text g1))) (s' @ [0]) (int (length s')) =
            Some (glob_matches nocase g1 s')"
          using less.hyps [of g1 s'] less.prems(1) Cons s' by simp
        then show ?thesis using ne ch Cons False s s'
          by (subst smatch.simps) (simp add: glob_matches_char)
      qed
    qed
  qed
qed

section \<open>Properties\<close>

text \<open>C22: on the text of a pattern of stars, single characters, literals (escaped where needed) and
  classes, and on a string that is not empty, the matcher stays inside both buffers, terminates and
  returns what the pattern matches, with and without case. On other patterns and on the empty string it
  may not: two lemmas below show how.\<close>

theorem stringmatchlen_correct:
  assumes "\<forall>t \<in> set g. ok_glob t" and "s \<noteq> []"
  shows "stringmatchlen (glob_text g) s nocase = Some (glob_matches nocase g s)"
  unfolding stringmatchlen_def by (rule smatch_ok [OF assms])

theorem stringmatchlen_correct_witness:
  "stringmatchlen (ascii ''h[a-c]*o'') (ascii ''hallo'') False =
     Some (glob_matches False [GLit 104, GClass False [Range 97 99], GStar, GLit 111] (ascii ''hallo''))"
proof -
  have e: "glob_text [GLit 104, GClass False [Range 97 99], GStar, GLit 111] = ascii ''h[a-c]*o''"
    by code_simp
  have n: "ascii ''hallo'' \<noteq> []" by code_simp
  show ?thesis
    using stringmatchlen_correct [OF _ n, of "[GLit 104, GClass False [Range 97 99], GStar, GLit 111]" False]
    unfolding e by simp
qed

text \<open>The loop over a class that ends in a backslash: it skips the terminating NUL, and the test for
  the end of the pattern is for a length of exactly 0.\<close>

lemma class_loop_overrun:
  assumes "\<forall>i \<in> set items. ok_item i" and "plen = 1 + int (length (concat (map item_text items)))"
  shows "class_loop nocase (Some x) (concat (map item_text items) @ [BSLASH, 0]) plen m = None"
  using assms
proof (induction items arbitrary: plen m)
  case Nil
  then show ?case by (simp add: class_loop.simps)
next
  case (Cons i items)
  define p where "p = concat (map item_text items) @ [BSLASH, 0]"
  have IH: "class_loop nocase (Some x) p (1 + int (length (concat (map item_text items)))) m = None" for m
    using Cons by (simp add: p_def)
  show ?case
  proof (cases i)
    case (Plain c)
    obtain c1 p1 where p1: "p = c1 # p1" "c1 \<noteq> MINUS"
      using Cons.prems(1) by (cases items; cases "hd items") (auto simp: p_def)
    have "class_loop nocase (Some x) (c # p) plen m = class_loop nocase (Some x) p (plen - 1) (m \<or> eq_char nocase c x)"
      using Plain Cons.prems p1 by (subst class_loop.simps) simp
    then show ?thesis using IH Plain Cons.prems(2) by (simp add: p_def)
  next
    case (Esc c)
    have "class_loop nocase (Some x) (BSLASH # c # p) plen m = class_loop nocase (Some x) p (plen - 2) (m \<or> c = x)"
      by (subst class_loop.simps) simp
    then show ?thesis using IH Esc Cons.prems(2) by (simp add: p_def)
  next
    case (Range a b)
    have "plen \<ge> 3" "plen \<noteq> 0" using Cons.prems(2) Range by simp_all
    then have "class_loop nocase (Some x) (a # MINUS # b # p) plen m =
        class_loop nocase (Some x) p (plen - 3) (m \<or> in_range nocase a b x)"
      using Range Cons.prems(1) by (subst class_loop.simps) simp
    then show ?thesis using IH Range Cons.prems(2) by (simp add: p_def)
  qed
qed

definition open_class :: "bool \<Rightarrow> class_item list \<Rightarrow> bytes" where
  "open_class neg items = LBRACK # (if neg then [CARET] else []) @ concat (map item_text items) @ [BSLASH]"

lemma smatch_char_overrun:
  assumes "\<forall>i \<in> set items. ok_item i"
  shows "smatch_char nocase (open_class neg items @ [0]) (int (length (open_class neg items))) (x # s) slen = None"
proof -
  define p where "p = concat (map item_text items) @ [BSLASH, 0]"
  have "class_loop nocase (Some x) p (1 + int (length (concat (map item_text items)))) False = None"
    using class_loop_overrun [OF assms refl] by (simp add: p_def)
  moreover obtain c p' where "p = c # p'" "c \<noteq> CARET"
    using assms by (cases items; cases "hd items") (auto simp: p_def)
  ultimately show ?thesis
    by (cases neg) (simp_all add: smatch_char_def char_at_def open_class_def flip: p_def)
qed

text \<open>C38: A class that is still open when the pattern ends in a backslash makes the matcher read behind
  the end of the pattern, whenever it gets there: when single characters, question marks and classes in front of
  the open class match the beginning of the string, and the string goes on behind it.\<close>

theorem stringmatchlen_overread:
  assumes "list_all2 (\<lambda>t c. ok_glob t \<and> t \<noteq> GStar \<and> char_matches nocase t c) g xs" and "\<forall>i \<in> set items. ok_item i"
  shows "stringmatchlen (glob_text g @ open_class neg items) (xs @ x # s) nocase = None"
proof -
  have "smatch nocase (glob_text g @ open_class neg items @ [0]) (int (length (glob_text g @ open_class neg items)))
      (xs @ x # s @ [0]) (int (length (xs @ x # s))) = None"
    using assms(1)
  proof (induction rule: list_all2_induct)
    case Nil
    have "char_at (open_class neg items @ [0]) \<noteq> Some STAR" "open_class neg items \<noteq> []"
      by (simp_all add: open_class_def char_at_def)
    then show ?case using smatch_char_overrun [OF assms(2)] by (subst smatch.simps) (simp add: glob_text_Nil)
  next
    case (Cons t g c xs)
    let ?r = "glob_text g @ open_class neg items"
    have "smatch_char nocase (glob_item_text t @ ?r @ [0]) (int (length (glob_item_text t @ ?r))) (c # xs @ x # s @ [0])
        (int (length (c # xs @ x # s))) = Some (Some (?r @ [0], int (length ?r), xs @ x # s @ [0], int (length (xs @ x # s))))"
      using Cons.hyps smatch_char_text [of t "int (length (c # xs @ x # s))" "int (length ?r)" "int (length (glob_item_text t @ ?r))"
          nocase "?r @ [0]" c "xs @ x # s @ [0]"] by simp
    moreover have "char_at (glob_item_text t @ ?r @ [0]) \<noteq> Some STAR" "int (length (glob_item_text t)) + (int (length (glob_text g)) + int (length (open_class neg items))) \<noteq> 0"
      using Cons.hyps glob_item_not_star by (blast, cases t) simp_all
    ultimately show ?case using Cons.IH by (subst smatch.simps) (simp add: glob_text_Cons glob_item_nonempty)
  qed
  then show ?thesis by (simp add: stringmatchlen_def)
qed

theorem stringmatchlen_overread_witness: "stringmatchlen [104, QMARK, LBRACK, 97, BSLASH] [104, 105, 106, 107] False = None"
  using stringmatchlen_overread [of False "[GLit 104, GAny]" "[104, 105]" "[Plain 97]" False 106 "[107]"]
  by (simp add: glob_text_def open_class_def eq_char_def)

text \<open>a negated class matches the end of the empty string, so such a pattern followed by a star
  matches the empty key, which has no character outside the class.\<close>

lemma stringmatchlen_empty_class:
  "stringmatchlen (glob_text [GClass True [Plain 97], GStar]) [] False = Some True \<and>
   \<not> glob_matches False [GClass True [Plain 97], GStar] []"
  by code_simp

end
