(* ===== verification/Server.thy ===== *)
theory Server
  imports Util "HOL-Library.Finite_Map" "HOL-Library.List_Lexorder"
begin

text \<open>
  The state of the Redis server that commands work on (redis.h), string objects (object.c), replies,
  keyspace events and the client side of WATCH that every write goes through (multi.c
  \<open>touchWatchedKey\<close>, db.c \<open>signalModifiedKey\<close>).

  A dictionary of a database is a finite map: theory Dict shows that the hash tables refine it. A
  client is its index in the list of clients. Objects are values, so reference counts and the copies
  made of shared objects before a change in place do not appear; neither does the access time of an
  object. A command is a function from the server and a client to the server after the command; a
  failed \<open>redisAssert\<close> is \<^term>\<open>None\<close>.
\<close>

section \<open>Objects\<close>

text \<open>A string object is a buffer or, in the encoding \<open>REDIS_ENCODING_INT\<close>, a number. A set is an
  intset, given by its integers (theory Intset shows that the operations on its bytes refine those on
  the integers), or a hash table of strings. A hash is a ziplist of alternating fields and values or a
  hash table. A list is a ziplist or a linked list of strings. Sorted sets are opaque.\<close>

datatype strobj = Raw bytes | IntEnc u64

datatype setobj = IntSet "u64 fset" | HashSet "bytes fset"

datatype listobj = ZipList "bytes list" | LinkedList "bytes list"

datatype hashobj = ZipHash "(bytes \<times> bytes) list" | TableHash "(bytes, bytes) fmap"

datatype robj =
    StringObj strobj
  | ListObj listobj
  | SetObj setobj
  | HashObj hashobj
  | ZsetObj nat

datatype rtype = REDIS_STRING | REDIS_LIST | REDIS_SET | REDIS_HASH | REDIS_ZSET

fun otype :: "robj \<Rightarrow> rtype" where
  "otype (StringObj _) = REDIS_STRING"
| "otype (ListObj _) = REDIS_LIST"
| "otype (SetObj _) = REDIS_SET"
| "otype (HashObj _) = REDIS_HASH"
| "otype (ZsetObj _) = REDIS_ZSET"

text \<open>\<open>len > 21\<close> and the range of \<open>long\<close> decide whether a string is stored as a number; the
  shared integers are such numbers.\<close>

fun tryObjectEncoding :: "strobj \<Rightarrow> strobj" where
  "tryObjectEncoding (IntEnc v) = IntEnc v"
| "tryObjectEncoding (Raw s) =
     (if length s > 21 then Raw s
      else case string2l s of None \<Rightarrow> Raw s | Some v \<Rightarrow> IntEnc v)"

fun getDecodedObject :: "strobj \<Rightarrow> bytes" where
  "getDecodedObject (Raw s) = s"
| "getDecodedObject (IntEnc v) = ll2string 32 v"

fun stringObjectLen :: "strobj \<Rightarrow> nat" where
  "stringObjectLen (Raw s) = length s"
| "stringObjectLen (IntEnc v) = length (ll2string 32 v)"

definition createStringObjectFromLongLong :: "u64 \<Rightarrow> strobj" where
  "createStringObjectFromLongLong v = IntEnc v"

fun isObjectRepresentableAsLongLong :: "strobj \<Rightarrow> u64 option" where
  "isObjectRepresentableAsLongLong (IntEnc v) = Some v"
| "isObjectRepresentableAsLongLong (Raw s) = string2ll s"

text \<open>\<open>strtoll\<close> with base 10 on a NUL terminated string: the value, the rest of the string and
  whether the value was out of range.\<close>

definition isspace :: "byte \<Rightarrow> bool" where
  "isspace c \<longleftrightarrow> c = 32 \<or> 9 \<le> c \<and> c \<le> 13"

definition strtoll10 :: "bytes \<Rightarrow> u64 \<times> bytes \<times> bool" where
  "strtoll10 s =
     (let r = dropWhile isspace (takeWhile (\<lambda>c. c \<noteq> 0) s);
          neg = (r \<noteq> [] \<and> hd r = MINUS);
          r = (if r \<noteq> [] \<and> (hd r = MINUS \<or> hd r = 43) then tl r else r);
          ds = takeWhile (char_in ZERO NINE) r;
          rest = dropWhile (char_in ZERO NINE) r;
          n = dec_value 0 ds
      in if ds = [] then (0, takeWhile (\<lambda>c. c \<noteq> 0) s, False)
         else if neg then (if n > 2 ^ 63 then (LLONG_MIN, rest, True) else (- of_nat n, rest, False))
         else if n \<ge> 2 ^ 63 then (LLONG_MAX, rest, True) else (of_nat n, rest, False))"

text \<open>An absent object counts as 0. The assertion on the type is checked by the callers.\<close>

fun getLongLongFromObject :: "strobj option \<Rightarrow> u64 option" where
  "getLongLongFromObject None = Some 0"
| "getLongLongFromObject (Some (IntEnc v)) = Some v"
| "getLongLongFromObject (Some (Raw s)) =
     (let (v, rest, erange) = strtoll10 s
      in if (s \<noteq> [] \<and> isspace (hd s)) \<or> rest \<noteq> [] \<or> erange then None else Some v)"

section \<open>The state\<close>

datatype reply =
    Status string
  | Error string
  | Integer int
  | Bulk bytes
  | NullBulk
  | MultiBulkLen int
  | NullMultiBulk

datatype notify_class = NGeneric | NString | NList | NSet | NHash | NZset | NExpired

record redisDb =
  db_dict :: "(bytes, robj) fmap"
  db_expires :: "(bytes, u64) fmap"
  db_watched :: "(bytes, nat list) fmap"
  db_blocking :: "(bytes, nat list) fmap"
  db_ready :: "bytes fset"

record redisClient =
  c_db :: nat
  c_argv :: "bytes list"
  c_cmd :: string
  c_lastcmd :: string
  c_multi :: bool
  c_dirty_cas :: bool
  c_dirty_exec :: bool
  c_commands :: "(string \<times> bytes list) list"
  c_watched :: "(bytes \<times> nat) list"
  c_blocked :: bool
  c_unblocked :: bool
  c_bpop_keys :: "bytes list"
  c_bpop_timeout :: u64
  c_bpop_target :: "bytes option"
  c_replies :: "reply list"

text \<open>The last fields are configuration, the places of its keys in the buckets of a hash table, which
  decide the order of the iterator, and the next value of \<open>rand()\<close>.\<close>

record redisServer =
  dbs :: "redisDb list"
  clients :: "redisClient list"
  dirty :: int
  mstime :: u64
  unixtime :: u64
  loading :: bool
  masterhost :: bool
  stat_expiredkeys :: nat
  stat_hits :: nat
  stat_misses :: nat
  notifications :: "(notify_class \<times> string \<times> bytes \<times> nat) list"
  propagated :: "(nat \<times> bytes list) list"
  bpop_blocked_clients :: u32
  unblocked_clients :: "nat list"
  ready_keys :: "(nat \<times> bytes) list"
  set_max_intset_entries :: nat
  list_max_ziplist_entries :: nat
  list_max_ziplist_value :: nat
  hash_max_ziplist_entries :: nat
  hash_max_ziplist_value :: nat
  dict_place :: "bytes fset \<Rightarrow> bytes \<Rightarrow> nat"
  random_value :: nat

definition dict_order :: "redisServer \<Rightarrow> bytes fset \<Rightarrow> bytes list" where
  "dict_order s S = sort_key (dict_place s S) (sorted_list_of_fset S)"

definition upd_db :: "nat \<Rightarrow> (redisDb \<Rightarrow> redisDb) \<Rightarrow> redisServer \<Rightarrow> redisServer" where
  "upd_db i f s = s\<lparr>dbs := (dbs s)[i := f (dbs s ! i)]\<rparr>"

definition upd_client :: "nat \<Rightarrow> (redisClient \<Rightarrow> redisClient) \<Rightarrow> redisServer \<Rightarrow> redisServer" where
  "upd_client c f s = s\<lparr>clients := (clients s)[c := f (clients s ! c)]\<rparr>"

definition cur_db :: "redisServer \<Rightarrow> nat \<Rightarrow> nat" where
  "cur_db s c = c_db (clients s ! c)"

definition argv :: "redisServer \<Rightarrow> nat \<Rightarrow> nat \<Rightarrow> bytes" where
  "argv s c j = c_argv (clients s ! c) ! j"

definition argc :: "redisServer \<Rightarrow> nat \<Rightarrow> nat" where
  "argc s c = length (c_argv (clients s ! c))"

section \<open>Replies, events, propagation\<close>

definition addReply :: "nat \<Rightarrow> reply \<Rightarrow> redisServer \<Rightarrow> redisServer" where
  "addReply c r = upd_client c (\<lambda>cl. cl\<lparr>c_replies := c_replies cl @ [r]\<rparr>)"

definition ok_reply :: reply where "ok_reply = Status ''OK''"
definition czero :: reply where "czero = Integer 0"
definition cone :: reply where "cone = Integer 1"
definition wrongtypeerr :: reply where
  "wrongtypeerr = Error ''WRONGTYPE Operation against a key holding the wrong kind of value''"

definition notifyKeyspaceEvent :: "notify_class \<Rightarrow> string \<Rightarrow> bytes \<Rightarrow> nat \<Rightarrow> redisServer \<Rightarrow> redisServer" where
  "notifyKeyspaceEvent cls event key dbid s =
     s\<lparr>notifications := notifications s @ [(cls, event, key, dbid)]\<rparr>"

definition add_dirty :: "int \<Rightarrow> redisServer \<Rightarrow> redisServer" where
  "add_dirty n s = s\<lparr>dirty := dirty s + n\<rparr>"

definition propagate :: "nat \<Rightarrow> bytes list \<Rightarrow> redisServer \<Rightarrow> redisServer" where
  "propagate dbid av s = s\<lparr>propagated := propagated s @ [(dbid, av)]\<rparr>"

definition rewriteClientCommandVector :: "nat \<Rightarrow> bytes list \<Rightarrow> redisServer \<Rightarrow> redisServer" where
  "rewriteClientCommandVector c av = upd_client c (\<lambda>cl. cl\<lparr>c_argv := av\<rparr>)"

text \<open>\<open>checkType\<close>: the reply on a type that does not fit.\<close>

definition checkType :: "nat \<Rightarrow> robj \<Rightarrow> rtype \<Rightarrow> redisServer \<Rightarrow> redisServer option" where
  "checkType c o1 t s = (if otype o1 \<noteq> t then Some (addReply c wrongtypeerr s) else None)"

section \<open>Modified keys\<close>

definition set_dirty_cas :: "redisClient \<Rightarrow> redisClient" where
  "set_dirty_cas cl = cl\<lparr>c_dirty_cas := True\<rparr>"

definition touchWatchedKey :: "nat \<Rightarrow> bytes \<Rightarrow> redisServer \<Rightarrow> redisServer" where
  "touchWatchedKey i key s =
     (case fmlookup (db_watched (dbs s ! i)) key of
        None \<Rightarrow> s
      | Some cs \<Rightarrow> fold (\<lambda>c. upd_client c set_dirty_cas) cs s)"

definition signalModifiedKey :: "nat \<Rightarrow> bytes \<Rightarrow> redisServer \<Rightarrow> redisServer" where
  "signalModifiedKey i key = touchWatchedKey i key"

text \<open>The clients in order, each over its watched keys: a client is marked when one of its keys in
  the flushed database exists.\<close>

definition touchWatchedKeysOnFlush :: "nat option \<Rightarrow> redisServer \<Rightarrow> redisServer" where
  "touchWatchedKeysOnFlush dbid s =
     fold (\<lambda>c s.
        if \<exists>(k, i) \<in> set (c_watched (clients s ! c)).
             (dbid = None \<or> dbid = Some i) \<and> fmlookup (db_dict (dbs s ! i)) k \<noteq> None
        then upd_client c set_dirty_cas s else s) [0..<length (clients s)] s"

end
