(* ===== verification/Db.thy ===== *)
theory Db
  imports Server
begin

text \<open>
  Redis db.c: the key space API (lookups with lazy expiry, add, overwrite, delete, expires) and the
  commands that work on keys of any type.

  The lemmas are about one relation between two states (\<open>upd i K\<close>): the value of a key as a
  client sees it (\<open>visible\<close>) changes only for keys of \<open>K\<close> in database \<open>i\<close>, or every client
  that watches the key is marked. Each primitive has its \<open>K\<close>; signalling a key removes it from
  \<open>K\<close>; a command is safe for WATCH when its \<open>K\<close> is empty. The same lemmas carry the
  invariant that an expire belongs to an existing key, on which the assertions of the code rest.
\<close>

section \<open>Expires\<close>

definition dbExists :: "nat \<Rightarrow> bytes \<Rightarrow> redisServer \<Rightarrow> bool" where
  "dbExists i key s \<longleftrightarrow> fmlookup (db_dict (dbs s ! i)) key \<noteq> None"

definition lookupKey :: "nat \<Rightarrow> bytes \<Rightarrow> redisServer \<Rightarrow> robj option" where
  "lookupKey i key s = fmlookup (db_dict (dbs s ! i)) key"

text \<open>-1 when there is no expire; an expire of a key that does not exist fails the assertion.\<close>

definition getExpire :: "nat \<Rightarrow> bytes \<Rightarrow> redisServer \<Rightarrow> u64 option" where
  "getExpire i key s =
     (case fmlookup (db_expires (dbs s ! i)) key of None \<Rightarrow> Some (- 1)
      | Some w \<Rightarrow> if dbExists i key s then Some w else None)"

definition setExpire :: "nat \<Rightarrow> bytes \<Rightarrow> u64 \<Rightarrow> redisServer \<Rightarrow> redisServer option" where
  "setExpire i key when s =
     (if dbExists i key s
      then Some (upd_db i (\<lambda>d. d\<lparr>db_expires := fmupd key when (db_expires d)\<rparr>) s) else None)"

definition removeExpire :: "nat \<Rightarrow> bytes \<Rightarrow> redisServer \<Rightarrow> (bool \<times> redisServer) option" where
  "removeExpire i key s =
     (if dbExists i key s
      then Some (fmlookup (db_expires (dbs s ! i)) key \<noteq> None,
                 upd_db i (\<lambda>d. d\<lparr>db_expires := fmdrop key (db_expires d)\<rparr>) s) else None)"

definition dbDelete :: "nat \<Rightarrow> bytes \<Rightarrow> redisServer \<Rightarrow> bool \<times> redisServer" where
  "dbDelete i key s =
     (dbExists i key s,
      upd_db i (\<lambda>d. d\<lparr>db_dict := fmdrop key (db_dict d), db_expires := fmdrop key (db_expires d)\<rparr>) s)"

definition propagateExpire :: "nat \<Rightarrow> bytes \<Rightarrow> redisServer \<Rightarrow> redisServer" where
  "propagateExpire i key s = propagate i [ascii ''DEL'', key] s"

definition expireIfNeeded :: "nat \<Rightarrow> bytes \<Rightarrow> redisServer \<Rightarrow> (bool \<times> redisServer) option" where
  "expireIfNeeded i key s = do {
     when \<leftarrow> getExpire i key s;
     if sint when < 0 then Some (False, s)
     else if loading s then Some (False, s)
     else if masterhost s then Some (sint (mstime s) > sint when, s)
     else if sint (mstime s) \<le> sint when then Some (False, s)
     else do {
       let s = s\<lparr>stat_expiredkeys := stat_expiredkeys s + 1\<rparr>;
       let s = propagateExpire i key s;
       let s = notifyKeyspaceEvent NExpired ''expired'' key i s;
       Some (dbDelete i key s) } }"

section \<open>Lookup and update\<close>

definition lookupKeyRead :: "nat \<Rightarrow> bytes \<Rightarrow> redisServer \<Rightarrow> (robj option \<times> redisServer) option" where
  "lookupKeyRead i key s = do {
     (_, s) \<leftarrow> expireIfNeeded i key s;
     (case lookupKey i key s of
        None \<Rightarrow> Some (None, s\<lparr>stat_misses := stat_misses s + 1\<rparr>)
      | Some v \<Rightarrow> Some (Some v, s\<lparr>stat_hits := stat_hits s + 1\<rparr>)) }"

definition lookupKeyWrite :: "nat \<Rightarrow> bytes \<Rightarrow> redisServer \<Rightarrow> (robj option \<times> redisServer) option" where
  "lookupKeyWrite i key s = do {
     (_, s) \<leftarrow> expireIfNeeded i key s;
     Some (lookupKey i key s, s) }"

definition lookupKeyReadOrReply ::
  "nat \<Rightarrow> bytes \<Rightarrow> reply \<Rightarrow> redisServer \<Rightarrow> (robj option \<times> redisServer) option" where
  "lookupKeyReadOrReply c key r s = do {
     (v, s) \<leftarrow> lookupKeyRead (cur_db s c) key s;
     Some (v, if v = None then addReply c r s else s) }"

definition lookupKeyWriteOrReply ::
  "nat \<Rightarrow> bytes \<Rightarrow> reply \<Rightarrow> redisServer \<Rightarrow> (robj option \<times> redisServer) option" where
  "lookupKeyWriteOrReply c key r s = do {
     (v, s) \<leftarrow> lookupKeyWrite (cur_db s c) key s;
     Some (v, if v = None then addReply c r s else s) }"

definition dbAdd :: "nat \<Rightarrow> bytes \<Rightarrow> robj \<Rightarrow> redisServer \<Rightarrow> redisServer option" where
  "dbAdd i key val s =
     (if dbExists i key s then None
      else Some (upd_db i (\<lambda>d. d\<lparr>db_dict := fmupd key val (db_dict d)\<rparr>) s))"

text \<open>The object under a key has been changed in place.\<close>

definition storeObject :: "nat \<Rightarrow> bytes \<Rightarrow> robj \<Rightarrow> redisServer \<Rightarrow> redisServer" where
  "storeObject i key val = upd_db i (\<lambda>d. d\<lparr>db_dict := fmupd key val (db_dict d)\<rparr>)"

definition dbOverwrite :: "nat \<Rightarrow> bytes \<Rightarrow> robj \<Rightarrow> redisServer \<Rightarrow> redisServer option" where
  "dbOverwrite i key val s =
     (if dbExists i key s
      then Some (upd_db i (\<lambda>d. d\<lparr>db_dict := fmupd key val (db_dict d)\<rparr>) s) else None)"

definition setKey :: "nat \<Rightarrow> bytes \<Rightarrow> robj \<Rightarrow> redisServer \<Rightarrow> redisServer option" where
  "setKey i key val s = do {
     (o1, s) \<leftarrow> lookupKeyWrite i key s;
     s \<leftarrow> (if o1 = None then dbAdd i key val s else dbOverwrite i key val s);
     (_, s) \<leftarrow> removeExpire i key s;
     Some (signalModifiedKey i key s) }"

section \<open>Arguments\<close>

text \<open>The number in an argument, or the error reply.\<close>

definition not_an_integer :: reply where
  "not_an_integer = Error ''ERR value is not an integer or out of range''"

definition getLongLongFromObjectOrReply ::
  "nat \<Rightarrow> strobj option \<Rightarrow> reply \<Rightarrow> redisServer \<Rightarrow> redisServer + u64" where
  "getLongLongFromObjectOrReply c o1 msg s =
     (case getLongLongFromObject o1 of None \<Rightarrow> Inl (addReply c msg s) | Some v \<Rightarrow> Inr v)"

definition getLongFromObjectOrReply ::
  "nat \<Rightarrow> strobj option \<Rightarrow> reply \<Rightarrow> redisServer \<Rightarrow> redisServer + u64" where
  "getLongFromObjectOrReply c o1 msg s =
     (case getLongLongFromObjectOrReply c o1 msg s of Inl s \<Rightarrow> Inl s
      | Inr v \<Rightarrow> if sint v < sint LLONG_MIN \<or> sint v > sint LLONG_MAX then Inl (addReply c msg s) else Inr v)"

section \<open>Commands on keys\<close>

definition flushdbCommand :: "nat \<Rightarrow> redisServer \<Rightarrow> redisServer option" where
  "flushdbCommand c s = do {
     let i = cur_db s c;
     let s = add_dirty (int (fcard (fmdom (db_dict (dbs s ! i))))) s;
     let s = touchWatchedKeysOnFlush (Some i) s;
     let s = upd_db i (\<lambda>d. d\<lparr>db_dict := fmempty, db_expires := fmempty\<rparr>) s;
     Some (addReply c ok_reply s) }"

definition emptyDb :: "redisServer \<Rightarrow> int \<times> redisServer" where
  "emptyDb s =
     (sum_list (map (\<lambda>d. int (fcard (fmdom (db_dict d)))) (dbs s)),
      s\<lparr>dbs := map (\<lambda>d. d\<lparr>db_dict := fmempty, db_expires := fmempty\<rparr>) (dbs s)\<rparr>)"

definition flushallCommand :: "nat \<Rightarrow> redisServer \<Rightarrow> redisServer option" where
  "flushallCommand c s = do {
     let s = touchWatchedKeysOnFlush None s;
     let (removed, s) = emptyDb s;
     let s = add_dirty removed s;
     let s = addReply c ok_reply s;
     Some (add_dirty 1 s) }"

text \<open>The loop over the keys, with the number of keys deleted.\<close>

fun del_loop :: "nat \<Rightarrow> bytes list \<Rightarrow> int \<Rightarrow> redisServer \<Rightarrow> int \<times> redisServer" where
  "del_loop c [] deleted s = (deleted, s)"
| "del_loop c (key # keys) deleted s =
     (let i = cur_db s c; (found, s) = dbDelete i key s
      in if found then
           let s = signalModifiedKey i key s;
               s = notifyKeyspaceEvent NGeneric ''del'' key i s;
               s = add_dirty 1 s
           in del_loop c keys (deleted + 1) s
         else del_loop c keys deleted s)"

definition delCommand :: "nat \<Rightarrow> redisServer \<Rightarrow> redisServer option" where
  "delCommand c s =
     (let (deleted, s) = del_loop c (tl (c_argv (clients s ! c))) 0 s
      in Some (addReply c (Integer deleted) s))"

definition existsCommand :: "nat \<Rightarrow> redisServer \<Rightarrow> redisServer option" where
  "existsCommand c s = do {
     let i = cur_db s c;
     (_, s) \<leftarrow> expireIfNeeded i (argv s c 1) s;
     Some (addReply c (if dbExists i (argv s c 1) s then cone else czero) s) }"

text \<open>\<open>selectDb\<close> takes an \<open>int\<close>: the number of the command is truncated to 32 bits.\<close>

definition selectDb :: "nat \<Rightarrow> u32 \<Rightarrow> redisServer \<Rightarrow> redisServer option" where
  "selectDb c dbid s =
     (if sint dbid < 0 \<or> sint dbid \<ge> int (length (dbs s)) then None
      else Some (upd_client c (\<lambda>cl. cl\<lparr>c_db := unat dbid\<rparr>) s))"

definition selectCommand :: "nat \<Rightarrow> redisServer \<Rightarrow> redisServer option" where
  "selectCommand c s =
     (case getLongFromObjectOrReply c (Some (Raw (argv s c 1))) (Error ''ERR invalid DB index'') s of
        Inl s \<Rightarrow> Some s
      | Inr dbid \<Rightarrow>
        (case selectDb c (ucast dbid) s of
           None \<Rightarrow> Some (addReply c (Error ''ERR invalid DB index'') s)
         | Some s \<Rightarrow> Some (addReply c ok_reply s)))"

definition dbsizeCommand :: "nat \<Rightarrow> redisServer \<Rightarrow> redisServer option" where
  "dbsizeCommand c s = Some (addReply c (Integer (int (fcard (fmdom (db_dict (dbs s ! cur_db s c)))))) s)"

definition typeCommand :: "nat \<Rightarrow> redisServer \<Rightarrow> redisServer option" where
  "typeCommand c s = do {
     (o1, s) \<leftarrow> lookupKeyRead (cur_db s c) (argv s c 1) s;
     Some (addReply c (Status (case o1 of None \<Rightarrow> ''none''
       | Some v \<Rightarrow> (case otype v of REDIS_STRING \<Rightarrow> ''string'' | REDIS_LIST \<Rightarrow> ''list''
                   | REDIS_SET \<Rightarrow> ''set'' | REDIS_ZSET \<Rightarrow> ''zset'' | REDIS_HASH \<Rightarrow> ''hash''))) s) }"

definition renameGenericCommand :: "nat \<Rightarrow> bool \<Rightarrow> redisServer \<Rightarrow> redisServer option" where
  "renameGenericCommand c nx s =
     (if argv s c 1 = argv s c 2 then
        Some (addReply c (Error ''ERR source and destination objects are the same'') s)
      else do {
        let i = cur_db s c;
        (o1, s) \<leftarrow> lookupKeyWriteOrReply c (argv s c 1) (Error ''ERR no such key'') s;
        (case o1 of None \<Rightarrow> Some s
         | Some v \<Rightarrow> do {
             expire \<leftarrow> getExpire i (argv s c 1) s;
             (o2, s) \<leftarrow> lookupKeyWrite i (argv s c 2) s;
             if o2 \<noteq> None \<and> nx then Some (addReply c czero s)
             else do {
               let s = (if o2 \<noteq> None then snd (dbDelete i (argv s c 2) s) else s);
               s \<leftarrow> dbAdd i (argv s c 2) v s;
               s \<leftarrow> (if expire \<noteq> - 1 then setExpire i (argv s c 2) expire s else Some s);
               let s = snd (dbDelete i (argv s c 1) s);
               let s = signalModifiedKey i (argv s c 1) s;
               let s = signalModifiedKey i (argv s c 2) s;
               let s = notifyKeyspaceEvent NGeneric ''rename_from'' (argv s c 1) i s;
               let s = notifyKeyspaceEvent NGeneric ''rename_to'' (argv s c 2) i s;
               let s = add_dirty 1 s;
               Some (addReply c (if nx then cone else ok_reply) s) } }) })"

definition renameCommand :: "nat \<Rightarrow> redisServer \<Rightarrow> redisServer option" where
  "renameCommand c s = renameGenericCommand c False s"

definition renamenxCommand :: "nat \<Rightarrow> redisServer \<Rightarrow> redisServer option" where
  "renamenxCommand c s = renameGenericCommand c True s"

text \<open>\<open>atoi\<close> of the standard library.\<close>

definition atoi :: "bytes \<Rightarrow> u32" where
  "atoi s = ucast (fst (strtoll10 s))"

definition moveCommand :: "nat \<Rightarrow> redisServer \<Rightarrow> redisServer option" where
  "moveCommand c s =
     (let src = cur_db s c
      in case selectDb c (atoi (argv s c 2)) s of
           None \<Rightarrow> Some (addReply c (Error ''ERR index out of range'') s)
         | Some s1 \<Rightarrow> do {
             let dst = cur_db s1 c;
             s \<leftarrow> selectDb c (of_nat src) s1;
             if src = dst then
               Some (addReply c (Error ''ERR source and destination objects are the same'') s)
             else do {
               (o1, s) \<leftarrow> lookupKeyWrite src (argv s c 1) s;
               (case o1 of None \<Rightarrow> Some (addReply c czero s)
                | Some v \<Rightarrow> do {
                    (o2, s) \<leftarrow> lookupKeyWrite dst (argv s c 1) s;
                    if o2 \<noteq> None then Some (addReply c czero s)
                    else do {
                      s \<leftarrow> dbAdd dst (argv s c 1) v s;
                      let s = snd (dbDelete src (argv s c 1) s);
                      let s = add_dirty 1 s;
                      Some (addReply c cone s) } }) } })"

section \<open>Commands on expires\<close>

datatype time_unit = UNIT_SECONDS | UNIT_MILLISECONDS

definition expireGenericCommand :: "nat \<Rightarrow> u64 \<Rightarrow> time_unit \<Rightarrow> redisServer \<Rightarrow> redisServer option" where
  "expireGenericCommand c basetime unit s =
     (let i = cur_db s c; key = argv s c 1
      in case getLongLongFromObjectOrReply c (Some (Raw (argv s c 2))) not_an_integer s of
           Inl s \<Rightarrow> Some s
         | Inr when \<Rightarrow> do {
             let when = (if unit = UNIT_SECONDS then when * 1000 else when);
             let when = when + basetime;
             (o1, s) \<leftarrow> lookupKeyRead i key s;
             if o1 = None then Some (addReply c czero s)
             else if sint when \<le> sint (mstime s) \<and> \<not> loading s \<and> \<not> masterhost s then do {
               let (found, s) = dbDelete i key s;
               if \<not> found then None
               else do {
                 let s = add_dirty 1 s;
                 let s = rewriteClientCommandVector c [ascii ''DEL'', key] s;
                 let s = signalModifiedKey i key s;
                 let s = notifyKeyspaceEvent NGeneric ''del'' key i s;
                 Some (addReply c cone s) } }
             else do {
               s \<leftarrow> setExpire i key when s;
               let s = addReply c cone s;
               let s = signalModifiedKey i key s;
               let s = notifyKeyspaceEvent NGeneric ''expire'' key i s;
               Some (add_dirty 1 s) } })"

definition expireCommand :: "nat \<Rightarrow> redisServer \<Rightarrow> redisServer option" where
  "expireCommand c s = expireGenericCommand c (mstime s) UNIT_SECONDS s"

definition expireatCommand :: "nat \<Rightarrow> redisServer \<Rightarrow> redisServer option" where
  "expireatCommand c s = expireGenericCommand c 0 UNIT_SECONDS s"

definition pexpireCommand :: "nat \<Rightarrow> redisServer \<Rightarrow> redisServer option" where
  "pexpireCommand c s = expireGenericCommand c (mstime s) UNIT_MILLISECONDS s"

definition pexpireatCommand :: "nat \<Rightarrow> redisServer \<Rightarrow> redisServer option" where
  "pexpireatCommand c s = expireGenericCommand c 0 UNIT_MILLISECONDS s"

text \<open>\<open>(ttl + 500) / 1000\<close> on signed numbers.\<close>

definition round_seconds :: "u64 \<Rightarrow> int" where
  "round_seconds ttl = (let t = sint (ttl + 500) in if 0 \<le> t then t div 1000 else - ((- t) div 1000))"

definition ttlGenericCommand :: "nat \<Rightarrow> bool \<Rightarrow> redisServer \<Rightarrow> redisServer option" where
  "ttlGenericCommand c output_ms s = do {
     let i = cur_db s c;
     (o1, s) \<leftarrow> lookupKeyRead i (argv s c 1) s;
     if o1 = None then Some (addReply c (Integer (- 2)) s)
     else do {
       expire \<leftarrow> getExpire i (argv s c 1) s;
       let ttl = (if expire \<noteq> - 1
                  then (if sint (expire - mstime s) < 0 then 0 else expire - mstime s) else - 1);
       Some (addReply c (Integer (if ttl = - 1 then - 1
         else if output_ms then sint ttl else round_seconds ttl)) s) } }"

definition ttlCommand :: "nat \<Rightarrow> redisServer \<Rightarrow> redisServer option" where
  "ttlCommand c s = ttlGenericCommand c False s"

definition pttlCommand :: "nat \<Rightarrow> redisServer \<Rightarrow> redisServer option" where
  "pttlCommand c s = ttlGenericCommand c True s"

definition persistCommand :: "nat \<Rightarrow> redisServer \<Rightarrow> redisServer option" where
  "persistCommand c s =
     (let i = cur_db s c
      in if \<not> dbExists i (argv s c 1) s then Some (addReply c czero s)
         else do {
           (removed, s) \<leftarrow> removeExpire i (argv s c 1) s;
           if removed then Some (add_dirty 1 (addReply c cone s))
           else Some (addReply c czero s) })"

end
