(* ===== verification/Db_Safety.thy ===== *)
theory Db_Safety
  imports Db
begin

text \<open>
  The relation \<open>upd\<close> between the states before and after an operation on a database, the
  invariant \<open>srv_ok\<close> of the server, and their lemmas for the primitives of Db and for its
  commands.
\<close>

section \<open>The invariant\<close>

definition expires_ok :: "redisServer \<Rightarrow> bool" where
  "expires_ok s \<longleftrightarrow> (\<forall>i k. i < length (dbs s) \<longrightarrow> fmlookup (db_expires (dbs s ! i)) k \<noteq> None \<longrightarrow>
     fmlookup (db_dict (dbs s ! i)) k \<noteq> None)"

definition watches :: "redisServer \<Rightarrow> nat \<Rightarrow> nat \<Rightarrow> bytes \<Rightarrow> bool" where
  "watches s c i k \<longleftrightarrow> (k, i) \<in> set (c_watched (clients s ! c))"

text \<open>The clients listed for a key in a database are the clients that have the key in their list.\<close>

definition watch_ok :: "redisServer \<Rightarrow> bool" where
  "watch_ok s \<longleftrightarrow>
     (\<forall>i k. i < length (dbs s) \<longrightarrow>
        (case fmlookup (db_watched (dbs s ! i)) k of
           None \<Rightarrow> \<forall>c < length (clients s). \<not> watches s c i k
         | Some cs \<Rightarrow> cs \<noteq> [] \<and> distinct cs \<and> set cs = {c. c < length (clients s) \<and> watches s c i k})) \<and>
     (\<forall>cl \<in> set (clients s). distinct (c_watched cl) \<and> (\<forall>(k, i) \<in> set (c_watched cl). i < length (dbs s)))"

definition clients_ok :: "redisServer \<Rightarrow> bool" where
  "clients_ok s \<longleftrightarrow> (\<forall>cl \<in> set (clients s). c_db cl < length (dbs s))"

text \<open>No ziplist of a hash has a field twice: its conversion to a hash table asserts it.\<close>

fun wf_obj :: "robj \<Rightarrow> bool" where
  "wf_obj (HashObj (ZipHash ps)) = distinct (map fst ps)"
| "wf_obj _ = True"

definition objects_ok :: "redisServer \<Rightarrow> bool" where
  "objects_ok s \<longleftrightarrow> (\<forall>i k v. i < length (dbs s) \<longrightarrow> fmlookup (db_dict (dbs s ! i)) k = Some v \<longrightarrow> wf_obj v)"

text \<open>The clients listed as blocked on a key are those that wait for it; a client is blocked when it waits
  for some key.\<close>

definition waits :: "redisServer \<Rightarrow> nat \<Rightarrow> nat \<Rightarrow> bytes \<Rightarrow> bool" where
  "waits s c i k \<longleftrightarrow> c_db (clients s ! c) = i \<and> k \<in> set (c_bpop_keys (clients s ! c))"

text \<open>A client that has been unblocked is in the list of those whose input is to be read.\<close>

definition unblocked_ok :: "redisServer \<Rightarrow> bool" where
  "unblocked_ok s \<longleftrightarrow> set (unblocked_clients s) \<subseteq> {..<length (clients s)} \<and>
     (\<forall>c < length (clients s). c_unblocked (clients s ! c) \<longrightarrow> c \<in> set (unblocked_clients s))"

definition blocking_ok :: "redisServer \<Rightarrow> bool" where
  "blocking_ok s \<longleftrightarrow>
     (\<forall>i k. i < length (dbs s) \<longrightarrow>
        (case fmlookup (db_blocking (dbs s ! i)) k of
           None \<Rightarrow> \<forall>c < length (clients s). \<not> waits s c i k
         | Some cs \<Rightarrow> cs \<noteq> [] \<and> distinct cs \<and> set cs = {c. c < length (clients s) \<and> waits s c i k})) \<and>
     (\<forall>cl \<in> set (clients s). distinct (c_bpop_keys cl) \<and> (c_blocked cl \<longleftrightarrow> c_bpop_keys cl \<noteq> [])) \<and>
     unblocked_ok s"

definition srv_ok :: "redisServer \<Rightarrow> bool" where
  "srv_ok s \<longleftrightarrow> expires_ok s \<and> watch_ok s \<and> clients_ok s \<and> objects_ok s \<and> blocking_ok s"

section \<open>What a client sees\<close>

definition due :: "redisServer \<Rightarrow> u64 \<Rightarrow> bool" where
  "due s w \<longleftrightarrow> \<not> loading s \<and> \<not> masterhost s \<and> 0 \<le> sint w \<and> sint w < sint (mstime s)"

definition db_visible :: "(u64 \<Rightarrow> bool) \<Rightarrow> redisDb \<Rightarrow> bytes \<Rightarrow> robj option" where
  "db_visible P d k =
     (case fmlookup (db_expires d) k of None \<Rightarrow> fmlookup (db_dict d) k
      | Some w \<Rightarrow> if P w then None else fmlookup (db_dict d) k)"

definition visible :: "redisServer \<Rightarrow> nat \<Rightarrow> bytes \<Rightarrow> robj option" where
  "visible s i k = db_visible (due s) (dbs s ! i) k"

text \<open>An object without its encoding: what clients can tell of it.\<close>

fun plain :: "robj \<Rightarrow> robj" where
  "plain (StringObj v) = StringObj (Raw (getDecodedObject v))"
| "plain (SetObj (IntSet V)) = SetObj (HashSet ((\<lambda>n. getDecodedObject (IntEnc n)) |`| V))"
| "plain (ListObj (ZipList xs)) = ListObj (LinkedList xs)"
| "plain (HashObj (ZipHash ps)) = HashObj (TableHash (fmap_of_list ps))"
| "plain v = v"

text \<open>An aggregate without elements. Handlers create and empty aggregates; none is left under a key.\<close>

fun hollow :: "robj \<Rightarrow> bool" where
  "hollow (StringObj v) = False"
| "hollow (ListObj (ZipList xs)) = (xs = [])"
| "hollow (ListObj (LinkedList xs)) = (xs = [])"
| "hollow (SetObj (IntSet V)) = (V = {||})"
| "hollow (SetObj (HashSet S)) = (S = {||})"
| "hollow (HashObj (ZipHash ps)) = (ps = [])"
| "hollow (HashObj (TableHash m)) = (m = fmempty)"
| "hollow (ZsetObj n) = False"

lemma hollow_plain [simp]: "hollow (plain v) \<longleftrightarrow> hollow v"
proof (cases v)
  case (HashObj h)
  have "fmap_of_list ps = fmempty \<longleftrightarrow> ps = []" for ps :: "(bytes \<times> bytes) list"
    using fmdom'_alt_def [of "fmap_of_list ps"] by (cases ps) (auto dest: arg_cong [of _ _ "\<lambda>m. fmlookup m (fst (hd ps))"])
  then show ?thesis using HashObj by (cases h) simp_all
next
  case (SetObj so)
  then show ?thesis by (cases so) auto
next
  case (ListObj l)
  then show ?thesis by (cases l) auto
qed simp_all

definition hollow_at :: "redisServer \<Rightarrow> nat \<Rightarrow> bytes \<Rightarrow> bool" where
  "hollow_at s i k \<longleftrightarrow> i < length (dbs s) \<and>
     (\<exists>v. fmlookup (db_dict (dbs s ! i)) k = Some v \<and> hollow v)"

definition srv_full :: "redisServer \<Rightarrow> bool" where
  "srv_full s \<longleftrightarrow> srv_ok s \<and> (\<forall>i k. \<not> hollow_at s i k)"

abbreviation seen :: "redisServer \<Rightarrow> nat \<Rightarrow> bytes \<Rightarrow> robj option" where
  "seen s i k \<equiv> map_option plain (visible s i k)"

definition marked :: "redisServer \<Rightarrow> redisServer \<Rightarrow> nat \<Rightarrow> bytes \<Rightarrow> bool" where
  "marked s s' i k \<longleftrightarrow>
     (\<forall>c < length (clients s). watches s c i k \<longrightarrow> c_dirty_cas (clients s' ! c))"

text \<open>The iterator of a hash table returns every key once.\<close>

definition order_ok :: "(bytes fset \<Rightarrow> bytes list) \<Rightarrow> bool" where
  "order_ok ord \<longleftrightarrow> (\<forall>S. set (ord S) = fset S \<and> distinct (ord S))"

lemma dict_order_ok: "order_ok (dict_order s)"
  by (simp add: order_ok_def dict_order_def sorted_list_of_fset.rep_eq)

text \<open>What no command on data changes.\<close>

definition same_shape :: "redisServer \<Rightarrow> redisServer \<Rightarrow> bool" where
  "same_shape s s' \<longleftrightarrow>
     length (dbs s') = length (dbs s) \<and> length (clients s') = length (clients s) \<and>
     mstime s' = mstime s \<and> loading s' = loading s \<and> masterhost s' = masterhost s \<and>
     unblocked_clients s' = unblocked_clients s \<and>
     (\<forall>j < length (dbs s). db_watched (dbs s' ! j) = db_watched (dbs s ! j) \<and>
        db_blocking (dbs s' ! j) = db_blocking (dbs s ! j)) \<and>
     (\<forall>c < length (clients s).
        c_watched (clients s' ! c) = c_watched (clients s ! c) \<and>
        c_multi (clients s' ! c) = c_multi (clients s ! c) \<and>
        c_commands (clients s' ! c) = c_commands (clients s ! c) \<and>
        c_dirty_exec (clients s' ! c) = c_dirty_exec (clients s ! c) \<and>
        (c_dirty_cas (clients s ! c) \<longrightarrow> c_dirty_cas (clients s' ! c)) \<and>
        c_blocked (clients s' ! c) = c_blocked (clients s ! c) \<and>
        c_unblocked (clients s' ! c) = c_unblocked (clients s ! c) \<and>
        c_bpop_keys (clients s' ! c) = c_bpop_keys (clients s ! c) \<and>
        (c_bpop_keys (clients s ! c) \<noteq> [] \<longrightarrow> c_db (clients s' ! c) = c_db (clients s ! c)))"

text \<open>Keys are only added to those that are ready, in the list of the server and in the table of their
  database.\<close>

definition new_ready :: "(nat \<times> bytes) list \<Rightarrow> redisServer \<Rightarrow> redisServer \<Rightarrow> bool" where
  "new_ready ks s s' \<longleftrightarrow> ready_keys s' = ready_keys s @ ks \<and> distinct ks \<and>
     (\<forall>(j, k) \<in> set ks. j < length (dbs s) \<and> k |\<notin>| db_ready (dbs s ! j)) \<and>
     (\<forall>j k. j < length (dbs s) \<longrightarrow>
        (k |\<in>| db_ready (dbs s' ! j) \<longleftrightarrow> k |\<in>| db_ready (dbs s ! j) \<or> (j, k) \<in> set ks))"

text \<open>Keys of \<open>K\<close> in database \<open>i\<close> are pending: they may have been changed without a mark for their
  watchers, and may hold an aggregate without elements.\<close>

definition pending :: "nat \<Rightarrow> bytes set \<Rightarrow> redisServer \<Rightarrow> redisServer \<Rightarrow> nat \<Rightarrow> bytes \<Rightarrow> bool" where
  "pending i K s s' j k \<longleftrightarrow> j = i \<and> k \<in> K \<or> marked s s' j k"

definition seen_upd :: "nat \<Rightarrow> bytes set \<Rightarrow> redisServer \<Rightarrow> redisServer \<Rightarrow> bool" where
  "seen_upd i K s s' \<longleftrightarrow>
     (\<forall>j k. j < length (dbs s) \<longrightarrow> seen s' j k \<noteq> seen s j k \<longrightarrow> pending i K s s' j k)"

definition hollow_upd :: "nat \<Rightarrow> bytes set \<Rightarrow> redisServer \<Rightarrow> redisServer \<Rightarrow> bool" where
  "hollow_upd i K s s' \<longleftrightarrow> (\<forall>j k. hollow_at s' j k \<longrightarrow> j = i \<and> k \<in> K \<or> hollow_at s j k)"

definition ready_upd :: "nat \<Rightarrow> bytes set \<Rightarrow> redisServer \<Rightarrow> redisServer \<Rightarrow> bool" where
  "ready_upd i K s s' \<longleftrightarrow> (\<exists>ks. new_ready ks s s' \<and> (\<forall>(j, k) \<in> set ks. pending i K s s' j k))"

definition upd :: "nat \<Rightarrow> bytes set \<Rightarrow> redisServer \<Rightarrow> redisServer \<Rightarrow> bool" where
  "upd i K s s' \<longleftrightarrow> srv_ok s' \<and> same_shape s s' \<and> seen_upd i K s s' \<and> hollow_upd i K s s' \<and> ready_upd i K s s'"

lemma new_ready_refl: "new_ready [] s s"
  by (simp add: new_ready_def)

lemma new_ready_trans:
  "new_ready ks s s1 \<Longrightarrow> new_ready ks' s1 s2 \<Longrightarrow> length (dbs s1) = length (dbs s) \<Longrightarrow> new_ready (ks @ ks') s s2"
  by (fastforce simp: new_ready_def)

lemma same_shape_refl [simp]: "same_shape s s"
  by (simp add: same_shape_def)

lemma same_shape_trans: "same_shape s s1 \<Longrightarrow> same_shape s1 s2 \<Longrightarrow> same_shape s s2"
  by (simp add: same_shape_def)

lemma upd_refl: "srv_ok s \<Longrightarrow> upd i K s s"
  using new_ready_refl [of s] by (force simp: upd_def seen_upd_def hollow_upd_def ready_upd_def)

lemma upd_srv_ok: "upd i K s s' \<Longrightarrow> srv_ok s'"
  by (simp add: upd_def)

lemma upd_shape: "upd i K s s' \<Longrightarrow> same_shape s s'"
  by (simp add: upd_def)

lemma pending_mono: "pending i K s s' j k \<Longrightarrow> K \<subseteq> L \<Longrightarrow> pending i L s s' j k"
  by (auto simp: pending_def)

lemma upd_mono:
  assumes u: "upd i K s s'" and l: "K \<subseteq> L"
  shows "upd i L s s'"
proof -
  have "seen_upd i L s s'" using u pending_mono [OF _ l] by (auto simp: upd_def seen_upd_def)
  moreover have "hollow_upd i L s s'" using u l by (auto simp: upd_def hollow_upd_def)
  moreover have "ready_upd i L s s'" using u pending_mono [OF _ l] unfolding upd_def ready_upd_def by fast
  ultimately show ?thesis using u by (simp add: upd_def)
qed

lemma marked_trans: "marked s s1 i k \<Longrightarrow> same_shape s1 s2 \<Longrightarrow> same_shape s s1 \<Longrightarrow> marked s s2 i k"
  by (auto simp: marked_def same_shape_def)

lemma marked_shape: "marked s1 s2 i k \<Longrightarrow> same_shape s s1 \<Longrightarrow> marked s s2 i k"
  by (auto simp: marked_def same_shape_def watches_def)

lemma pending_trans:
  assumes "same_shape s s1" and "same_shape s1 s2"
  shows "pending i K s s1 j k \<Longrightarrow> K \<subseteq> M \<Longrightarrow> pending i M s s2 j k"
    and "pending i L s1 s2 j k \<Longrightarrow> L \<subseteq> M \<Longrightarrow> pending i M s s2 j k"
  using marked_trans [OF _ assms(2,1)] marked_shape [OF _ assms(1)] by (auto simp: pending_def)

lemma upd_trans:
  assumes "upd i K s s1" and "upd i L s1 s2" and "K \<subseteq> M" and "L \<subseteq> M"
  shows "upd i M s s2"
proof -
  have sh: "same_shape s s1" "same_shape s1 s2" using assms(1,2) by (simp_all add: upd_def)
  have len: "length (dbs s1) = length (dbs s)" using sh(1) by (simp add: same_shape_def)
  note pe = pending_trans(1) [OF sh _ assms(3)] pending_trans(2) [OF sh _ assms(4)]
  have "pending i M s s2 j k" if "j < length (dbs s)" "seen s2 j k \<noteq> seen s j k" for j k
  proof (cases "seen s1 j k = seen s j k")
    case True
    then have "pending i L s1 s2 j k" using that len assms(2) by (simp add: upd_def seen_upd_def)
    then show ?thesis by (rule pe(2))
  next
    case False
    then have "pending i K s s1 j k" using assms(1) that(1) by (simp add: upd_def seen_upd_def)
    then show ?thesis by (rule pe(1))
  qed
  moreover have "hollow_upd i M s s2"
    using assms unfolding upd_def hollow_upd_def by blast
  moreover have "ready_upd i M s s2"
  proof -
    obtain ks ks' where n: "new_ready ks s s1" "\<forall>(j, k) \<in> set ks. pending i K s s1 j k"
        "new_ready ks' s1 s2" "\<forall>(j, k) \<in> set ks'. pending i L s1 s2 j k"
      using assms(1,2) unfolding upd_def ready_upd_def by blast
    have "\<forall>(j, k) \<in> set (ks @ ks'). pending i M s s2 j k" using n(2,4) pe by auto
    then show ?thesis using new_ready_trans [OF n(1,3) len] unfolding ready_upd_def by blast
  qed
  ultimately show ?thesis using same_shape_trans [OF sh] assms(2) by (simp add: upd_def seen_upd_def)
qed

section \<open>Primitives\<close>

named_theorems frame_simps \<open>what a primitive leaves alone\<close>

lemma upd_db_frame [frame_simps]:
  "clients (upd_db i f s) = clients s" "length (dbs (upd_db i f s)) = length (dbs s)"
  "mstime (upd_db i f s) = mstime s" "loading (upd_db i f s) = loading s"
  "masterhost (upd_db i f s) = masterhost s" "dirty (upd_db i f s) = dirty s"
  "ready_keys (upd_db i f s) = ready_keys s"
  "propagated (upd_db i f s) = propagated s" "unblocked_clients (upd_db i f s) = unblocked_clients s"
  by (simp_all add: upd_db_def)

lemma upd_client_frame [frame_simps]:
  "dbs (upd_client c f s) = dbs s" "length (clients (upd_client c f s)) = length (clients s)"
  "mstime (upd_client c f s) = mstime s" "loading (upd_client c f s) = loading s"
  "masterhost (upd_client c f s) = masterhost s" "dirty (upd_client c f s) = dirty s"
  "ready_keys (upd_client c f s) = ready_keys s"
  "propagated (upd_client c f s) = propagated s" "unblocked_clients (upd_client c f s) = unblocked_clients s"
  by (simp_all add: upd_client_def)

lemma dbs_upd_db: "i < length (dbs s) \<Longrightarrow> dbs (upd_db i f s) ! j = (if j = i then f (dbs s ! i) else dbs s ! j)"
  by (simp add: upd_db_def nth_list_update)

lemma dbs_upd_any:
  "dbs (upd_db i f s) ! j = (if j = i \<and> i < length (dbs s) then f (dbs s ! i) else dbs s ! j)"
  by (cases "i < length (dbs s)") (simp_all add: dbs_upd_db, simp add: upd_db_def list_update_beyond)

lemma clients_upd_client:
  "c < length (clients s) \<Longrightarrow> clients (upd_client c f s) ! a = (if a = c then f (clients s ! c) else clients s ! a)"
  by (simp add: upd_client_def nth_list_update)

lemma client_field_upd:
  "(\<And>cl. g (f cl) = g cl) \<Longrightarrow> g (clients (upd_client c f s) ! a) = g (clients s ! a)"
  by (cases "c < length (clients s)")
    (simp_all add: clients_upd_client, simp add: upd_client_def list_update_beyond)

text \<open>An update of clients that keeps the fields \<open>same_shape\<close> names and the selected database.\<close>

lemma same_dbs_visible:
  "dbs s' = dbs s \<Longrightarrow> mstime s' = mstime s \<Longrightarrow> loading s' = loading s \<Longrightarrow> masterhost s' = masterhost s \<Longrightarrow>
    visible s' i k = visible s i k"
  by (simp add: visible_def due_def [abs_def])

text \<open>Watching and waiting depend on these fields only.\<close>

definition same_watches :: "redisServer \<Rightarrow> redisServer \<Rightarrow> bool" where
  "same_watches s s' \<longleftrightarrow> length (dbs s') = length (dbs s) \<and> length (clients s') = length (clients s) \<and>
     (\<forall>j < length (dbs s). db_watched (dbs s' ! j) = db_watched (dbs s ! j)) \<and>
     (\<forall>c < length (clients s). c_watched (clients s' ! c) = c_watched (clients s ! c))"

definition same_waits :: "redisServer \<Rightarrow> redisServer \<Rightarrow> bool" where
  "same_waits s s' \<longleftrightarrow> length (dbs s') = length (dbs s) \<and> length (clients s') = length (clients s) \<and>
     unblocked_clients s' = unblocked_clients s \<and>
     (\<forall>j < length (dbs s). db_blocking (dbs s' ! j) = db_blocking (dbs s ! j)) \<and>
     (\<forall>c < length (clients s).
        c_blocked (clients s' ! c) = c_blocked (clients s ! c) \<and>
        c_unblocked (clients s' ! c) = c_unblocked (clients s ! c) \<and>
        c_bpop_keys (clients s' ! c) = c_bpop_keys (clients s ! c) \<and>
        (c_bpop_keys (clients s ! c) \<noteq> [] \<longrightarrow> c_db (clients s' ! c) = c_db (clients s ! c)))"

lemma same_shape_parts: "same_shape s s' \<Longrightarrow> same_watches s s'" "same_shape s s' \<Longrightarrow> same_waits s s'"
  by (simp_all add: same_shape_def same_watches_def same_waits_def)

lemma watch_ok_cong:
  assumes "watch_ok s" and "same_watches s s'"
  shows "watch_ok s'"
proof -
  have w: "watches s' c i k = watches s c i k" if "c < length (clients s)" for c i k
    using assms(2) that by (simp add: same_watches_def watches_def)
  have l: "length (clients s') = length (clients s)" "length (dbs s') = length (dbs s)"
    and d: "\<And>i. i < length (dbs s) \<Longrightarrow> db_watched (dbs s' ! i) = db_watched (dbs s ! i)"
    and cw: "\<And>c. c < length (clients s) \<Longrightarrow> c_watched (clients s' ! c) = c_watched (clients s ! c)"
    using assms(2) by (simp_all add: same_watches_def)
  have a: "{c. c < length (clients s') \<and> watches s' c i k} = {c. c < length (clients s) \<and> watches s c i k}"
    for i k using w l by auto
  have "\<forall>cl \<in> set (clients s'). distinct (c_watched cl) \<and> (\<forall>(k, i) \<in> set (c_watched cl). i < length (dbs s'))"
    using assms(1) l cw by (auto simp: watch_ok_def all_set_conv_all_nth)
  then show ?thesis
    using assms(1) unfolding watch_ok_def a l by (auto simp: d w l split: option.splits) (metis option.distinct(1))
qed

lemma blocking_ok_cong:
  assumes "blocking_ok s" and "same_waits s s'"
  shows "blocking_ok s'"
proof -
  have b: "c_bpop_keys (clients s' ! c) = c_bpop_keys (clients s ! c)" "c_blocked (clients s' ! c) = c_blocked (clients s ! c)"
    "c_bpop_keys (clients s ! c) \<noteq> [] \<longrightarrow> c_db (clients s' ! c) = c_db (clients s ! c)"
    if "c < length (clients s)" for c using assms(2) that by (simp_all add: same_waits_def)
  have w: "waits s' c i k = waits s c i k" if "c < length (clients s)" for c i k
    using b [OF that] by (cases "c_bpop_keys (clients s ! c)") (auto simp: waits_def)
  have l: "length (clients s') = length (clients s)" "length (dbs s') = length (dbs s)"
    and d: "\<And>i. i < length (dbs s) \<Longrightarrow> db_blocking (dbs s' ! i) = db_blocking (dbs s ! i)"
    using assms(2) by (simp_all add: same_waits_def)
  have a: "{c. c < length (clients s) \<and> waits s' c i k} = {c. c < length (clients s) \<and> waits s c i k}" for i k
    using w by auto
  have n: "(\<forall>c < length (clients s). \<not> waits s' c i k) = (\<forall>c < length (clients s). \<not> waits s c i k)" for i k
    using w by auto
  have "\<forall>cl \<in> set (clients s'). distinct (c_bpop_keys cl) \<and> (c_blocked cl \<longleftrightarrow> c_bpop_keys cl \<noteq> [])"
    using assms(1) b l unfolding blocking_ok_def all_set_conv_all_nth by simp
  moreover have "unblocked_ok s'" using assms l by (simp add: blocking_ok_def unblocked_ok_def same_waits_def)
  ultimately show ?thesis using assms(1) unfolding blocking_ok_def l a n by (simp add: d)
qed

lemma blocking_okD:
  assumes "blocking_ok s" and "i < length (dbs s)"
  shows "fmlookup (db_blocking (dbs s ! i)) k = None \<Longrightarrow> c < length (clients s) \<Longrightarrow> \<not> waits s c i k"
    and "fmlookup (db_blocking (dbs s ! i)) k = Some cs \<Longrightarrow>
      cs \<noteq> [] \<and> distinct cs \<and> set cs = {c. c < length (clients s) \<and> waits s c i k}"
proof -
  have w: "case fmlookup (db_blocking (dbs s ! i)) k of
       None \<Rightarrow> \<forall>c < length (clients s). \<not> waits s c i k
     | Some cs \<Rightarrow> cs \<noteq> [] \<and> distinct cs \<and> set cs = {c. c < length (clients s) \<and> waits s c i k}"
    using assms unfolding blocking_ok_def by blast
  show "fmlookup (db_blocking (dbs s ! i)) k = None \<Longrightarrow> c < length (clients s) \<Longrightarrow> \<not> waits s c i k"
    using w by simp
  show "fmlookup (db_blocking (dbs s ! i)) k = Some cs \<Longrightarrow>
      cs \<noteq> [] \<and> distinct cs \<and> set cs = {c. c < length (clients s) \<and> waits s c i k}"
    using w by simp
qed

lemma watch_okD:
  assumes "watch_ok s" and "i < length (dbs s)"
  shows "fmlookup (db_watched (dbs s ! i)) k = None \<Longrightarrow> c < length (clients s) \<Longrightarrow> \<not> watches s c i k"
    and "fmlookup (db_watched (dbs s ! i)) k = Some cs \<Longrightarrow>
      cs \<noteq> [] \<and> distinct cs \<and> set cs = {c. c < length (clients s) \<and> watches s c i k}"
proof -
  have w: "case fmlookup (db_watched (dbs s ! i)) k of
       None \<Rightarrow> \<forall>c < length (clients s). \<not> watches s c i k
     | Some cs \<Rightarrow> cs \<noteq> [] \<and> distinct cs \<and> set cs = {c. c < length (clients s) \<and> watches s c i k}"
    using assms unfolding watch_ok_def by blast
  show "fmlookup (db_watched (dbs s ! i)) k = None \<Longrightarrow> c < length (clients s) \<Longrightarrow> \<not> watches s c i k"
    using w by simp
  show "fmlookup (db_watched (dbs s ! i)) k = Some cs \<Longrightarrow>
      cs \<noteq> [] \<and> distinct cs \<and> set cs = {c. c < length (clients s) \<and> watches s c i k}"
    using w by simp
qed

text \<open>A change outside the databases.\<close>

lemma same_dbs_ready:
  assumes "dbs s2 = dbs s1" and "ready_keys s2 = ready_keys s1"
  shows "ready_upd i K s1 s2" and "hollow_at s2 j k = hollow_at s1 j k"
  using assms by (auto simp: ready_upd_def new_ready_def hollow_at_def intro!: exI [of _ "[]"])

lemma upd_clients:
  assumes "upd i K s s1" and "dbs s2 = dbs s1" and "ready_keys s2 = ready_keys s1" and "same_shape s1 s2"
    and "\<forall>c < length (clients s1). c_db (clients s2 ! c) = c_db (clients s1 ! c)"
  shows "upd i K s s2"
proof -
  have ok: "expires_ok s1" "watch_ok s1" "clients_ok s1" "objects_ok s1" "blocking_ok s1"
    using upd_srv_ok [OF assms(1)] by (simp_all add: srv_ok_def)
  have "clients_ok s2"
    using ok(3) assms(2,4,5) by (simp add: clients_ok_def all_set_conv_all_nth same_shape_def)
  moreover have "expires_ok s2" "objects_ok s2" using ok(1,4) by (simp_all add: expires_ok_def objects_ok_def assms(2))
  ultimately have "srv_ok s2"
    using watch_ok_cong [OF ok(2) same_shape_parts(1) [OF assms(4)]] blocking_ok_cong [OF ok(5) same_shape_parts(2) [OF assms(4)]] by (simp add: srv_ok_def)
  moreover have "visible s2 j k = visible s1 j k" for j k
    using assms(2,4) by (intro same_dbs_visible) (simp_all add: same_shape_def)
  ultimately have "upd i {} s1 s2"
    using assms(4) same_dbs_ready [OF assms(2,3)] by (simp add: upd_def seen_upd_def hollow_upd_def)
  then show ?thesis using upd_trans [OF assms(1)] by blast
qed

lemma upd_client_shape:
  assumes "\<And>cl. c_watched (f cl) = c_watched cl \<and> c_multi (f cl) = c_multi cl \<and>
      c_commands (f cl) = c_commands cl \<and> c_dirty_exec (f cl) = c_dirty_exec cl \<and>
      (c_dirty_cas cl \<longrightarrow> c_dirty_cas (f cl)) \<and> c_db (f cl) = c_db cl \<and> c_blocked (f cl) = c_blocked cl \<and>
      c_bpop_keys (f cl) = c_bpop_keys cl \<and> c_unblocked (f cl) = c_unblocked cl"
  shows "same_shape s (upd_client c f s)"
    and "\<forall>a < length (clients s). c_db (clients (upd_client c f s) ! a) = c_db (clients s ! a)"
  using assms
  by (cases "c < length (clients s)"; auto simp: same_shape_def frame_simps upd_client_def nth_list_update)+

lemma upd_upd_client:
  assumes "\<And>cl. c_watched (f cl) = c_watched cl \<and> c_multi (f cl) = c_multi cl \<and>
      c_commands (f cl) = c_commands cl \<and> c_dirty_exec (f cl) = c_dirty_exec cl \<and>
      (c_dirty_cas cl \<longrightarrow> c_dirty_cas (f cl)) \<and> c_db (f cl) = c_db cl \<and> c_blocked (f cl) = c_blocked cl \<and>
      c_bpop_keys (f cl) = c_bpop_keys cl \<and> c_unblocked (f cl) = c_unblocked cl"
    and "upd i K s s1"
  shows "upd i K s (upd_client c f s1)"
  using upd_client_shape [of f, OF assms(1)] by (intro upd_clients [OF assms(2)]) (simp_all add: frame_simps)

named_theorems upd_intros \<open>the relation after each primitive\<close>

lemma upd_addReply [upd_intros]: "upd i K s s1 \<Longrightarrow> upd i K s (addReply c r s1)"
  unfolding addReply_def by (rule upd_upd_client) simp_all

lemma upd_rewrite [upd_intros]: "upd i K s s1 \<Longrightarrow> upd i K s (rewriteClientCommandVector c av s1)"
  unfolding rewriteClientCommandVector_def by (rule upd_upd_client) simp_all

lemma upd_log [upd_intros]:
  "upd i K s s1 \<Longrightarrow> upd i K s (add_dirty n s1)"
  "upd i K s s1 \<Longrightarrow> upd i K s (notifyKeyspaceEvent cls e key j s1)"
  "upd i K s s1 \<Longrightarrow> upd i K s (propagate j av s1)"
  "upd i K s s1 \<Longrightarrow> upd i K s (s1\<lparr>stat_expiredkeys := n1\<rparr>)"
  "upd i K s s1 \<Longrightarrow> upd i K s (s1\<lparr>stat_hits := n1\<rparr>)"
  "upd i K s s1 \<Longrightarrow> upd i K s (s1\<lparr>stat_misses := n1\<rparr>)"
  by (erule upd_clients, simp_all add: add_dirty_def notifyKeyspaceEvent_def propagate_def same_shape_def)+

section \<open>Changes of a database\<close>

lemma due_upd_db: "due (upd_db i f s) = due s"
  by (simp add: due_def [abs_def] frame_simps)

lemma upd_upd_db:
  assumes u: "upd i K s s1" and i: "i < length (dbs s)"
    and w: "db_watched (f (dbs s1 ! i)) = db_watched (dbs s1 ! i)" "db_blocking (f (dbs s1 ! i)) = db_blocking (dbs s1 ! i)"
      "db_ready (f (dbs s1 ! i)) = db_ready (dbs s1 ! i)"
    and e: "\<And>k. fmlookup (db_expires (f (dbs s1 ! i))) k \<noteq> None \<Longrightarrow> fmlookup (db_dict (f (dbs s1 ! i))) k \<noteq> None"
    and v: "\<And>k v. fmlookup (db_dict (f (dbs s1 ! i))) k = Some v \<Longrightarrow> wf_obj v"
    and o: "\<And>k. k \<notin> L \<Longrightarrow> seen (upd_db i f s1) i k = seen s1 i k"
    and h: "\<And>k v. k \<notin> L \<Longrightarrow> fmlookup (db_dict (f (dbs s1 ! i))) k = Some v \<Longrightarrow> hollow v \<Longrightarrow>
      \<exists>w. fmlookup (db_dict (dbs s1 ! i)) k = Some w \<and> hollow w"
  shows "upd i (K \<union> L) s (upd_db i f s1)"
proof -
  have sh: "same_shape s s1" and ok: "srv_ok s1" using u by (simp_all add: upd_def)
  have i1: "i < length (dbs s1)" using i sh by (simp add: same_shape_def)
  have sh1: "same_shape s1 (upd_db i f s1)"
    using w i1 by (simp add: same_shape_def frame_simps dbs_upd_db)
  have "watch_ok (upd_db i f s1)" "blocking_ok (upd_db i f s1)" "clients_ok (upd_db i f s1)"
    using ok watch_ok_cong [OF _ same_shape_parts(1) [OF sh1]] blocking_ok_cong [OF _ same_shape_parts(2) [OF sh1]] by (simp_all add: srv_ok_def clients_ok_def frame_simps)
  moreover have "expires_ok (upd_db i f s1)" "objects_ok (upd_db i f s1)"
    using ok e v i1 by (auto simp: srv_ok_def expires_ok_def objects_ok_def frame_simps dbs_upd_db)
  ultimately have "srv_ok (upd_db i f s1)" by (simp add: srv_ok_def)
  moreover have "seen (upd_db i f s1) j k = seen s1 j k" if "j \<noteq> i" for j k
    using that i1 by (simp add: visible_def due_upd_db dbs_upd_db)
  then have "seen_upd i L s1 (upd_db i f s1)" using o unfolding seen_upd_def pending_def by metis
  moreover have "hollow_upd i L s1 (upd_db i f s1)"
    using h i1 unfolding hollow_upd_def hollow_at_def by (auto simp: frame_simps dbs_upd_db split: if_splits)
  moreover have "new_ready [] s1 (upd_db i f s1)"
    using w i1 by (simp add: new_ready_def frame_simps dbs_upd_db)
  then have "ready_upd i L s1 (upd_db i f s1)" unfolding ready_upd_def by fastforce
  ultimately have "upd i L s1 (upd_db i f s1)" using sh1 by (simp add: upd_def)
  then show ?thesis using upd_trans [OF u] by blast
qed

lemma expires_okD:
  "srv_ok s \<Longrightarrow> i < length (dbs s) \<Longrightarrow> fmlookup (db_expires (dbs s ! i)) k \<noteq> None \<Longrightarrow>
    fmlookup (db_dict (dbs s ! i)) k \<noteq> None"
  by (simp add: srv_ok_def expires_ok_def)

lemma objects_okD:
  "srv_ok s \<Longrightarrow> i < length (dbs s) \<Longrightarrow> fmlookup (db_dict (dbs s ! i)) k = Some v \<Longrightarrow> wf_obj v"
  unfolding srv_ok_def objects_ok_def by blast

lemma visible_wf:
  assumes "srv_ok s" and "i < length (dbs s)" and "visible s i k = Some v"
  shows "wf_obj v"
proof -
  have "fmlookup (db_dict (dbs s ! i)) k = Some v"
    using assms(3) by (auto simp: visible_def db_visible_def split: option.splits if_splits)
  then show ?thesis by (rule objects_okD [OF assms(1,2)])
qed

lemma visible_upd_db:
  "i < length (dbs s) \<Longrightarrow> visible (upd_db i f s) i k = db_visible (due s) (f (dbs s ! i)) k"
  by (simp add: visible_def due_upd_db dbs_upd_db)

lemma visible_same_entry:
  assumes "i < length (dbs s)" and "fmlookup (db_dict (f (dbs s ! i))) k = fmlookup (db_dict (dbs s ! i)) k"
    and "fmlookup (db_expires (f (dbs s ! i))) k = fmlookup (db_expires (dbs s ! i)) k"
  shows "visible (upd_db i f s) i k = visible s i k"
  using assms by (subst visible_upd_db) (simp_all add: db_visible_def visible_def split: option.split)

lemma upd_len: "upd i K s s1 \<Longrightarrow> length (dbs s1) = length (dbs s)"
  by (simp add: upd_def same_shape_def)

lemma upd_dbDelete [upd_intros]:
  assumes "upd i K s s1" and "i < length (dbs s)"
  shows "upd i (insert k K) s (snd (dbDelete i k s1))"
proof -
  have i: "i < length (dbs s1)" using assms by (simp add: upd_len)
  have "upd i (K \<union> {k}) s (upd_db i (\<lambda>d. d\<lparr>db_dict := fmdrop k (db_dict d), db_expires := fmdrop k (db_expires d)\<rparr>) s1)"
    using expires_okD [OF upd_srv_ok [OF assms(1)] i] objects_okD [OF upd_srv_ok [OF assms(1)] i] i
    by (intro upd_upd_db [OF assms]) (auto intro!: arg_cong [of _ _ "map_option plain"] visible_same_entry split: if_splits)
  then show ?thesis by (simp add: dbDelete_def)
qed

lemma upd_dbAdd:
  assumes "upd i K s s1" and "i < length (dbs s)" and "dbAdd i k v s1 = Some s2" and "wf_obj v"
  shows "upd i (insert k K) s s2"
proof -
  have i: "i < length (dbs s1)" using assms by (simp add: upd_len)
  have "upd i (K \<union> {k}) s (upd_db i (\<lambda>d. d\<lparr>db_dict := fmupd k v (db_dict d)\<rparr>) s1)"
    using expires_okD [OF upd_srv_ok [OF assms(1)] i] objects_okD [OF upd_srv_ok [OF assms(1)] i] i assms(4)
    by (intro upd_upd_db [OF assms(1,2)]) (auto intro!: arg_cong [of _ _ "map_option plain"] visible_same_entry split: if_splits)
  then show ?thesis using assms(3) by (simp add: dbAdd_def split: if_splits)
qed

lemma upd_dbOverwrite:
  assumes "upd i K s s1" and "i < length (dbs s)" and "dbOverwrite i k v s1 = Some s2" and "wf_obj v"
  shows "upd i (insert k K) s s2"
proof -
  have i: "i < length (dbs s1)" using assms by (simp add: upd_len)
  have "upd i (K \<union> {k}) s (upd_db i (\<lambda>d. d\<lparr>db_dict := fmupd k v (db_dict d)\<rparr>) s1)"
    using expires_okD [OF upd_srv_ok [OF assms(1)] i] objects_okD [OF upd_srv_ok [OF assms(1)] i] i assms(4)
    by (intro upd_upd_db [OF assms(1,2)]) (auto intro!: arg_cong [of _ _ "map_option plain"] visible_same_entry split: if_splits)
  then show ?thesis using assms(3) by (simp add: dbOverwrite_def split: if_splits)
qed

lemma upd_setExpire:
  assumes "upd i K s s1" and "i < length (dbs s)" and "setExpire i k w s1 = Some s2"
  shows "upd i (insert k K) s s2"
proof -
  have i: "i < length (dbs s1)" using assms by (simp add: upd_len)
  have x: "fmlookup (db_dict (dbs s1 ! i)) k \<noteq> None"
    using assms(3) by (simp add: setExpire_def dbExists_def split: if_splits)
  have "upd i (K \<union> {k}) s (upd_db i (\<lambda>d. d\<lparr>db_expires := fmupd k w (db_expires d)\<rparr>) s1)"
    using expires_okD [OF upd_srv_ok [OF assms(1)] i] objects_okD [OF upd_srv_ok [OF assms(1)] i] i x
    by (intro upd_upd_db [OF assms(1,2)]) (auto intro!: arg_cong [of _ _ "map_option plain"] visible_same_entry split: if_splits)
  then show ?thesis using assms(3) by (simp add: setExpire_def split: if_splits)
qed

lemma upd_removeExpire:
  assumes "upd i K s s1" and "i < length (dbs s)" and "removeExpire i k s1 = Some (b, s2)"
  shows "upd i (insert k K) s s2"
proof -
  have i: "i < length (dbs s1)" using assms by (simp add: upd_len)
  have "upd i (K \<union> {k}) s (upd_db i (\<lambda>d. d\<lparr>db_expires := fmdrop k (db_expires d)\<rparr>) s1)"
    using expires_okD [OF upd_srv_ok [OF assms(1)] i] objects_okD [OF upd_srv_ok [OF assms(1)] i] i
    by (intro upd_upd_db [OF assms(1,2)]) (auto intro!: arg_cong [of _ _ "map_option plain"] visible_same_entry split: if_splits)
  then show ?thesis using assms(3) by (auto simp: removeExpire_def split: if_splits)
qed

section \<open>Signalling a key\<close>

definition touch_clients :: "nat list \<Rightarrow> redisServer \<Rightarrow> redisServer" where
  "touch_clients cs s = fold (\<lambda>c. upd_client c set_dirty_cas) cs s"

lemma touch_clients_simps [simp]:
  "touch_clients [] s = s" "touch_clients (c # cs) s = touch_clients cs (upd_client c set_dirty_cas s)"
  by (simp_all add: touch_clients_def)

lemma touch_one:
  "same_shape s (upd_client c set_dirty_cas s)"
  "c_argv (clients (upd_client c set_dirty_cas s) ! a) = c_argv (clients s ! a)"
  "c_db (clients (upd_client c set_dirty_cas s) ! a) = c_db (clients s ! a)"
  "c_replies (clients (upd_client c set_dirty_cas s) ! a) = c_replies (clients s ! a)"
proof -
  show "same_shape s (upd_client c set_dirty_cas s)"
    by (rule upd_client_shape) (simp add: set_dirty_cas_def)
  show "c_argv (clients (upd_client c set_dirty_cas s) ! a) = c_argv (clients s ! a)"
    "c_db (clients (upd_client c set_dirty_cas s) ! a) = c_db (clients s ! a)"
    "c_replies (clients (upd_client c set_dirty_cas s) ! a) = c_replies (clients s ! a)"
    using client_field_upd [of c_replies set_dirty_cas c s a] client_field_upd [of c_argv set_dirty_cas c s a] client_field_upd [of c_db set_dirty_cas c s a]
    by (simp_all add: set_dirty_cas_def)
qed

lemma touch_clients_frame:
  "dbs (touch_clients cs s) = dbs s"
  "c_argv (clients (touch_clients cs s) ! a) = c_argv (clients s ! a)"
  "c_db (clients (touch_clients cs s) ! a) = c_db (clients s ! a)"
  "c_replies (clients (touch_clients cs s) ! a) = c_replies (clients s ! a)"
  "ready_keys (touch_clients cs s) = ready_keys s"
  by (induction cs arbitrary: s) (simp_all add: frame_simps touch_one)

lemma touch_clients_shape: "same_shape s (touch_clients cs s)"
  by (induction cs arbitrary: s) (auto intro: same_shape_trans touch_one(1))

lemma touch_clients_marks:
  "a \<in> set cs \<Longrightarrow> a < length (clients s) \<Longrightarrow> c_dirty_cas (clients (touch_clients cs s) ! a)"
proof (induction cs arbitrary: s)
  case (Cons c cs)
  let ?s = "upd_client c set_dirty_cas s"
  show ?case
  proof (cases "a \<in> set cs")
    case True
    then show ?thesis using Cons.IH [of ?s] Cons.prems by (simp add: frame_simps)
  next
    case False
    then have "c_dirty_cas (clients ?s ! a)"
      using Cons.prems by (simp add: clients_upd_client set_dirty_cas_def)
    then show ?thesis
      using Cons.prems touch_clients_shape [of ?s cs] by (simp add: same_shape_def frame_simps)
  qed
qed simp

lemma signal_touch:
  "signalModifiedKey i k s =
    (case fmlookup (db_watched (dbs s ! i)) k of None \<Rightarrow> s | Some cs \<Rightarrow> touch_clients cs s)"
  by (simp add: signalModifiedKey_def touchWatchedKey_def touch_clients_def split: option.split)

lemma signal_frame [frame_simps]:
  "dbs (signalModifiedKey i k s) = dbs s"
  "length (clients (signalModifiedKey i k s)) = length (clients s)"
  "c_argv (clients (signalModifiedKey i k s) ! a) = c_argv (clients s ! a)"
  "c_db (clients (signalModifiedKey i k s) ! a) = c_db (clients s ! a)"
  "c_replies (clients (signalModifiedKey i k s) ! a) = c_replies (clients s ! a)"
  "ready_keys (signalModifiedKey i k s) = ready_keys s"
  using touch_clients_shape
  by (auto simp: signal_touch touch_clients_frame same_shape_def split: option.splits)

lemma signal_dirty: "dirty (signalModifiedKey i k s) = dirty s"
proof -
  have "dirty (touch_clients cs s) = dirty s" for cs
    by (induction cs arbitrary: s) (simp_all add: frame_simps)
  then show ?thesis by (simp add: signal_touch split: option.split)
qed

lemma signal_shape: "same_shape s (signalModifiedKey i k s)"
  by (simp add: signal_touch touch_clients_shape split: option.splits)

lemma signal_marked:
  assumes ok: "srv_ok s" and i: "i < length (dbs s)"
  shows "marked s (signalModifiedKey i k s) i k"
proof (cases "fmlookup (db_watched (dbs s ! i)) k")
  case None
  then show ?thesis using ok watch_okD(1) [OF _ i] by (simp add: srv_ok_def marked_def)
next
  case (Some cs)
  then have "set cs = {c. c < length (clients s) \<and> watches s c i k}"
    using ok watch_okD(2) [OF _ i] by (simp add: srv_ok_def)
  then show ?thesis using Some touch_clients_marks [of _ cs s]
    by (auto simp: marked_def signal_touch)
qed

text \<open>A key whose watchers are marked is no longer pending, unless it holds an empty aggregate.\<close>

lemma upd_marked:
  assumes u: "upd i K s s'" and m: "marked s s' i k" and h: "\<not> hollow_at s' i k"
  shows "upd i (K - {k}) s s'"
proof -
  have p: "pending i (K - {k}) s s' j k'" if "pending i K s s' j k'" for j k'
    using that m by (auto simp: pending_def)
  have "seen_upd i (K - {k}) s s'" using u p by (auto simp: upd_def seen_upd_def)
  moreover have "hollow_upd i (K - {k}) s s'" using u h by (auto simp: upd_def hollow_upd_def)
  moreover have "ready_upd i (K - {k}) s s'" using u p unfolding upd_def ready_upd_def by fast
  ultimately show ?thesis using u by (simp add: upd_def)
qed

lemma upd_signal_same: "upd i K s s1 \<Longrightarrow> upd i K s (signalModifiedKey j k s1)"
  by (rule upd_clients [OF _ _ _ signal_shape]) (simp_all add: frame_simps)

lemma upd_signal [upd_intros]:
  assumes "upd i K s s1" and "i < length (dbs s)" and "\<not> hollow_at s1 i k"
  shows "upd i (K - {k}) s (signalModifiedKey i k s1)"
proof -
  have "marked s1 (signalModifiedKey i k s1) i k"
    using assms by (intro signal_marked) (simp_all add: upd_srv_ok upd_len)
  then have "marked s (signalModifiedKey i k s1) i k"
    by (rule marked_shape [OF _ upd_shape [OF assms(1)]])
  moreover have "\<not> hollow_at (signalModifiedKey i k s1) i k" using assms(3) by (simp add: hollow_at_def frame_simps)
  ultimately show ?thesis by (rule upd_marked [OF upd_signal_same [OF assms(1)]])
qed

lemma upd_unchanged:
  assumes "upd i K s s'" and "\<And>j k. visible s' j k = visible s j k" and "\<And>k. k \<in> K \<Longrightarrow> \<not> hollow_at s' i k"
    and "ready_keys s' = ready_keys s"
  shows "upd i {} s s'"
proof -
  have "seen_upd i {} s s'" using assms(2) by (simp add: seen_upd_def)
  moreover have "hollow_upd i {} s s'" using assms(1,3) unfolding upd_def hollow_upd_def by blast
  moreover have "new_ready [] s s'" using assms(1,4) by (auto simp: upd_def ready_upd_def new_ready_def)
  then have "ready_upd i {} s s'" unfolding ready_upd_def by fastforce
  ultimately show ?thesis using assms(1) by (simp add: upd_def)
qed

lemma hollow_at_delete [simp]:
  "hollow_at (snd (dbDelete i k s)) j k' \<longleftrightarrow> \<not> (j = i \<and> k' = k) \<and> hollow_at s j k'"
  by (auto simp: hollow_at_def dbDelete_def frame_simps dbs_upd_any)

lemma hollow_at_store [simp]:
  "hollow_at (storeObject i k v s) j k' \<longleftrightarrow>
     (if j = i \<and> k' = k then i < length (dbs s) \<and> hollow v else hollow_at s j k')"
  by (auto simp: hollow_at_def storeObject_def frame_simps dbs_upd_any)

lemma hollow_at_log [simp]:
  "hollow_at (add_dirty n s) j k \<longleftrightarrow> hollow_at s j k" "hollow_at (addReply c r s) j k \<longleftrightarrow> hollow_at s j k"
  "hollow_at (notifyKeyspaceEvent cls e k' i s) j k \<longleftrightarrow> hollow_at s j k"
  "hollow_at (signalModifiedKey i k' s) j k \<longleftrightarrow> hollow_at s j k"
  "hollow_at (rewriteClientCommandVector c av s) j k \<longleftrightarrow> hollow_at s j k"
  by (simp_all add: hollow_at_def add_dirty_def addReply_def notifyKeyspaceEvent_def rewriteClientCommandVector_def frame_simps)

section \<open>Lookups\<close>

text \<open>The arguments and the databases of the clients are the same.\<close>

definition same_args :: "redisServer \<Rightarrow> redisServer \<Rightarrow> bool" where
  "same_args s s' \<longleftrightarrow> (\<forall>a. c_argv (clients s' ! a) = c_argv (clients s ! a) \<and>
     c_db (clients s' ! a) = c_db (clients s ! a))"

lemma same_argsD: "same_args s s' \<Longrightarrow> argv s' c j = argv s c j" "same_args s s' \<Longrightarrow> cur_db s' c = cur_db s c"
  by (simp_all add: same_args_def argv_def cur_db_def)

text \<open>Only keys that are due are deleted.\<close>

definition quiet :: "nat \<Rightarrow> redisServer \<Rightarrow> redisServer \<Rightarrow> bool" where
  "quiet i s s' \<longleftrightarrow> upd i {} s s' \<and> clients s' = clients s \<and> (\<forall>j k. visible s' j k = visible s j k) \<and>
     dirty s' = dirty s"

lemma quietD:
  assumes "quiet i s s'"
  shows "upd i {} s s'" and "same_args s s'" and "visible s' j k = visible s j k" and "dirty s' = dirty s"
    and "srv_ok s'" and "length (dbs s') = length (dbs s)" and "length (clients s') = length (clients s)"
  using assms by (simp_all add: quiet_def same_args_def upd_def same_shape_def)

lemma quiet_refl: "srv_ok s \<Longrightarrow> quiet i s s"
  by (simp add: quiet_def upd_refl)

lemma quiet_stats:
  assumes "quiet i s s1"
  shows "quiet i s (s1\<lparr>stat_hits := n\<rparr>)" "quiet i s (s1\<lparr>stat_misses := n\<rparr>)"
proof -
  have "upd i {} s (s1\<lparr>stat_hits := n\<rparr>)" "upd i {} s (s1\<lparr>stat_misses := n\<rparr>)"
    using assms upd_log(5,6) by (simp_all add: quiet_def)
  moreover have "visible (s1\<lparr>stat_hits := n\<rparr>) j k = visible s1 j k"
    "visible (s1\<lparr>stat_misses := n\<rparr>) j k = visible s1 j k" for j k
    by (intro same_dbs_visible; simp)+
  ultimately show "quiet i s (s1\<lparr>stat_hits := n\<rparr>)" "quiet i s (s1\<lparr>stat_misses := n\<rparr>)"
    using assms by (simp_all add: quiet_def)
qed

lemma visible_dbDelete:
  "i < length (dbs s) \<Longrightarrow> visible (snd (dbDelete i k s)) j k' =
    (if j = i \<and> k' = k then None else visible s j k')"
  by (auto simp: dbDelete_def visible_def due_upd_db dbs_upd_db db_visible_def split: option.split)

lemma expireIfNeeded_ok:
  assumes ok: "srv_ok s" and i: "i < length (dbs s)"
  shows "\<exists>b s'. expireIfNeeded i k s = Some (b, s') \<and> quiet i s s' \<and> lookupKey i k s' = visible s i k"
proof (cases "fmlookup (db_expires (dbs s ! i)) k")
  case None
  then show ?thesis
    using quiet_refl [OF ok, of i]
    by (auto simp: expireIfNeeded_def getExpire_def lookupKey_def visible_def db_visible_def)
next
  case (Some w)
  have g: "getExpire i k s = Some w" using expires_okD [OF ok i, of k] Some by (simp add: getExpire_def dbExists_def)
  show ?thesis
  proof (cases "due s w")
    case False
    then have "\<exists>b. expireIfNeeded i k s = Some (b, s)"
      by (auto simp: expireIfNeeded_def g due_def)
    moreover have "lookupKey i k s = visible s i k"
      using False Some by (simp add: lookupKey_def visible_def db_visible_def)
    ultimately show ?thesis using quiet_refl [OF ok, of i] by auto
  next
    case True
    define s1 where "s1 = notifyKeyspaceEvent NExpired ''expired'' k i
      (propagateExpire i k (s\<lparr>stat_expiredkeys := stat_expiredkeys s + 1\<rparr>))"
    have e: "expireIfNeeded i k s = Some (dbDelete i k s1)"
      using True by (simp add: expireIfNeeded_def g due_def s1_def Let_def not_le)
    have u1: "upd i {} s s1"
      unfolding s1_def propagateExpire_def by (intro upd_log upd_refl ok)
    have d1: "dbs s1 = dbs s" "clients s1 = clients s" "dirty s1 = dirty s" "mstime s1 = mstime s"
        "loading s1 = loading s" "masterhost s1 = masterhost s"
      by (simp_all add: s1_def notifyKeyspaceEvent_def propagateExpire_def propagate_def)
    have v1: "visible s1 j k' = visible s j k'" for j k'
      by (rule same_dbs_visible) (simp_all add: d1)
    define s2 where "s2 = snd (dbDelete i k s1)"
    have "visible s i k = None" using True Some by (simp add: visible_def db_visible_def)
    then have v2: "visible s2 j k' = visible s j k'" for j k'
      using visible_dbDelete [of i s1 k j k'] i by (auto simp: s2_def d1 v1)
    have u2: "upd i (insert k {}) s s2" unfolding s2_def by (rule upd_dbDelete [OF u1 i])
    have "upd i {} s s2"
      by (rule upd_unchanged [OF u2 v2])
        (simp_all add: s2_def, simp add: s1_def dbDelete_def frame_simps notifyKeyspaceEvent_def propagateExpire_def propagate_def)
    then have "quiet i s s2"
      using v2 d1 by (simp add: quiet_def s2_def dbDelete_def frame_simps)
    moreover have "lookupKey i k s2 = None"
      using i d1 by (simp add: s2_def dbDelete_def lookupKey_def dbs_upd_db)
    moreover have "expireIfNeeded i k s = Some (fst (dbDelete i k s1), s2)"
      using e by (simp add: s2_def)
    ultimately show ?thesis using \<open>visible s i k = None\<close> by simp
  qed
qed

lemma lookupKeyWrite_ok:
  assumes "srv_ok s" and "i < length (dbs s)"
  obtains s' where "lookupKeyWrite i k s = Some (visible s i k, s')" and "quiet i s s'"
    and "fmlookup (db_dict (dbs s' ! i)) k = visible s i k"
  using expireIfNeeded_ok [OF assms, of k] by (auto simp: lookupKeyWrite_def lookupKey_def)

lemma lookupKeyRead_ok:
  assumes "srv_ok s" and "i < length (dbs s)"
  obtains s' where "lookupKeyRead i k s = Some (visible s i k, s')" and "quiet i s s'"
    and "fmlookup (db_dict (dbs s' ! i)) k = visible s i k"
proof -
  obtain b s1 where s1: "expireIfNeeded i k s = Some (b, s1)" "quiet i s s1" "lookupKey i k s1 = visible s i k"
    using expireIfNeeded_ok [OF assms, of k] by blast
  show ?thesis
  proof (cases "visible s i k")
    case None
    then show ?thesis using that [of "s1\<lparr>stat_misses := stat_misses s1 + 1\<rparr>"] s1 quiet_stats(2) [OF s1(2)]
      by (simp add: lookupKeyRead_def lookupKey_def)
  next
    case (Some v)
    then show ?thesis using that [of "s1\<lparr>stat_hits := stat_hits s1 + 1\<rparr>"] s1 quiet_stats(1) [OF s1(2)]
      by (simp add: lookupKeyRead_def lookupKey_def)
  qed
qed

section \<open>Updates\<close>

lemma visible_dbAdd:
  assumes "srv_ok s" and "i < length (dbs s)" and "dbAdd i k v s = Some s'"
  shows "visible s' i k' = (if k' = k then Some v else visible s i k')"
proof -
  have n: "fmlookup (db_dict (dbs s ! i)) k = None" and s': "s' = upd_db i (\<lambda>d. d\<lparr>db_dict := fmupd k v (db_dict d)\<rparr>) s"
    using assms(3) by (auto simp: dbAdd_def dbExists_def split: if_splits)
  have "fmlookup (db_expires (dbs s ! i)) k = None" using expires_okD [OF assms(1,2), of k] n by fastforce
  then show ?thesis using assms(2) unfolding s'
    by (simp add: visible_upd_db) (auto simp: db_visible_def visible_def split: option.split)
qed

lemma visible_dbOverwrite:
  assumes "visible s i k \<noteq> None" and "i < length (dbs s)" and "dbOverwrite i k v s = Some s'"
  shows "visible s' i k' = (if k' = k then Some v else visible s i k')"
proof -
  have s': "s' = upd_db i (\<lambda>d. d\<lparr>db_dict := fmupd k v (db_dict d)\<rparr>) s"
    using assms(3) by (simp add: dbOverwrite_def split: if_splits)
  show ?thesis using assms(1,2) unfolding s'
    by (simp add: visible_upd_db) (auto simp: db_visible_def visible_def split: option.splits if_splits)
qed

lemma dbAdd_ok: "fmlookup (db_dict (dbs s ! i)) k = None \<Longrightarrow> \<exists>s'. dbAdd i k v s = Some s'"
  by (simp add: dbAdd_def dbExists_def)

lemma dbOverwrite_ok: "fmlookup (db_dict (dbs s ! i)) k \<noteq> None \<Longrightarrow> \<exists>s'. dbOverwrite i k v s = Some s'"
  by (simp add: dbOverwrite_def dbExists_def)

lemma db_ops_frame:
  "dbAdd i k v s = Some s' \<Longrightarrow> clients s' = clients s \<and> dirty s' = dirty s"
  "dbOverwrite i k v s = Some s' \<Longrightarrow> clients s' = clients s \<and> dirty s' = dirty s"
  "setExpire i k w s = Some s' \<Longrightarrow> clients s' = clients s \<and> dirty s' = dirty s"
  "removeExpire i k s = Some (b, s') \<Longrightarrow> clients s' = clients s \<and> dirty s' = dirty s"
  "clients (snd (dbDelete i k s)) = clients s" "dirty (snd (dbDelete i k s)) = dirty s"
  by (auto simp: dbAdd_def dbOverwrite_def setExpire_def removeExpire_def dbDelete_def frame_simps
      split: if_splits)

lemma same_dbs_signal: "visible (signalModifiedKey i k s) j k' = visible s j k'"
  using signal_shape [of s i k] by (intro same_dbs_visible) (simp_all add: frame_simps same_shape_def)

text \<open>Storing a value under a key, whatever was there before.\<close>

lemma put_ok:
  assumes "srv_ok s" and "i < length (dbs s)" and "fmlookup (db_dict (dbs s ! i)) k = visible s i k" and "wf_obj v"
  obtains s' where "(if visible s i k = None then dbAdd i k v s else dbOverwrite i k v s) = Some s'"
    and "upd i {k} s s'" and "\<And>k'. visible s' i k' = (if k' = k then Some v else visible s i k')"
    and "clients s' = clients s" and "dirty s' = dirty s" and "fmlookup (db_dict (dbs s' ! i)) k = Some v"
proof (cases "visible s i k")
  case None
  then obtain s' where s': "dbAdd i k v s = Some s'" using dbAdd_ok assms(3) by metis
  have "fmlookup (db_dict (dbs s' ! i)) k = Some v"
    using s' assms(2) by (auto simp: dbAdd_def dbs_upd_db split: if_splits)
  then show ?thesis
    using that [of s'] None s' upd_dbAdd [OF upd_refl [OF assms(1)] assms(2) s' assms(4), of "{}"]
      visible_dbAdd [OF assms(1,2) s'] db_ops_frame(1) [OF s'] by simp
next
  case (Some o1)
  then obtain s' where s': "dbOverwrite i k v s = Some s'" using dbOverwrite_ok [of s i k v] assms(3) by auto
  have "fmlookup (db_dict (dbs s' ! i)) k = Some v"
    using s' assms(2) by (auto simp: dbOverwrite_def dbs_upd_db split: if_splits)
  then show ?thesis
    using that [of s'] Some s' upd_dbOverwrite [OF upd_refl [OF assms(1)] assms(2) s' assms(4), of "{}"]
      visible_dbOverwrite [OF _ assms(2) s'] db_ops_frame(2) [OF s'] by simp
qed

lemma setKey_ok:
  assumes ok: "srv_ok s" and i: "i < length (dbs s)" and wf: "wf_obj v" "\<not> hollow v"
  obtains s' where "setKey i k v s = Some s'" and "upd i {} s s'" and "same_args s s'"
    and "\<And>k'. visible s' i k' = (if k' = k then Some v else visible s i k')"
    and "dirty s' = dirty s" and "fmlookup (db_dict (dbs s' ! i)) k = Some v"
    and "fmlookup (db_expires (dbs s' ! i)) k = None" and "marked s s' i k"
proof (rule lookupKeyWrite_ok [OF ok i, of k])
  fix s1
  assume s1: "lookupKeyWrite i k s = Some (visible s i k, s1)" and q: "quiet i s s1"
    and l: "fmlookup (db_dict (dbs s1 ! i)) k = visible s i k"
  have i1: "i < length (dbs s1)" using i quietD(6) [OF q] by simp
  have l1: "fmlookup (db_dict (dbs s1 ! i)) k = visible s1 i k" using l by (simp add: quietD(3) [OF q])
  show thesis
  proof (rule put_ok [OF quietD(5) [OF q] i1 l1 wf(1)])
    fix s2
    assume s2: "(if visible s1 i k = None then dbAdd i k v s1 else dbOverwrite i k v s1) = Some s2"
      and u2: "upd i {k} s1 s2" and v2: "\<And>k'. visible s2 i k' = (if k' = k then Some v else visible s1 i k')"
      and c2: "clients s2 = clients s1" "dirty s2 = dirty s1" and d2: "fmlookup (db_dict (dbs s2 ! i)) k = Some v"
    define s3 where "s3 = upd_db i (\<lambda>d. d\<lparr>db_expires := fmdrop k (db_expires d)\<rparr>) s2"
    have i2: "i < length (dbs s2)" using i1 upd_len [OF u2] by simp
    obtain b where r: "removeExpire i k s2 = Some (b, s3)"
      using d2 by (simp add: removeExpire_def dbExists_def s3_def)
    have u3: "upd i {k} s s3"
      using upd_removeExpire [OF upd_trans [OF quietD(1) [OF q] u2] i r, of "{k}"] by simp
    have v3: "visible s3 i k' = (if k' = k then Some v else visible s i k')" for k'
    proof (cases "k' = k")
      case True
      then show ?thesis using d2 i2 by (simp add: s3_def visible_upd_db db_visible_def)
    next
      case False
      then have "visible s3 i k' = visible s2 i k'"
        unfolding s3_def by (intro visible_same_entry i2) simp_all
      then show ?thesis using False v2 [of k'] quietD(3) [OF q] by simp
    qed
    have h3: "\<not> hollow_at s3 i k" using d2 i2 wf(2) by (simp add: hollow_at_def s3_def dbs_upd_db frame_simps)
    have e: "setKey i k v s = Some (signalModifiedKey i k s3)"
      using s1 s2 r by (simp add: setKey_def quietD(3) [OF q])
    show thesis
    proof (rule that [OF e])
      show "upd i {} s (signalModifiedKey i k s3)" using upd_signal [OF u3 i, of k] h3 by simp
      show "same_args s (signalModifiedKey i k s3)"
        using c2 quietD(2) [OF q] by (simp add: same_args_def frame_simps s3_def)
      show "visible (signalModifiedKey i k s3) i k' = (if k' = k then Some v else visible s i k')" for k'
        by (simp add: same_dbs_signal v3)
      show "dirty (signalModifiedKey i k s3) = dirty s"
        using c2 quietD(4) [OF q] by (simp add: signal_dirty s3_def frame_simps)
      show "fmlookup (db_dict (dbs (signalModifiedKey i k s3) ! i)) k = Some v"
        "fmlookup (db_expires (dbs (signalModifiedKey i k s3) ! i)) k = None"
        using d2 i2 by (simp_all add: frame_simps s3_def dbs_upd_db)
      have "marked s3 (signalModifiedKey i k s3) i k"
        using i upd_len [OF u3] by (intro signal_marked upd_srv_ok [OF u3]) simp
      then show "marked s (signalModifiedKey i k s3) i k" by (rule marked_shape [OF _ upd_shape [OF u3]])
    qed
  qed
qed

section \<open>Commands\<close>

text \<open>A command is safe: run for a client that is not blocked it succeeds, keeps the invariant, and every
  change of what clients see is signalled to the watchers of the key.\<close>

definition safe_command :: "(nat \<Rightarrow> redisServer \<Rightarrow> redisServer option) \<Rightarrow> bool" where
  "safe_command f \<longleftrightarrow> (\<forall>s c. srv_full s \<longrightarrow> c < length (clients s) \<longrightarrow> \<not> c_blocked (clients s ! c) \<longrightarrow>
     (\<exists>s'. f c s = Some s' \<and> upd (cur_db s c) {} s s'))"

lemma hollow_at_entry [simp]:
  assumes "\<And>d. db_dict (f d) = db_dict d"
  shows "hollow_at (upd_db i f s) j k \<longleftrightarrow> hollow_at s j k"
  using assms by (simp add: hollow_at_def dbs_upd_any frame_simps)

lemma full_visible: "srv_full s \<Longrightarrow> visible s i k = Some v \<Longrightarrow> i < length (dbs s) \<Longrightarrow> \<not> hollow v"
  by (auto simp: srv_full_def hollow_at_def visible_def db_visible_def split: option.splits if_splits)

lemma srv_full_ok: "srv_full s \<Longrightarrow> srv_ok s"
  by (simp add: srv_full_def)

lemma upd_full: "upd i {} s s' \<Longrightarrow> srv_full s \<Longrightarrow> srv_full s'"
  by (auto simp: srv_full_def upd_def hollow_upd_def)

lemma safe_commandI:
  "(\<And>s c. srv_ok s \<Longrightarrow> c < length (clients s) \<Longrightarrow> cur_db s c < length (dbs s) \<Longrightarrow> srv_full s \<Longrightarrow>
     \<not> c_blocked (clients s ! c) \<Longrightarrow> \<exists>s'. f c s = Some s' \<and> upd (cur_db s c) {} s s') \<Longrightarrow> safe_command f"
  by (auto simp: safe_command_def srv_full_def srv_ok_def clients_ok_def cur_db_def)

lemma frame_args [simp]:
  "argv (addReply a r s) c j = argv s c j" "cur_db (addReply a r s) c = cur_db s c"
  "argv (notifyKeyspaceEvent cls e key d s) c j = argv s c j"
  "cur_db (notifyKeyspaceEvent cls e key d s) c = cur_db s c"
  "argv (add_dirty n s) c j = argv s c j" "cur_db (add_dirty n s) c = cur_db s c"
  "argv (signalModifiedKey i k s) c j = argv s c j" "cur_db (signalModifiedKey i k s) c = cur_db s c"
  "argv (upd_db i f s) c j = argv s c j" "cur_db (upd_db i f s) c = cur_db s c"
  "argv (snd (dbDelete i k s)) c j = argv s c j" "cur_db (snd (dbDelete i k s)) c = cur_db s c"
  using client_field_upd [of c_argv "\<lambda>cl. cl\<lparr>c_replies := c_replies cl @ [r]\<rparr>" a s c]
    client_field_upd [of c_db "\<lambda>cl. cl\<lparr>c_replies := c_replies cl @ [r]\<rparr>" a s c]
  by (simp_all add: argv_def cur_db_def addReply_def notifyKeyspaceEvent_def add_dirty_def frame_simps
      dbDelete_def)

lemma safe_exists: "safe_command existsCommand"
proof (rule safe_commandI)
  fix s c
  assume ok: "srv_ok s" and i: "cur_db s c < length (dbs s)"
  obtain b s' where "expireIfNeeded (cur_db s c) (argv s c 1) s = Some (b, s')" "quiet (cur_db s c) s s'"
    using expireIfNeeded_ok [OF ok i] by blast
  then show "\<exists>s'. existsCommand c s = Some s' \<and> upd (cur_db s c) {} s s'"
    by (auto simp: existsCommand_def intro!: upd_addReply [OF quietD(1)])
qed

lemma safe_dbsize: "safe_command dbsizeCommand"
  by (rule safe_commandI) (auto simp: dbsizeCommand_def intro!: upd_intros upd_refl)

lemma safe_type: "safe_command typeCommand"
proof (rule safe_commandI)
  fix s c
  assume ok: "srv_ok s" and i: "cur_db s c < length (dbs s)"
  obtain s' where "lookupKeyRead (cur_db s c) (argv s c 1) s = Some (visible s (cur_db s c) (argv s c 1), s')"
      "quiet (cur_db s c) s s'" by (rule lookupKeyRead_ok [OF ok i])
  then show "\<exists>s'. typeCommand c s = Some s' \<and> upd (cur_db s c) {} s s'"
    by (auto simp: typeCommand_def intro!: upd_addReply [OF quietD(1)])
qed

lemma upd_del_loop:
  assumes "upd i {} s0 s" and "i < length (dbs s0)" and "cur_db s c = i"
  shows "upd i {} s0 (snd (del_loop c keys n s))"
  using assms
proof (induction keys arbitrary: n s)
  case (Cons k keys)
  let ?s1 = "snd (dbDelete i k s)"
  have u: "upd i {k} s0 ?s1" using upd_dbDelete [OF Cons.prems(1,2), of k] by simp
  show ?case
  proof (cases "fst (dbDelete i k s)")
    case True
    have "upd i ({k} - {k}) s0 (add_dirty 1 (notifyKeyspaceEvent NGeneric ''del'' k i (signalModifiedKey i k ?s1)))"
      by (intro upd_intros u Cons.prems(2)) simp
    then show ?thesis using True Cons.IH Cons.prems(2,3) by (simp add: case_prod_beta Let_def)
  next
    case False
    have "visible ?s1 i k = visible s i k"
    proof -
      have "fmlookup (db_dict (dbs s ! i)) k = None" using False by (simp add: dbDelete_def dbExists_def)
      then have "visible s i k = None" by (simp add: visible_def db_visible_def split: option.split)
      then show ?thesis using visible_dbDelete [of i s k i k] Cons.prems upd_len [OF Cons.prems(1)] by simp
    qed
    then have "visible ?s1 j k' = visible s j k'" for j k'
      using visible_dbDelete [of i s k j k'] Cons.prems(2) upd_len [OF Cons.prems(1)] by auto
    moreover have "upd i {k} s ?s1"
      using upd_dbDelete [OF upd_refl [OF upd_srv_ok [OF Cons.prems(1)], of i "{}"], of k] Cons.prems(2)
        upd_len [OF Cons.prems(1)] by simp
    ultimately have "upd i {} s ?s1"
      by (intro upd_unchanged [of i "{k}" s]) (simp_all, simp add: dbDelete_def frame_simps)
    then have "upd i {} s0 ?s1" using upd_trans [OF Cons.prems(1)] by blast
    then show ?thesis using False Cons.IH Cons.prems(2,3) by (simp add: case_prod_beta Let_def)
  qed
qed simp

lemma safe_del: "safe_command delCommand"
proof (rule safe_commandI)
  fix s c
  assume ok: "srv_ok s" and i: "cur_db s c < length (dbs s)"
  have "upd (cur_db s c) {} s (snd (del_loop c (tl (c_argv (clients s ! c))) 0 s))"
    by (rule upd_del_loop [OF upd_refl [OF ok] i refl])
  then show "\<exists>s'. delCommand c s = Some s' \<and> upd (cur_db s c) {} s s'"
    by (auto simp: delCommand_def case_prod_beta intro!: upd_intros)
qed

section \<open>Operations on one key\<close>

text \<open>The rest of the key space, the ready keys and the configuration are left alone.\<close>

definition settings :: "redisServer \<Rightarrow> nat list" where
  "settings s = [set_max_intset_entries s, list_max_ziplist_entries s, list_max_ziplist_value s,
     hash_max_ziplist_entries s, hash_max_ziplist_value s]"

lemma settings_eq:
  "settings s' = settings s \<Longrightarrow> set_max_intset_entries s' = set_max_intset_entries s"
  "settings s' = settings s \<Longrightarrow> hash_max_ziplist_entries s' = hash_max_ziplist_entries s"
  "settings s' = settings s \<Longrightarrow> hash_max_ziplist_value s' = hash_max_ziplist_value s"
  by (simp_all add: settings_def)

definition entry :: "redisServer \<Rightarrow> nat \<Rightarrow> bytes \<Rightarrow> robj option \<times> u64 option" where
  "entry s j k = (fmlookup (db_dict (dbs s ! j)) k, fmlookup (db_expires (dbs s ! j)) k)"

definition only_key :: "nat \<Rightarrow> bytes \<Rightarrow> redisServer \<Rightarrow> redisServer \<Rightarrow> bool" where
  "only_key i k s s' \<longleftrightarrow> length (dbs s') = length (dbs s) \<and> ready_keys s' = ready_keys s \<and> settings s' = settings s \<and>
     (\<forall>j k'. (j, k') \<noteq> (i, k) \<longrightarrow> entry s' j k' = entry s j k')"

named_theorems only_key_intros \<open>steps that touch one key\<close>

lemma only_key_refl [simp, only_key_intros]: "only_key i k s s"
  by (simp add: only_key_def)

lemma only_key_trans: "only_key i k s s1 \<Longrightarrow> only_key i k s1 s2 \<Longrightarrow> only_key i k s s2"
  by (simp add: only_key_def)

lemma only_key_dbs:
  "\<lbrakk>only_key i k s0 s; dbs s' = dbs s; ready_keys s' = ready_keys s; settings s' = settings s\<rbrakk> \<Longrightarrow> only_key i k s0 s'"
  by (simp add: only_key_def entry_def)

lemma only_key_upd_db:
  assumes "only_key i k s0 s"
    and "\<And>d k'. k' \<noteq> k \<Longrightarrow> fmlookup (db_dict (f d)) k' = fmlookup (db_dict d) k' \<and> fmlookup (db_expires (f d)) k' = fmlookup (db_expires d) k'"
  shows "only_key i k s0 (upd_db i f s)"
  using assms by (auto simp: only_key_def entry_def dbs_upd_any frame_simps) (simp add: settings_def upd_db_def)

lemma only_key_upd_client [only_key_intros]: "only_key i k s0 s \<Longrightarrow> only_key i k s0 (upd_client c f s)"
  by (erule only_key_dbs) (simp_all add: upd_client_def settings_def)

lemma only_key_steps [only_key_intros]:
  assumes "only_key i k s0 s"
  shows "only_key i k s0 (addReply c r s)" "only_key i k s0 (notifyKeyspaceEvent cls e key j s)"
    "only_key i k s0 (add_dirty n s)" "only_key i k s0 (propagate j av s)" "only_key i k s0 (s\<lparr>stat_expiredkeys := n'\<rparr>)"
    "only_key i k s0 (storeObject i k v s)" "only_key i k s0 (snd (dbDelete i k s))"
proof -
  show "only_key i k s0 (addReply c r s)" unfolding addReply_def by (rule only_key_upd_client [OF assms])
  show "only_key i k s0 (storeObject i k v s)" unfolding storeObject_def by (rule only_key_upd_db [OF assms]) simp
  show "only_key i k s0 (snd (dbDelete i k s))" unfolding dbDelete_def snd_conv by (rule only_key_upd_db [OF assms]) simp
qed (rule only_key_dbs [OF assms]; simp add: notifyKeyspaceEvent_def add_dirty_def propagate_def settings_def)+

lemma only_key_signal [only_key_intros]: "only_key i k s0 s \<Longrightarrow> only_key i k s0 (signalModifiedKey j k' s)"
proof -
  have "only_key i k s0 s \<Longrightarrow> only_key i k s0 (fold (\<lambda>c. upd_client c set_dirty_cas) cs s)" for cs
    by (induction cs arbitrary: s) (auto intro: only_key_upd_client)
  then show "only_key i k s0 s \<Longrightarrow> only_key i k s0 (signalModifiedKey j k' s)"
    by (simp add: signalModifiedKey_def touchWatchedKey_def split: option.split)
qed

lemma only_key_opts:
  assumes "only_key i k s0 s"
  shows "dbAdd i k v s = Some s' \<Longrightarrow> only_key i k s0 s'" "dbOverwrite i k v s = Some s' \<Longrightarrow> only_key i k s0 s'"
    "setExpire i k w s = Some s' \<Longrightarrow> only_key i k s0 s'" "removeExpire i k s = Some (b, s') \<Longrightarrow> only_key i k s0 s'"
  by (auto simp: dbAdd_def dbOverwrite_def setExpire_def removeExpire_def split: if_splits intro!: only_key_upd_db [OF assms])

lemma only_key_expire: "only_key i k s0 s \<Longrightarrow> expireIfNeeded i k s = Some (b, s') \<Longrightarrow> only_key i k s0 s'"
  by (auto simp: expireIfNeeded_def propagateExpire_def Let_def bind_eq_Some_conv split: if_splits
      intro!: only_key_intros)
    (metis only_key_steps(2,4,5,7) snd_conv)

lemma only_key_lookup: "only_key i k s0 s \<Longrightarrow> lookupKeyWrite i k s = Some (v, s') \<Longrightarrow> only_key i k s0 s'"
  by (auto simp: lookupKeyWrite_def bind_eq_Some_conv intro: only_key_expire)

lemma only_key_setKey: "only_key i k s0 s \<Longrightarrow> setKey i k v s = Some s' \<Longrightarrow> only_key i k s0 s'"
  by (auto simp: setKey_def bind_eq_Some_conv split: if_splits intro!: only_key_signal)
    (meson only_key_lookup only_key_opts)+

lemma only_keyD:
  assumes "only_key i k s s'"
  shows "length (dbs s') = length (dbs s)" "ready_keys s' = ready_keys s" "settings s' = settings s"
    "(j, k') \<noteq> (i, k) \<Longrightarrow> entry s' j k' = entry s j k'"
  using assms by (simp_all add: only_key_def)

end
