(* ===== verification/Db_Commands.thy ===== *)
theory Db_Commands
  imports Db_Safety
begin

text \<open>
  Safety of the remaining commands of Db: flushing, renaming, expires. MOVE and PERSIST are not safe;
  the last section has what they do.
\<close>

section \<open>Flushing\<close>

definition flush_hits :: "nat option \<Rightarrow> redisServer \<Rightarrow> nat \<Rightarrow> bool" where
  "flush_hits dbid s c \<longleftrightarrow> (\<exists>(k, i) \<in> set (c_watched (clients s ! c)).
     (dbid = None \<or> dbid = Some i) \<and> fmlookup (db_dict (dbs s ! i)) k \<noteq> None)"

definition flush_marks :: "nat option \<Rightarrow> nat list \<Rightarrow> redisServer \<Rightarrow> redisServer" where
  "flush_marks dbid cs s =
     fold (\<lambda>c s. if flush_hits dbid s c then upd_client c set_dirty_cas s else s) cs s"

lemma flush_marks_simps [simp]:
  "flush_marks dbid [] s = s"
  "flush_marks dbid (c # cs) s =
     flush_marks dbid cs (if flush_hits dbid s c then upd_client c set_dirty_cas s else s)"
  by (simp_all add: flush_marks_def)

lemma touch_flush: "touchWatchedKeysOnFlush dbid s = flush_marks dbid [0..<length (clients s)] s"
  by (simp add: touchWatchedKeysOnFlush_def flush_marks_def flush_hits_def)

lemma touch_one_watched: "c_watched (clients (upd_client c set_dirty_cas s) ! a) = c_watched (clients s ! a)"
  using client_field_upd [of c_watched set_dirty_cas c s a] by (simp add: set_dirty_cas_def)

lemma flush_hits_touch: "flush_hits dbid (upd_client c set_dirty_cas s) a = flush_hits dbid s a"
  by (simp add: flush_hits_def touch_one_watched frame_simps)

lemma flush_marks_frame:
  "dbs (flush_marks dbid cs s) = dbs s" "dirty (flush_marks dbid cs s) = dirty s"
  "c_argv (clients (flush_marks dbid cs s) ! a) = c_argv (clients s ! a)"
  "c_db (clients (flush_marks dbid cs s) ! a) = c_db (clients s ! a)" "ready_keys (flush_marks dbid cs s) = ready_keys s"
  by (induction cs arbitrary: s) (simp_all add: frame_simps touch_one)

lemma flush_marks_shape: "same_shape s (flush_marks dbid cs s)"
  by (induction cs arbitrary: s) (auto intro: same_shape_trans touch_one(1))

lemma flush_marks_hit:
  "a \<in> set cs \<Longrightarrow> a < length (clients s) \<Longrightarrow> flush_hits dbid s a \<Longrightarrow>
    c_dirty_cas (clients (flush_marks dbid cs s) ! a)"
proof (induction cs arbitrary: s)
  case (Cons c cs)
  let ?s = "if flush_hits dbid s c then upd_client c set_dirty_cas s else s"
  have h: "flush_hits dbid ?s a" "a < length (clients ?s)"
    using Cons.prems by (simp_all add: flush_hits_touch frame_simps)
  show ?case
  proof (cases "a \<in> set cs")
    case True
    then show ?thesis using Cons.IH [OF True h(2,1)] by simp
  next
    case False
    then have "c_dirty_cas (clients ?s ! a)"
      using Cons.prems by (simp add: clients_upd_client set_dirty_cas_def)
    then show ?thesis
      using h(2) flush_marks_shape [of ?s dbid cs] by (simp add: same_shape_def)
  qed
qed simp

lemma upd_flush_marks:
  assumes "upd i K s s1"
  shows "upd i K s (touchWatchedKeysOnFlush dbid s1)"
  unfolding touch_flush
  by (rule upd_clients [OF assms _ _ flush_marks_shape]) (simp_all add: flush_marks_frame)

lemma flush_marked:
  assumes "i < length (dbs s)" and "dbid = None \<or> dbid = Some i" and "visible s i k \<noteq> None"
  shows "marked s (touchWatchedKeysOnFlush dbid s) i k"
proof -
  have "fmlookup (db_dict (dbs s ! i)) k \<noteq> None"
    using assms(3) by (auto simp: visible_def db_visible_def split: option.splits if_splits)
  then have "flush_hits dbid s a" if "watches s a i k" for a
    using that assms(2) unfolding flush_hits_def watches_def by blast
  then show ?thesis
    using flush_marks_hit [of _ "[0..<length (clients s)]" s dbid]
    by (simp add: marked_def touch_flush)
qed

lemma visible_empty: "db_visible P (d\<lparr>db_dict := fmempty, db_expires := fmempty\<rparr>) k = None"
  by (simp add: db_visible_def)

lemma safe_flushdb: "safe_command flushdbCommand"
proof (rule safe_commandI)
  fix s c
  assume ok: "srv_ok s" and i: "cur_db s c < length (dbs s)"
  define i where "i = cur_db s c"
  define s1 where "s1 = add_dirty (int (fcard (fmdom (db_dict (dbs s ! i))))) s"
  define s2 where "s2 = touchWatchedKeysOnFlush (Some i) s1"
  define s3 where "s3 = upd_db i (\<lambda>d. d\<lparr>db_dict := fmempty, db_expires := fmempty\<rparr>) s2"
  have u1: "upd i {} s s1" unfolding s1_def by (intro upd_log upd_refl ok)
  have u2: "upd i {} s s2" unfolding s2_def by (rule upd_flush_marks [OF u1])
  have i': "i < length (dbs s)" using i by (simp add: i_def)
  then have i2: "i < length (dbs s2)" using upd_len [OF u2] by simp
  have u3: "upd i ({} \<union> UNIV) s s3"
    unfolding s3_def by (rule upd_upd_db [OF u2 i']) simp_all
  have d: "dbs s1 = dbs s" "dbs s2 = dbs s"
    by (simp_all add: s1_def s2_def add_dirty_def touch_flush flush_marks_frame)
  have same: "visible s1 j k = visible s j k" for j k
    by (rule same_dbs_visible) (simp_all add: s1_def add_dirty_def)
  have hollow_ready: "hollow_upd i {} s s3" "ready_upd i {} s s3"
  proof -
    show "hollow_upd i {} s s3"
      by (auto simp: hollow_upd_def hollow_at_def s3_def dbs_upd_any d frame_simps split: if_splits)
    have "new_ready [] s s3"
      using d by (simp add: new_ready_def s3_def dbs_upd_any frame_simps)
        (simp add: s2_def s1_def touch_flush flush_marks_frame add_dirty_def)
    then show "ready_upd i {} s s3" unfolding ready_upd_def by fastforce
  qed
  have m: "marked s s3 i k" if "seen s3 i k \<noteq> seen s i k" for k
  proof -
    have "visible s3 i k = None" using i2 unfolding s3_def by (simp add: visible_upd_db visible_empty)
    then have "marked s1 s2 i k" using that same d i' unfolding s2_def by (intro flush_marked) simp_all
    then have "marked s s2 i k" by (rule marked_shape [OF _ upd_shape [OF u1]])
    then show ?thesis by (simp add: marked_def s3_def frame_simps)
  qed
  have "pending i {} s s3 j k" if "j < length (dbs s)" "seen s3 j k \<noteq> seen s j k" for j k
    using that m [of k] u3 unfolding upd_def seen_upd_def pending_def by (cases "j = i") blast+
  then have "seen_upd i {} s s3" unfolding seen_upd_def by blast
  then have "upd i {} s s3" using u3 hollow_ready by (simp add: upd_def)
  then have "upd i {} s (addReply c ok_reply s3)" by (rule upd_intros)
  then show "\<exists>s'. flushdbCommand c s = Some s' \<and> upd (cur_db s c) {} s s'"
    by (simp add: flushdbCommand_def Let_def flip: i_def s1_def, simp flip: s2_def s3_def)
qed

lemma safe_flushall: "safe_command flushallCommand"
proof (rule safe_commandI)
  fix s c
  assume ok: "srv_ok s"
  define i where "i = cur_db s c"
  define s1 where "s1 = touchWatchedKeysOnFlush None s"
  define s2 where "s2 = snd (emptyDb s1)"
  have u1: "upd i {} s s1" unfolding s1_def by (intro upd_flush_marks upd_refl ok)
  have len: "length (dbs s1) = length (dbs s)" by (rule upd_len [OF u1])
  have ok1: "srv_ok s1" by (rule upd_srv_ok [OF u1])
  have sh: "same_shape s1 s2" by (simp add: same_shape_def s2_def emptyDb_def)
  have ok2: "srv_ok s2"
    using ok1 watch_ok_cong [OF _ same_shape_parts(1) [OF sh]] blocking_ok_cong [OF _ same_shape_parts(2) [OF sh]]
    by (simp add: srv_ok_def expires_ok_def objects_ok_def clients_ok_def s2_def emptyDb_def)
  have m: "marked s s2 j k" if j: "j < length (dbs s)" and v: "seen s2 j k \<noteq> seen s j k" for j k
  proof -
    have "visible s2 j k = None" using j len by (simp add: visible_def s2_def emptyDb_def visible_empty)
    then have "marked s s1 j k" unfolding s1_def using v j by (intro flush_marked) simp_all
    then show ?thesis by (simp add: marked_def s2_def emptyDb_def)
  qed
  have "hollow_upd i {} s s2" by (auto simp: hollow_upd_def hollow_at_def s2_def emptyDb_def)
  moreover have "new_ready [] s s2"
    using len by (simp add: new_ready_def s2_def emptyDb_def) (simp add: s1_def touch_flush flush_marks_frame)
  then have "ready_upd i {} s s2" unfolding ready_upd_def by fastforce
  ultimately have "upd i {} s s2"
    using ok2 same_shape_trans [OF upd_shape [OF u1] sh] m by (simp add: upd_def seen_upd_def pending_def)
  then have "upd i {} s (add_dirty 1 (addReply c ok_reply (add_dirty (fst (emptyDb s1)) s2)))"
    by (intro upd_intros)
  then show "\<exists>s'. flushallCommand c s = Some s' \<and> upd (cur_db s c) {} s s'"
    by (simp add: flushallCommand_def case_prod_beta Let_def s1_def s2_def i_def)
qed

section \<open>Renaming\<close>

lemma getExpire_ok: "srv_ok s \<Longrightarrow> i < length (dbs s) \<Longrightarrow> \<exists>w. getExpire i k s = Some w"
  using expires_okD [of s i k] by (auto simp: getExpire_def dbExists_def split: option.split)

lemma setExpire_ok: "fmlookup (db_dict (dbs s ! i)) k \<noteq> None \<Longrightarrow> \<exists>s'. setExpire i k w s = Some s'"
  by (simp add: setExpire_def dbExists_def)

text \<open>The value is stored under the new name, with the expire of the old name, and the old name is
  deleted: only these two keys change before they are signalled.\<close>

lemma rename_steps:
  assumes u: "upd i {b} s s3" and i: "i < length (dbs s)" and n: "fmlookup (db_dict (dbs s3 ! i)) b = None"
    and wf: "wf_obj v" "\<not> hollow v"
  obtains s4 s5 where "dbAdd i b v s3 = Some s4"
    and "(if expire \<noteq> - 1 then setExpire i b expire s4 else Some s4) = Some s5"
    and "upd i {a, b} s (snd (dbDelete i a s5))" and "\<not> hollow_at s5 i b"
proof -
  obtain s4 where s4: "dbAdd i b v s3 = Some s4" using dbAdd_ok [OF n] by blast
  have u4: "upd i {b} s s4" using upd_dbAdd [OF u i s4 wf(1)] by simp
  have d4: "fmlookup (db_dict (dbs s4 ! i)) b = Some v"
    using s4 i upd_len [OF u] by (auto simp: dbAdd_def dbs_upd_db split: if_splits)
  then have h4: "\<not> hollow_at s4 i b" using wf(2) by (simp add: hollow_at_def)
  obtain s5 where s5: "(if expire \<noteq> - 1 then setExpire i b expire s4 else Some s4) = Some s5"
    using setExpire_ok [of s4 i b expire] d4 by (cases "expire = - 1") auto
  have h5: "\<not> hollow_at s5 i b" using s5 h4 by (auto simp: setExpire_def split: if_splits)
  have "upd i {b} s s5" using s5 upd_setExpire [OF u4 i, of b expire s5] u4 by (auto split: if_splits)
  then have "upd i {a, b} s (snd (dbDelete i a s5))" using upd_dbDelete [of i "{b}" s s5 a] i by simp
  then show ?thesis using that s4 s5 h5 by blast
qed

lemma safe_rename: "safe_command (\<lambda>c. renameGenericCommand c nx)"
proof (rule safe_commandI)
  fix s c
  assume ok: "srv_ok s" and i: "cur_db s c < length (dbs s)" and full: "srv_full s"
  define i where "i = cur_db s c"
  define a where "a = argv s c 1"
  define b where "b = argv s c 2"
  have i': "i < length (dbs s)" using i by (simp add: i_def)
  show "\<exists>s'. renameGenericCommand c nx s = Some s' \<and> upd (cur_db s c) {} s s'"
  proof (cases "a = b")
    case True
    then show ?thesis
      by (simp add: renameGenericCommand_def a_def b_def upd_addReply upd_refl ok)
  next
    case ab: False
    obtain s1 where s1: "lookupKeyWrite i a s = Some (visible s i a, s1)" "quiet i s s1"
      by (rule lookupKeyWrite_ok [OF ok i'])
    note q1 = quietD [OF s1(2)]
    show ?thesis
    proof (cases "visible s i a")
      case None
      then have "renameGenericCommand c nx s = Some (addReply c (Error ''ERR no such key'') s1)"
        using ab s1(1) by (simp add: renameGenericCommand_def a_def b_def i_def lookupKeyWriteOrReply_def)
      then show ?thesis using upd_addReply [OF q1(1)] by (simp add: i_def)
    next
      case (Some v)
      have i1: "i < length (dbs s1)" using i' q1 by simp
      obtain expire where ge: "getExpire i a s1 = Some expire" using getExpire_ok [OF q1(5) i1] by blast
      obtain s2 where s2: "lookupKeyWrite i b s1 = Some (visible s1 i b, s2)" "quiet i s1 s2"
          "fmlookup (db_dict (dbs s2 ! i)) b = visible s1 i b"
        by (rule lookupKeyWrite_ok [OF q1(5) i1])
      note q2 = quietD [OF s2(2)]
      have args: "argv s1 c j = argv s c j" "argv s2 c j = argv s c j" "cur_db s1 c = i" for j
        using same_argsD [OF q1(2)] same_argsD [OF q2(2)] by (simp_all add: i_def)
      have u2: "upd i {} s s2" using upd_trans [OF q1(1) q2(1)] by simp
      have e1: "renameGenericCommand c nx s =
          (if visible s1 i b \<noteq> None \<and> nx then Some (addReply c czero s2)
           else do {
             let s = (if visible s1 i b \<noteq> None then snd (dbDelete i b s2) else s2);
             s \<leftarrow> dbAdd i b v s;
             s \<leftarrow> (if expire \<noteq> - 1 then setExpire i (argv s c 2) expire s else Some s);
             let s = snd (dbDelete i (argv s c 1) s);
             let s = signalModifiedKey i (argv s c 1) s;
             let s = signalModifiedKey i (argv s c 2) s;
             let s = notifyKeyspaceEvent NGeneric ''rename_from'' (argv s c 1) i s;
             let s = notifyKeyspaceEvent NGeneric ''rename_to'' (argv s c 2) i s;
             let s = add_dirty 1 s;
             Some (addReply c (if nx then cone else ok_reply) s) })"
        using ab s1(1) s2(1) Some ge
        by (simp add: renameGenericCommand_def a_def b_def lookupKeyWriteOrReply_def args Let_def flip: i_def)
      show ?thesis
      proof (cases "visible s1 i b \<noteq> None \<and> nx")
        case True
        then show ?thesis using e1 upd_addReply [OF u2] by (simp add: i_def)
      next
        case False
        define s3 where "s3 = (if visible s1 i b \<noteq> None then snd (dbDelete i b s2) else s2)"
        have i2: "i < length (dbs s2)" using i' upd_len [OF u2] by simp
        have u3: "upd i {b} s s3"
          using upd_dbDelete [OF u2 i', of b] upd_mono [OF u2] by (simp add: s3_def)
        have n3: "fmlookup (db_dict (dbs s3 ! i)) b = None"
          using s2(3) i2 by (simp add: s3_def dbDelete_def dbs_upd_db)
        have c3: "clients s3 = clients s2" by (simp add: s3_def db_ops_frame)
        obtain s4 s5 where s4: "dbAdd i b v s3 = Some s4"
          and s5: "(if expire \<noteq> - 1 then setExpire i b expire s4 else Some s4) = Some s5"
          and u5: "upd i {a, b} s (snd (dbDelete i a s5))" and h5: "\<not> hollow_at s5 i b"
          by (rule rename_steps [OF u3 i' n3 visible_wf [OF ok i' Some] full_visible [OF full Some i']])
        have "clients s4 = clients s" "clients s5 = clients s"
          using db_ops_frame(1) [OF s4] db_ops_frame(3) [of i b expire s4 s5] s5 c3 s1(2) s2(2)
          by (auto simp: quiet_def split: if_splits)
        then have args4: "argv s4 c j = argv s c j" "argv s5 c j = argv s c j" for j
          by (simp_all add: argv_def)
        define s6 where "s6 = signalModifiedKey i b (signalModifiedKey i a (snd (dbDelete i a s5)))"
        have "upd i ({a, b} - {a} - {b}) s s6" unfolding s6_def using h5 by (intro upd_signal u5 i') simp_all
        moreover have "{a, b} - {a} - {b} = {}" by auto
        ultimately have "upd i {} s s6" by (simp only:)
        then show ?thesis
          using False s4 s5 unfolding e1 s3_def [symmetric]
          by (auto simp: args4 Let_def simp flip: a_def [unfolded One_nat_def] b_def s6_def i_def intro!: upd_intros)
      qed
    qed
  qed
qed

section \<open>Expires\<close>

lemma safe_expire: "safe_command (\<lambda>c s. expireGenericCommand c (base s) unit s)"
proof (rule safe_commandI)
  fix s c
  assume ok: "srv_ok s" and i: "cur_db s c < length (dbs s)" and full: "srv_full s"
  define i where "i = cur_db s c"
  define k where "k = argv s c 1"
  have i': "i < length (dbs s)" using i by (simp add: i_def)
  show "\<exists>s'. expireGenericCommand c (base s) unit s = Some s' \<and> upd (cur_db s c) {} s s'"
  proof (cases "getLongLongFromObject (Some (Raw (argv s c 2)))")
    case None
    then show ?thesis
      by (simp add: expireGenericCommand_def getLongLongFromObjectOrReply_def upd_addReply upd_refl ok)
  next
    case (Some n)
    define tm where "tm = (if unit = UNIT_SECONDS then n * 1000 else n) + base s"
    obtain s1 where s1: "lookupKeyRead i k s = Some (visible s i k, s1)" "quiet i s s1"
        "fmlookup (db_dict (dbs s1 ! i)) k = visible s i k"
      by (rule lookupKeyRead_ok [OF ok i'])
    note q1 = quietD [OF s1(2)]
    have cl: "argv s1 c j = argv s c j" for j using same_argsD [OF q1(2)] by simp
    have e: "expireGenericCommand c (base s) unit s =
      (if visible s i k = None then Some (addReply c czero s1)
       else if sint tm \<le> sint (mstime s1) \<and> \<not> loading s1 \<and> \<not> masterhost s1 then do {
               let (found, s) = dbDelete i k s1;
               if \<not> found then None
               else do {
                 let s = add_dirty 1 s;
                 let s = rewriteClientCommandVector c [ascii ''DEL'', k] s;
                 let s = signalModifiedKey i k s;
                 let s = notifyKeyspaceEvent NGeneric ''del'' k i s;
                 Some (addReply c cone s) } }
       else do {
               s \<leftarrow> setExpire i k tm s1;
               let s = addReply c cone s;
               let s = signalModifiedKey i k s;
               let s = notifyKeyspaceEvent NGeneric ''expire'' k i s;
               Some (add_dirty 1 s) })"
      using Some s1(1)
      by (simp add: expireGenericCommand_def getLongLongFromObjectOrReply_def tm_def Let_def
          flip: i_def k_def [unfolded One_nat_def])
    show ?thesis
    proof (cases "visible s i k")
      case None
      then show ?thesis using upd_addReply [OF q1(1)] by (simp add: e i_def [symmetric])
    next
      case v: (Some v)
      have ex: "dbExists i k s1" using v s1(3) by (simp add: dbExists_def)
      show ?thesis
      proof (cases "sint tm \<le> sint (mstime s1) \<and> \<not> loading s1 \<and> \<not> masterhost s1")
        case True
        define s2 where "s2 = snd (dbDelete i k s1)"
        have "upd i {k} s s2" unfolding s2_def using upd_dbDelete [OF q1(1) i', of k] by simp
        then have "upd i ({k} - {k}) s (signalModifiedKey i k (rewriteClientCommandVector c [ascii ''DEL'', k] (add_dirty 1 s2)))"
          by (intro upd_intros i') (simp_all add: s2_def)
        moreover have "dbDelete i k s1 = (True, s2)" using ex by (simp add: s2_def dbDelete_def)
        ultimately show ?thesis using True v by (simp add: e i_def [symmetric] upd_intros)
      next
        case False
        obtain s2 where s2: "setExpire i k tm s1 = Some s2"
          using ex by (simp add: setExpire_def)
        have "upd i {k} s s2" using upd_setExpire [OF q1(1) i' s2] by simp
        moreover have "\<not> hollow v" by (rule full_visible [OF full v i'])
        then have "\<not> hollow_at s2 i k"
          using s2 s1(3) v by (auto simp: setExpire_def hollow_at_def dbs_upd_any frame_simps split: if_splits)
        ultimately have "upd i ({k} - {k}) s (signalModifiedKey i k (addReply c cone s2))"
          by (intro upd_intros i') simp_all
        then show ?thesis
          using v s2 unfolding e i_def [symmetric] if_not_P [OF False] by (simp add: upd_intros)
      qed
    qed
  qed
qed

lemma safe_ttl: "safe_command (\<lambda>c. ttlGenericCommand c ms)"
proof (rule safe_commandI)
  fix s c
  assume ok: "srv_ok s" and i: "cur_db s c < length (dbs s)"
  obtain s1 where s1: "lookupKeyRead (cur_db s c) (argv s c 1) s = Some (visible s (cur_db s c) (argv s c 1), s1)"
      "quiet (cur_db s c) s s1"
    by (rule lookupKeyRead_ok [OF ok i])
  note q1 = quietD [OF s1(2)]
  obtain w where "getExpire (cur_db s c) (argv s1 c 1) s1 = Some w"
    using getExpire_ok [OF q1(5)] i q1(6) by metis
  then show "\<exists>s'. ttlGenericCommand c ms s = Some s' \<and> upd (cur_db s c) {} s s'"
    using s1(1) upd_addReply [OF q1(1)] by (simp add: ttlGenericCommand_def Let_def)
qed

section \<open>Selecting a database\<close>

lemma upd_select:
  assumes "srv_ok s" and "n < length (dbs s)" and "\<not> c_blocked (clients s ! c)" and "c < length (clients s)"
  shows "upd i {} s (upd_client c (\<lambda>cl. cl\<lparr>c_db := n\<rparr>) s)"
proof -
  let ?s = "upd_client c (\<lambda>cl. cl\<lparr>c_db := n\<rparr>) s"
  have f: "c_watched (clients ?s ! a) = c_watched (clients s ! a)" "c_multi (clients ?s ! a) = c_multi (clients s ! a)"
    "c_commands (clients ?s ! a) = c_commands (clients s ! a)" "c_dirty_exec (clients ?s ! a) = c_dirty_exec (clients s ! a)"
    "c_dirty_cas (clients ?s ! a) = c_dirty_cas (clients s ! a)" "c_blocked (clients ?s ! a) = c_blocked (clients s ! a)"
    "c_bpop_keys (clients ?s ! a) = c_bpop_keys (clients s ! a)" "c_unblocked (clients ?s ! a) = c_unblocked (clients s ! a)" for a
    by (rule client_field_upd; simp)+
  have "c_bpop_keys (clients s ! c) = []"
    using assms(1,3,4) by (auto simp: srv_ok_def blocking_ok_def all_set_conv_all_nth)
  then have "c_bpop_keys (clients s ! a) \<noteq> [] \<longrightarrow> c_db (clients ?s ! a) = c_db (clients s ! a)" for a
    using assms(4) by (cases "a = c") (simp_all add: clients_upd_client)
  then have sh: "same_shape s ?s" by (simp add: same_shape_def f frame_simps)
  have "clients_ok ?s"
    using assms set_update_subset_insert [of "clients s" c "(clients s ! c)\<lparr>c_db := n\<rparr>"]
    by (auto simp: srv_ok_def clients_ok_def upd_client_def)
  then have "srv_ok ?s"
    using assms watch_ok_cong [OF _ same_shape_parts(1) [OF sh]] blocking_ok_cong [OF _ same_shape_parts(2) [OF sh]]
    by (simp add: srv_ok_def expires_ok_def objects_ok_def frame_simps)
  moreover have "visible ?s j k = visible s j k" for j k
    by (rule same_dbs_visible) (simp_all add: frame_simps)
  ultimately show ?thesis
    using sh same_dbs_ready [of ?s s] by (simp add: upd_def seen_upd_def hollow_upd_def frame_simps)
qed

lemma safe_select: "safe_command selectCommand"
proof (rule safe_commandI)
  fix s c
  assume ok: "srv_ok s" and i: "cur_db s c < length (dbs s)" and c: "\<not> c_blocked (clients s ! c)" "c < length (clients s)"
  have r: "upd i {} s (addReply c r s)" for i r by (intro upd_intros upd_refl ok)
  have "upd i {} s (addReply c ok_reply s')" if "selectDb c d s = Some s'" for d s' i
  proof -
    have d: "0 \<le> sint d" "sint d < int (length (dbs s))" and s': "s' = upd_client c (\<lambda>cl. cl\<lparr>c_db := unat d\<rparr>) s"
      using that by (auto simp: selectDb_def split: if_splits)
    have "int (unat d) = sint d" using d(1) uint_sint [of d] sint_range_32(2) [of d] by (simp add: take_bit_int_eq_self)
    then have "unat d < length (dbs s)" using d(2) by linarith
    then show ?thesis unfolding s' by (intro upd_intros upd_select ok c)
  qed
  then show "\<exists>s'. selectCommand c s = Some s' \<and> upd (cur_db s c) {} s s'"
    using r by (auto simp: selectCommand_def getLongFromObjectOrReply_def getLongLongFromObjectOrReply_def
        split: sum.split option.split)
qed

lemma key_safe:
  "safe_command delCommand" "safe_command existsCommand" "safe_command selectCommand"
  "safe_command dbsizeCommand" "safe_command typeCommand" "safe_command renameCommand"
  "safe_command renamenxCommand" "safe_command expireCommand" "safe_command expireatCommand"
  "safe_command pexpireCommand" "safe_command pexpireatCommand" "safe_command ttlCommand"
  "safe_command pttlCommand" "safe_command flushdbCommand" "safe_command flushallCommand"
  using safe_del safe_exists safe_select safe_dbsize safe_type safe_rename safe_expire [of mstime] safe_expire [of "\<lambda>_. 0"]
    safe_ttl safe_flushdb safe_flushall
  by (simp_all add: renameCommand_def [abs_def] renamenxCommand_def [abs_def] expireCommand_def [abs_def]
      expireatCommand_def [abs_def] pexpireCommand_def [abs_def] pexpireatCommand_def [abs_def]
      ttlCommand_def [abs_def] pttlCommand_def [abs_def])


section \<open>Commands that are not safe\<close>

text \<open>A server with two databases, a key \<open>k\<close> in the first and a second client that watches it.\<close>

definition key_k :: bytes where "key_k = [107]"

definition idle_client :: redisClient where
  "idle_client = \<lparr>c_db = 0, c_argv = [], c_cmd = ''exists'', c_lastcmd = ''exists'', c_multi = False, c_dirty_cas = False,
     c_dirty_exec = False, c_commands = [], c_watched = [], c_blocked = False, c_unblocked = False, c_bpop_keys = [],
     c_bpop_timeout = 0, c_bpop_target = None, c_replies = []\<rparr>"

definition watched_server :: "(bytes \<times> u64) list \<Rightarrow> bytes list \<Rightarrow> redisServer" where
  "watched_server exps av =
     \<lparr>dbs = [\<lparr>db_dict = fmap_of_list [(key_k, StringObj (Raw [1]))], db_expires = fmap_of_list exps,
              db_watched = fmap_of_list [(key_k, [1])], db_blocking = fmempty, db_ready = {||}\<rparr>,
             \<lparr>db_dict = fmempty, db_expires = fmempty, db_watched = fmempty, db_blocking = fmempty, db_ready = {||}\<rparr>],
      clients = [idle_client\<lparr>c_argv := av\<rparr>, idle_client\<lparr>c_watched := [(key_k, 0)]\<rparr>],
      dirty = 0, mstime = 100, unixtime = 0, loading = False, masterhost = False, stat_expiredkeys = 0,
      stat_hits = 0, stat_misses = 0, notifications = [], propagated = [],
      bpop_blocked_clients = 0, unblocked_clients = [], ready_keys = [], set_max_intset_entries = 512, list_max_ziplist_entries = 512, list_max_ziplist_value = 64, hash_max_ziplist_entries = 512, hash_max_ziplist_value = 64,
      dict_place = (\<lambda>S k. 0), random_value = 0\<rparr>"

lemma watched_server_ok:
  assumes "fst ` set exps \<subseteq> {key_k}"
  shows "srv_ok (watched_server exps av)"
proof -
  have "map_of exps k \<noteq> None \<longrightarrow> k = key_k" for k
    using assms by (auto simp: map_of_eq_None_iff)
  then have "expires_ok (watched_server exps av)"
    by (simp add: expires_ok_def watched_server_def less_Suc_eq fmlookup_of_list) (metis not_None_eq)
  moreover have "watch_ok (watched_server exps av)"
    unfolding watch_ok_def
  proof (intro conjI allI impI)
    fix i :: nat and k
    assume "i < length (dbs (watched_server exps av))"
    then have "i = 0 \<or> i = 1" by (auto simp: watched_server_def)
    then show "case fmlookup (db_watched (dbs (watched_server exps av) ! i)) k of
        None \<Rightarrow> \<forall>c < length (clients (watched_server exps av)). \<not> watches (watched_server exps av) c i k
      | Some cs \<Rightarrow> cs \<noteq> [] \<and> distinct cs \<and>
          set cs = {c. c < length (clients (watched_server exps av)) \<and> watches (watched_server exps av) c i k}"
      by (auto simp: watched_server_def watches_def idle_client_def fmlookup_of_list less_Suc_eq)
  qed (simp add: watched_server_def idle_client_def)
  moreover have "clients_ok (watched_server exps av)"
    by (simp add: clients_ok_def watched_server_def idle_client_def)
  moreover have "blocking_ok (watched_server exps av)"
    by (auto simp: blocking_ok_def unblocked_ok_def waits_def watched_server_def idle_client_def less_Suc_eq)
  moreover have "objects_ok (watched_server exps av)"
    by (auto simp: objects_ok_def watched_server_def less_Suc_eq fmlookup_of_list split: if_splits)
  ultimately show ?thesis by (simp add: srv_ok_def)
qed

lemma watched_server_full:
  assumes "fst ` set exps \<subseteq> {key_k}"
  shows "srv_full (watched_server exps av)"
proof -
  have "\<not> hollow_at (watched_server exps av) i k" for i k
  proof
    assume h: "hollow_at (watched_server exps av) i k"
    then have "i = 0 \<or> i = 1" by (auto simp: hollow_at_def watched_server_def)
    then show False using h by (elim disjE) (auto simp: hollow_at_def watched_server_def fmlookup_of_list split: if_splits)
  qed
  then show ?thesis using watched_server_ok [OF assms] by (simp add: srv_full_def)
qed

text \<open>MOVE deletes the key from its database without signalling it: a client that watches the
  key is not marked, so its transaction is executed although the key it depends on has gone.\<close>

lemma move_unsignalled:
  "\<exists>s s'. srv_ok s \<and> moveCommand 0 s = Some s' \<and> visible s 0 key_k \<noteq> None \<and>
     visible s' 0 key_k = None \<and> watches s 1 0 key_k \<and> \<not> c_dirty_cas (clients s' ! 1)"
proof -
  let ?s = "watched_server [] [ascii ''MOVE'', key_k, [49]]"
  have a: "atoi [49] = 1"
    by (simp add: atoi_def strtoll10_def isspace_def Let_def char_in_digit digit_def)
  have e: "argv ?s 0 2 = [49]" by (simp add: argv_def watched_server_def)
  have "case moveCommand 0 ?s of None \<Rightarrow> False
      | Some s' \<Rightarrow> visible s' 0 key_k = None \<and> \<not> c_dirty_cas (clients s' ! 1)"
    unfolding moveCommand_def e a by code_simp
  moreover have "visible ?s 0 key_k \<noteq> None" and "watches ?s 1 0 key_k" by code_simp+
  ultimately show ?thesis using watched_server_ok [of "[]"] by (auto split: option.splits)
qed

text \<open>PERSIST looks at the key without expiring it first: a key whose expire has passed, which no
  other command sees, comes back to life, and again no watcher is marked.\<close>

lemma persist_resurrects:
  "\<exists>s s'. srv_ok s \<and> persistCommand 0 s = Some s' \<and> visible s 0 key_k = None \<and>
     visible s' 0 key_k \<noteq> None \<and> watches s 1 0 key_k \<and> \<not> c_dirty_cas (clients s' ! 1)"
proof -
  let ?s = "watched_server [(key_k, 50)] [ascii ''PERSIST'', key_k]"
  have "case persistCommand 0 ?s of None \<Rightarrow> False
      | Some s' \<Rightarrow> visible s' 0 key_k \<noteq> None \<and> \<not> c_dirty_cas (clients s' ! 1)"
    by code_simp
  moreover have "visible ?s 0 key_k = None" and "watches ?s 1 0 key_k" by code_simp+
  ultimately show ?thesis using watched_server_ok [of "[(key_k, 50)]"] by (auto split: option.splits)
qed

text \<open>SELECT passes its number through an \<open>int\<close>, so the index \<open>2 ^ 32 + 1\<close> is accepted and
  selects database 1.\<close>

lemma select_truncates:
  "\<exists>s'. selectCommand 0 (watched_server [] [ascii ''SELECT'', ascii ''4294967297'']) = Some s' \<and>
     c_db (clients s' ! 0) = 1 \<and> c_replies (clients s' ! 0) = [Status ''OK'']"
proof -
  have n: "getLongLongFromObject (Some (Raw (ascii ''4294967297''))) = Some 4294967297"
    by (simp add: ascii_def strtoll10_def isspace_def Let_def char_in_digit digit_def)
  let ?s = "watched_server [] [ascii ''SELECT'', ascii ''4294967297'']"
  have e: "argv ?s 0 1 = ascii ''4294967297''" by (simp add: argv_def watched_server_def)
  have g: "getLongFromObjectOrReply 0 (Some (Raw (ascii ''4294967297''))) msg t = Inr 4294967297" for msg t
    by (simp only: getLongFromObjectOrReply_def getLongLongFromObjectOrReply_def n)
      (simp add: LLONG_MIN_def LLONG_MAX_def)
  have "case selectDb 0 (ucast (4294967297 :: u64)) ?s of None \<Rightarrow> False
      | Some s' \<Rightarrow> c_db (clients s' ! 0) = 1 \<and> c_replies (clients (addReply 0 ok_reply s') ! 0) = [Status ''OK''] \<and>
          c_db (clients (addReply 0 ok_reply s') ! 0) = 1" by code_simp
  then show ?thesis unfolding selectCommand_def e g by (auto split: option.splits)
qed

end
