(* ===== verification/Safe_Steps.thy ===== *)
theory Safe_Steps
  imports Db_Commands
begin

text \<open>
  The safety of a handler, step by step: a goal \<open>safe_res i s0 r\<close> says that the result \<open>r\<close> of the
  rest of the handler is a server in which every change a client can see since \<open>s0\<close> has been
  signalled. Each primitive of the key space has an introduction rule for a handler that begins
  with it, collected in \<open>safe_steps\<close>; \<open>sees\<close> is what a lookup tells about a key and
  \<open>same_view\<close> what a step leaves alone.
\<close>

definition safe_res :: "nat \<Rightarrow> redisServer \<Rightarrow> redisServer option \<Rightarrow> bool" where
  "safe_res i s0 r \<longleftrightarrow> (\<exists>s'. r = Some s' \<and> upd i {} s0 s')"

definition sees :: "nat \<Rightarrow> bytes \<Rightarrow> robj option \<Rightarrow> redisServer \<Rightarrow> bool" where
  "sees i k v s \<longleftrightarrow> i < length (dbs s) \<and> fmlookup (db_dict (dbs s ! i)) k = v \<and> visible s i k = v"

definition same_view :: "redisServer \<Rightarrow> redisServer \<Rightarrow> bool" where
  "same_view s s' \<longleftrightarrow> argv s' = argv s \<and> argc s' = argc s \<and> cur_db s' = cur_db s"

named_theorems safe_steps \<open>handlers that begin with a primitive\<close>

lemma safe_resI: "r = Some s' \<Longrightarrow> upd i {} s0 s' \<Longrightarrow> safe_res i s0 r"
  by (simp add: safe_res_def)

lemma safe_Some [safe_steps]: "upd i {} s0 s' \<Longrightarrow> safe_res i s0 (Some s')"
  by (simp add: safe_res_def)

lemma safe_commandI':
  "(\<And>s c. srv_full s \<Longrightarrow> c < length (clients s) \<Longrightarrow> \<not> c_blocked (clients s ! c) \<Longrightarrow> cur_db s c < length (dbs s) \<Longrightarrow>
     upd (cur_db s c) {} s s \<Longrightarrow> safe_res (cur_db s c) s (f c s)) \<Longrightarrow> safe_command f"
  using safe_commandI [of f] upd_refl by (simp add: safe_res_def)

lemma cur_db_less: "srv_ok s \<Longrightarrow> c < length (clients s) \<Longrightarrow> cur_db s c < length (dbs s)"
  by (simp add: srv_ok_def clients_ok_def cur_db_def)

text \<open>A command of the table is only called with a number of arguments that fits its arity.\<close>

definition arity_ok :: "int \<Rightarrow> nat \<Rightarrow> bool" where
  "arity_ok a n \<longleftrightarrow> \<not> (a > 0 \<and> a \<noteq> int n \<or> int n < - a)"

definition safe_for :: "int \<Rightarrow> (nat \<Rightarrow> redisServer \<Rightarrow> redisServer option) \<Rightarrow> bool" where
  "safe_for a f \<longleftrightarrow> (\<forall>s c. srv_full s \<longrightarrow> c < length (clients s) \<longrightarrow> \<not> c_blocked (clients s ! c) \<longrightarrow>
     arity_ok a (argc s c) \<longrightarrow> (\<exists>s'. f c s = Some s' \<and> upd (cur_db s c) {} s s'))"

lemma safe_for_command: "safe_command f \<Longrightarrow> safe_for a f"
  by (simp add: safe_command_def safe_for_def)

lemma safe_forI:
  "(\<And>s c. srv_full s \<Longrightarrow> c < length (clients s) \<Longrightarrow> \<not> c_blocked (clients s ! c) \<Longrightarrow> cur_db s c < length (dbs s) \<Longrightarrow>
     upd (cur_db s c) {} s s \<Longrightarrow> arity_ok a (argc s c) \<Longrightarrow> safe_res (cur_db s c) s (f c s)) \<Longrightarrow> safe_for a f"
  using upd_refl by (simp add: safe_for_def safe_res_def srv_full_def srv_ok_def clients_ok_def cur_db_def)

lemma safe_commandD:
  "safe_command f \<Longrightarrow> srv_full s \<Longrightarrow> c < length (clients s) \<Longrightarrow> \<not> c_blocked (clients s ! c) \<Longrightarrow>
     safe_res (cur_db s c) s (f c s)"
  by (simp add: safe_command_def safe_res_def)

lemma same_args_view: "same_args s s' \<Longrightarrow> same_view s s'"
  by (simp add: same_args_def same_view_def argv_def [abs_def] argc_def [abs_def] cur_db_def [abs_def])

lemma same_view_clients: "clients s' = clients s \<Longrightarrow> same_view s s'"
  by (simp add: same_view_def argv_def [abs_def] argc_def [abs_def] cur_db_def [abs_def])

lemma same_view_refl [simp]: "same_view s s"
  by (simp add: same_view_def)

lemma same_view_log [simp]:
  "same_view s (add_dirty n t) = same_view s t" "same_view s (notifyKeyspaceEvent cls e k j t) = same_view s t"
  "same_view s (addReply c r t) = same_view s t" "same_view s (signalModifiedKey i k t) = same_view s t"
proof -
  have "same_args t (addReply c r t)"
    using client_field_upd [of c_argv "\<lambda>cl. cl\<lparr>c_replies := c_replies cl @ [r]\<rparr>" c t]
      client_field_upd [of c_db "\<lambda>cl. cl\<lparr>c_replies := c_replies cl @ [r]\<rparr>" c t]
    by (simp add: same_args_def addReply_def)
  then show "same_view s (addReply c r t) = same_view s t"
    using same_args_view [of t "addReply c r t"] by (simp add: same_view_def)
  show "same_view s (signalModifiedKey i k t) = same_view s t"
    using same_args_view [of t "signalModifiedKey i k t"] by (simp add: same_args_def frame_simps same_view_def)
qed (simp_all add: same_view_def argv_def [abs_def] argc_def [abs_def] cur_db_def [abs_def] add_dirty_def
    notifyKeyspaceEvent_def)

lemma same_view_log_left [simp]:
  "same_view (notifyKeyspaceEvent cls e k j t) s = same_view t s" "same_view (addReply c r t) s = same_view t s"
  "same_view (signalModifiedKey i k t) s = same_view t s" "same_view (add_dirty n t) s = same_view t s"
proof -
  have sym: "same_view a b = same_view b a" for a b by (auto simp: same_view_def)
  show "same_view (notifyKeyspaceEvent cls e k j t) s = same_view t s"
    "same_view (addReply c r t) s = same_view t s"
    "same_view (signalModifiedKey i k t) s = same_view t s" "same_view (add_dirty n t) s = same_view t s"
    by (simp_all add: sym [of _ s])
qed

lemma same_viewD: "same_view s s' \<Longrightarrow> argv s' = argv s \<and> argc s' = argc s \<and> cur_db s' = cur_db s"
  by (simp add: same_view_def)

lemma same_view_trans: "same_view s t \<Longrightarrow> same_view t u \<Longrightarrow> same_view s u"
  by (simp add: same_view_def)

lemma visible_log [simp]:
  "visible (add_dirty n s) i k = visible s i k" "visible (addReply c r s) i k = visible s i k"
  "visible (notifyKeyspaceEvent cls e k' j s) i k = visible s i k"
  "visible (signalModifiedKey i' k' s) i k = visible s i k"
  by (rule same_dbs_visible; simp add: add_dirty_def addReply_def notifyKeyspaceEvent_def frame_simps)
    (rule same_dbs_visible; simp add: add_dirty_def addReply_def notifyKeyspaceEvent_def frame_simps
      | rule same_dbs_signal)+

lemma sees_log [simp]:
  "sees i k v (add_dirty n s) = sees i k v s" "sees i k v (notifyKeyspaceEvent cls e k' j s) = sees i k v s"
  "sees i k v (addReply c r s) = sees i k v s" "sees i k v (signalModifiedKey j k' s) = sees i k v s"
proof -
  show "sees i k v (add_dirty n s) = sees i k v s" "sees i k v (notifyKeyspaceEvent cls e k' j s) = sees i k v s"
    "sees i k v (addReply c r s) = sees i k v s"
    by (simp_all add: sees_def) (simp_all add: add_dirty_def addReply_def notifyKeyspaceEvent_def frame_simps)
  show "sees i k v (signalModifiedKey j k' s) = sees i k v s"
    by (simp add: sees_def frame_simps)
qed

section \<open>Lookups\<close>

lemma safe_lookupKeyWrite [safe_steps]:
  assumes "upd i {} s0 s" and "i < length (dbs s0)"
    and "\<And>v s'. upd i {} s0 s' \<Longrightarrow> same_view s s' \<Longrightarrow> sees i k v s' \<Longrightarrow> safe_res i s0 (f (v, s'))"
  shows "safe_res i s0 (lookupKeyWrite i k s \<bind> f)"
proof -
  have i: "i < length (dbs s)" using assms(2) upd_len [OF assms(1)] by simp
  obtain s' where s': "lookupKeyWrite i k s = Some (visible s i k, s')" "quiet i s s'"
      "fmlookup (db_dict (dbs s' ! i)) k = visible s i k"
    by (rule lookupKeyWrite_ok [OF upd_srv_ok [OF assms(1)] i])
  note q = quietD [OF s'(2)]
  have "upd i {} s0 s'" using upd_trans [OF assms(1) q(1)] by simp
  then show ?thesis
    using assms(3) [of s' "visible s i k"] s' i q same_args_view [OF q(2)] by (simp add: sees_def)
qed

lemma safe_lookupKeyRead [safe_steps]:
  assumes "upd i {} s0 s" and "i < length (dbs s0)"
    and "\<And>v s'. upd i {} s0 s' \<Longrightarrow> same_view s s' \<Longrightarrow> sees i k v s' \<Longrightarrow> safe_res i s0 (f (v, s'))"
  shows "safe_res i s0 (lookupKeyRead i k s \<bind> f)"
proof -
  have i: "i < length (dbs s)" using assms(2) upd_len [OF assms(1)] by simp
  obtain s' where s': "lookupKeyRead i k s = Some (visible s i k, s')" "quiet i s s'"
      "fmlookup (db_dict (dbs s' ! i)) k = visible s i k"
    by (rule lookupKeyRead_ok [OF upd_srv_ok [OF assms(1)] i])
  note q = quietD [OF s'(2)]
  have "upd i {} s0 s'" using upd_trans [OF assms(1) q(1)] by simp
  then show ?thesis
    using assms(3) [of s' "visible s i k"] s' i q same_args_view [OF q(2)] by (simp add: sees_def)
qed

lemma safe_lookupKeyReadOrReply [safe_steps]:
  assumes "upd i {} s0 s" and "i < length (dbs s0)" and "cur_db s c = i"
    and "\<And>v s'. upd i {} s0 s' \<Longrightarrow> same_view s s' \<Longrightarrow> sees i k v s' \<Longrightarrow> safe_res i s0 (f (v, s'))"
  shows "safe_res i s0 (lookupKeyReadOrReply c k r s \<bind> f)"
proof -
  have "safe_res i s0 (lookupKeyRead i k s \<bind> (\<lambda>(v, s'). f (v, if v = None then addReply c r s' else s')))"
    by (intro safe_lookupKeyRead assms(1,2)) (auto intro!: assms(4) upd_intros)
  then show ?thesis by (cases "lookupKeyRead i k s") (auto simp: lookupKeyReadOrReply_def assms(3) case_prod_beta)
qed

lemma safe_lookupKeyWriteOrReply [safe_steps]:
  assumes "upd i {} s0 s" and "i < length (dbs s0)" and "cur_db s c = i"
    and "\<And>v s'. upd i {} s0 s' \<Longrightarrow> same_view s s' \<Longrightarrow> sees i k v s' \<Longrightarrow> safe_res i s0 (f (v, s'))"
  shows "safe_res i s0 (lookupKeyWriteOrReply c k r s \<bind> f)"
proof -
  have "safe_res i s0 (lookupKeyWrite i k s \<bind> (\<lambda>(v, s'). f (v, if v = None then addReply c r s' else s')))"
    by (intro safe_lookupKeyWrite assms(1,2)) (auto intro!: assms(4) upd_intros)
  then show ?thesis by (cases "lookupKeyWrite i k s") (auto simp: lookupKeyWriteOrReply_def assms(3) case_prod_beta)
qed

section \<open>Updates\<close>

lemma sees_dbAdd:
  assumes "srv_ok s" and "sees i k None s" and "dbAdd i k v s = Some s'"
  shows "sees i k (Some v) s'"
  using visible_dbAdd [OF assms(1) _ assms(3)] assms(2,3)
  by (auto simp: sees_def dbAdd_def dbs_upd_db frame_simps split: if_splits)

text \<open>After an update the key is pending until it is signalled.\<close>

lemma safe_dbAdd:
  assumes "upd i K s0 s" and "i < length (dbs s0)" and "sees i k None s" and "wf_obj v"
    and "\<And>s'. upd i (insert k K) s0 s' \<Longrightarrow> same_view s s' \<Longrightarrow> sees i k (Some v) s' \<Longrightarrow> safe_res i s0 (f s')"
  shows "safe_res i s0 (dbAdd i k v s \<bind> f)"
proof -
  obtain s' where s': "dbAdd i k v s = Some s'" using dbAdd_ok [of s i k v] assms(3) by (auto simp: sees_def)
  have "sees i k (Some v) s'" by (rule sees_dbAdd [OF upd_srv_ok [OF assms(1)] assms(3) s'])
  then show ?thesis
    using s' assms(5) upd_dbAdd [OF assms(1,2) s' assms(4)] db_ops_frame(1) [OF s'] by (simp add: same_view_clients)
qed

lemma safe_dbOverwrite:
  assumes "upd i K s0 s" and "i < length (dbs s0)" and "sees i k (Some w) s" and "wf_obj v"
    and "\<And>s'. upd i (insert k K) s0 s' \<Longrightarrow> same_view s s' \<Longrightarrow> sees i k (Some v) s' \<Longrightarrow> safe_res i s0 (f s')"
  shows "safe_res i s0 (dbOverwrite i k v s \<bind> f)"
proof -
  obtain s' where s': "dbOverwrite i k v s = Some s'" using dbOverwrite_ok [of s i k v] assms(3) by (auto simp: sees_def)
  have i: "i < length (dbs s)" "visible s i k \<noteq> None" using assms(3) by (simp_all add: sees_def)
  have "sees i k (Some v) s'"
    using visible_dbOverwrite [OF i(2,1) s'] s' i(1)
    by (auto simp: sees_def dbOverwrite_def dbs_upd_db frame_simps split: if_splits)
  then show ?thesis
    using s' assms(5) upd_dbOverwrite [OF assms(1,2) s' assms(4)] db_ops_frame(2) [OF s'] by (simp add: same_view_clients)
qed

lemmas safe_dbAdd1 [safe_steps] = safe_dbAdd [where K = "{}"]
lemmas safe_dbOverwrite1 [safe_steps] = safe_dbOverwrite [where K = "{}"]

lemma safe_setKey [safe_steps]:
  assumes "upd i {} s0 s" and "i < length (dbs s0)" and "wf_obj v" and "\<not> hollow v"
    and "\<And>s'. upd i {} s0 s' \<Longrightarrow> same_view s s' \<Longrightarrow> sees i k (Some v) s' \<Longrightarrow> safe_res i s0 (f s')"
  shows "safe_res i s0 (setKey i k v s \<bind> f)"
proof -
  have i: "i < length (dbs s)" using assms(2) upd_len [OF assms(1)] by simp
  obtain s' where s': "setKey i k v s = Some s'" "upd i {} s s'" "same_args s s'"
      "visible s' i k = Some v" "fmlookup (db_dict (dbs s' ! i)) k = Some v"
    by (rule setKey_ok [OF upd_srv_ok [OF assms(1)] i assms(3,4), of k]) auto
  have "upd i {} s0 s'" using upd_trans [OF assms(1) s'(2)] by simp
  then show ?thesis using assms(5) s' same_args_view [OF s'(3)] i upd_len [OF s'(2)] by (simp add: sees_def)
qed

text \<open>A loop over keys that may end in an error reply.\<close>

definition safe_sum :: "nat \<Rightarrow> redisServer \<Rightarrow> (redisServer + 'a \<times> redisServer) option \<Rightarrow> bool" where
  "safe_sum i s0 r \<longleftrightarrow>
     (\<exists>s. r = Some (Inl s) \<and> upd i {} s0 s) \<or> (\<exists>x s. r = Some (Inr (x, s)) \<and> upd i {} s0 s)"

lemma safe_sumE:
  assumes "safe_sum i s0 r"
  obtains s where "r = Some (Inl s)" and "upd i {} s0 s" | x s where "r = Some (Inr (x, s))" and "upd i {} s0 s"
  using assms unfolding safe_sum_def by blast

lemma sees_dbDelete:
  assumes "srv_ok s" and "i < length (dbs s)"
  shows "sees i k None (snd (dbDelete i k s))"
  using visible_dbDelete [of i s k i k] assms by (simp add: sees_def dbDelete_def dbs_upd_db frame_simps)

lemma same_view_dbDelete [simp]: "same_view s (snd (dbDelete i k t)) = same_view s t"
  using same_view_clients [of "snd (dbDelete i k t)" t] by (simp add: db_ops_frame same_view_def)

lemma fst_dbDelete: "sees i k v s \<Longrightarrow> fst (dbDelete i k s) = (v \<noteq> None)"
  by (simp add: sees_def dbDelete_def dbExists_def)

text \<open>Signalling the only pending keys.\<close>

lemma upd_signal1:
  "upd i {k} s0 s \<Longrightarrow> i < length (dbs s0) \<Longrightarrow> \<not> hollow_at s i k \<Longrightarrow> upd i {} s0 (signalModifiedKey i k s)"
  using upd_signal [of i "{k}" s0 s k] by simp

lemma upd_signal_any: "upd i {} s0 s \<Longrightarrow> i < length (dbs s0) \<Longrightarrow> upd i {} s0 (signalModifiedKey i k s)"
  by (rule upd_signal_same)

lemma upd_dbDelete1: "upd i {} s0 s \<Longrightarrow> i < length (dbs s0) \<Longrightarrow> upd i {k} s0 (snd (dbDelete i k s))"
  by (rule upd_dbDelete)

lemma sees_hollow [simp]:
  "sees i k (Some v) s \<Longrightarrow> hollow_at s i k \<longleftrightarrow> hollow v" "sees i k None s \<Longrightarrow> \<not> hollow_at s i k"
  by (auto simp: sees_def hollow_at_def)

lemma last_reply:
  "c < length (clients s) \<Longrightarrow> last (c_replies (clients (addReply c r s) ! c)) = r"
  by (simp add: addReply_def clients_upd_client)

lemma upd_dbDelete_absent:
  assumes "upd i K s0 s" and "i < length (dbs s0)" and "\<not> fst (dbDelete i k s)"
  shows "upd i K s0 (snd (dbDelete i k s))"
proof -
  have i: "i < length (dbs s)" using assms(1,2) by (simp add: upd_len)
  have n: "fmlookup (db_dict (dbs s ! i)) k = None" using assms(3) by (simp add: dbDelete_def dbExists_def)
  have e: "fmlookup (db_expires (dbs s ! i)) k = None"
    using expires_okD [OF upd_srv_ok [OF assms(1)] i, of k] n by blast
  have "upd i (K \<union> {}) s0 (upd_db i (\<lambda>d. d\<lparr>db_dict := fmdrop k (db_dict d), db_expires := fmdrop k (db_expires d)\<rparr>) s)"
    using expires_okD [OF upd_srv_ok [OF assms(1)] i] objects_okD [OF upd_srv_ok [OF assms(1)] i] i n e
    by (intro upd_upd_db [OF assms(1,2)])
      (auto intro!: arg_cong [of _ _ "map_option plain"] visible_same_entry split: if_splits)
  then show ?thesis by (simp add: dbDelete_def)
qed

section \<open>Objects changed in place\<close>

lemma store_overwrite: "sees i k (Some w) s \<Longrightarrow> dbOverwrite i k v s = Some (storeObject i k v s)"
  by (simp add: sees_def dbOverwrite_def dbExists_def storeObject_def)

lemma upd_store:
  "upd i K s0 s \<Longrightarrow> i < length (dbs s0) \<Longrightarrow> sees i k (Some w) s \<Longrightarrow> wf_obj v \<Longrightarrow>
     upd i (insert k K) s0 (storeObject i k v s)"
  by (rule upd_dbOverwrite [OF _ _ store_overwrite])

lemma upd_store1:
  "upd i {} s0 s \<Longrightarrow> i < length (dbs s0) \<Longrightarrow> sees i k (Some w) s \<Longrightarrow> wf_obj v \<Longrightarrow> upd i {k} s0 (storeObject i k v s)"
  "upd i {k} s0 s \<Longrightarrow> i < length (dbs s0) \<Longrightarrow> sees i k (Some w) s \<Longrightarrow> wf_obj v \<Longrightarrow> upd i {k} s0 (storeObject i k v s)"
  using upd_store [of i "{}" s0 s k w v] upd_store [of i "{k}" s0 s k w v] by simp_all

text \<open>A change of the encoding is none that clients see.\<close>

lemma upd_recode:
  assumes "upd i K s0 s" and "i < length (dbs s0)" and "sees i k (Some w) s" and "wf_obj v" and "plain v = plain w"
  shows "upd i K s0 (storeObject i k v s)"
proof -
  have i: "i < length (dbs s)" using assms(3) by (simp add: sees_def)
  have h: "hollow v = hollow w" using assms(5) hollow_plain by metis
  have "seen (upd_db i (\<lambda>d. d\<lparr>db_dict := fmupd k v (db_dict d)\<rparr>) s) i k' = seen s i k'" for k'
  proof (cases "k' = k")
    case True
    have "visible (upd_db i (\<lambda>d. d\<lparr>db_dict := fmupd k v (db_dict d)\<rparr>) s) i k = Some v"
      using visible_dbOverwrite [of s i k v] assms(3) by (simp add: sees_def dbOverwrite_def dbExists_def)
    then show ?thesis using True assms(3,5) by (simp add: sees_def)
  next
    case False
    then show ?thesis using i by (intro arg_cong [of _ _ "map_option plain"] visible_same_entry) simp_all
  qed
  then have "upd i (K \<union> {}) s0 (upd_db i (\<lambda>d. d\<lparr>db_dict := fmupd k v (db_dict d)\<rparr>) s)"
    using expires_okD [OF upd_srv_ok [OF assms(1)] i] objects_okD [OF upd_srv_ok [OF assms(1)] i] assms(3,4)
    by (intro upd_upd_db [OF assms(1,2)]) (auto simp: sees_def h split: if_splits)
  then show ?thesis by (simp add: storeObject_def)
qed

lemma same_view_store [simp]: "same_view s (storeObject i k v t) = same_view s t"
  using same_view_clients [of "storeObject i k v t" t] by (simp add: storeObject_def frame_simps same_view_def)

lemma frame_store [simp]:
  "argv (storeObject i k v s) c j = argv s c j" "argc (storeObject i k v s) c = argc s c"
  "cur_db (storeObject i k v s) c = cur_db s c"
  by (simp_all add: argv_def argc_def cur_db_def storeObject_def frame_simps)

lemma sees_store:
  assumes "sees i k (Some w) s"
  shows "sees i k (Some v) (storeObject i k v s)"
proof -
  have "visible (storeObject i k v s) i k = Some v"
    using visible_dbOverwrite [OF _ _ store_overwrite [OF assms]] assms by (simp add: sees_def)
  then show ?thesis using assms by (simp add: sees_def storeObject_def dbs_upd_db frame_simps)
qed

lemma sees_store_other: "k' \<noteq> k \<Longrightarrow> sees i k' w s \<Longrightarrow> sees i k' w (storeObject i k v s)"
  unfolding sees_def storeObject_def
  by (simp add: dbs_upd_db frame_simps visible_same_entry)

lemma visible_store_other:
  "i < length (dbs s) \<Longrightarrow> k' \<noteq> k \<Longrightarrow> visible (storeObject i k v s) i k' = visible s i k'"
  unfolding storeObject_def by (rule visible_same_entry) simp_all

lemma sees_dbDelete_other: "k' \<noteq> k \<Longrightarrow> sees i k' w s \<Longrightarrow> sees i k' w (snd (dbDelete i k s))"
  unfolding sees_def dbDelete_def
  by (simp add: dbs_upd_db frame_simps visible_same_entry)

lemma upd_dbDelete_same: "upd i {k} s0 s \<Longrightarrow> i < length (dbs s0) \<Longrightarrow> upd i {k} s0 (snd (dbDelete i k s))"
  using upd_dbDelete [of i "{k}" s0 s k] by simp

text \<open>A key changed in place, perhaps deleted, and signalled.\<close>

lemmas pending_intros = upd_addReply upd_rewrite upd_log upd_signal1 upd_dbDelete_same upd_store1(1)

text \<open>A lookup keeps what earlier lookups have seen.\<close>

lemma expireIfNeeded_dict:
  "expireIfNeeded i k s = Some (b, s') \<Longrightarrow> i < length (dbs s) \<Longrightarrow>
     fmlookup (db_dict (dbs s' ! i)) k' = Some v \<Longrightarrow> fmlookup (db_dict (dbs s ! i)) k' = Some v"
  by (auto simp: expireIfNeeded_def dbDelete_def dbs_upd_db notifyKeyspaceEvent_def propagateExpire_def
      propagate_def Let_def frame_simps split: if_splits Option.bind_splits)

lemma expire_keeps:
  assumes "expireIfNeeded i k s = Some (b, s1)" and "quiet i s s1" and "sees i k' v s"
  shows "sees i k' v s1"
proof -
  have i: "i < length (dbs s)" and v: "fmlookup (db_dict (dbs s ! i)) k' = v" "visible s1 i k' = v"
    using assms(3) quietD(3) [OF assms(2), of i k'] by (simp_all add: sees_def)
  have "fmlookup (db_dict (dbs s1 ! i)) k' = v"
  proof (cases "fmlookup (db_dict (dbs s1 ! i)) k'")
    case None
    then have "visible s1 i k' = None" by (simp add: visible_def db_visible_def split: option.split)
    then show ?thesis using None v(2) by simp
  next
    case (Some w)
    then show ?thesis using expireIfNeeded_dict [OF assms(1) i Some] v(1) by simp
  qed
  then show ?thesis using i v(2) quietD(6) [OF assms(2)] by (simp add: sees_def)
qed

lemma safe_lookupKeyWrite_keep:
  assumes "upd i {} s0 s" and "i < length (dbs s0)"
    and "\<And>v s'. upd i {} s0 s' \<Longrightarrow> same_view s s' \<Longrightarrow> sees i k v s' \<Longrightarrow>
      (\<And>k' v'. sees i k' v' s \<Longrightarrow> sees i k' v' s') \<Longrightarrow> safe_res i s0 (f (v, s'))"
  shows "safe_res i s0 (lookupKeyWrite i k s \<bind> f)"
proof -
  have i: "i < length (dbs s)" using assms(2) upd_len [OF assms(1)] by simp
  obtain b s1 where e: "expireIfNeeded i k s = Some (b, s1)" "quiet i s s1" "lookupKey i k s1 = visible s i k"
    using expireIfNeeded_ok [OF upd_srv_ok [OF assms(1)] i] by blast
  note q = quietD [OF e(2)]
  have "sees i k (visible s i k) s1" using e(3) q i by (simp add: sees_def lookupKey_def)
  moreover have "upd i {} s0 s1" using upd_trans [OF assms(1) q(1)] by simp
  ultimately show ?thesis
    using assms(3) [of s1 "visible s i k"] e same_args_view [OF q(2)] expire_keeps [OF e(1,2)]
    by (simp add: lookupKeyWrite_def)
qed

text \<open>A key that has been signalled may be changed again.\<close>

lemma signal_marks:
  assumes "upd i K s0 s" and "i < length (dbs s0)"
  shows "marked s0 (signalModifiedKey i k s) i k"
  using marked_shape [OF signal_marked [OF upd_srv_ok [OF assms(1)]] upd_shape [OF assms(1)]] assms upd_len by metis

lemma marked_later: "marked s0 s i k \<Longrightarrow> upd i K s0 s \<Longrightarrow> upd j L s s' \<Longrightarrow> marked s0 s' i k"
  by (rule marked_trans [OF _ upd_shape upd_shape])

section \<open>An example\<close>

text \<open>A server of two clients: the first sends a command, the second watches the only key.\<close>

definition holding :: "robj \<Rightarrow> bytes list \<Rightarrow> redisServer" where
  "holding v av = storeObject 0 key_k v (watched_server [] av)"

lemma holding_ok:
  "wf_obj v \<Longrightarrow> srv_ok (holding v av)" "sees 0 key_k (Some v) (holding v av)" "visible (holding v av) 0 key_k = Some v"
  "cur_db (holding v av) 0 = 0" "0 < length (clients (holding v av))" "c_argv (clients (holding v av) ! 0) = av"
  "argv (holding v av) 0 j = av ! j" "clients (holding v av) \<noteq> []"
proof -
  have ok: "srv_ok (watched_server [] av)" by (rule watched_server_ok) simp
  have i: "0 < length (dbs (watched_server [] av))" by (simp add: watched_server_def)
  have "sees 0 key_k (Some (StringObj (Raw [1]))) (watched_server [] av)"
    by (simp add: sees_def visible_def db_visible_def watched_server_def fmlookup_of_list)
  note st = sees_store [OF this, of v] upd_srv_ok [OF upd_store1(1) [OF upd_refl [OF ok] i this, of v]]
  show "wf_obj v \<Longrightarrow> srv_ok (holding v av)" "sees 0 key_k (Some v) (holding v av)" "visible (holding v av) 0 key_k = Some v"
    using st by (simp_all add: holding_def sees_def)
qed (simp_all add: holding_def storeObject_def frame_simps watched_server_def cur_db_def argv_def idle_client_def upd_db_def)

lemma holding_full:
  assumes "wf_obj v" and "\<not> hollow v"
  shows "srv_full (holding v av)"
proof -
  have "\<not> hollow_at (watched_server [] av) i k" for i k
    using watched_server_full [of "[]" av] by (simp add: srv_full_def)
  then have "\<not> hollow_at (holding v av) i k" for i k
    using assms(2) by (auto simp: hollow_at_def holding_def storeObject_def dbs_upd_any frame_simps split: if_splits)
  then show ?thesis using holding_ok(1) [OF assms(1)] by (simp add: srv_full_def)
qed

end
