(* ===== verification/T_string.thy ===== *)
theory T_string
  imports Safe_Steps
begin

text \<open>
  Redis t_string.c: the commands on strings (INCRBYFLOAT, which needs \<open>long double\<close>, is left out).
  Every command is proved safe for WATCH in the sense of Db_Safety; the properties say what the
  commands store and reply. The last section has three inputs on which the code goes wrong.
\<close>

section \<open>SET and its variants\<close>

definition checkStringLength :: "nat \<Rightarrow> u64 \<Rightarrow> redisServer \<Rightarrow> redisServer option" where
  "checkStringLength c size1 s =
     (if sint size1 > 512 * 1024 * 1024
      then Some (addReply c (Error ''ERR string exceeds maximum allowed size (512MB)'') s) else None)"

text \<open>\<open>(nx && lookupKeyWrite(key) != NULL) || (xx && lookupKeyWrite(key) == NULL)\<close>.\<close>

definition set_conflict :: "bool \<Rightarrow> bool \<Rightarrow> nat \<Rightarrow> bytes \<Rightarrow> redisServer \<Rightarrow> (bool \<times> redisServer) option" where
  "set_conflict nx xx i key s = do {
     (stop, s) \<leftarrow> (if nx then do { (o1, s) \<leftarrow> lookupKeyWrite i key s; Some (o1 \<noteq> None, s) }
                  else Some (False, s));
     if \<not> stop \<and> xx then do { (o1, s) \<leftarrow> lookupKeyWrite i key s; Some (o1 = None, s) }
     else Some (stop, s) }"

text \<open>The rest of SET: the value is stored and signalled, then its expire is set.\<close>

definition set_store :: "nat \<Rightarrow> bytes \<Rightarrow> strobj \<Rightarrow> u64 option \<Rightarrow> reply \<Rightarrow> nat \<Rightarrow> redisServer \<Rightarrow> redisServer option" where
  "set_store i key val expire r c s = do {
     s \<leftarrow> setKey i key (StringObj val) s;
     let s = add_dirty 1 s;
     s \<leftarrow> (case expire of Some ms \<Rightarrow> setExpire i key (mstime s + ms) s | None \<Rightarrow> Some s);
     let s = notifyKeyspaceEvent NString ''set'' key i s;
     let s = (if expire \<noteq> None then notifyKeyspaceEvent NGeneric ''expire'' key i s else s);
     Some (addReply c r s) }"

definition setGenericCommand ::
  "nat \<Rightarrow> bool \<Rightarrow> bool \<Rightarrow> bytes \<Rightarrow> strobj \<Rightarrow> bytes option \<Rightarrow> time_unit \<Rightarrow> reply option \<Rightarrow> reply option \<Rightarrow>
   redisServer \<Rightarrow> redisServer option" where
  "setGenericCommand c nx xx key val expire unit okr abortr s =
     (case (case expire of None \<Rightarrow> Inr None
            | Some e \<Rightarrow>
              (case getLongLongFromObjectOrReply c (Some (Raw e)) not_an_integer s of
                 Inl s \<Rightarrow> Inl s
               | Inr ms \<Rightarrow>
                 if sint ms \<le> 0 then Inl (addReply c (Error ''ERR invalid expire time in SETEX'') s)
                 else Inr (Some (if unit = UNIT_SECONDS then ms * 1000 else ms)))) of
        Inl s \<Rightarrow> Some s
      | Inr ms \<Rightarrow> do {
          (stop, s) \<leftarrow> set_conflict nx xx (cur_db s c) key s;
          if stop then Some (addReply c (case abortr of Some r \<Rightarrow> r | None \<Rightarrow> NullBulk) s)
          else set_store (cur_db s c) key val ms (case okr of Some r \<Rightarrow> r | None \<Rightarrow> ok_reply) c s })"

text \<open>A two letter option, in either case.\<close>

definition opt2 :: "byte \<Rightarrow> byte \<Rightarrow> bytes \<Rightarrow> bool" where
  "opt2 x y a =
     (case a of p # q # r \<Rightarrow> (p = x \<or> p = x - 32) \<and> (q = y \<or> q = y - 32) \<and> (r = [] \<or> hd r = 0)
      | _ \<Rightarrow> False)"

text \<open>The loop over the options: NX, XX, the expire and its unit; \<^term>\<open>None\<close> is a syntax error.\<close>

fun set_options ::
  "bytes list \<Rightarrow> bool \<Rightarrow> bool \<Rightarrow> bytes option \<Rightarrow> time_unit \<Rightarrow> (bool \<times> bool \<times> bytes option \<times> time_unit) option" where
  "set_options [] nx xx expire unit = Some (nx, xx, expire, unit)"
| "set_options (a # as) nx xx expire unit =
     (if opt2 110 120 a then set_options as True xx expire unit
      else if opt2 120 120 a then set_options as nx True expire unit
      else (case as of [] \<Rightarrow> None
            | n # as' \<Rightarrow>
              if opt2 101 120 a then set_options as' nx xx (Some n) UNIT_SECONDS
              else if opt2 112 120 a then set_options as' nx xx (Some n) UNIT_MILLISECONDS
              else None))"

definition encoded :: "bytes \<Rightarrow> strobj" where
  "encoded a = tryObjectEncoding (Raw a)"

definition setCommand :: "nat \<Rightarrow> redisServer \<Rightarrow> redisServer option" where
  "setCommand c s =
     (case set_options (drop 3 (c_argv (clients s ! c))) False False None UNIT_SECONDS of
        None \<Rightarrow> Some (addReply c (Error ''ERR syntax error'') s)
      | Some (nx, xx, expire, unit) \<Rightarrow>
        setGenericCommand c nx xx (argv s c 1) (encoded (argv s c 2)) expire unit None None s)"

definition setnxCommand :: "nat \<Rightarrow> redisServer \<Rightarrow> redisServer option" where
  "setnxCommand c s =
     setGenericCommand c True False (argv s c 1) (encoded (argv s c 2)) None UNIT_SECONDS
       (Some cone) (Some czero) s"

definition setexCommand :: "nat \<Rightarrow> redisServer \<Rightarrow> redisServer option" where
  "setexCommand c s =
     setGenericCommand c False False (argv s c 1) (encoded (argv s c 3)) (Some (argv s c 2))
       UNIT_SECONDS None None s"

definition psetexCommand :: "nat \<Rightarrow> redisServer \<Rightarrow> redisServer option" where
  "psetexCommand c s =
     setGenericCommand c False False (argv s c 1) (encoded (argv s c 3)) (Some (argv s c 2))
       UNIT_MILLISECONDS None None s"

section \<open>Reading\<close>

text \<open>\<^term>\<open>True\<close> is \<open>REDIS_OK\<close>.\<close>

definition getGenericCommand :: "nat \<Rightarrow> redisServer \<Rightarrow> (bool \<times> redisServer) option" where
  "getGenericCommand c s = do {
     (o1, s) \<leftarrow> lookupKeyReadOrReply c (argv s c 1) NullBulk s;
     (case o1 of None \<Rightarrow> Some (True, s)
      | Some (StringObj v) \<Rightarrow> Some (True, addReply c (Bulk (getDecodedObject v)) s)
      | Some _ \<Rightarrow> Some (False, addReply c wrongtypeerr s)) }"

definition getCommand :: "nat \<Rightarrow> redisServer \<Rightarrow> redisServer option" where
  "getCommand c s = map_option snd (getGenericCommand c s)"

definition getsetCommand :: "nat \<Rightarrow> redisServer \<Rightarrow> redisServer option" where
  "getsetCommand c s = do {
     let i = cur_db s c;
     (ok, s) \<leftarrow> getGenericCommand c s;
     if \<not> ok then Some s
     else do {
       s \<leftarrow> setKey i (argv s c 1) (StringObj (encoded (argv s c 2))) s;
       let s = notifyKeyspaceEvent NString ''set'' (argv s c 1) i s;
       Some (add_dirty 1 s) } }"

definition strlenCommand :: "nat \<Rightarrow> redisServer \<Rightarrow> redisServer option" where
  "strlenCommand c s = do {
     (o1, s) \<leftarrow> lookupKeyReadOrReply c (argv s c 1) czero s;
     (case o1 of None \<Rightarrow> Some s
      | Some (StringObj v) \<Rightarrow> Some (addReply c (Integer (int (stringObjectLen v))) s)
      | Some _ \<Rightarrow> Some (addReply c wrongtypeerr s)) }"

text \<open>The range of GETRANGE in a string of length \<open>len\<close>: start and number of bytes, if any. The
  end is compared as an \<open>unsigned\<close>, that is by its low 32 bits.\<close>

definition getrange_bounds :: "u64 \<Rightarrow> u64 \<Rightarrow> u64 \<Rightarrow> (u64 \<times> u64) option" where
  "getrange_bounds len start end1 =
     (let start = (if sint start < 0 then len + start else start);
          end1 = (if sint end1 < 0 then len + end1 else end1);
          start = (if sint start < 0 then 0 else start);
          end1 = (if sint end1 < 0 then 0 else end1);
          end1 = (if ucast (ucast end1 :: u32) \<ge> len then len - 1 else end1)
      in if sint start > sint end1 then None else Some (start, end1 - start + 1))"

text \<open>Bytes behind the terminating NUL of the string are not read.\<close>

definition getrangeCommand :: "nat \<Rightarrow> redisServer \<Rightarrow> redisServer option" where
  "getrangeCommand c s =
     (case getLongFromObjectOrReply c (Some (Raw (argv s c 2))) not_an_integer s of
        Inl s \<Rightarrow> Some s
      | Inr start \<Rightarrow>
        (case getLongFromObjectOrReply c (Some (Raw (argv s c 3))) not_an_integer s of
           Inl s \<Rightarrow> Some s
         | Inr end1 \<Rightarrow> do {
             (o1, s) \<leftarrow> lookupKeyReadOrReply c (argv s c 1) (Bulk []) s;
             (case o1 of None \<Rightarrow> Some s
              | Some (StringObj v) \<Rightarrow>
                let str = getDecodedObject v
                in (case getrange_bounds (of_nat (length str)) start end1 of
                      None \<Rightarrow> Some (addReply c (Bulk []) s)
                    | Some (st, n) \<Rightarrow> do {
                        bs \<leftarrow> rd (unat st) (unat n) (str @ [0]);
                        Some (addReply c (Bulk bs) s) })
              | Some _ \<Rightarrow> Some (addReply c wrongtypeerr s)) }))"

fun mget_loop :: "nat \<Rightarrow> bytes list \<Rightarrow> redisServer \<Rightarrow> redisServer option" where
  "mget_loop c [] s = Some s"
| "mget_loop c (key # keys) s = do {
     (o1, s) \<leftarrow> lookupKeyRead (cur_db s c) key s;
     mget_loop c keys (addReply c (case o1 of Some (StringObj v) \<Rightarrow> Bulk (getDecodedObject v)
                                   | _ \<Rightarrow> NullBulk) s) }"

definition mgetCommand :: "nat \<Rightarrow> redisServer \<Rightarrow> redisServer option" where
  "mgetCommand c s =
     mget_loop c (tl (c_argv (clients s ! c))) (addReply c (MultiBulkLen (int (argc s c) - 1)) s)"

section \<open>MSET\<close>

text \<open>Keys and values alternate.\<close>

fun mset_busy :: "nat \<Rightarrow> bytes list \<Rightarrow> nat \<Rightarrow> redisServer \<Rightarrow> (nat \<times> redisServer) option" where
  "mset_busy i (key # val # kvs) n s = do {
     (o1, s) \<leftarrow> lookupKeyWrite i key s;
     mset_busy i kvs (if o1 \<noteq> None then n + 1 else n) s }"
| "mset_busy i kvs n s = Some (n, s)"

fun mset_loop :: "nat \<Rightarrow> bytes list \<Rightarrow> redisServer \<Rightarrow> redisServer option" where
  "mset_loop i (key # val # kvs) s = do {
     s \<leftarrow> setKey i key (StringObj (encoded val)) s;
     mset_loop i kvs (notifyKeyspaceEvent NString ''set'' key i s) }"
| "mset_loop i kvs s = Some s"

definition msetGenericCommand :: "nat \<Rightarrow> bool \<Rightarrow> redisServer \<Rightarrow> redisServer option" where
  "msetGenericCommand c nx s =
     (if argc s c mod 2 = 0 then
        Some (addReply c (Error ''ERR wrong number of arguments for MSET'') s)
      else do {
        let i = cur_db s c;
        let kvs = tl (c_argv (clients s ! c));
        let n = argc s c;
        (busykeys, s) \<leftarrow> (if nx then mset_busy i kvs 0 s else Some (0, s));
        if busykeys \<noteq> 0 then Some (addReply c czero s)
        else do {
          s \<leftarrow> mset_loop i kvs s;
          let s = add_dirty ((int n - 1) div 2) s;
          Some (addReply c (if nx then cone else ok_reply) s) } })"

definition msetCommand :: "nat \<Rightarrow> redisServer \<Rightarrow> redisServer option" where
  "msetCommand c s = msetGenericCommand c False s"

definition msetnxCommand :: "nat \<Rightarrow> redisServer \<Rightarrow> redisServer option" where
  "msetnxCommand c s = msetGenericCommand c True s"

section \<open>Counters\<close>

definition incr_overflows :: "u64 \<Rightarrow> u64 \<Rightarrow> bool" where
  "incr_overflows oldvalue incr \<longleftrightarrow>
     sint incr < 0 \<and> sint oldvalue < 0 \<and> sint incr < sint (LLONG_MIN - oldvalue) \<or>
     sint incr > 0 \<and> sint oldvalue > 0 \<and> sint incr > sint (LLONG_MAX - oldvalue)"

definition incrDecrCommand :: "nat \<Rightarrow> u64 \<Rightarrow> redisServer \<Rightarrow> redisServer option" where
  "incrDecrCommand c incr s = do {
     let i = cur_db s c;
     let key = argv s c 1;
     (o1, s) \<leftarrow> lookupKeyWrite i key s;
     (case (case o1 of None \<Rightarrow> Inr None | Some (StringObj v) \<Rightarrow> Inr (Some v)
            | Some _ \<Rightarrow> Inl (addReply c wrongtypeerr s)) of
        Inl s \<Rightarrow> Some s
      | Inr v \<Rightarrow>
        (case getLongLongFromObjectOrReply c v not_an_integer s of
           Inl s \<Rightarrow> Some s
         | Inr oldvalue \<Rightarrow>
           if incr_overflows oldvalue incr then
             Some (addReply c (Error ''ERR increment or decrement would overflow'') s)
           else do {
             let value = oldvalue + incr;
             let new = StringObj (createStringObjectFromLongLong value);
             s \<leftarrow> (if o1 \<noteq> None then dbOverwrite i key new s else dbAdd i key new s);
             let s = signalModifiedKey i key s;
             let s = notifyKeyspaceEvent NString ''incrby'' key i s;
             let s = add_dirty 1 s;
             Some (addReply c (Integer (sint value)) s) })) }"

definition incrCommand :: "nat \<Rightarrow> redisServer \<Rightarrow> redisServer option" where
  "incrCommand c s = incrDecrCommand c 1 s"

definition decrCommand :: "nat \<Rightarrow> redisServer \<Rightarrow> redisServer option" where
  "decrCommand c s = incrDecrCommand c (- 1) s"

definition incrbyCommand :: "nat \<Rightarrow> redisServer \<Rightarrow> redisServer option" where
  "incrbyCommand c s =
     (case getLongLongFromObjectOrReply c (Some (Raw (argv s c 2))) not_an_integer s of
        Inl s \<Rightarrow> Some s | Inr incr \<Rightarrow> incrDecrCommand c incr s)"

definition decrbyCommand :: "nat \<Rightarrow> redisServer \<Rightarrow> redisServer option" where
  "decrbyCommand c s =
     (case getLongLongFromObjectOrReply c (Some (Raw (argv s c 2))) not_an_integer s of
        Inl s \<Rightarrow> Some s | Inr incr \<Rightarrow> incrDecrCommand c (- incr) s)"

section \<open>Changing part of a string\<close>

text \<open>\<open>sdsgrowzero\<close> and the copy into the string.\<close>

definition sdsgrowzero :: "nat \<Rightarrow> bytes \<Rightarrow> bytes" where
  "sdsgrowzero n b = (if n \<le> length b then b else b @ replicate (n - length b) 0)"

text \<open>The common end of SETRANGE.\<close>

definition setrange_store :: "nat \<Rightarrow> nat \<Rightarrow> bytes \<Rightarrow> bytes \<Rightarrow> u64 \<Rightarrow> bytes \<Rightarrow> redisServer \<Rightarrow> redisServer option" where
  "setrange_store c i key str offset value s = do {
     str \<leftarrow> wr (unat offset) value (sdsgrowzero (unat (offset + of_nat (length value))) str);
     s \<leftarrow> dbOverwrite i key (StringObj (Raw str)) s;
     let s = signalModifiedKey i key s;
     let s = notifyKeyspaceEvent NString ''setrange'' key i s;
     let s = add_dirty 1 s;
     Some (addReply c (Integer (int (length str))) s) }"

definition setrangeCommand :: "nat \<Rightarrow> redisServer \<Rightarrow> redisServer option" where
  "setrangeCommand c s =
     (let i = cur_db s c; key = argv s c 1; value = argv s c 3
      in case getLongFromObjectOrReply c (Some (Raw (argv s c 2))) not_an_integer s of
           Inl s \<Rightarrow> Some s
         | Inr offset \<Rightarrow>
           if sint offset < 0 then Some (addReply c (Error ''ERR offset is out of range'') s)
           else do {
             (o1, s) \<leftarrow> lookupKeyWrite i key s;
             (case o1 of
                None \<Rightarrow>
                  if value = [] then Some (addReply c czero s)
                  else (case checkStringLength c (offset + of_nat (length value)) s of
                          Some s \<Rightarrow> Some s
                        | None \<Rightarrow> do {
                            s \<leftarrow> dbAdd i key (StringObj (Raw [])) s;
                            setrange_store c i key [] offset value s })
              | Some (StringObj v) \<Rightarrow>
                  if value = [] then Some (addReply c (Integer (int (stringObjectLen v))) s)
                  else (case checkStringLength c (offset + of_nat (length value)) s of
                          Some s \<Rightarrow> Some s
                        | None \<Rightarrow> setrange_store c i key (getDecodedObject v) offset value s)
              | Some _ \<Rightarrow> Some (addReply c wrongtypeerr s)) })"

text \<open>The common end of APPEND.\<close>

definition append_done :: "nat \<Rightarrow> nat \<Rightarrow> bytes \<Rightarrow> nat \<Rightarrow> redisServer \<Rightarrow> redisServer option" where
  "append_done c i key totlen s = do {
     let s = signalModifiedKey i key s;
     let s = notifyKeyspaceEvent NString ''append'' key i s;
     let s = add_dirty 1 s;
     Some (addReply c (Integer (int totlen)) s) }"

definition appendCommand :: "nat \<Rightarrow> redisServer \<Rightarrow> redisServer option" where
  "appendCommand c s = do {
     let i = cur_db s c;
     let key = argv s c 1;
     let append = argv s c 2;
     (o1, s) \<leftarrow> lookupKeyWrite i key s;
     (case o1 of
        None \<Rightarrow> do {
          s \<leftarrow> dbAdd i key (StringObj (encoded append)) s;
          append_done c i key (stringObjectLen (encoded append)) s }
      | Some (StringObj v) \<Rightarrow>
          (case checkStringLength c (of_nat (stringObjectLen v + length append)) s of
             Some s \<Rightarrow> Some s
           | None \<Rightarrow> do {
               s \<leftarrow> dbOverwrite i key (StringObj (Raw (getDecodedObject v @ append))) s;
               append_done c i key (length (getDecodedObject v @ append)) s })
      | Some _ \<Rightarrow> Some (addReply c wrongtypeerr s)) }"

section \<open>Safety\<close>

lemma set_store_ok:
  assumes u: "upd i {} s0 s" and i: "i < length (dbs s)"
  obtains s' where "set_store i key val expire r c s = Some s'" and "upd i {} s0 s'"
    and "fmlookup (db_dict (dbs s' ! i)) key = Some (StringObj val)"
    and "fmlookup (db_expires (dbs s' ! i)) key = map_option (\<lambda>ms. mstime s + ms) expire"
    and "\<And>k. k \<noteq> key \<Longrightarrow> visible s' i k = visible s i k" and "dirty s' = dirty s + 1"
proof (rule setKey_ok [OF upd_srv_ok [OF u] i, of "StringObj val" key])
  show "wf_obj (StringObj val)" "\<not> hollow (StringObj val)" by simp_all
next
  fix s1
  assume s1: "setKey i key (StringObj val) s = Some s1" and u1: "upd i {} s s1"
    and v1: "\<And>k'. visible s1 i k' = (if k' = key then Some (StringObj val) else visible s i k')"
    and dd1: "dirty s1 = dirty s" and d1: "fmlookup (db_dict (dbs s1 ! i)) key = Some (StringObj val)"
    and e1: "fmlookup (db_expires (dbs s1 ! i)) key = None" and m1: "marked s s1 i key"
  define s2 where "s2 = add_dirty 1 s1"
  have u2: "upd i {} s s2" unfolding s2_def by (intro upd_intros u1)
  have i2: "i < length (dbs s2)" "dbs s2 = dbs s1" "clients s2 = clients s1" "mstime s2 = mstime s1"
    using i upd_len [OF u1] by (simp_all add: s2_def add_dirty_def)
  have mt: "mstime s1 = mstime s" using upd_shape [OF u1] by (simp add: same_shape_def)
  have v2: "visible s2 j k = visible s1 j k" for j k
    by (rule same_dbs_visible) (simp_all add: s2_def add_dirty_def)
  show thesis
  proof (cases expire)
    case None
    then have e: "set_store i key val expire r c s =
        Some (addReply c r (notifyKeyspaceEvent NString ''set'' key i s2))"
      using s1 by (simp add: set_store_def s2_def Let_def)
    show thesis
    proof (rule that [OF e])
      show "upd i {} s0 (addReply c r (notifyKeyspaceEvent NString ''set'' key i s2))"
        using upd_trans [OF u u2, of "{}"] by (intro upd_intros) simp
      show "visible (addReply c r (notifyKeyspaceEvent NString ''set'' key i s2)) i k = visible s i k"
        if "k \<noteq> key" for k
        using that v1 v2 by (subst same_dbs_visible [of _ s2]) (simp_all add: addReply_def frame_simps notifyKeyspaceEvent_def)
    qed (use None d1 e1 i2 dd1 in \<open>simp_all add: addReply_def frame_simps notifyKeyspaceEvent_def s2_def add_dirty_def\<close>)
  next
    case (Some ms)
    obtain s3 where s3: "setExpire i key (mstime s2 + ms) s2 = Some s3"
      using setExpire_ok [of s2 i key] d1 i2(2) by auto
    have u3: "upd i {key} s s3" using upd_setExpire [OF u2 _ s3] i by simp
    have c3: "clients s3 = clients s1" "dirty s3 = dirty s1 + 1"
      using db_ops_frame(3) [OF s3] i2 by (simp_all add: s2_def add_dirty_def)
    have "marked s s3 i key" using m1 c3 by (simp add: marked_def)
    moreover have s3d: "s3 = upd_db i (\<lambda>d. d\<lparr>db_expires := fmupd key (mstime s2 + ms) (db_expires d)\<rparr>) s2"
      using s3 by (simp add: setExpire_def split: if_splits)
    have "\<not> hollow_at s2 i key" using d1 by (simp add: s2_def hollow_at_def add_dirty_def)
    then have "\<not> hollow_at s3 i key" unfolding s3d by simp
    ultimately have u3': "upd i {} s s3" using upd_marked [OF u3, of key] by simp
    define s4 where "s4 = addReply c r (notifyKeyspaceEvent NGeneric ''expire'' key i (notifyKeyspaceEvent NString ''set'' key i s3))"
    have e: "set_store i key val expire r c s = Some s4"
      using s1 s3 Some by (simp add: set_store_def s2_def s4_def Let_def)
    have d4: "dbs s4 = dbs s3" "dirty s4 = dirty s3" "mstime s4 = mstime s3" "loading s4 = loading s3" "masterhost s4 = masterhost s3"
      by (simp_all add: s4_def addReply_def frame_simps notifyKeyspaceEvent_def)
    show thesis
    proof (rule that [OF e])
      show "upd i {} s0 s4" unfolding s4_def using upd_trans [OF u u3', of "{}"] by (intro upd_intros) simp
      show "visible s4 i k = visible s i k" if "k \<noteq> key" for k
      proof -
        have "visible s4 i k = visible s3 i k" by (rule same_dbs_visible) (simp_all add: d4)
        also have "\<dots> = visible s2 i k" unfolding s3d using that by (intro visible_same_entry i2(1)) simp_all
        finally show ?thesis using v1 v2 that by simp
      qed
      show "fmlookup (db_dict (dbs s4 ! i)) key = Some (StringObj val)"
        "fmlookup (db_expires (dbs s4 ! i)) key = map_option (\<lambda>ms. mstime s + ms) expire"
        using i2 d1 mt Some by (simp_all add: d4 s3d dbs_upd_db)
    qed (use d4 c3 dd1 in simp)
  qed
qed

lemma safe_set_store [safe_steps]:
  assumes "upd i {} s0 s" and "i < length (dbs s0)"
  shows "safe_res i s0 (set_store i key val ms r c s)"
proof -
  have "i < length (dbs s)" using assms upd_len by metis
  then show ?thesis by (rule set_store_ok [OF assms(1), of key val ms r c]) (rule safe_resI)
qed

lemma getLongLong_reply:
  "getLongLongFromObjectOrReply c v msg s = Inl s' \<Longrightarrow> s' = addReply c msg s"
  "getLongFromObjectOrReply c v msg s = Inl s' \<Longrightarrow> s' = addReply c msg s"
  by (auto simp: getLongLongFromObjectOrReply_def getLongFromObjectOrReply_def split: option.splits if_splits sum.splits)

lemma safe_getLongLong [safe_steps]:
  assumes "upd i {} s0 s" and "\<And>v. safe_res i s0 (f v)"
  shows "safe_res i s0 (case getLongLongFromObjectOrReply c v msg s of Inl s \<Rightarrow> Some s | Inr v \<Rightarrow> f v)"
    and "safe_res i s0 (case getLongFromObjectOrReply c v msg s of Inl s \<Rightarrow> Some s | Inr v \<Rightarrow> f v)"
  using assms by (auto split: sum.split dest!: getLongLong_reply intro!: safe_steps upd_intros)

lemma safe_set_conflict [safe_steps]:
  assumes "upd i {} s0 s" and "i < length (dbs s0)"
    and "\<And>b s'. upd i {} s0 s' \<Longrightarrow> same_view s s' \<Longrightarrow> safe_res i s0 (f (b, s'))"
  shows "safe_res i s0 (set_conflict nx xx i k s \<bind> f)"
proof -
  have f: "safe_res i s0 (f (b, t))" if "upd i {} s0 t" "same_view s u" "same_view u t" for b t u
    using that assms(3) same_view_trans by blast
  show ?thesis
  proof (cases nx)
    case True
    have "safe_res i s0 (lookupKeyWrite i k s \<bind> (\<lambda>(o1, s).
        (if o1 = None \<and> xx then lookupKeyWrite i k s \<bind> (\<lambda>(o1, s). Some (o1 = None, s))
         else Some (o1 \<noteq> None, s)) \<bind> f))"
      using assms(1,2) f by (auto simp del: not_None_eq intro!: safe_steps)
    then show ?thesis using True unfolding set_conflict_def
      by (simp add: case_prod_unfold del: not_None_eq cong: if_cong)
  next
    case False
    have "safe_res i s0 (lookupKeyWrite i k s \<bind> (\<lambda>(o1, s). f (o1 = None, s)))"
      using assms by (auto intro!: safe_steps)
    then show ?thesis using False assms(1) f [of s s] by (simp add: set_conflict_def case_prod_unfold)
  qed
qed

lemma safe_setGeneric: "safe_command (\<lambda>c s. setGenericCommand c nx xx (k c s) (v c s) (e c s) unit okr abortr s)"
  unfolding setGenericCommand_def
  by (rule safe_commandI')
    (auto split: option.split sum.split dest!: getLongLong_reply same_viewD intro!: safe_steps upd_intros)

lemma safe_setCommand: "safe_command setCommand"
proof (rule safe_commandI')
  fix s c
  assume "srv_full s" "c < length (clients s)" "\<not> c_blocked (clients s ! c)" "upd (cur_db s c) {} s s"
  then show "safe_res (cur_db s c) s (setCommand c s)"
    using safe_commandD [OF safe_setGeneric] unfolding setCommand_def
    by (auto split: option.split intro!: safe_steps upd_intros)
qed

lemma safe_set_variants:
  "safe_command setnxCommand" "safe_command setexCommand" "safe_command psetexCommand"
  by (simp_all add: setnxCommand_def [abs_def] setexCommand_def [abs_def] psetexCommand_def [abs_def] safe_setGeneric)

lemma safe_getGeneric [safe_steps]:
  assumes "upd i {} s0 s" and "i < length (dbs s0)" and "cur_db s c = i"
    and "\<And>ok s'. upd i {} s0 s' \<Longrightarrow> same_view s s' \<Longrightarrow> safe_res i s0 (f (ok, s'))"
  shows "safe_res i s0 (getGenericCommand c s \<bind> f)"
  unfolding getGenericCommand_def using assms(1-3)
  by (auto simp: case_prod_beta split: option.split robj.split intro!: assms(4) [unfolded assms(3) [symmetric]] safe_steps upd_intros)

lemma safe_get: "safe_command getCommand"
proof -
  have "getCommand c s = getGenericCommand c s \<bind> (\<lambda>(_, s). Some s)" for c s
    by (cases "getGenericCommand c s") (auto simp: getCommand_def)
  then show ?thesis by (auto intro!: safe_commandI' safe_steps)
qed

lemma safe_getset: "safe_command getsetCommand"
  unfolding getsetCommand_def Let_def
  by (rule safe_commandI') (auto dest!: same_viewD intro!: safe_steps upd_intros)

lemma safe_strlen: "safe_command strlenCommand"
  unfolding strlenCommand_def
  by (rule safe_commandI') (auto split: option.split robj.split intro!: safe_steps upd_intros)

lemma safe_mget_loop:
  "upd i {} s0 s \<Longrightarrow> i < length (dbs s0) \<Longrightarrow> cur_db s c = i \<Longrightarrow> safe_res i s0 (mget_loop c keys s)"
proof (induction keys arbitrary: s)
  case (Cons key keys)
  have "safe_res i s0 (lookupKeyRead i key s \<bind> (\<lambda>(o1, s).
      mget_loop c keys (addReply c (case o1 of Some (StringObj v) \<Rightarrow> Bulk (getDecodedObject v) | _ \<Rightarrow> NullBulk) s)))"
    using Cons.prems(1,2)
    by (rule safe_lookupKeyRead)
      (use Cons.prems(2,3) in \<open>simp add: Cons.IH upd_intros same_view_def\<close>)
  then show ?case by (simp add: Cons.prems(3))
qed (simp add: safe_steps)

lemma safe_mget: "safe_command mgetCommand"
  unfolding mgetCommand_def
  by (rule safe_commandI') (auto intro!: safe_mget_loop upd_intros)

lemma safe_mset_busy [safe_steps]:
  assumes "upd i {} s0 s" and "i < length (dbs s0)"
    and "\<And>n s'. upd i {} s0 s' \<Longrightarrow> same_view s s' \<Longrightarrow> safe_res i s0 (f (n, s'))"
  shows "safe_res i s0 (mset_busy i kvs n s \<bind> f)"
  using assms
proof (induction kvs arbitrary: n s rule: induct_list012)
  case (3 key val kvs)
  have "safe_res i s0 (lookupKeyWrite i key s \<bind>
      (\<lambda>(o1, s). mset_busy i kvs (if o1 \<noteq> None then n + 1 else n) s \<bind> f))"
    using "3.prems" by (auto intro!: safe_steps "3.IH" dest: same_view_trans simp del: not_None_eq)
  then show ?case by (simp add: case_prod_unfold del: not_None_eq)
qed auto

lemma safe_mset_loop [safe_steps]:
  assumes "upd i {} s0 s" and "i < length (dbs s0)"
    and "\<And>s'. upd i {} s0 s' \<Longrightarrow> same_view s s' \<Longrightarrow> safe_res i s0 (f s')"
  shows "safe_res i s0 (mset_loop i kvs s \<bind> f)"
  using assms
proof (induction kvs arbitrary: s rule: induct_list012)
  case (3 key val kvs)
  have "safe_res i s0 (setKey i key (StringObj (encoded val)) s \<bind>
      (\<lambda>s. mset_loop i kvs (notifyKeyspaceEvent NString ''set'' key i s) \<bind> f))"
    using "3.prems" by (auto intro!: safe_steps "3.IH" upd_intros dest: same_view_trans)
  then show ?case by simp
qed auto

lemma safe_msetGeneric: "safe_command (\<lambda>c. msetGenericCommand c nx)"
  unfolding msetGenericCommand_def Let_def
  by (rule safe_commandI') (auto intro!: safe_steps upd_intros)

lemma safe_incrDecr: "safe_command (\<lambda>c s. incrDecrCommand c (n c s) s)"
  unfolding incrDecrCommand_def Let_def
  by (rule safe_commandI')
    (auto split: option.split robj.split sum.split dest!: getLongLong_reply intro!: safe_steps upd_signal1 upd_intros)

lemma checkStringLength_reply: "checkStringLength c n s = Some s' \<Longrightarrow> \<exists>r. s' = addReply c r s"
  by (auto simp: checkStringLength_def split: if_splits)

lemma safe_append: "safe_command appendCommand"
  unfolding appendCommand_def append_done_def Let_def
  by (rule safe_commandI')
    (auto split: option.split robj.split dest!: checkStringLength_reply intro!: safe_steps upd_signal1 upd_intros)

text \<open>SETRANGE never writes outside the string it has grown, as long as the argument is shorter than
  \<open>2 ^ 63\<close>.\<close>

lemma setrange_size:
  assumes "0 \<le> sint offset" and "n \<le> 2 ^ 63"
  shows "unat (offset + of_nat n :: u64) = unat offset + n"
proof -
  have "int (unat offset) < int (2 ^ 63)"
    unfolding sint_nonneg_unat [OF assms(1), symmetric] using sint_range_64(2) [of offset] by simp
  then have o: "unat offset < 2 ^ 63" by (simp only: of_nat_less_iff)
  have n: "unat (of_nat n :: u64) = n" by (rule of_nat_inverse [OF refl]) (use assms(2) in simp)
  have "unat offset + unat (of_nat n :: u64) < 2 ^ LENGTH(64)" using o assms(2) unfolding n by simp
  then have "unat (offset + of_nat n) = unat offset + unat (of_nat n :: u64)" by (rule iffD1 [OF unat_add_lem])
  then show ?thesis by (simp only: n)
qed

lemma safe_setrange_store:
  assumes "upd i {} s0 s \<or> upd i {key} s0 s" and "i < length (dbs s0)" and "sees i key (Some v) s"
    and "0 \<le> sint offset" and "length value \<le> 2 ^ 63"
  shows "safe_res i s0 (setrange_store c i key str offset value s)"
proof -
  obtain str' where w: "wr (unat offset) value (sdsgrowzero (unat (offset + of_nat (length value))) str) = Some str'"
    unfolding setrange_size [OF assms(4,5)] by (cases "unat offset + length value \<le> length str") (auto simp: wr_def sdsgrowzero_def)
  have u: "upd i {key} s0 s" using assms(1) upd_mono by blast
  have "safe_res i s0 (do {
     s \<leftarrow> dbOverwrite i key (StringObj (Raw str')) s;
     Some (addReply c (Integer (int (length str'))) (add_dirty 1 (notifyKeyspaceEvent NString ''setrange'' key i
       (signalModifiedKey i key s)))) })"
    by (rule safe_dbOverwrite [OF u assms(2,3)]) (auto intro!: safe_steps upd_signal1 upd_intros assms(2))
  then show ?thesis using w by (simp add: setrange_store_def)
qed

lemma safe_setrange:
  assumes "srv_ok s" and "c < length (clients s)" and "length (argv s c 3) \<le> 2 ^ 63"
  shows "safe_res (cur_db s c) s (setrangeCommand c s)"
  using assms upd_refl [of s] cur_db_less [of s c] unfolding setrangeCommand_def Let_def
  by (auto split: option.split robj.split sum.split dest!: checkStringLength_reply getLongLong_reply
      intro!: safe_steps upd_intros safe_setrange_store)

section \<open>GETRANGE\<close>

text \<open>A position that counts from the end when it is negative.\<close>

definition from_end :: "nat \<Rightarrow> u64 \<Rightarrow> int" where
  "from_end L x = max 0 (if sint x < 0 then int L + sint x else sint x)"

lemma from_end_word:
  assumes "L < 2 ^ 31"
  shows "sint (let x = (if sint x < 0 then of_nat L + x else x) in if sint x < 0 then 0 else x) = from_end L x"
proof -
  have "sint (of_nat L + x) = int L + sint x" if "sint x < 0"
    using assms that sint_of_nat [of L] sint_range_64(1) [of x] by (subst sint_plus_ok) simp_all
  then show ?thesis by (simp add: from_end_def Let_def)
qed

lemma getrange_bounds_spec:
  assumes L: "L < 2 ^ 31" and e: "from_end L end1 < 2 ^ 32"
    and a_def: "a = from_end L start" and b_def: "b = min (int L - 1) (from_end L end1)"
  shows "getrange_bounds (of_nat L) start end1 =
    (if a > b then None else Some (word_of_int a, word_of_int (b - a + 1)))"
proof -
  define norm where "norm = (\<lambda>x :: u64. let x = (if sint x < 0 then of_nat L + x else x) in if sint x < 0 then 0 else x)"
  have n: "sint (norm x) = from_end L x" for x unfolding norm_def by (rule from_end_word [OF L])
  have pos: "0 \<le> from_end L x" for x by (simp add: from_end_def)
  have sL: "sint (of_nat L :: u64) = int L" using L by (simp add: sint_of_nat)
  define e1 where "e1 = (if ucast (ucast (norm end1) :: u32) \<ge> (of_nat L :: u64) then of_nat L - 1 else norm end1)"
  have g: "getrange_bounds (of_nat L) start end1 =
      (if sint (norm start) > sint e1 then None else Some (norm start, e1 - norm start + 1))"
    by (simp add: getrange_bounds_def norm_def e1_def Let_def)
  have u: "uint (norm end1) = from_end L end1"
    using n [of end1] pos [of end1] sint_nonneg_unat [of "norm end1"] by simp
  have "uint (ucast (ucast (norm end1) :: u32) :: u64) = from_end L end1"
    using e pos [of end1] by (simp add: unsigned_ucast_eq unsigned_take_bit_eq u take_bit_int_eq_self)
  moreover have uL: "uint (of_nat L :: u64) = int L" using L by (simp add: unsigned_of_nat take_bit_nat_eq_self)
  ultimately have c: "ucast (ucast (norm end1) :: u32) \<ge> (of_nat L :: u64) \<longleftrightarrow> from_end L end1 \<ge> int L"
    by (simp only: word_le_def)
  have "sint (of_nat L - 1 :: u64) = int L - 1"
    using L sL by (subst sint_minus_ok) simp_all
  then have e1: "sint e1 = b" unfolding e1_def c b_def using n [of end1] by auto
  have w: "norm start = word_of_int a" "e1 = word_of_int b"
    using n [of start] e1 word_of_sint [of "norm start"] word_of_sint [of e1] by (simp_all add: a_def)
  show ?thesis unfolding g e1 n by (simp add: w a_def [symmetric])
qed

text \<open>On strings as the server limits them and an end that fits 32 bits, the range lies in the
  string.\<close>

lemma getrange_in:
  assumes L: "L < 2 ^ 31" and e: "from_end L end1 < 2 ^ 32"
    and g: "getrange_bounds (of_nat L) start end1 = Some (st, n)"
  shows "int (unat st) = from_end L start" and "unat st + unat n \<le> L"
    and "int (unat n) = min (int L - 1) (from_end L end1) - from_end L start + 1"
proof -
  define a where "a = from_end L start"
  define b where "b = min (int L - 1) (from_end L end1)"
  have ab: "a \<le> b" "st = word_of_int a" "n = word_of_int (b - a + 1)"
    using g unfolding getrange_bounds_spec [OF L e a_def b_def] by (auto split: if_splits)
  have "0 \<le> a" "b < int L" "a < int L" using ab(1) by (simp_all add: a_def b_def from_end_def)
  moreover have w: "int (unat (word_of_int x :: u64)) = x" if "0 \<le> x" "x \<le> int L" for x
    using that L by (simp add: uint_word_of_int_eq take_bit_int_eq_self)
  ultimately have s: "int (unat st) = a" "int (unat n) = b - a + 1"
    using ab(1) unfolding ab(2,3) by (intro w; linarith)+
  then show "int (unat st) = from_end L start"
    "int (unat n) = min (int L - 1) (from_end L end1) - from_end L start + 1"
    by (simp_all only: a_def b_def)
  show "unat st + unat n \<le> L" using s \<open>b < int L\<close> by linarith
qed

lemma getLong_Inr: "getLongLongFromObject v = Some n \<Longrightarrow> getLongFromObjectOrReply c v msg s = Inr n"
  using sint_range_64 [of n]
  by (simp add: getLongFromObjectOrReply_def getLongLongFromObjectOrReply_def LLONG_MIN_def LLONG_MAX_def)

text \<open>On a string within the limits of the server and an end below \<open>2 ^ 32\<close>, GETRANGE replies the
  bytes from the start to the end, both inclusive, where a negative position counts from the end of the
  string and positions outside the string are moved to its ends.\<close>

lemma getrange_slice:
  assumes "srv_ok s" and "c < length (clients s)"
    and "visible s (cur_db s c) (argv s c 1) = Some (StringObj v)"
    and "getLongLongFromObject (Some (Raw (argv s c 2))) = Some start"
    and "getLongLongFromObject (Some (Raw (argv s c 3))) = Some end1"
    and "length (getDecodedObject v) < 2 ^ 31" and "from_end (length (getDecodedObject v)) end1 < 2 ^ 32"
  shows "\<exists>s'. getrangeCommand c s = Some s' \<and> last (c_replies (clients s' ! c)) =
    (let str = getDecodedObject v; a = from_end (length str) start;
         b = min (int (length str) - 1) (from_end (length str) end1)
     in Bulk (take (nat (b - a + 1)) (drop (nat a) str)))"
proof -
  obtain s1 where l: "lookupKeyRead (cur_db s c) (argv s c 1) s = Some (Some (StringObj v), s1)"
      and q: "quiet (cur_db s c) s s1"
    using lookupKeyRead_ok [OF assms(1) cur_db_less [OF assms(1,2)], of "argv s c 1"] assms(3) by metis
  define str where "str = getDecodedObject v"
  define a where "a = from_end (length str) start"
  define b where "b = min (int (length str) - 1) (from_end (length str) end1)"
  have c1: "c < length (clients s1)" using assms(2) quietD(7) [OF q] by simp
  have e: "getrangeCommand c s = (case getrange_bounds (of_nat (length str)) start end1 of
      None \<Rightarrow> Some (addReply c (Bulk []) s1)
    | Some (st, n) \<Rightarrow> do { bs \<leftarrow> rd (unat st) (unat n) (str @ [0]); Some (addReply c (Bulk bs) s1) })"
    unfolding getrangeCommand_def getLong_Inr [OF assms(4)] getLong_Inr [OF assms(5)] lookupKeyReadOrReply_def l
    by (simp add: str_def Let_def cong: option.case_cong)
  have r: "last (c_replies (clients (addReply c (Bulk bs) s1) ! c)) = Bulk bs" for bs by (rule last_reply [OF c1])
  show ?thesis
  proof (cases "getrange_bounds (of_nat (length str)) start end1")
    case None
    then have "a > b" using getrange_bounds_spec [OF assms(6,7) refl refl, of start]
      by (auto simp: a_def b_def str_def split: if_splits)
    then have "nat (b - a + 1) = 0" by simp
    then show ?thesis using e None r unfolding Let_def str_def [symmetric] a_def [symmetric] b_def [symmetric] by simp
  next
    case (Some p)
    obtain st n where p: "p = (st, n)" by (cases p)
    note g = getrange_in [OF assms(6,7) Some [unfolded p str_def]]
    have st: "unat st = nat a" "unat n = nat (b - a + 1)" using g(1,3) unfolding a_def b_def str_def by linarith+
    have "rd (unat st) (unat n) (str @ [0]) = Some (take (unat n) (drop (unat st) str))"
      using g(2) by (simp add: rd_def str_def)
    then show ?thesis using e Some p r unfolding Let_def str_def [symmetric] a_def [symmetric] b_def [symmetric] by (simp add: st)
  qed
qed

section \<open>What the commands store\<close>

lemma decoded_encoded [simp]: "getDecodedObject (encoded a) = a"
  using string2ll_canonical [of a]
  by (auto simp: encoded_def string2l_def ll2string_rep split: option.split)

lemma only_key_set_store:
  assumes "set_store i key val None r c s = Some s'"
  shows "only_key i key s s'"
proof -
  obtain s1 where "setKey i key (StringObj val) s = Some s1"
      "s' = addReply c r (notifyKeyspaceEvent NString ''set'' key i (add_dirty 1 s1))"
    using assms by (auto simp: set_store_def Let_def bind_eq_Some_conv)
  then show ?thesis using only_key_setKey [OF only_key_refl] by (auto intro!: only_key_steps)
qed

text \<open>C36: SET with a key and a value, and no options, stores the value, clears the expire of the key, and counts
  one change. Whatever its encoding, the value read back is the argument. Every other entry of every
  database keeps its value and its expire; no key becomes ready and the limits on encodings stay.\<close>

theorem set_stores:
  assumes "srv_ok s" and "c < length (clients s)" and "c_argv (clients s ! c) = [name, key, val]"
  shows "\<exists>s' v. setCommand c s = Some s' \<and> srv_ok s' \<and>
    fmlookup (db_dict (dbs s' ! cur_db s c)) key = Some (StringObj v) \<and> getDecodedObject v = val \<and>
    fmlookup (db_expires (dbs s' ! cur_db s c)) key = None \<and>
    (\<forall>k. k \<noteq> key \<longrightarrow> visible s' (cur_db s c) k = visible s (cur_db s c) k) \<and> dirty s' = dirty s + 1 \<and>
    (\<forall>j k. (j, k) \<noteq> (cur_db s c, key) \<longrightarrow> entry s' j k = entry s j k) \<and>
    ready_keys s' = ready_keys s \<and> settings s' = settings s"
proof -
  have e: "setCommand c s = set_store (cur_db s c) key (encoded val) None ok_reply c s"
    using assms(3) by (simp add: setCommand_def setGenericCommand_def set_conflict_def argv_def numeral_2_eq_2)
  obtain s' where s': "set_store (cur_db s c) key (encoded val) None ok_reply c s = Some s'" "upd (cur_db s c) {} s s'"
    "fmlookup (db_dict (dbs s' ! cur_db s c)) key = Some (StringObj (encoded val))"
    "fmlookup (db_expires (dbs s' ! cur_db s c)) key = None"
    "\<And>k. k \<noteq> key \<Longrightarrow> visible s' (cur_db s c) k = visible s (cur_db s c) k" "dirty s' = dirty s + 1"
    by (rule set_store_ok [OF upd_refl [OF assms(1)] cur_db_less [OF assms(1,2)], of key "encoded val" None ok_reply c]) simp
  note o = only_keyD [OF only_key_set_store [OF s'(1)]]
  show ?thesis unfolding e
    by (intro exI [of _ s'] exI [of _ "encoded val"]) (use s' o upd_srv_ok [OF s'(2)] in auto)
qed

theorem set_stores_witness:
  "\<exists>s' v. setCommand 0 (watched_server [(key_k, 50)] [ascii ''SET'', key_k, [52, 50]]) = Some s' \<and>
     fmlookup (db_dict (dbs s' ! 0)) key_k = Some (StringObj v) \<and> getDecodedObject v = [52, 50]"
proof -
  let ?s = "watched_server [(key_k, 50)] [ascii ''SET'', key_k, [52, 50]]"
  have "srv_ok ?s" "0 < length (clients ?s)" "c_argv (clients ?s ! 0) = [ascii ''SET'', key_k, [52, 50]]" "cur_db ?s 0 = 0"
    using watched_server_ok [of "[(key_k, 50)]"] by (simp_all add: watched_server_def cur_db_def idle_client_def)
  then show ?thesis using set_stores [of ?s 0 "ascii ''SET''" key_k "[52, 50]"] by auto
qed

lemma string_safe:
  "safe_command setCommand" "safe_command setnxCommand" "safe_command setexCommand"
  "safe_command psetexCommand" "safe_command getCommand" "safe_command getsetCommand"
  "safe_command strlenCommand" "safe_command mgetCommand" "safe_command msetCommand"
  "safe_command msetnxCommand" "safe_command incrCommand" "safe_command decrCommand"
  "safe_command incrbyCommand" "safe_command decrbyCommand" "safe_command appendCommand"
proof -
  have by_n: "safe_command (\<lambda>c s. case getLongLongFromObjectOrReply c (Some (Raw (argv s c 2))) not_an_integer s of
      Inl s \<Rightarrow> Some s | Inr incr \<Rightarrow> incrDecrCommand c (g incr) s)" for g
  proof (rule safe_commandI')
    fix s c
    assume a: "srv_full s" "c < length (clients s)" "\<not> c_blocked (clients s ! c)" "upd (cur_db s c) {} s s"
    show "safe_res (cur_db s c) s (case getLongLongFromObjectOrReply c (Some (Raw (argv s c 2))) not_an_integer s of
      Inl s \<Rightarrow> Some s | Inr incr \<Rightarrow> incrDecrCommand c (g incr) s)"
      using safe_commandD [OF safe_incrDecr [of "\<lambda>c s. g v" for v] a(1-3)] by (intro safe_getLongLong a(4))
  qed
  show "safe_command setCommand" "safe_command setnxCommand" "safe_command setexCommand" "safe_command psetexCommand" "safe_command getCommand" "safe_command getsetCommand" "safe_command strlenCommand" "safe_command mgetCommand" "safe_command msetCommand" "safe_command msetnxCommand" "safe_command incrCommand" "safe_command decrCommand" "safe_command incrbyCommand" "safe_command decrbyCommand" "safe_command appendCommand"
    using safe_setCommand safe_set_variants safe_get safe_getset safe_strlen safe_mget safe_append by_n
      safe_incrDecr [of "\<lambda>c s. 1"] safe_incrDecr [of "\<lambda>c s. - 1"] safe_msetGeneric
    by (simp_all add: msetCommand_def [abs_def] msetnxCommand_def [abs_def] incrCommand_def [abs_def]
        decrCommand_def [abs_def] incrbyCommand_def [abs_def] decrbyCommand_def [abs_def])
qed

text \<open>C24: SET, SETNX, SETEX, PSETEX, GET, GETSET, STRLEN, MGET, MSET, MSETNX, INCR, DECR, INCRBY, DECRBY and APPEND
  always answer, whatever their arguments, keep the invariant of the server, and mark every client that
  watches a key whose value they change. SETRANGE and GETRANGE are not among them.\<close>

theorem string_commands_safe:
  "safe_command setCommand \<and> safe_command setnxCommand \<and> safe_command setexCommand \<and>
   safe_command psetexCommand \<and> safe_command getCommand \<and> safe_command getsetCommand \<and>
   safe_command strlenCommand \<and> safe_command mgetCommand \<and> safe_command msetCommand \<and>
   safe_command msetnxCommand \<and> safe_command incrCommand \<and> safe_command decrCommand \<and>
   safe_command incrbyCommand \<and> safe_command decrbyCommand \<and> safe_command appendCommand"
  by (simp add: string_safe)

section \<open>Counters\<close>

lemma incr_overflows_iff:
  "incr_overflows old n \<longleftrightarrow> \<not> (- (2 ^ 63) \<le> sint old + sint n \<and> sint old + sint n < 2 ^ 63)"
proof -
  have m: "sint LLONG_MIN = - (2 ^ 63)" "sint LLONG_MAX = 2 ^ 63 - 1" by (simp_all add: LLONG_MIN_def LLONG_MAX_def)
  have "sint (LLONG_MIN - old) = - (2 ^ 63) - sint old" if "sint old < 0"
    using that sint_range_64 [of old] m by (subst sint_minus_ok) simp_all
  moreover have "sint (LLONG_MAX - old) = 2 ^ 63 - 1 - sint old" if "sint old > 0"
    using that sint_range_64 [of old] m by (subst sint_minus_ok) simp_all
  ultimately show ?thesis
    using sint_range_64 [of old] sint_range_64 [of n] unfolding incr_overflows_def by auto
qed

text \<open>The number a counter holds, when it holds one.\<close>

definition counter_value :: "robj option \<Rightarrow> u64 option" where
  "counter_value o1 =
     (case o1 of None \<Rightarrow> Some 0 | Some (StringObj v) \<Rightarrow> getLongLongFromObject (Some v) | Some _ \<Rightarrow> None)"

lemma clients_signal_len: "length (clients (add_dirty 1 (notifyKeyspaceEvent cls e k j s))) = length (clients s)"
  by (simp add: add_dirty_def notifyKeyspaceEvent_def)

lemma incrDecr_exact:
  assumes "srv_ok s" and "c < length (clients s)"
    and "counter_value (visible s (cur_db s c) (argv s c 1)) = Some old"
  shows "\<exists>s'. incrDecrCommand c n s = Some s' \<and>
    (if - (2 ^ 63) \<le> sint old + sint n \<and> sint old + sint n < 2 ^ 63
     then counter_value (visible s' (cur_db s c) (argv s c 1)) = Some (old + n) \<and>
          sint (old + n) = sint old + sint n \<and>
          last (c_replies (clients s' ! c)) = Integer (sint old + sint n)
     else visible s' (cur_db s c) (argv s c 1) = visible s (cur_db s c) (argv s c 1) \<and>
          last (c_replies (clients s' ! c)) = Error ''ERR increment or decrement would overflow'')"
proof -
  define i where "i = cur_db s c"
  define key where "key = argv s c 1"
  have i: "i < length (dbs s)" using cur_db_less [OF assms(1,2)] by (simp add: i_def)
  obtain s1 where s1: "lookupKeyWrite i key s = Some (visible s i key, s1)" and q: "quiet i s s1"
      and l: "fmlookup (db_dict (dbs s1 ! i)) key = visible s i key"
    by (rule lookupKeyWrite_ok [OF assms(1) i])
  note q1 = quietD [OF q]
  have c: "visible s i key = None \<and> old = 0 \<or>
      (\<exists>v. visible s i key = Some (StringObj v) \<and> getLongLongFromObject (Some v) = Some old)"
    using assms(3) unfolding counter_value_def i_def [symmetric] key_def [symmetric]
    by (auto split: option.splits robj.splits)
  have e: "incrDecrCommand c n s =
     (if incr_overflows old n then
        Some (addReply c (Error ''ERR increment or decrement would overflow'') s1)
      else do {
        s \<leftarrow> (if visible s i key = None then dbAdd i key (StringObj (IntEnc (old + n))) s1
             else dbOverwrite i key (StringObj (IntEnc (old + n))) s1);
        Some (addReply c (Integer (sint (old + n)))
          (add_dirty 1 (notifyKeyspaceEvent NString ''incrby'' key i (signalModifiedKey i key s)))) })"
    unfolding incrDecrCommand_def i_def [symmetric] key_def [symmetric] Let_def s1
    using c by (elim disjE exE conjE)
      (simp_all add: getLongLongFromObjectOrReply_def createStringObjectFromLongLong_def del: not_None_eq)
  show ?thesis
  proof (cases "incr_overflows old n")
    case True
    have "visible (addReply c r s1) i key = visible s i key" for r
      using q1(3) by (subst same_dbs_visible [of _ s1]) (simp_all add: addReply_def frame_simps)
    then show ?thesis using True e q1(7) assms(2) incr_overflows_iff [of old n]
      by (simp add: last_reply i_def key_def)
  next
    case False
    have i1: "i < length (dbs s1)" "fmlookup (db_dict (dbs s1 ! i)) key = visible s1 i key" using i q1 l by simp_all
    obtain s2 where s2: "(if visible s i key = None then dbAdd i key (StringObj (IntEnc (old + n))) s1
             else dbOverwrite i key (StringObj (IntEnc (old + n))) s1) = Some s2"
        "\<And>k. visible s2 i k = (if k = key then Some (StringObj (IntEnc (old + n))) else visible s1 i k)"
        "clients s2 = clients s1"
      using put_ok [OF q1(5) i1, of "StringObj (IntEnc (old + n))"] q1(3) by (metis wf_obj.simps(2))
    define s3 where "s3 = add_dirty 1 (notifyKeyspaceEvent NString ''incrby'' key i (signalModifiedKey i key s2))"
    have "visible (addReply c r s3) i key = visible (signalModifiedKey i key s2) i key" for r
      by (rule same_dbs_visible) (simp_all add: s3_def add_dirty_def notifyKeyspaceEvent_def addReply_def frame_simps)
    then have v: "visible (addReply c r s3) i key = Some (StringObj (IntEnc (old + n)))" for r
      by (simp add: same_dbs_signal s2(2))
    have len: "c < length (clients s3)" using assms(2) q1(7) s2(3)
      by (simp add: s3_def clients_signal_len frame_simps)
    have "incrDecrCommand c n s = Some (addReply c (Integer (sint (old + n))) s3)"
      using e False s2(1) by (simp add: s3_def)
    then show ?thesis
      using False v last_reply [OF len] incr_overflows_iff [of old n]
      unfolding i_def [symmetric] key_def [symmetric] by (simp add: counter_value_def sint_plus_ok)
  qed
qed

text \<open>A command that is to add \<open>n\<close> to the counter \<open>old\<close>: the sum is stored and replied when it fits 64 bits;
  otherwise the key is left as it was and the reply is an error.\<close>

definition counts :: "nat \<Rightarrow> int \<Rightarrow> u64 \<Rightarrow> redisServer \<Rightarrow> redisServer option \<Rightarrow> bool" where
  "counts c n old s r \<longleftrightarrow> (\<exists>s'. r = Some s' \<and>
    (if - (2 ^ 63) \<le> sint old + n \<and> sint old + n < 2 ^ 63
     then (\<exists>v. counter_value (visible s' (cur_db s c) (argv s c 1)) = Some v \<and> sint v = sint old + n) \<and>
          last (c_replies (clients s' ! c)) = Integer (sint old + n)
     else visible s' (cur_db s c) (argv s c 1) = visible s (cur_db s c) (argv s c 1) \<and>
          last (c_replies (clients s' ! c)) = Error ''ERR increment or decrement would overflow''))"

lemma incrDecr_counts:
  assumes "srv_ok s" and "c < length (clients s)"
    and "counter_value (visible s (cur_db s c) (argv s c 1)) = Some old"
  shows "counts c (sint n) old s (incrDecrCommand c n s)"
proof -
  obtain s' where "incrDecrCommand c n s = Some s'"
    "if - (2 ^ 63) \<le> sint old + sint n \<and> sint old + sint n < 2 ^ 63
     then counter_value (visible s' (cur_db s c) (argv s c 1)) = Some (old + n) \<and>
          sint (old + n) = sint old + sint n \<and>
          last (c_replies (clients s' ! c)) = Integer (sint old + sint n)
     else visible s' (cur_db s c) (argv s c 1) = visible s (cur_db s c) (argv s c 1) \<and>
          last (c_replies (clients s' ! c)) = Error ''ERR increment or decrement would overflow''"
    using incrDecr_exact [OF assms] by blast
  then show ?thesis unfolding counts_def by (auto split: if_split_asm)
qed

lemma sint_uminus_ok: "(n :: u64) \<noteq> LLONG_MIN \<Longrightarrow> sint (- n) = - sint n"
proof -
  assume "n \<noteq> LLONG_MIN"
  then have "sint n \<noteq> - (2 ^ 63)" using signed_word_eqI [of n LLONG_MIN] by (auto simp: LLONG_MIN_def)
  then show ?thesis using sint_minus_ok [of 0 n] sint_range_64 [of n] by simp
qed

text \<open>C32: On a key that is absent or holds an integer, INCR, DECR, INCRBY and DECRBY with an integer add or
  subtract without wrap-around: a result that fits 64 bits is stored and replied, otherwise the key is left as
  it was and the reply is an error. The exception is DECRBY of the smallest integer, which adds it
  instead of subtracting it. An argument that is no integer gets an error and nothing happens.\<close>

theorem incr_exact:
  assumes "srv_ok s" and "c < length (clients s)"
    and "counter_value (visible s (cur_db s c) (argv s c 1)) = Some old"
  shows "counts c 1 old s (incrCommand c s) \<and> counts c (- 1) old s (decrCommand c s) \<and>
    (case getLongLongFromObject (Some (Raw (argv s c 2))) of
       None \<Rightarrow> incrbyCommand c s = Some (addReply c not_an_integer s) \<and> decrbyCommand c s = Some (addReply c not_an_integer s)
     | Some n \<Rightarrow> counts c (sint n) old s (incrbyCommand c s) \<and>
         counts c (if n = LLONG_MIN then sint n else - sint n) old s (decrbyCommand c s))"
proof -
  have "sint (- LLONG_MIN) = sint LLONG_MIN" by (simp add: LLONG_MIN_def)
  then have m: "counts c (if n = LLONG_MIN then sint n else - sint n) old s (incrDecrCommand c (- n) s)" for n :: u64
    using incrDecr_counts [OF assms, of "- n"] sint_uminus_ok [of n] by (cases "n = LLONG_MIN") auto
  have "counts c 1 old s (incrCommand c s)" "counts c (- 1) old s (decrCommand c s)"
    using incrDecr_counts [OF assms, of 1] incrDecr_counts [OF assms, of "- 1"] by (simp_all add: incrCommand_def decrCommand_def)
  moreover have "counts c (sint n) old s (incrbyCommand c s) \<and>
      counts c (if n = LLONG_MIN then sint n else - sint n) old s (decrbyCommand c s)"
    if "getLongLongFromObject (Some (Raw (argv s c 2))) = Some n" for n
    unfolding incrbyCommand_def decrbyCommand_def getLongLongFromObjectOrReply_def that option.case sum.case
    using incrDecr_counts [OF assms] m by blast
  moreover have "incrbyCommand c s = Some (addReply c not_an_integer s) \<and> decrbyCommand c s = Some (addReply c not_an_integer s)"
    if "getLongLongFromObject (Some (Raw (argv s c 2))) = None"
    unfolding incrbyCommand_def decrbyCommand_def getLongLongFromObjectOrReply_def that option.case sum.case by simp
  ultimately show ?thesis by (cases "getLongLongFromObject (Some (Raw (argv s c 2)))") simp_all
qed

theorem incr_exact_witness:
  "counts 0 1 0 (watched_server [] [ascii ''INCR'', [120]]) (incrCommand 0 (watched_server [] [ascii ''INCR'', [120]])) \<and>
   counts 0 (- 5) 0 (watched_server [] [ascii ''DECRBY'', [120], [53]]) (decrbyCommand 0 (watched_server [] [ascii ''DECRBY'', [120], [53]]))"
proof -
  let ?i = "[ascii ''INCR'', [120]]" and ?d = "[ascii ''DECRBY'', [120], [53]]"
  have s: "srv_ok (watched_server [] as)" "0 < length (clients (watched_server [] as))" for as
    by (simp add: watched_server_ok, simp add: watched_server_def)
  have a: "cur_db (watched_server [] as) 0 = 0" "argv (watched_server [] as) 0 j = as ! j" for as j
    by (simp_all add: watched_server_def cur_db_def argv_def idle_client_def)
  have v: "as ! 1 = [120] \<Longrightarrow> counter_value (visible (watched_server [] as) (cur_db (watched_server [] as) 0) (argv (watched_server [] as) 0 1)) = Some 0" for as
    unfolding a by (simp add: watched_server_def visible_def db_visible_def counter_value_def key_k_def fmlookup_of_list)
  have n: "getLongLongFromObject (Some (Raw [53])) = Some 5"
    by (simp add: strtoll10_def isspace_def Let_def char_in_digit digit_def)
  have "argv (watched_server [] ?d) 0 2 = [53]" by (simp add: a)
  then show ?thesis
    using incr_exact [OF s v, of ?i] incr_exact [OF s v, of ?d] n by (simp add: LLONG_MIN_def)
qed

section \<open>Inputs on which the code goes wrong\<close>

text \<open>GETRANGE compares the end with the length as an \<open>unsigned\<close>. An end of \<open>2 ^ 32\<close>
  passes for 0, so that on a string of one byte the reply would be built from bytes behind the
  string.\<close>

theorem getrange_overreads:
  "srv_ok (watched_server [] [ascii ''GETRANGE'', key_k, ascii ''0'', ascii ''4294967296'']) \<and>
   getrangeCommand 0 (watched_server [] [ascii ''GETRANGE'', key_k, ascii ''0'', ascii ''4294967296'']) = None"
proof -
  let ?s = "watched_server [] [ascii ''GETRANGE'', key_k, ascii ''0'', ascii ''4294967296'']"
  have ok: "srv_ok ?s" by (simp add: watched_server_ok)
  have a: "argv ?s 0 1 = key_k" "argv ?s 0 2 = ascii ''0''" "argv ?s 0 3 = ascii ''4294967296''" "cur_db ?s 0 = 0"
    by (simp_all add: argv_def cur_db_def watched_server_def idle_client_def)
  have n: "getLongLongFromObject (Some (Raw (ascii ''4294967296''))) = Some 4294967296"
    "getLongLongFromObject (Some (Raw (ascii ''0''))) = Some 0"
    by (simp_all add: ascii_def strtoll10_def isspace_def Let_def char_in_digit digit_def)
  have g: "getLongFromObjectOrReply 0 (Some (Raw (ascii ''4294967296''))) msg t = Inr 4294967296"
    "getLongFromObjectOrReply 0 (Some (Raw (ascii ''0''))) msg t = Inr 0" for msg t
    by (simp_all only: getLongFromObjectOrReply_def getLongLongFromObjectOrReply_def n)
      (simp_all add: LLONG_MIN_def LLONG_MAX_def)
  have v: "visible ?s 0 key_k = Some (StringObj (Raw [1]))"
    by (simp add: watched_server_def visible_def db_visible_def fmlookup_of_list)
  obtain s' where l: "lookupKeyRead 0 key_k ?s = Some (Some (StringObj (Raw [1])), s')"
    using lookupKeyRead_ok [OF ok, of 0 key_k] v by (auto simp: watched_server_def)
  have b: "getrange_bounds (of_nat (length [1 :: byte])) 0 4294967296 = Some (0, 4294967297)"
    "rd (unat (0 :: u64)) (unat (4294967297 :: u64)) ([1] @ [0 :: byte]) = None"
    by (simp_all add: getrange_bounds_def rd_def)
  have "getrangeCommand 0 ?s = None"
    unfolding getrangeCommand_def a g sum.case lookupKeyReadOrReply_def l
    by (simp add: b(1) [simplified] b(2) [simplified])
  then show ?thesis using ok by simp
qed

text \<open>DECRBY negates its argument without a check: the negation of the smallest integer is itself, so
  decrementing 0 by \<open>- (2 ^ 63)\<close> stores and replies \<open>- (2 ^ 63)\<close> instead of reporting the
  overflow of \<open>2 ^ 63\<close>.\<close>

lemma decrby_min_wraps:
  "\<exists>s s'. srv_ok s \<and> argv s 0 2 = ascii ''-9223372036854775808'' \<and> visible s 0 (argv s 0 1) = None \<and>
     decrbyCommand 0 s = Some s' \<and> last (c_replies (clients s' ! 0)) = Integer (- (2 ^ 63))"
proof -
  let ?s = "watched_server [] [ascii ''DECRBY'', [120], ascii ''-9223372036854775808'']"
  have s: "srv_ok ?s" "0 < length (clients ?s)" by (simp add: watched_server_ok, simp add: watched_server_def)
  have a: "cur_db ?s 0 = 0" "argv ?s 0 1 = [120]" "argv ?s 0 2 = ascii ''-9223372036854775808''"
    by (simp_all add: watched_server_def cur_db_def argv_def idle_client_def)
  have v: "visible ?s 0 [120] = None"
    by (simp add: watched_server_def visible_def db_visible_def key_k_def fmlookup_of_list)
  have n: "getLongLongFromObject (Some (Raw (ascii ''-9223372036854775808''))) = Some LLONG_MIN"
    by (simp add: ascii_def strtoll10_def isspace_def Let_def char_in_digit digit_def LLONG_MIN_def)
  have d: "decrbyCommand 0 ?s = incrDecrCommand 0 (- LLONG_MIN) ?s"
    unfolding decrbyCommand_def a getLongLongFromObjectOrReply_def n by simp
  have m: "sint (- LLONG_MIN) = - (2 ^ 63)" by (simp add: LLONG_MIN_def)
  have "counter_value (visible ?s (cur_db ?s 0) (argv ?s 0 1)) = Some 0" unfolding a v by (simp add: counter_value_def)
  then show ?thesis using incrDecr_exact [OF s, of 0 "- LLONG_MIN"] s(1) a v m unfolding d [symmetric] by auto
qed

text \<open>SETRANGE adds the offset to the length before comparing with 512 MB, as a signed number: the
  largest offset wraps around, passes the check, and a string of \<open>2 ^ 63\<close> bytes is to be built.\<close>

lemma setrange_limit_wraps:
  "checkStringLength c (LLONG_MAX + of_nat (length [1 :: byte])) s = None \<and>
   length (sdsgrowzero (unat (LLONG_MAX + of_nat (length [1 :: byte]))) []) = 2 ^ 63"
  by (simp add: checkStringLength_def LLONG_MAX_def sdsgrowzero_def)

text \<open>A string with a NUL byte is taken for the number before it: \<open>strtoll\<close> stops there and
  the code only checks for the NUL.\<close>

lemma nul_integer_accepted:
  "getLongLongFromObject (Some (Raw ([49, 50, 0] @ rest))) = Some 12"
  by (simp add: strtoll10_def isspace_def Let_def char_in_digit digit_def)

end
