(* ===== verification/T_list.thy ===== *)
theory T_list
  imports T_string
begin

text \<open>
  Redis t_list.c: lists in their two encodings, and the commands on lists that do not block. A
  ziplist is given by its entries, as theory Server says for hashes; the strings of both encodings
  are kept decoded. Blocking clients are only seen through \<open>signalListAsReady\<close>, which queues a key
  that clients wait for.

  An index is a \<open>long\<close> that \<open>ziplistIndex\<close> takes as an \<open>int\<close>: the last section shows what
  becomes of it.
\<close>

section \<open>Operations on the two encodings\<close>

datatype list_end = REDIS_HEAD | REDIS_TAIL

fun list_elems :: "listobj \<Rightarrow> bytes list" where
  "list_elems (ZipList xs) = xs"
| "list_elems (LinkedList xs) = xs"

fun listTypeConvert :: "listobj \<Rightarrow> listobj" where
  "listTypeConvert (ZipList xs) = LinkedList xs"
| "listTypeConvert (LinkedList xs) = LinkedList xs"

fun listTypeTryConversion :: "nat \<Rightarrow> listobj \<Rightarrow> strobj \<Rightarrow> listobj" where
  "listTypeTryConversion max_value (ZipList xs) (Raw b) =
     (if length b > max_value then listTypeConvert (ZipList xs) else ZipList xs)"
| "listTypeTryConversion max_value l val = l"

fun push_elem :: "listobj \<Rightarrow> bytes \<Rightarrow> list_end \<Rightarrow> listobj" where
  "push_elem (ZipList xs) b w = ZipList (if w = REDIS_HEAD then b # xs else xs @ [b])"
| "push_elem (LinkedList xs) b w = LinkedList (if w = REDIS_HEAD then b # xs else xs @ [b])"

definition listTypeLength :: "listobj \<Rightarrow> nat" where
  "listTypeLength l = length (list_elems l)"

fun too_many :: "nat \<Rightarrow> listobj \<Rightarrow> bool" where
  "too_many n (ZipList xs) = (length xs \<ge> n)"
| "too_many n (LinkedList xs) = False"

definition listTypePush :: "redisServer \<Rightarrow> listobj \<Rightarrow> strobj \<Rightarrow> list_end \<Rightarrow> listobj" where
  "listTypePush s l val w =
     (let l = listTypeTryConversion (list_max_ziplist_value s) l val;
          l = (if too_many (list_max_ziplist_entries s) l then listTypeConvert l else l)
      in push_elem l (getDecodedObject val) w)"

fun set_elems :: "listobj \<Rightarrow> bytes list \<Rightarrow> listobj" where
  "set_elems (ZipList _) xs = ZipList xs"
| "set_elems (LinkedList _) xs = LinkedList xs"

definition listTypePop :: "listobj \<Rightarrow> list_end \<Rightarrow> bytes option \<times> listobj" where
  "listTypePop l w =
     (let xs = list_elems l
      in if xs = [] then (None, l)
         else if w = REDIS_HEAD then (Some (hd xs), set_elems l (tl xs))
         else (Some (last xs), set_elems l (butlast xs)))"

text \<open>\<open>ziplistIndex\<close> with an \<open>int\<close> and \<open>listIndex\<close> with a \<open>long\<close>: negative indices count from the
  tail.\<close>

definition index_in :: "('a :: len) word \<Rightarrow> bytes list \<Rightarrow> nat option" where
  "index_in i xs =
     (if sint i < 0 then
        let n = sint (- i - 1)
        in if n < int (length xs) then Some (length xs - 1 - nat n) else None
      else if sint i < int (length xs) then Some (nat (sint i)) else None)"

fun list_index :: "listobj \<Rightarrow> u64 \<Rightarrow> nat option" where
  "list_index (ZipList xs) i = index_in (ucast i :: u32) xs"
| "list_index (LinkedList xs) i = index_in i xs"

section \<open>Ready keys\<close>

definition signalListAsReady :: "nat \<Rightarrow> bytes \<Rightarrow> redisServer \<Rightarrow> redisServer" where
  "signalListAsReady c key s =
     (let i = cur_db s c
      in if fmlookup (db_blocking (dbs s ! i)) key = None then s
         else if key |\<in>| db_ready (dbs s ! i) then s
         else let s = s\<lparr>ready_keys := ready_keys s @ [(i, key)]\<rparr>
              in upd_db i (\<lambda>d. d\<lparr>db_ready := finsert key (db_ready d)\<rparr>) s)"

section \<open>Commands\<close>

definition cnegone :: reply where "cnegone = Integer (- 1)"
definition nokeyerr :: reply where "nokeyerr = Error ''ERR no such key''"
definition outofrangeerr :: reply where "outofrangeerr = Error ''ERR index out of range''"

definition push_event :: "list_end \<Rightarrow> string" where
  "push_event w = (if w = REDIS_HEAD then ''lpush'' else ''rpush'')"

definition pop_event :: "list_end \<Rightarrow> string" where
  "pop_event w = (if w = REDIS_HEAD then ''lpop'' else ''rpop'')"

definition push_all :: "redisServer \<Rightarrow> list_end \<Rightarrow> bytes list \<Rightarrow> listobj \<Rightarrow> listobj" where
  "push_all s w as l = fold (\<lambda>a l. listTypePush s l (tryObjectEncoding (Raw a)) w) as l"

text \<open>The end of the push commands: the list, if there is one, and the number of elements pushed.\<close>

definition push_done :: "nat \<Rightarrow> list_end \<Rightarrow> nat \<Rightarrow> nat \<Rightarrow> redisServer \<Rightarrow> redisServer" where
  "push_done c w len pushed s =
     (let i = cur_db s c; key = argv s c 1;
          s = addReply c (Integer (int len)) s;
          s = (if pushed > 0
               then notifyKeyspaceEvent NList (push_event w) key i (signalModifiedKey i key s) else s)
      in add_dirty (int pushed) s)"

definition push_found :: "nat \<Rightarrow> list_end \<Rightarrow> robj option \<Rightarrow> redisServer \<Rightarrow> redisServer option" where
  "push_found c w o1 s = do {
     let i = cur_db s c;
     let key = argv s c 1;
     let as = drop 2 (c_argv (clients s ! c));
     (case o1 of
        None \<Rightarrow> do {
          let s = signalListAsReady c key s;
          if as = [] then Some (push_done c w 0 0 s)
          else do {
            s \<leftarrow> dbAdd i key (ListObj (ZipList [])) s;
            let l = push_all s w as (ZipList []);
            Some (push_done c w (listTypeLength l) (length as) (storeObject i key (ListObj l) s)) } }
      | Some (ListObj l) \<Rightarrow>
          let l = push_all s w as l
          in Some (push_done c w (listTypeLength l) (length as) (storeObject i key (ListObj l) s))
      | Some _ \<Rightarrow> Some (addReply c wrongtypeerr s)) }"

definition pushGenericCommand :: "nat \<Rightarrow> list_end \<Rightarrow> redisServer \<Rightarrow> redisServer option" where
  "pushGenericCommand c w s = do {
     (o1, s) \<leftarrow> lookupKeyWrite (cur_db s c) (argv s c 1) s;
     push_found c w o1 s }"

definition lpushCommand :: "nat \<Rightarrow> redisServer \<Rightarrow> redisServer option" where
  "lpushCommand c s = pushGenericCommand c REDIS_HEAD s"

definition rpushCommand :: "nat \<Rightarrow> redisServer \<Rightarrow> redisServer option" where
  "rpushCommand c s = pushGenericCommand c REDIS_TAIL s"

text \<open>LPUSHX and RPUSHX, and LINSERT before or after the first element equal to the pivot. The list is
  converted before the pivot is looked for.\<close>

fun insert_near :: "bytes \<Rightarrow> bytes \<Rightarrow> list_end \<Rightarrow> bytes list \<Rightarrow> bytes list option" where
  "insert_near ref val w [] = None"
| "insert_near ref val w (x # xs) =
     (if x = ref then Some (if w = REDIS_TAIL then x # val # xs else val # x # xs)
      else map_option (Cons x) (insert_near ref val w xs))"

fun over_limit :: "nat \<Rightarrow> listobj \<Rightarrow> bool" where
  "over_limit n (ZipList xs) = (length xs > n)"
| "over_limit n (LinkedList xs) = False"

definition pushxGenericCommand :: "nat \<Rightarrow> bytes option \<Rightarrow> strobj \<Rightarrow> list_end \<Rightarrow> redisServer \<Rightarrow> redisServer option" where
  "pushxGenericCommand c refval val w s = do {
     let i = cur_db s c;
     let key = argv s c 1;
     (o1, s) \<leftarrow> lookupKeyReadOrReply c key czero s;
     (case o1 of
        None \<Rightarrow> Some s
      | Some (ListObj l) \<Rightarrow>
          (case refval of
             Some ref \<Rightarrow>
               let l = listTypeTryConversion (list_max_ziplist_value s) l val
               in (case insert_near ref (getDecodedObject val) w (list_elems l) of
                     Some xs \<Rightarrow>
                       let l = set_elems l xs;
                           l = (if over_limit (list_max_ziplist_entries s) l then listTypeConvert l else l);
                           s = storeObject i key (ListObj l) s;
                           s = signalModifiedKey i key s;
                           s = notifyKeyspaceEvent NList ''linsert'' key i s;
                           s = add_dirty 1 s
                       in Some (addReply c (Integer (int (listTypeLength l))) s)
                   | None \<Rightarrow> Some (addReply c cnegone (storeObject i key (ListObj l) s)))
           | None \<Rightarrow>
               let l = listTypePush s l val w;
                   s = storeObject i key (ListObj l) s;
                   s = signalModifiedKey i key s;
                   s = notifyKeyspaceEvent NList (push_event w) key i s;
                   s = add_dirty 1 s
               in Some (addReply c (Integer (int (listTypeLength l))) s))
      | Some _ \<Rightarrow> Some (addReply c wrongtypeerr s)) }"

definition lpushxCommand :: "nat \<Rightarrow> redisServer \<Rightarrow> redisServer option" where
  "lpushxCommand c s = pushxGenericCommand c None (tryObjectEncoding (Raw (argv s c 2))) REDIS_HEAD s"

definition rpushxCommand :: "nat \<Rightarrow> redisServer \<Rightarrow> redisServer option" where
  "rpushxCommand c s = pushxGenericCommand c None (tryObjectEncoding (Raw (argv s c 2))) REDIS_TAIL s"

definition linsertCommand :: "nat \<Rightarrow> redisServer \<Rightarrow> redisServer option" where
  "linsertCommand c s =
     (let val = tryObjectEncoding (Raw (argv s c 4))
      in if strcasecmp_eq (takeWhile (\<lambda>b. b \<noteq> 0) (argv s c 2)) (ascii ''after'') then
           pushxGenericCommand c (Some (argv s c 3)) val REDIS_TAIL s
         else if strcasecmp_eq (takeWhile (\<lambda>b. b \<noteq> 0) (argv s c 2)) (ascii ''before'') then
           pushxGenericCommand c (Some (argv s c 3)) val REDIS_HEAD s
         else Some (addReply c (Error ''ERR syntax error'') s))"

definition llenCommand :: "nat \<Rightarrow> redisServer \<Rightarrow> redisServer option" where
  "llenCommand c s = do {
     (o1, s) \<leftarrow> lookupKeyReadOrReply c (argv s c 1) czero s;
     (case o1 of
        None \<Rightarrow> Some s
      | Some (ListObj l) \<Rightarrow> Some (addReply c (Integer (int (listTypeLength l))) s)
      | Some _ \<Rightarrow> Some (addReply c wrongtypeerr s)) }"

definition lindexCommand :: "nat \<Rightarrow> redisServer \<Rightarrow> redisServer option" where
  "lindexCommand c s = do {
     (o1, s) \<leftarrow> lookupKeyReadOrReply c (argv s c 1) NullBulk s;
     (case o1 of
        None \<Rightarrow> Some s
      | Some (ListObj l) \<Rightarrow>
          (case getLongFromObjectOrReply c (Some (Raw (argv s c 2))) not_an_integer s of
             Inl s \<Rightarrow> Some s
           | Inr index \<Rightarrow>
               (case list_index l index of
                  None \<Rightarrow> Some (addReply c NullBulk s)
                | Some n \<Rightarrow> Some (addReply c (Bulk (list_elems l ! n)) s)))
      | Some _ \<Rightarrow> Some (addReply c wrongtypeerr s)) }"

definition lsetCommand :: "nat \<Rightarrow> redisServer \<Rightarrow> redisServer option" where
  "lsetCommand c s = do {
     let i = cur_db s c;
     let key = argv s c 1;
     (o1, s) \<leftarrow> lookupKeyWriteOrReply c key nokeyerr s;
     (case o1 of
        None \<Rightarrow> Some s
      | Some (ListObj l) \<Rightarrow>
          (case getLongFromObjectOrReply c (Some (Raw (argv s c 2))) not_an_integer s of
             Inl s \<Rightarrow> Some s
           | Inr index \<Rightarrow>
               let val = tryObjectEncoding (Raw (argv s c 3));
                   l = listTypeTryConversion (list_max_ziplist_value s) l val
               in (case list_index l index of
                     None \<Rightarrow> Some (addReply c outofrangeerr (storeObject i key (ListObj l) s))
                   | Some n \<Rightarrow>
                       let s = storeObject i key (ListObj (set_elems l ((list_elems l)[n := getDecodedObject val]))) s;
                           s = addReply c ok_reply s;
                           s = signalModifiedKey i key s;
                           s = notifyKeyspaceEvent NList ''lset'' key i s
                       in Some (add_dirty 1 s)))
      | Some _ \<Rightarrow> Some (addReply c wrongtypeerr s)) }"

definition popGenericCommand :: "nat \<Rightarrow> list_end \<Rightarrow> redisServer \<Rightarrow> redisServer option" where
  "popGenericCommand c w s = do {
     let i = cur_db s c;
     let key = argv s c 1;
     (o1, s) \<leftarrow> lookupKeyWriteOrReply c key NullBulk s;
     (case o1 of
        None \<Rightarrow> Some s
      | Some (ListObj l) \<Rightarrow>
          (case listTypePop l w of
             (None, l) \<Rightarrow> Some (addReply c NullBulk s)
           | (Some v, l) \<Rightarrow>
               let s = storeObject i key (ListObj l) s;
                   s = addReply c (Bulk v) s;
                   s = notifyKeyspaceEvent NList (pop_event w) key i s;
                   s = (if listTypeLength l = 0
                        then snd (dbDelete i key (notifyKeyspaceEvent NGeneric ''del'' key i s)) else s);
                   s = signalModifiedKey i key s
               in Some (add_dirty 1 s))
      | Some _ \<Rightarrow> Some (addReply c wrongtypeerr s)) }"

definition lpopCommand :: "nat \<Rightarrow> redisServer \<Rightarrow> redisServer option" where
  "lpopCommand c s = popGenericCommand c REDIS_HEAD s"

definition rpopCommand :: "nat \<Rightarrow> redisServer \<Rightarrow> redisServer option" where
  "rpopCommand c s = popGenericCommand c REDIS_TAIL s"

text \<open>The positions of LRANGE and LTRIM: \<^term>\<open>None\<close> is the empty range.\<close>

definition range_bounds :: "u64 \<Rightarrow> u64 \<Rightarrow> u64 \<Rightarrow> (u64 \<times> u64) option" where
  "range_bounds start end llen =
     (let start = (if sint start < 0 then llen + start else start);
          end = (if sint end < 0 then llen + end else end);
          start = (if sint start < 0 then 0 else start)
      in if sint start > sint end \<or> sint start \<ge> sint llen then None
         else Some (start, if sint end \<ge> sint llen then llen - 1 else end))"

text \<open>The elements are read one after the other from the first.\<close>

definition lrangeCommand :: "nat \<Rightarrow> redisServer \<Rightarrow> redisServer option" where
  "lrangeCommand c s =
     (case getLongFromObjectOrReply c (Some (Raw (argv s c 2))) not_an_integer s of
        Inl s \<Rightarrow> Some s
      | Inr start \<Rightarrow>
     (case getLongFromObjectOrReply c (Some (Raw (argv s c 3))) not_an_integer s of
        Inl s \<Rightarrow> Some s
      | Inr end \<Rightarrow> do {
          (o1, s) \<leftarrow> lookupKeyReadOrReply c (argv s c 1) (MultiBulkLen 0) s;
          (case o1 of
             None \<Rightarrow> Some s
           | Some (ListObj l) \<Rightarrow>
               (case range_bounds start end (of_nat (listTypeLength l)) of
                  None \<Rightarrow> Some (addReply c (MultiBulkLen 0) s)
                | Some (start, end) \<Rightarrow>
                    let rangelen = end - start + 1;
                        xs = take (unat rangelen) (drop (unat start) (list_elems l));
                        s = addReply c (MultiBulkLen (sint rangelen)) s
                    in Some (fold (\<lambda>x. addReply c (Bulk x)) xs s))
           | Some _ \<Rightarrow> Some (addReply c wrongtypeerr s)) }))"

definition ltrimCommand :: "nat \<Rightarrow> redisServer \<Rightarrow> redisServer option" where
  "ltrimCommand c s =
     (case getLongFromObjectOrReply c (Some (Raw (argv s c 2))) not_an_integer s of
        Inl s \<Rightarrow> Some s
      | Inr start \<Rightarrow>
     (case getLongFromObjectOrReply c (Some (Raw (argv s c 3))) not_an_integer s of
        Inl s \<Rightarrow> Some s
      | Inr end \<Rightarrow> do {
          let i = cur_db s c;
          let key = argv s c 1;
          (o1, s) \<leftarrow> lookupKeyWriteOrReply c key ok_reply s;
          (case o1 of
             None \<Rightarrow> Some s
           | Some (ListObj l) \<Rightarrow> do {
               let llen = (of_nat (listTypeLength l) :: u64);
               let (ltrim, rtrim) = (case range_bounds start end llen of
                   None \<Rightarrow> (llen, 0) | Some (start, end) \<Rightarrow> (start, llen - end - 1));
               let xs = drop (unat ltrim) (list_elems l);
               let xs = take (length xs - unat rtrim) xs;
               let s = storeObject i key (ListObj (set_elems l xs)) s;
               let s = notifyKeyspaceEvent NList ''ltrim'' key i s;
               let s = (if xs = []
                        then notifyKeyspaceEvent NGeneric ''del'' key i (snd (dbDelete i key s)) else s);
               let s = signalModifiedKey i key s;
               let s = add_dirty 1 s;
               Some (addReply c ok_reply s) }
           | Some _ \<Rightarrow> Some (addReply c wrongtypeerr s)) }))"

text \<open>The loop of LREM removes at most \<open>toremove\<close> elements, all of them when it is 0.\<close>

fun lrem_loop :: "bytes \<Rightarrow> u64 \<Rightarrow> bytes list \<Rightarrow> nat \<Rightarrow> bytes list \<times> nat" where
  "lrem_loop val toremove [] removed = ([], removed)"
| "lrem_loop val toremove (x # xs) removed =
     (if x = val then
        if toremove \<noteq> 0 \<and> of_nat (removed + 1) = toremove then (xs, removed + 1)
        else lrem_loop val toremove xs (removed + 1)
      else case lrem_loop val toremove xs removed of (ys, removed) \<Rightarrow> (x # ys, removed))"

definition lrem_found :: "nat \<Rightarrow> nat \<Rightarrow> bytes \<Rightarrow> u64 \<Rightarrow> listobj \<Rightarrow> redisServer \<Rightarrow> redisServer option" where
  "lrem_found c i key toremove l s = do {
     let val = argv s c 3;
     let (xs, removed) =
       (if sint toremove < 0
        then (case lrem_loop val (- toremove) (rev (list_elems l)) 0 of (xs, n) \<Rightarrow> (rev xs, n))
        else lrem_loop val toremove (list_elems l) 0);
     let s = storeObject i key (ListObj (set_elems l xs)) (add_dirty (int removed) s);
     let s = (if xs = [] then snd (dbDelete i key s) else s);
     let s = addReply c (Integer (int removed)) s;
     Some (if removed > 0 then signalModifiedKey i key s else s) }"

definition lremCommand :: "nat \<Rightarrow> redisServer \<Rightarrow> redisServer option" where
  "lremCommand c s =
     (case getLongFromObjectOrReply c (Some (Raw (argv s c 2))) not_an_integer s of
        Inl s \<Rightarrow> Some s
      | Inr toremove \<Rightarrow> do {
          let i = cur_db s c;
          let key = argv s c 1;
          (o1, s) \<leftarrow> lookupKeyWriteOrReply c key czero s;
          (case o1 of
             None \<Rightarrow> Some s
           | Some (ListObj l) \<Rightarrow> lrem_found c i key toremove l s
           | Some _ \<Rightarrow> Some (addReply c wrongtypeerr s)) })"

definition rpoplpushHandlePush :: "nat \<Rightarrow> bytes \<Rightarrow> listobj option \<Rightarrow> bytes \<Rightarrow> redisServer \<Rightarrow> redisServer option" where
  "rpoplpushHandlePush c dstkey dstobj val s = do {
     let i = cur_db s c;
     (l, s) \<leftarrow> (case dstobj of
         None \<Rightarrow> do {
           s \<leftarrow> dbAdd i dstkey (ListObj (ZipList [])) s;
           Some (ZipList [], signalListAsReady c dstkey s) }
       | Some l \<Rightarrow> Some (l, s));
     let s = signalModifiedKey i dstkey s;
     let s = storeObject i dstkey (ListObj (listTypePush s l (tryObjectEncoding (Raw val)) REDIS_HEAD)) s;
     let s = notifyKeyspaceEvent NList ''lpush'' dstkey i s;
     Some (addReply c (Bulk val) s) }"

text \<open>The object under two equal keys is one object: it is pushed to after it has been popped from.\<close>

definition rpoplpush_move :: "nat \<Rightarrow> listobj \<Rightarrow> listobj option \<Rightarrow> redisServer \<Rightarrow> redisServer option" where
  "rpoplpush_move c l dobj s = do {
     let i = cur_db s c;
     let src = argv s c 1;
     let dst = argv s c 2;
     (case listTypePop l REDIS_TAIL of
        (None, _) \<Rightarrow> None
      | (Some val, l) \<Rightarrow> do {
          let s = storeObject i src (ListObj l) s;
          s \<leftarrow> rpoplpushHandlePush c dst (if src = dst then Some l else dobj) val s;
          let s = notifyKeyspaceEvent NList ''rpop'' src i s;
          let s = (if src \<noteq> dst \<and> listTypeLength l = 0
                   then notifyKeyspaceEvent NGeneric ''del'' src i (snd (dbDelete i src s)) else s);
          let s = signalModifiedKey i src s;
          Some (add_dirty 1 s) }) }"

definition rpoplpushCommand :: "nat \<Rightarrow> redisServer \<Rightarrow> redisServer option" where
  "rpoplpushCommand c s = do {
     let i = cur_db s c;
     (o1, s) \<leftarrow> lookupKeyWriteOrReply c (argv s c 1) NullBulk s;
     (case o1 of
        None \<Rightarrow> Some s
      | Some (ListObj l) \<Rightarrow>
          if listTypeLength l = 0 then Some (addReply c NullBulk s)
          else do {
            (o2, s) \<leftarrow> lookupKeyWrite i (argv s c 2) s;
            (case o2 of
               None \<Rightarrow> rpoplpush_move c l None s
             | Some (ListObj dl) \<Rightarrow> rpoplpush_move c l (Some dl) s
             | Some _ \<Rightarrow> Some (addReply c wrongtypeerr s)) }
      | Some _ \<Rightarrow> Some (addReply c wrongtypeerr s)) }"

section \<open>Lists without their encoding\<close>

lemma list_elems_simps [simp]:
  "list_elems (listTypeConvert l) = list_elems l" "list_elems (listTypeTryConversion n l val) = list_elems l"
  "list_elems (set_elems l xs) = xs"
proof -
  show c: "list_elems (listTypeConvert l) = list_elems l" for l by (cases l) simp_all
  show "list_elems (listTypeTryConversion n l val) = list_elems l"
    by (cases "(n, l, val)" rule: listTypeTryConversion.cases) simp_all
  show "list_elems (set_elems l xs) = xs" by (cases l) simp_all
qed

lemma plain_list: "plain (ListObj l) = ListObj (LinkedList (list_elems l))"
  by (cases l) simp_all

lemma elems_push: "list_elems (listTypePush s l val w) =
    (if w = REDIS_HEAD then getDecodedObject val # list_elems l else list_elems l @ [getDecodedObject val])"
proof -
  have p: "list_elems (push_elem l b w) = (if w = REDIS_HEAD then b # list_elems l else list_elems l @ [b])" for l b
    by (cases l) simp_all
  show ?thesis unfolding listTypePush_def Let_def p by (simp add: list_elems_simps split: if_splits)
qed

lemma decoded_arg [simp]: "getDecodedObject (tryObjectEncoding (Raw a)) = a"
  using decoded_encoded [of a] by (simp add: encoded_def)

declare tryObjectEncoding.simps(2) [simp del]

lemma elems_push_all: "list_elems (push_all s w as l) =
    (if w = REDIS_HEAD then rev as @ list_elems l else list_elems l @ as)"
proof -
  have "list_elems (fold (\<lambda>a l. listTypePush s l (tryObjectEncoding (Raw a)) w) as l) =
    (if w = REDIS_HEAD then rev as @ list_elems l else list_elems l @ as)"
    by (induction as arbitrary: l) (simp_all add: elems_push)
  then show ?thesis by (simp add: push_all_def)
qed

section \<open>Safety\<close>

lemma hollow_list [simp]: "hollow (ListObj l) \<longleftrightarrow> list_elems l = []"
  by (cases l) simp_all

lemma length_0 [simp]: "listTypeLength l = 0 \<longleftrightarrow> list_elems l = []" "0 < listTypeLength l \<longleftrightarrow> list_elems l \<noteq> []"
  by (simp_all add: listTypeLength_def)

unbundle bit_operations_syntax

text \<open>\<open>-i - 1\<close> does not overflow.\<close>

lemma sint_mirror: "sint (- i - 1 :: ('a :: len) word) = - sint i - 1"
proof -
  have "- i - 1 = NOT i" by (subst not_eq_complement) simp
  moreover have "signed_take_bit LENGTH('a) (- sint i - 1) = - sint i - 1"
  proof (rule signed_take_bit_int_eq_self)
    have "(2 :: int) ^ (LENGTH('a) - Suc 0) \<le> 2 ^ LENGTH('a)" by (rule power_increasing) simp_all
    then show "- (2 ^ LENGTH('a)) \<le> - sint i - 1" "- sint i - 1 < 2 ^ LENGTH('a)"
      using sint_greater_eq [of i] sint_less [of i] by linarith+
  qed
  ultimately show ?thesis by (simp add: signed_not_eq not_int_def)
qed

lemma index_in_less: "index_in i xs = Some n \<Longrightarrow> n < length xs"
proof -
  have "0 \<le> sint (- i - 1)" if "sint i < 0" using that sint_mirror [of i] by simp
  then show "index_in i xs = Some n \<Longrightarrow> n < length xs" by (auto simp: index_in_def Let_def split: if_splits)
qed

lemma list_index_less: "list_index l i = Some n \<Longrightarrow> n < length (list_elems l)"
  by (cases l) (simp_all add: index_in_less)

lemma push_nonempty [simp]: "list_elems (listTypePush s l val w) \<noteq> []"
  by (simp add: elems_push)

lemma insert_near_nonempty [dest!]: "insert_near ref val w xs = Some ys \<Longrightarrow> ys \<noteq> []"
  by (cases xs) (auto split: if_splits)

text \<open>A key is ready once it has been added; its watchers are to be marked.\<close>

lemma upd_ready:
  assumes "upd i K s0 s" and "i < length (dbs s0)" and "cur_db s c = i"
  shows "upd i (insert key K) s0 (signalListAsReady c key s)"
proof (cases "fmlookup (db_blocking (dbs s ! i)) key = None \<or> key |\<in>| db_ready (dbs s ! i)")
  case True
  then show ?thesis using assms(3) upd_mono [OF assms(1)] by (auto simp: signalListAsReady_def Let_def)
next
  case False
  define t where "t = signalListAsReady c key s"
  have t: "t = upd_db i (\<lambda>d. d\<lparr>db_ready := finsert key (db_ready d)\<rparr>) (s\<lparr>ready_keys := ready_keys s @ [(i, key)]\<rparr>)"
    using False assms(3) unfolding t_def signalListAsReady_def Let_def by auto
  have i: "i < length (dbs s)" using assms(1,2) by (simp add: upd_len)
  have db: "dbs t ! j = (if j = i then (dbs s ! i)\<lparr>db_ready := finsert key (db_ready (dbs s ! i))\<rparr> else dbs s ! j)" for j
    using i by (simp add: t dbs_upd_db)
  have f: "clients t = clients s" "length (dbs t) = length (dbs s)" "mstime t = mstime s" "loading t = loading s"
    "masterhost t = masterhost s" "ready_keys t = ready_keys s @ [(i, key)]" "unblocked_clients t = unblocked_clients s"
    by (simp_all add: t frame_simps)
  have du: "due t = due s" by (simp add: due_def [abs_def] f)
  have sh: "same_shape s t" by (simp add: same_shape_def f db)
  have v: "visible t j k = visible s j k" for j k
    by (simp add: visible_def db_visible_def du db cong: option.case_cong if_cong)
  have ok: "srv_ok s" by (rule upd_srv_ok [OF assms(1)])
  have "srv_ok t"
    using ok watch_ok_cong [OF _ same_shape_parts(1) [OF sh]] blocking_ok_cong [OF _ same_shape_parts(2) [OF sh]]
    by (simp add: srv_ok_def expires_ok_def objects_ok_def clients_ok_def f db)
  moreover have "hollow_upd i {key} s t" by (simp add: hollow_upd_def hollow_at_def f db)
  moreover have "new_ready [(i, key)] s t" using i False by (auto simp: new_ready_def f db)
  then have "ready_upd i {key} s t" unfolding ready_upd_def pending_def by force
  ultimately have "upd i {key} s t" using sh by (simp add: upd_def seen_upd_def v)
  then show ?thesis using upd_trans [OF assms(1)] unfolding t_def by blast
qed

lemma ready_frame:
  "clients (signalListAsReady c key s) = clients s"
  "db_dict (dbs (signalListAsReady c key s) ! i) = db_dict (dbs s ! i)"
  "length (dbs (signalListAsReady c key s)) = length (dbs s)"
  "visible (signalListAsReady c key s) i k = visible s i k"
proof -
  show "clients (signalListAsReady c key s) = clients s" "length (dbs (signalListAsReady c key s)) = length (dbs s)"
    by (simp_all add: signalListAsReady_def Let_def frame_simps)
  have d: "db_dict (dbs (signalListAsReady c key s) ! i) = db_dict (dbs s ! i)"
    "db_expires (dbs (signalListAsReady c key s) ! i) = db_expires (dbs s ! i)"
    "due (signalListAsReady c key s) = due s"
    unfolding signalListAsReady_def Let_def by (simp_all add: dbs_upd_any due_def [abs_def] frame_simps)
  show "db_dict (dbs (signalListAsReady c key s) ! i) = db_dict (dbs s ! i)"
    "visible (signalListAsReady c key s) i k = visible s i k"
    by (simp_all add: visible_def db_visible_def d cong: option.case_cong if_cong)
qed

lemma sees_ready [simp]: "sees i k v (signalListAsReady c key s) = sees i k v s"
  by (simp add: sees_def ready_frame)

lemma same_view_ready [simp]: "same_view s (signalListAsReady c key t) = same_view s t"
  using same_view_clients [OF ready_frame(1)] by (simp add: same_view_def)

lemma frame_ready [simp]:
  "argv (signalListAsReady c key s) a j = argv s a j" "cur_db (signalListAsReady c key s) a = cur_db s a"
  by (simp_all add: argv_def cur_db_def ready_frame)

lemma safe_list_reads:
  "safe_command llenCommand" "safe_command lindexCommand"
  unfolding llenCommand_def lindexCommand_def
  by (rule safe_commandI'; auto split: option.split robj.split intro!: safe_getLongLong safe_steps upd_addReply)+

lemma upd_bulk_list: "upd i K s0 s \<Longrightarrow> upd i K s0 (fold (\<lambda>x. addReply c (Bulk x)) xs s)"
  by (induction xs arbitrary: s) (simp_all add: upd_addReply)

lemma safe_lrange: "safe_command lrangeCommand"
  unfolding lrangeCommand_def Let_def
  by (rule safe_commandI')
    (auto split: option.split robj.split intro!: safe_getLongLong safe_steps upd_addReply upd_bulk_list)

lemma safe_pop: "safe_command (\<lambda>c. popGenericCommand c w)"
  unfolding popGenericCommand_def Let_def
  by (rule safe_commandI') (auto split: option.split robj.split prod.split intro!: safe_steps pending_intros)

lemma safe_ltrim: "safe_command ltrimCommand"
  unfolding ltrimCommand_def Let_def
  by (rule safe_commandI')
    (auto split: option.split robj.split prod.split intro!: safe_getLongLong safe_steps pending_intros)

lemma upd_recode_list:
  "upd i {} s0 s \<Longrightarrow> i < length (dbs s0) \<Longrightarrow> sees i key (Some (ListObj l)) s \<Longrightarrow> list_elems l' = list_elems l \<Longrightarrow>
    upd i {} s0 (storeObject i key (ListObj l') s)"
  by (rule upd_recode [where w = "ListObj l"]) (simp_all add: plain_list del: plain.simps)

lemmas upd_convert = upd_recode_list [OF _ _ _ list_elems_simps(2)]

lemma safe_lset: "safe_command lsetCommand"
  unfolding lsetCommand_def Let_def
  by (rule safe_commandI')
    (auto split: option.split robj.split prod.split dest!: same_viewD list_index_less
      intro!: safe_getLongLong safe_steps pending_intros upd_convert)

lemma safe_pushx: "safe_command (\<lambda>c s. pushxGenericCommand c (f c s) (g c s) w s)"
  unfolding pushxGenericCommand_def Let_def
  by (rule safe_commandI')
    (auto split: option.split robj.split prod.split dest!: same_viewD intro!: safe_steps pending_intros upd_convert)

lemma safe_linsert: "safe_command linsertCommand"
proof -
  have "safe_command (\<lambda>c s. pushxGenericCommand c (Some (argv s c 3)) (tryObjectEncoding (Raw (argv s c 4))) w s)" for w
    by (rule safe_pushx)
  note p = safe_commandD [OF this]
  show ?thesis unfolding linsertCommand_def Let_def
    by (rule safe_commandI') (auto intro!: p safe_Some upd_addReply)
qed

lemma safe_push_done:
  "upd i (if 0 < pushed then {key} else {}) s0 s \<Longrightarrow> i < length (dbs s0) \<Longrightarrow> cur_db s c = i \<Longrightarrow> argv s c 1 = key \<Longrightarrow>
     \<not> hollow_at s i key \<Longrightarrow> upd i {} s0 (push_done c w len pushed s)"
  by (auto simp: push_done_def Let_def intro!: upd_log upd_addReply upd_signal1 split: if_splits)

lemma safe_push_new:
  assumes "upd i {} s0 s" and "i < length (dbs s0)" and "sees i (argv s c 1) None s" and "cur_db s c = i"
    and "3 \<le> argc s c"
  shows "safe_res i s0 (push_found c w None s)"
proof -
  define as where "as = drop 2 (c_argv (clients s ! c))"
  define s1 where "s1 = signalListAsReady c (argv s c 1) s"
  have u1: "upd i {argv s c 1} s0 s1" "same_view s s1" "sees i (argv s c 1) None s1"
    using upd_ready [OF assms(1,2,4)] assms(3) by (simp_all add: s1_def)
  have ne: "as \<noteq> []" using assms(5) by (simp add: as_def argc_def)
  have l: "list_elems (push_all t w as l) \<noteq> []" for t l using ne by (simp add: elems_push_all)
  have "push_found c w None s = do { s \<leftarrow> dbAdd i (argv s c 1) (ListObj (ZipList [])) s1;
      Some (push_done c w (listTypeLength (push_all s w as (ZipList []))) (length as)
        (storeObject i (argv s1 c 1) (ListObj (push_all s w as (ZipList []))) s)) }"
    using ne assms(4) unfolding push_found_def as_def s1_def Let_def by simp
  moreover have "safe_res i s0 \<dots>"
  proof (rule safe_dbAdd [OF u1(1) assms(2) u1(3)])
    fix s2
    assume a: "upd i (insert (argv s c 1) {argv s c 1}) s0 s2" "same_view s1 s2"
      "sees i (argv s c 1) (Some (ListObj (ZipList []))) s2"
    have a1: "upd i {argv s c 1} s0 s2" using a(1) by simp
    show "safe_res i s0 (Some (push_done c w (listTypeLength (push_all s2 w as (ZipList []))) (length as)
        (storeObject i (argv s1 c 1) (ListObj (push_all s2 w as (ZipList []))) s2)))"
      using ne l assms(2,4) same_viewD [OF a(2)] same_viewD [OF u1(2)] upd_store1(2) [OF a1 assms(2) a(3)]
      by (intro safe_Some safe_push_done [where key = "argv s c 1"]) auto
  qed simp
  ultimately show ?thesis by simp
qed

lemma safe_push_old:
  assumes "upd i {} s0 s" and "i < length (dbs s0)" and "sees i (argv s c 1) (Some (ListObj l)) s" and "cur_db s c = i"
    and "3 \<le> argc s c"
  shows "safe_res i s0 (push_found c w (Some (ListObj l)) s)"
proof -
  define as where "as = drop 2 (c_argv (clients s ! c))"
  have "push_found c w (Some (ListObj l)) s = Some (push_done c w (listTypeLength (push_all s w as l)) (length as)
      (storeObject i (argv s c 1) (ListObj (push_all s w as l)) s))"
    using assms(4) by (simp add: push_found_def as_def Let_def)
  moreover have "as \<noteq> []" using assms(5) by (simp add: as_def argc_def)
  moreover from this have "list_elems (push_all s w as l) \<noteq> []" by (simp add: elems_push_all)
  moreover have "upd i {argv s c 1} s0 (storeObject i (argv s c 1) (ListObj (push_all s w as l)) s)"
    using upd_store1(1) [OF assms(1-3)] by simp
  ultimately show ?thesis
    using assms by (auto intro!: safe_Some safe_push_done [where key = "argv s c 1"])
qed

lemma safe_push: "safe_for (- 3) (\<lambda>c. pushGenericCommand c w)"
proof (rule safe_forI)
  fix s c
  let ?i = "cur_db s c" and ?key = "argv s c 1"
  assume i: "?i < length (dbs s)" and u: "upd ?i {} s s" and "arity_ok (- 3) (argc s c)"
  then have n: "3 \<le> argc s c" by (simp add: arity_ok_def)
  have wrong: "push_found c w (Some x) s1 = Some (addReply c wrongtypeerr s1)" if "otype x \<noteq> REDIS_LIST" for x s1
    using that by (cases x) (simp_all add: push_found_def Let_def)
  have "safe_res ?i s (push_found c w v s1)" if a: "upd ?i {} s s1" "same_view s s1" "sees ?i ?key v s1" for v s1
  proof (cases v)
    case None
    then show ?thesis using a same_viewD [OF a(2)] n safe_push_new [OF a(1) i] by simp
  next
    case (Some x)
    show ?thesis
    proof (cases "otype x = REDIS_LIST")
      case True
      then obtain l where "x = ListObj l" by (cases x) auto
      then show ?thesis using Some a n same_viewD [OF a(2)] by (auto intro!: safe_push_old [OF a(1) i])
    next
      case False
      then show ?thesis using wrong Some a(1) by (auto intro!: safe_Some upd_addReply)
    qed
  qed
  then show "safe_res ?i s (pushGenericCommand c w s)"
    unfolding pushGenericCommand_def by (auto intro!: safe_lookupKeyWrite u i)
qed

lemma ready_blocked:
  "i < length (dbs s) \<Longrightarrow> cur_db s c = i \<Longrightarrow>
     fmlookup (db_blocking (dbs (signalListAsReady c key s) ! i)) key = None \<or> key |\<in>| db_ready (dbs (signalListAsReady c key s) ! i)"
  by (auto simp: signalListAsReady_def Let_def dbs_upd_db)

text \<open>The destination of RPOPLPUSH is signalled before the element is pushed. When its list is new, the key
  is ready if a client waits for it.\<close>

lemma push_handled:
  assumes u: "upd i K s0 s" and i: "i < length (dbs s0)" and d: "sees i dst (map_option ListObj o2) s"
    and c: "cur_db s c = i"
  obtains s' l where "rpoplpushHandlePush c dst o2 val s = Some s'" and "upd i (K - {dst}) s0 s'" and "same_view s s'"
    and "\<forall>k w. k \<noteq> dst \<longrightarrow> sees i k w s \<longrightarrow> sees i k w s'" and "sees i dst (Some (ListObj l)) s'" and "list_elems l \<noteq> []"
    and "\<forall>j k. (j, k) \<noteq> (i, dst) \<longrightarrow> fmlookup (db_dict (dbs s' ! j)) k = fmlookup (db_dict (dbs s ! j)) k"
    and "o2 = None \<longrightarrow> fmlookup (db_blocking (dbs s' ! i)) dst = None \<or> dst |\<in>| db_ready (dbs s' ! i)"
proof -
  define l0 where "l0 = (case o2 of None \<Rightarrow> ZipList [] | Some l \<Rightarrow> l)"
  have i1: "i < length (dbs s)" using u i by (simp add: upd_len)
  obtain s1 where s1: "(case o2 of
         None \<Rightarrow> do {
           s \<leftarrow> dbAdd i dst (ListObj (ZipList [])) s;
           Some (ZipList [], signalListAsReady c dst s) }
       | Some l \<Rightarrow> Some (l, s)) = Some (l0, s1)" "upd i (insert dst K) s0 s1" "same_view s s1"
      "sees i dst (Some (ListObj l0)) s1" "\<And>k w. k \<noteq> dst \<Longrightarrow> sees i k w s \<Longrightarrow> sees i k w s1"
      "\<forall>j k. (j, k) \<noteq> (i, dst) \<longrightarrow> fmlookup (db_dict (dbs s1 ! j)) k = fmlookup (db_dict (dbs s ! j)) k"
      "o2 = None \<longrightarrow> fmlookup (db_blocking (dbs s1 ! i)) dst = None \<or> dst |\<in>| db_ready (dbs s1 ! i)"
  proof (cases o2)
    case None
    obtain t where t: "dbAdd i dst (ListObj (ZipList [])) s = Some t"
      using d None dbAdd_ok [of s i dst] by (auto simp: sees_def)
    have v: "same_view s t" using db_ops_frame(1) [OF t] by (simp add: same_view_clients)
    have ut: "upd i (insert dst K) s0 t" by (rule upd_dbAdd [OF u i t]) simp
    then have "upd i (insert dst K) s0 (signalListAsReady c dst t)"
      using upd_ready [of i "insert dst K" s0 t c dst] i c same_viewD [OF v] by simp
    moreover have "sees i dst (Some (ListObj (ZipList []))) t"
      using sees_dbAdd [OF upd_srv_ok [OF u] _ t] d None by simp
    moreover have "sees i k w t" if "k \<noteq> dst" "sees i k w s" for k w
      using that t visible_dbAdd [OF upd_srv_ok [OF u] _ t, of k]
      by (auto simp: sees_def dbAdd_def dbs_upd_db frame_simps split: if_splits)
    moreover have "fmlookup (db_dict (dbs t ! j)) k = fmlookup (db_dict (dbs s ! j)) k" if "(j, k) \<noteq> (i, dst)" for j k
      using that t by (auto simp: dbAdd_def dbs_upd_any split: if_splits)
    moreover have "i < length (dbs t)" using ut i by (simp add: upd_len)
    ultimately show ?thesis
      using that [of "signalListAsReady c dst t"] t v None ready_blocked [of i t c dst] c same_viewD [OF v]
      by (simp add: l0_def ready_frame)
  next
    case (Some l)
    then show ?thesis using that [of s] u d by (auto simp: l0_def intro: upd_mono)
  qed
  define s2 where "s2 = signalModifiedKey i dst s1"
  define l where "l = listTypePush s2 l0 (tryObjectEncoding (Raw val)) REDIS_HEAD"
  define s3 where "s3 = storeObject i dst (ListObj l) s2"
  have "marked s0 s2 i dst" unfolding s2_def by (rule signal_marks [OF s1(2) i])
  then have m: "marked s0 s3 i dst" by (simp add: marked_def s3_def storeObject_def frame_simps)
  have "upd i (insert dst K) s0 s2" unfolding s2_def by (rule upd_signal_same [OF s1(2)])
  then have "upd i (insert dst (insert dst K)) s0 s3"
    unfolding s3_def by (rule upd_store [OF _ i]) (use s1(4) in \<open>auto simp: s2_def\<close>)
  moreover have ne: "list_elems l \<noteq> []" by (simp add: l_def)
  then have "\<not> hollow_at s3 i dst" by (simp add: s3_def)
  ultimately have "upd i (insert dst (insert dst K) - {dst}) s0 s3" using m by (intro upd_marked)
  then have u3: "upd i (K - {dst}) s0 s3" by (rule upd_mono) blast
  have s3: "same_view s s3" "\<And>k w. k \<noteq> dst \<Longrightarrow> sees i k w s \<Longrightarrow> sees i k w s3" "sees i dst (Some (ListObj l)) s3"
    using s1(3,5) sees_store [of i dst "ListObj l0" s2] s1(4) by (auto simp: s3_def s2_def intro!: sees_store_other)
  have db: "fmlookup (db_dict (dbs s3 ! j)) k = fmlookup (db_dict (dbs s ! j)) k" if "(j, k) \<noteq> (i, dst)" for j k
    using s1(6) that by (auto simp: s3_def s2_def storeObject_def dbs_upd_any frame_simps)
  have bl: "o2 = None \<longrightarrow> fmlookup (db_blocking (dbs s3 ! i)) dst = None \<or> dst |\<in>| db_ready (dbs s3 ! i)"
    using s1(7) by (simp add: s3_def s2_def storeObject_def dbs_upd_any frame_simps)
  define s4 where "s4 = addReply c (Bulk val) (notifyKeyspaceEvent NList ''lpush'' dst i s3)"
  have e: "rpoplpushHandlePush c dst o2 val s = Some s4"
    unfolding rpoplpushHandlePush_def Let_def c s1(1) by (simp add: s4_def s3_def s2_def l_def)
  have d4: "dbs s4 = dbs s3" by (simp add: s4_def addReply_def notifyKeyspaceEvent_def frame_simps)
  show ?thesis
    by (rule that [OF e, of l]) (use u3 s3 ne db bl in \<open>auto simp: s4_def intro!: upd_log upd_addReply\<close>,
      use db bl in \<open>simp_all add: d4 flip: s4_def\<close>)
qed

lemma safe_rpoplpush_move:
  assumes u: "upd i {} s0 s" and i: "i < length (dbs s0)" and src: "sees i (argv s c 1) (Some (ListObj l)) s"
    and dst: "sees i (argv s c 2) (map_option ListObj o2) s" and c: "cur_db s c = i" and ne: "list_elems l \<noteq> []"
  shows "safe_res i s0 (rpoplpush_move c l o2 s)"
proof -
  define src where "src = argv s c 1"
  define dst where "dst = argv s c 2"
  define val where "val = last (list_elems l)"
  define l1 where "l1 = set_elems l (butlast (list_elems l))"
  define o3 where "o3 = (if src = dst then Some l1 else o2)"
  define s1 where "s1 = storeObject i src (ListObj l1) s"
  have u1: "upd i {src} s0 s1" unfolding s1_def src_def by (rule upd_store1(1) [OF u i assms(3)]) simp
  have p: "listTypePop l REDIS_TAIL = (Some val, l1)" using ne by (simp add: listTypePop_def val_def l1_def Let_def)
  have d1: "sees i dst (map_option ListObj o3) s1"
    using dst sees_store [OF assms(3)]
    by (cases "src = dst") (auto simp: o3_def s1_def src_def dst_def intro!: sees_store_other)
  have c1: "cur_db s1 c = i" by (simp add: s1_def c)
  obtain s2 l2 where s2: "rpoplpushHandlePush c dst o3 val s1 = Some s2" "upd i ({src} - {dst}) s0 s2" "same_view s1 s2"
      "\<forall>k w. k \<noteq> dst \<longrightarrow> sees i k w s1 \<longrightarrow> sees i k w s2" "sees i dst (Some (ListObj l2)) s2" "list_elems l2 \<noteq> []"
    by (rule push_handled [OF u1 i d1 c1, of val])
  have "sees i src (Some (ListObj l1)) s1" unfolding s1_def src_def by (rule sees_store [OF assms(3)])
  then have h2: "src \<noteq> dst \<Longrightarrow> sees i src (Some (ListObj l1)) s2" using s2(4) by blast
  define s3 where "s3 = notifyKeyspaceEvent NList ''rpop'' src i s2"
  define s4 where "s4 = (if src \<noteq> dst \<and> listTypeLength l1 = 0
     then notifyKeyspaceEvent NGeneric ''del'' src i (snd (dbDelete i src s3)) else s3)"
  have "upd i {src} s0 s3" unfolding s3_def using s2(2) by (auto intro!: upd_log intro: upd_mono)
  then have u4: "upd i {src} s0 s4" unfolding s4_def by (auto intro!: upd_log upd_dbDelete_same i)
  have h4: "\<not> hollow_at s4 i src"
    using s2(5,6) h2 by (cases "src = dst") (auto simp: s4_def s3_def)
  have "rpoplpush_move c l o2 s = Some (add_dirty 1 (signalModifiedKey i src s4))"
    unfolding rpoplpush_move_def Let_def c src_def [symmetric] dst_def [symmetric] p
    by (simp add: s1_def [symmetric] o3_def [symmetric] s2(1) s3_def [symmetric]) (auto simp: s4_def)
  then show ?thesis using upd_signal1 [OF u4 i h4] by (auto intro!: safe_Some upd_log)
qed

lemma safe_rpoplpush: "safe_command rpoplpushCommand"
  unfolding rpoplpushCommand_def Let_def
  by (rule safe_commandI')
    (auto split: option.split robj.split dest!: same_viewD simp: listTypeLength_def
      intro!: safe_lookupKeyWriteOrReply safe_lookupKeyWrite_keep safe_rpoplpush_move safe_Some upd_addReply)

lemma lrem_loop_none: "lrem_loop val n xs m = (ys, m) \<Longrightarrow> ys = xs"
proof -
  have le: "lrem_loop val n xs m = (ys, k) \<Longrightarrow> m \<le> k" for xs m k ys
    by (induction val n xs m arbitrary: ys k rule: lrem_loop.induct) (force split: if_splits prod.splits)+
  show "lrem_loop val n xs m = (ys, m) \<Longrightarrow> ys = xs"
  proof (induction xs arbitrary: ys)
    case (Cons x xs)
    show ?case
    proof (cases "x = val")
      case True
      then have "\<exists>ys k. m + 1 \<le> k \<and> lrem_loop val n (x # xs) m = (ys, k)"
        using le [of xs "m + 1"] by (cases "lrem_loop val n xs (m + 1)") auto
      then show ?thesis using Cons.prems by auto
    qed (use Cons in \<open>auto split: prod.splits\<close>)
  qed simp
qed

lemma rem_left: "lrem_loop val n xs 0 = ([], m) \<Longrightarrow> xs \<noteq> [] \<Longrightarrow> 0 < m"
  using lrem_loop_none [of val n xs 0 "[]"] by (cases m) auto

text \<open>LREM signals the key when it has removed an element, and deletes it when no element is left: no list
  is empty before.\<close>

lemma upd_lrem:
  assumes "upd i {} s0 s" and "i < length (dbs s0)" and "sees i key (Some (ListObj l)) s" and "srv_full s0"
    and "(m :: nat) = 0 \<longrightarrow> xs = list_elems l"
  defines "s1 \<equiv> storeObject i key (ListObj (set_elems l xs)) s"
  shows "upd i {} s0 (if 0 < m then signalModifiedKey i key (addReply c r (if xs = [] then snd (dbDelete i key s1) else s1))
     else addReply c r (if xs = [] then snd (dbDelete i key s1) else s1))"
proof -
  have ne: "list_elems l \<noteq> []"
    using upd_full [OF assms(1,4)] sees_hollow(1) [OF assms(3)] by (simp add: srv_full_def)
  have u: "upd i {key} s0 s1" unfolding s1_def by (rule upd_store1(1) [OF assms(1-3)]) simp
  have d: "upd i {key} s0 (if xs = [] then snd (dbDelete i key s1) else s1)"
    using u assms(2) by (auto intro: upd_dbDelete_same)
  show ?thesis
  proof (cases "m = 0")
    case True
    then have "upd i {} s0 s1" using assms(5) unfolding s1_def by (intro upd_recode_list [OF assms(1-3)]) simp
    moreover have "xs \<noteq> []" using True assms(5) ne by simp
    ultimately have "upd i {} s0 (addReply c r (if xs = [] then snd (dbDelete i key s1) else s1))"
      by (simp add: upd_addReply)
    then show ?thesis by (simp only: True less_irrefl if_False)
  next
    case False
    have "\<not> hollow_at (if xs = [] then snd (dbDelete i key s1) else s1) i key" by (simp add: s1_def)
    then show ?thesis using False upd_signal1 [OF upd_addReply [OF d] assms(2)] by simp
  qed
qed

lemma safe_lrem_found:
  assumes "upd i {} s0 s" and "i < length (dbs s0)" and "sees i key (Some (ListObj l)) s" and "srv_full s0"
  shows "safe_res i s0 (lrem_found c i key toremove l s)"
proof -
  define r where "r = (if sint toremove < 0
    then (case lrem_loop (argv s c 3) (- toremove) (rev (list_elems l)) 0 of (xs, n) \<Rightarrow> (rev xs, n))
    else lrem_loop (argv s c 3) toremove (list_elems l) 0)"
  obtain xs m where x: "r = (xs, m)" by (cases r)
  have "m = 0 \<longrightarrow> xs = list_elems l"
  proof (cases "sint toremove < 0")
    case True
    obtain ys k where l: "lrem_loop (argv s c 3) (- toremove) (rev (list_elems l)) 0 = (ys, k)" by fastforce
    then have "xs = rev ys" "m = k" using x True by (simp_all add: r_def)
    then show ?thesis using lrem_loop_none [of "argv s c 3" "- toremove" "rev (list_elems l)" 0 ys] l by auto
  next
    case False
    then show ?thesis using x lrem_loop_none [of _ _ "list_elems l" 0 xs] by (auto simp: r_def)
  qed
  then show ?thesis
    using upd_lrem [OF upd_log(1) [OF assms(1)] assms(2) _ assms(4), where key = key and l = l and m = m and xs = xs] assms(3)
    unfolding lrem_found_def Let_def r_def [symmetric] x by (simp add: safe_Some)
qed

lemma safe_lrem: "safe_command lremCommand"
  unfolding lremCommand_def Let_def
  by (rule safe_commandI')
    (auto split: option.split robj.split dest!: same_viewD
      intro!: safe_getLongLong safe_lookupKeyWriteOrReply safe_Some safe_lrem_found upd_addReply)

lemma list_safe:
  "safe_command llenCommand" "safe_command lindexCommand" "safe_command lrangeCommand" "safe_command lpopCommand"
  "safe_command rpopCommand" "safe_command ltrimCommand" "safe_command lsetCommand" "safe_command lpushxCommand"
  "safe_command rpushxCommand" "safe_command linsertCommand" "safe_command lremCommand" "safe_command rpoplpushCommand"
  "safe_for (- 3) lpushCommand" "safe_for (- 3) rpushCommand"
  using safe_list_reads safe_lrange safe_pop safe_ltrim safe_lset safe_linsert safe_lrem safe_rpoplpush safe_push
    safe_pushx [of "\<lambda>_ _. None" "\<lambda>c s. tryObjectEncoding (Raw (argv s c 2))"]
  by (simp_all add: lpopCommand_def [abs_def] rpopCommand_def [abs_def] lpushxCommand_def [abs_def]
      rpushxCommand_def [abs_def] lpushCommand_def [abs_def] rpushCommand_def [abs_def])

end
