(* ===== verification/T_list_spec.thy ===== *)
theory T_list_spec
  imports T_list
begin

text \<open>
  What the list commands do to the sequence of elements, whatever its encoding: the interface of a
  sequence with two ends and its interpretation on the two encodings, and the behaviour of the push,
  pop, range and remove commands and of RPOPLPUSH.
\<close>

section \<open>A sequence with two ends\<close>

locale deque =
  fixes elems :: "'l \<Rightarrow> 'a list" and push :: "list_end \<Rightarrow> 'a \<Rightarrow> 'l \<Rightarrow> 'l" and pop :: "'l \<Rightarrow> list_end \<Rightarrow> 'a option \<times> 'l"
  assumes elems_push: "elems (push w a l) = (if w = REDIS_HEAD then a # elems l else elems l @ [a])"
    and pop_empty: "elems l = [] \<Longrightarrow> pop l w = (None, l)"
    and pop_some: "elems l \<noteq> [] \<Longrightarrow> fst (pop l w) = Some (if w = REDIS_HEAD then hd (elems l) else last (elems l)) \<and>
      elems (snd (pop l w)) = (if w = REDIS_HEAD then tl (elems l) else butlast (elems l))"
begin

lemma pushes: "elems (fold (push w) as l) = (if w = REDIS_HEAD then rev as @ elems l else elems l @ as)"
  by (induction as arbitrary: l) (simp_all add: elems_push)

lemma pop_push: "fst (pop (push w a l) w) = Some a \<and> elems (snd (pop (push w a l) w)) = elems l"
  using pop_some [of "push w a l" w] by (auto simp: elems_push)

text \<open>Popping as many elements as the sequence has, and no fewer, empties it.\<close>

fun drain :: "list_end \<Rightarrow> nat \<Rightarrow> 'l \<Rightarrow> 'a list" where
  "drain w 0 l = []"
| "drain w (Suc n) l = (case pop l w of (None, _) \<Rightarrow> [] | (Some a, l) \<Rightarrow> a # drain w n l)"

lemma drain_head: "drain REDIS_HEAD n l = take n (elems l)"
proof (induction n arbitrary: l)
  case (Suc n)
  show ?case
  proof (cases "elems l = []")
    case True
    then show ?thesis using pop_empty [OF True, of REDIS_HEAD] by simp
  next
    case False
    then show ?thesis using pop_some [OF False, of REDIS_HEAD] Suc [of "snd (pop l REDIS_HEAD)"]
      by (cases "pop l REDIS_HEAD"; cases "elems l") simp_all
  qed
qed simp

lemma drain_tail: "drain REDIS_TAIL n l = take n (rev (elems l))"
proof (induction n arbitrary: l)
  case (Suc n)
  show ?case
  proof (cases "elems l" rule: rev_cases)
    case Nil
    then show ?thesis using pop_empty [OF Nil, of REDIS_TAIL] by simp
  next
    case (snoc xs x)
    then show ?thesis using pop_some [of l REDIS_TAIL] Suc [of "snd (pop l REDIS_TAIL)"]
      by (cases "pop l REDIS_TAIL") simp_all
  qed
qed simp

text \<open>What is pushed at one end comes out at the other in the same order.\<close>

lemma fifo: "elems l = [] \<Longrightarrow> drain REDIS_HEAD (length as) (fold (push REDIS_TAIL) as l) = as"
  by (simp add: drain_head pushes)

lemma lifo: "elems l = [] \<Longrightarrow> drain REDIS_HEAD (length as) (fold (push REDIS_HEAD) as l) = rev as"
  by (simp add: drain_head pushes)

end

abbreviation list_push :: "redisServer \<Rightarrow> list_end \<Rightarrow> bytes \<Rightarrow> listobj \<Rightarrow> listobj" where
  "list_push s w a l \<equiv> listTypePush s l (tryObjectEncoding (Raw a)) w"

interpretation lists: deque list_elems "list_push s" listTypePop
proof unfold_locales
  fix w a l
  show "list_elems (list_push s w a l) = (if w = REDIS_HEAD then a # list_elems l else list_elems l @ [a])"
    by (simp add: elems_push)
qed (auto simp: listTypePop_def Let_def)

section \<open>Pushing and popping\<close>

definition opt_elems :: "listobj option \<Rightarrow> bytes list" where
  "opt_elems o1 = (case o1 of None \<Rightarrow> [] | Some l \<Rightarrow> list_elems l)"

text \<open>What a lookup for writing tells, and what the steps of a command leave of it.\<close>

lemma looked_up:
  assumes "srv_ok s" and "i < length (dbs s)"
  obtains s1 where "lookupKeyWrite i k s = Some (visible s i k, s1)" and "sees i k (visible s i k) s1"
    and "clients s1 = clients s" and "dirty s1 = dirty s" and "srv_ok s1" and "length (dbs s1) = length (dbs s)"
    and "\<forall>k'. visible s1 i k' = visible s i k'"
proof -
  obtain s1 where s1: "lookupKeyWrite i k s = Some (visible s i k, s1)" "quiet i s s1"
      "fmlookup (db_dict (dbs s1 ! i)) k = visible s i k" by (rule lookupKeyWrite_ok [OF assms])
  note q = quietD [OF s1(2)]
  have "sees i k (visible s i k) s1" using s1(3) q assms(2) by (simp add: sees_def)
  moreover have "clients s1 = clients s" "dirty s1 = dirty s" using s1(2) by (simp_all add: quiet_def)
  ultimately show thesis using that [OF s1(1)] q by simp
qed

lemma replies_simps [simp]:
  "c_replies (clients (storeObject i k v s) ! a) = c_replies (clients s ! a)"
  "c_replies (clients (snd (dbDelete i k s)) ! a) = c_replies (clients s ! a)"
  "c_replies (clients (notifyKeyspaceEvent cls e k i s) ! a) = c_replies (clients s ! a)"
  "c_replies (clients (add_dirty n s) ! a) = c_replies (clients s ! a)"
  "c_replies (clients (signalModifiedKey i k s) ! a) = c_replies (clients s ! a)"
  "c_replies (clients (signalListAsReady a' k s) ! a) = c_replies (clients s ! a)"
  "c < length (clients s) \<Longrightarrow> c_replies (clients (addReply c r s) ! c) = c_replies (clients s ! c) @ [r]"
  by (simp_all add: storeObject_def notifyKeyspaceEvent_def add_dirty_def ready_frame db_ops_frame frame_simps
      addReply_def clients_upd_client)

lemma length_clients_simps [simp]:
  "length (clients (storeObject i k v s)) = length (clients s)" "length (clients (snd (dbDelete i k s))) = length (clients s)"
  "length (clients (notifyKeyspaceEvent cls e k i s)) = length (clients s)"
  "length (clients (add_dirty n s)) = length (clients s)" "length (clients (addReply a r s)) = length (clients s)"
  "length (clients (signalModifiedKey i k s)) = length (clients s)"
  "length (clients (signalListAsReady a k s)) = length (clients s)"
  by (simp_all add: storeObject_def notifyKeyspaceEvent_def add_dirty_def ready_frame db_ops_frame frame_simps addReply_def)

lemma length_dbs_simps [simp]:
  "length (dbs (storeObject i k v s)) = length (dbs s)" "length (dbs (snd (dbDelete i k s))) = length (dbs s)"
  "length (dbs (notifyKeyspaceEvent cls e k i s)) = length (dbs s)"
  "length (dbs (add_dirty n s)) = length (dbs s)" "length (dbs (addReply a r s)) = length (dbs s)"
  "length (dbs (signalModifiedKey i k s)) = length (dbs s)"
  by (simp_all add: storeObject_def notifyKeyspaceEvent_def add_dirty_def dbDelete_def frame_simps addReply_def)

lemma dirty_simps [simp]:
  "dirty (storeObject i k v s) = dirty s" "dirty (snd (dbDelete i k s)) = dirty s"
  "dirty (notifyKeyspaceEvent cls e k i s) = dirty s" "dirty (add_dirty n s) = dirty s + n"
  "dirty (addReply a r s) = dirty s" "dirty (signalModifiedKey i k s) = dirty s"
  by (simp_all add: storeObject_def notifyKeyspaceEvent_def add_dirty_def db_ops_frame frame_simps addReply_def signal_dirty)

lemma visible_store:
  "sees i k (Some w) s \<Longrightarrow> visible (storeObject i k v s) i k' = (if k' = k then Some v else visible s i k')"
  using sees_store [of i k w s v] visible_store_other [of i s k' k v] by (auto simp: sees_def)

lemma dirty_ready [simp]: "dirty (signalListAsReady a k s) = dirty s"
  by (simp add: signalListAsReady_def Let_def frame_simps)

lemma visible_ready [simp]: "visible (signalListAsReady a k s) i k' = visible s i k'"
  by (rule ready_frame)

lemma push_done_simps:
  "visible (push_done c w len n s) j k = visible s j k" "dirty (push_done c w len n s) = dirty s + int n"
  "c < length (clients s) \<Longrightarrow> last (c_replies (clients (push_done c w len n s) ! c)) = Integer (int len)"
  by (simp_all add: push_done_def Let_def)

lemma push_ok:
  assumes ok: "srv_ok s" "c < length (clients s)" and ar: "3 \<le> argc s c"
    and v: "visible s (cur_db s c) (argv s c 1) = map_option ListObj o1"
  defines "as \<equiv> drop 2 (c_argv (clients s ! c))"
  shows "\<exists>s' l. pushGenericCommand c w s = Some s' \<and> visible s' (cur_db s c) (argv s c 1) = Some (ListObj l) \<and>
    list_elems l = (if w = REDIS_HEAD then rev as @ opt_elems o1 else opt_elems o1 @ as) \<and>
    (\<forall>k. k \<noteq> argv s c 1 \<longrightarrow> visible s' (cur_db s c) k = visible s (cur_db s c) k) \<and>
    last (c_replies (clients s' ! c)) = Integer (int (length (list_elems l))) \<and> dirty s' = dirty s + int (length as)"
proof -
  let ?i = "cur_db s c" and ?key = "argv s c 1"
  obtain s1 where s1: "lookupKeyWrite ?i ?key s = Some (visible s ?i ?key, s1)" "sees ?i ?key (visible s ?i ?key) s1"
      "clients s1 = clients s" "dirty s1 = dirty s" "srv_ok s1" "length (dbs s1) = length (dbs s)"
      "\<forall>k'. visible s1 ?i k' = visible s ?i k'"
    by (rule looked_up [OF ok(1) cur_db_less [OF ok]])
  have a: "c_argv (clients s1 ! c) = c_argv (clients s ! c)" "argv s1 c 1 = ?key" "cur_db s1 c = ?i"
    using s1(3) by (simp_all add: argv_def cur_db_def)
  have ne: "as \<noteq> []" using ar by (simp add: as_def argc_def)
  obtain s2 l0 where s2: "pushGenericCommand c w s = Some (push_done c w (listTypeLength (push_all s2 w as l0)) (length as)
        (storeObject ?i ?key (ListObj (push_all s2 w as l0)) s2))" "sees ?i ?key (Some (ListObj l0)) s2"
      "list_elems l0 = opt_elems o1" "clients s2 = clients s" "dirty s2 = dirty s"
      "\<forall>k. k \<noteq> ?key \<longrightarrow> visible s2 ?i k = visible s ?i k"
  proof (cases o1)
    case (Some l)
    then show ?thesis using s1 v a by (intro that [of s1 l]) (simp_all add: pushGenericCommand_def push_found_def as_def opt_elems_def Let_def)
  next
    case None
    let ?t = "signalListAsReady c ?key s1"
    have t: "sees ?i ?key None ?t" using s1(2) v None by simp
    then obtain s2 where s2: "dbAdd ?i ?key (ListObj (ZipList [])) ?t = Some s2"
      using dbAdd_ok [of ?t ?i ?key] by (auto simp: sees_def)
    have w2: "srv_ok ?t" "?i < length (dbs ?t)"
      using upd_srv_ok [OF upd_ready [OF upd_refl [OF s1(5)], of ?i c]] s1(6) a(3) cur_db_less [OF ok]
      by (simp_all add: ready_frame)
    show ?thesis
      using s1 v a None s2 ne visible_dbAdd [OF w2 s2] sees_dbAdd [OF w2(1) t s2] db_ops_frame(1) [OF s2]
      by (intro that [of s2 "ZipList []"])
        (simp_all add: pushGenericCommand_def push_found_def as_def opt_elems_def Let_def ready_frame)
  qed
  define l where "l = push_all s2 w as l0"
  define s' where "s' = push_done c w (listTypeLength l) (length as) (storeObject ?i ?key (ListObj l) s2)"
  have "visible s' ?i ?key = Some (ListObj l)" "\<forall>k. k \<noteq> ?key \<longrightarrow> visible s' ?i k = visible s ?i k"
    using s2(6) visible_store [OF s2(2)] by (simp_all add: s'_def push_done_simps)
  moreover have "list_elems l = (if w = REDIS_HEAD then rev as @ opt_elems o1 else opt_elems o1 @ as)"
    by (simp add: l_def elems_push_all s2(3))
  moreover have "last (c_replies (clients s' ! c)) = Integer (int (length (list_elems l)))" "dirty s' = dirty s + int (length as)"
    using s2(4,5) ok(2) by (simp_all add: s'_def push_done_simps listTypeLength_def)
  ultimately show ?thesis using s2(1) unfolding l_def [symmetric] s'_def [symmetric] by blast
qed

text \<open>Popping: the key goes with the last element.\<close>

lemma pop_ok:
  assumes ok: "srv_ok s" "c < length (clients s)"
    and v: "visible s (cur_db s c) (argv s c 1) = Some (ListObj l)" and ne: "list_elems l \<noteq> []"
  shows "\<exists>s'. popGenericCommand c w s = Some s' \<and>
    last (c_replies (clients s' ! c)) = Bulk (if w = REDIS_HEAD then hd (list_elems l) else last (list_elems l)) \<and>
    seen s' (cur_db s c) (argv s c 1) =
      (let xs = (if w = REDIS_HEAD then tl (list_elems l) else butlast (list_elems l))
       in if xs = [] then None else Some (ListObj (LinkedList xs))) \<and>
    (\<forall>k. k \<noteq> argv s c 1 \<longrightarrow> visible s' (cur_db s c) k = visible s (cur_db s c) k)"
proof -
  let ?i = "cur_db s c" and ?key = "argv s c 1"
  obtain s1 where s1: "lookupKeyWrite ?i ?key s = Some (visible s ?i ?key, s1)" "sees ?i ?key (visible s ?i ?key) s1"
      "clients s1 = clients s" "dirty s1 = dirty s" "srv_ok s1" "length (dbs s1) = length (dbs s)"
      "\<forall>k'. visible s1 ?i k' = visible s ?i k'"
    by (rule looked_up [OF ok(1) cur_db_less [OF ok]])
  define x where "x = (if w = REDIS_HEAD then hd (list_elems l) else last (list_elems l))"
  define xs where "xs = (if w = REDIS_HEAD then tl (list_elems l) else butlast (list_elems l))"
  have p: "listTypePop l w = (Some x, set_elems l xs)" using ne by (simp add: listTypePop_def Let_def x_def xs_def)
  define s2 where "s2 = notifyKeyspaceEvent NList (pop_event w) ?key ?i (addReply c (Bulk x) (storeObject ?i ?key (ListObj (set_elems l xs)) s1))"
  define s3 where "s3 = (if xs = [] then snd (dbDelete ?i ?key (notifyKeyspaceEvent NGeneric ''del'' ?key ?i s2)) else s2)"
  have e: "popGenericCommand c w s = Some (add_dirty 1 (signalModifiedKey ?i ?key s3))"
    using s1(1) v p by (simp add: popGenericCommand_def lookupKeyWriteOrReply_def Let_def s3_def s2_def)
  have i: "?i < length (dbs s1)" using s1(6) cur_db_less [OF ok] by simp
  have sv: "sees ?i ?key (Some (ListObj l)) s1" using s1(2) v by simp
  define s4 where "s4 = add_dirty 1 (signalModifiedKey ?i ?key s3)"
  have i2: "?i < length (dbs s2)" using i by (simp add: s2_def)
  have v2: "visible s2 ?i k = (if k = ?key then Some (ListObj (set_elems l xs)) else visible s ?i k)" for k
    using s1(7) visible_store [OF sv] by (simp add: s2_def)
  then have "visible s4 ?i k = (if k = ?key then if xs = [] then None else Some (ListObj (set_elems l xs)) else visible s ?i k)" for k
    using i2 by (simp add: s4_def s3_def visible_dbDelete)
  moreover have "last (c_replies (clients s4 ! c)) = Bulk x"
    using ok(2) s1(3) by (simp add: s4_def s3_def s2_def)
  ultimately show ?thesis
    using e unfolding x_def [symmetric] xs_def [symmetric] s4_def [symmetric] by (simp add: Let_def plain_list)
qed

section \<open>Ranges\<close>

text \<open>A position that counts from the end when it is negative, and the elements between two positions.\<close>

definition list_pos :: "nat \<Rightarrow> u64 \<Rightarrow> int" where
  "list_pos n i = (if sint i < 0 then int n + sint i else sint i)"

definition list_slice :: "u64 \<Rightarrow> u64 \<Rightarrow> 'a list \<Rightarrow> 'a list" where
  "list_slice start end xs =
     (let a = max 0 (list_pos (length xs) start); b = min (int (length xs) - 1) (list_pos (length xs) end)
      in take (nat (b - a + 1)) (drop (nat a) xs))"

lemma list_pos_word:
  assumes "n < 2 ^ 63"
  shows "sint (if sint i < 0 then of_nat n + i else i) = list_pos n i"
proof -
  have "sint (of_nat n + i) = int n + sint i" if "sint i < 0"
    using assms that sint_of_nat [of n] sint_range_64(1) [of i] by (subst sint_plus_ok) simp_all
  then show ?thesis by (simp add: list_pos_def)
qed

lemma range_bounds_spec:
  assumes "n < 2 ^ 63" and a: "a = max 0 (list_pos n start)" and e: "e = list_pos n end"
  shows "range_bounds start end (of_nat n) =
    (if a > e \<or> a \<ge> int n then None else Some (word_of_int a, word_of_int (min e (int n - 1))))"
proof -
  define st where "st = (if sint start < 0 then of_nat n + start else start)"
  define en where "en = (if sint end < 0 then of_nat n + end else end)"
  define st' where "st' = (if sint st < 0 then 0 else st)"
  have s: "sint st' = a" "sint en = e"
    using list_pos_word [OF assms(1), of start] list_pos_word [OF assms(1), of "end"]
    by (auto simp: st'_def a e simp flip: st_def en_def)
  have sn: "sint (of_nat n :: u64) = int n" using assms(1) by (rule sint_of_nat)
  have n1: "sint (of_nat n - 1 :: u64) = int n - 1"
    using assms(1) by (subst sint_minus_ok) (simp_all add: sn)
  have w: "st' = word_of_int a" "en = word_of_int e" "(of_nat n - 1 :: u64) = word_of_int (int n - 1)"
    using word_of_sint [of st'] word_of_sint [of en] word_of_sint [of "of_nat n - 1 :: u64"] unfolding s n1 by (simp_all only:)
  have "range_bounds start end (of_nat n) =
      (if sint st' > sint en \<or> sint st' \<ge> sint (of_nat n :: u64) then None
       else Some (st', if sint en \<ge> sint (of_nat n :: u64) then of_nat n - 1 else en))"
    by (simp add: range_bounds_def Let_def st_def en_def st'_def)
  also have "\<dots> = (if a > e \<or> a \<ge> int n then None else Some (word_of_int a, word_of_int (min e (int n - 1))))"
    unfolding s sn w(3) by (auto simp: w(1,2) min_def)
  finally show ?thesis .
qed

lemma range_slice:
  assumes n: "length xs < 2 ^ 63"
  shows "case range_bounds start end (of_nat (length xs)) of
     None \<Rightarrow> list_slice start end xs = []
   | Some (st, en) \<Rightarrow> take (unat (en - st + 1)) (drop (unat st) xs) = list_slice start end xs \<and>
       sint (en - st + 1) = int (length (list_slice start end xs)) \<and> list_slice start end xs \<noteq> [] \<and>
       unat st + unat (of_nat (length xs) - en - 1) + length (list_slice start end xs) = length xs"
proof -
  define a where "a = max 0 (list_pos (length xs) start)"
  define e where "e = list_pos (length xs) end"
  define b where "b = min e (int (length xs) - 1)"
  have sl: "list_slice start end xs = take (nat (b - a + 1)) (drop (nat a) xs)"
    by (simp add: list_slice_def Let_def a_def b_def e_def min.commute)
  note r = range_bounds_spec [OF n a_def e_def]
  show ?thesis
  proof (cases "a > e \<or> a \<ge> int (length xs)")
    case True
    then have "nat (b - a + 1) = 0 \<or> length xs \<le> nat a" by (auto simp: b_def)
    then show ?thesis using True by (auto simp: r sl)
  next
    case False
    then have ab: "0 \<le> a" "a \<le> b" "b < int (length xs)" by (auto simp: a_def b_def)
    have w: "unat (word_of_int x :: u64) = nat x" "sint (word_of_int x :: u64) = x" if "0 \<le> x" "x \<le> int (length xs)" for x
    proof -
      show u: "unat (word_of_int x :: u64) = nat x"
        using that n by (simp add: unat_eq_nat_uint uint_word_of_int_eq take_bit_int_eq_self)
      show "sint (word_of_int x :: u64) = x"
        using sint_of_nat [of "nat x"] that n by (simp add: of_nat_nat)
    qed
    have e1: "(word_of_int b - word_of_int a + 1 :: u64) = word_of_int (b - a + 1)"
      "(of_nat (length xs) - word_of_int b - 1 :: u64) = word_of_int (int (length xs) - b - 1)" by simp_all
    have len: "length (list_slice start end xs) = nat (b - a + 1)" using ab by (simp add: sl)
    have "unat (word_of_int (b - a + 1) :: u64) = nat (b - a + 1)" "sint (word_of_int (b - a + 1) :: u64) = b - a + 1"
      "unat (word_of_int a :: u64) = nat a" "unat (word_of_int (int (length xs) - b - 1) :: u64) = nat (int (length xs) - b - 1)"
      by (rule w, use ab in linarith, use ab in linarith)+
    moreover have "nat a + nat (int (length xs) - b - 1) + nat (b - a + 1) = length xs" using ab by linarith
    moreover have "list_slice start end xs \<noteq> []" using len ab(2) by auto
    moreover have "range_bounds start end (of_nat (length xs)) = Some (word_of_int a, word_of_int b)"
      using False unfolding r by (simp add: b_def)
    ultimately show ?thesis using ab(2) by (simp only: option.case prod.case e1 len flip: sl) simp
  qed
qed

lemma bulk_fold:
  "c < length (clients s) \<Longrightarrow>
     c_replies (clients (fold (\<lambda>e. addReply c (Bulk e)) es s) ! c) = c_replies (clients s ! c) @ map Bulk es"
  by (induction es arbitrary: s) simp_all

lemma lrange_ok:
  assumes ok: "srv_ok s" "c < length (clients s)"
    and v: "visible s (cur_db s c) (argv s c 1) = Some (ListObj l)"
    and n: "getLongLongFromObject (Some (Raw (argv s c 2))) = Some start"
      "getLongLongFromObject (Some (Raw (argv s c 3))) = Some end" "length (list_elems l) < 2 ^ 63"
  defines "xs \<equiv> list_slice start end (list_elems l)"
  shows "\<exists>s'. lrangeCommand c s = Some s' \<and>
    c_replies (clients s' ! c) = c_replies (clients s ! c) @ MultiBulkLen (int (length xs)) # map Bulk xs"
proof -
  obtain s1 where l: "lookupKeyRead (cur_db s c) (argv s c 1) s = Some (Some (ListObj l), s1)"
      and q: "quiet (cur_db s c) s s1"
    using lookupKeyRead_ok [OF ok(1) cur_db_less [OF ok], of "argv s c 1"] v by metis
  have c1: "clients s1 = clients s" using q by (simp add: quiet_def)
  have e: "lrangeCommand c s = (case range_bounds start end (of_nat (length (list_elems l))) of
      None \<Rightarrow> Some (addReply c (MultiBulkLen 0) s1)
    | Some (st, en) \<Rightarrow> Some (fold (\<lambda>x. addReply c (Bulk x)) (take (unat (en - st + 1)) (drop (unat st) (list_elems l)))
        (addReply c (MultiBulkLen (sint (en - st + 1))) s1)))"
    unfolding lrangeCommand_def getLong_Inr [OF n(1)] getLong_Inr [OF n(2)] lookupKeyReadOrReply_def l
    by (simp add: Let_def listTypeLength_def cong: option.case_cong)
  note r = range_slice [OF n(3), of start "end", folded xs_def]
  show ?thesis
  proof (cases "range_bounds start end (of_nat (length (list_elems l)))")
    case None
    then show ?thesis using r ok(2) c1 unfolding e by simp
  next
    case (Some p)
    obtain st en where p: "p = (st, en)" by (cases p)
    show ?thesis using r ok(2) c1 unfolding e Some p by (simp add: bulk_fold)
  qed
qed

lemma ltrim_ok:
  assumes ok: "srv_ok s" "c < length (clients s)"
    and v: "visible s (cur_db s c) (argv s c 1) = Some (ListObj l)"
    and n: "getLongLongFromObject (Some (Raw (argv s c 2))) = Some start"
      "getLongLongFromObject (Some (Raw (argv s c 3))) = Some end" "length (list_elems l) < 2 ^ 63"
  defines "xs \<equiv> list_slice start end (list_elems l)"
  shows "\<exists>s'. ltrimCommand c s = Some s' \<and>
    seen s' (cur_db s c) (argv s c 1) = (if xs = [] then None else Some (ListObj (LinkedList xs)))"
proof -
  let ?i = "cur_db s c" and ?key = "argv s c 1"
  obtain s1 where s1: "lookupKeyWrite ?i ?key s = Some (visible s ?i ?key, s1)" "sees ?i ?key (visible s ?i ?key) s1"
      "clients s1 = clients s" "dirty s1 = dirty s" "srv_ok s1" "length (dbs s1) = length (dbs s)"
      "\<forall>k'. visible s1 ?i k' = visible s ?i k'"
    by (rule looked_up [OF ok(1) cur_db_less [OF ok]])
  define b where "b = (case range_bounds start end (of_nat (length (list_elems l))) of
      None \<Rightarrow> (of_nat (length (list_elems l)), 0)
    | Some (st, en) \<Rightarrow> (st, of_nat (length (list_elems l)) - en - 1 :: u64))"
  obtain lt rt where lr: "b = (lt, rt)" by (cases b)
  define ys where "ys = (let ys = drop (unat lt) (list_elems l) in take (length ys - unat rt) ys)"
  have ys: "ys = xs"
  proof (cases "range_bounds start end (of_nat (length (list_elems l)))")
    case None
    moreover have "unat (of_nat (length (list_elems l)) :: u64) = length (list_elems l)"
      using n(3) by (simp add: unat_of_nat take_bit_nat_eq_self)
    ultimately show ?thesis using range_slice [OF n(3), of start "end", folded xs_def] lr by (simp add: b_def ys_def)
  next
    case (Some p)
    obtain st en where p: "p = (st, en)" by (cases p)
    note r = range_slice [OF n(3), of start "end", folded xs_def, unfolded Some p option.case prod.case]
    have lr': "lt = st" "rt = of_nat (length (list_elems l)) - en - 1" using lr by (simp_all add: b_def Some p)
    have "length (list_elems l) - unat lt - unat rt = length xs" using r unfolding lr' by linarith
    then have "ys = take (length xs) (drop (unat st) (list_elems l))" by (simp add: ys_def Let_def lr')
    also have "\<dots> = xs"
    proof -
      have x: "xs = take (unat (en - st + 1)) (drop (unat st) (list_elems l))" using r by simp
      show ?thesis unfolding x by (simp add: min_def)
    qed
    finally show ?thesis .
  qed
  define s2 where "s2 = notifyKeyspaceEvent NList ''ltrim'' ?key ?i (storeObject ?i ?key (ListObj (set_elems l ys)) s1)"
  define s3 where "s3 = (if ys = [] then notifyKeyspaceEvent NGeneric ''del'' ?key ?i (snd (dbDelete ?i ?key s2)) else s2)"
  define s4 where "s4 = addReply c ok_reply (add_dirty 1 (signalModifiedKey ?i ?key s3))"
  have lr2: "(case range_bounds start end (of_nat (listTypeLength l)) of
      None \<Rightarrow> (of_nat (listTypeLength l), 0)
    | Some (st, en) \<Rightarrow> (st, of_nat (listTypeLength l) - en - 1 :: u64)) = (lt, rt)"
    using lr unfolding b_def listTypeLength_def .
  have "ltrimCommand c s = Some s4"
    using s1(1) v
    unfolding ltrimCommand_def getLong_Inr [OF n(1)] getLong_Inr [OF n(2)] lookupKeyWriteOrReply_def Let_def
    by (simp add: lr2 s4_def s3_def s2_def ys_def Let_def cong: option.case_cong)
  moreover have "visible s2 ?i ?key = Some (ListObj (set_elems l ys))"
    using s1(2) v visible_store [of ?i ?key "ListObj l" s1] by (simp add: s2_def)
  then have "seen s4 ?i ?key = (if ys = [] then None else Some (ListObj (LinkedList ys)))"
    using s1(6) cur_db_less [OF ok] by (simp add: s4_def s3_def plain_list) (simp add: s2_def visible_dbDelete)
  ultimately show ?thesis by (simp add: ys)
qed

lemma lindex_ok:
  assumes ok: "srv_ok s" "c < length (clients s)"
    and v: "visible s (cur_db s c) (argv s c 1) = Some (ListObj l)"
    and n: "getLongLongFromObject (Some (Raw (argv s c 2))) = Some index"
  shows "\<exists>s'. lindexCommand c s = Some s' \<and> last (c_replies (clients s' ! c)) =
    (case list_index l index of None \<Rightarrow> NullBulk | Some n \<Rightarrow> Bulk (list_elems l ! n))"
proof -
  obtain s1 where s1: "lookupKeyRead (cur_db s c) (argv s c 1) s = Some (Some (ListObj l), s1)"
      and q: "quiet (cur_db s c) s s1"
    using lookupKeyRead_ok [OF ok(1) cur_db_less [OF ok], of "argv s c 1"] v by metis
  have c1: "clients s1 = clients s" using q by (simp add: quiet_def)
  then have a: "argv s1 c 2 = argv s c 2" by (simp add: argv_def)
  show ?thesis
    using ok(2) unfolding lindexCommand_def lookupKeyReadOrReply_def s1
    by (simp add: a getLong_Inr [OF n] last_reply c1 split: option.split)
qed

section \<open>Removing elements\<close>

text \<open>The first \<open>k\<close> occurrences of a value are removed.\<close>

definition removes :: "'a \<Rightarrow> nat \<Rightarrow> 'a list \<Rightarrow> 'a list \<Rightarrow> bool" where
  "removes val k xs ys \<longleftrightarrow>
     (\<exists>as bs. xs = as @ bs \<and> ys = filter (\<lambda>x. x \<noteq> val) as @ bs \<and> count_list as val = k)"

lemma removes_Cons: "removes val k xs ys \<Longrightarrow> x \<noteq> val \<Longrightarrow> removes val k (x # xs) (x # ys)"
  "removes val k xs ys \<Longrightarrow> removes val (Suc k) (val # xs) ys" "removes val 0 xs xs"
proof -
  show "removes val k (x # xs) (x # ys)" if r: "removes val k xs ys" "x \<noteq> val"
  proof -
    obtain as bs where "xs = as @ bs" "ys = filter (\<lambda>x. x \<noteq> val) as @ bs" "count_list as val = k"
      using r(1) unfolding removes_def by blast
    then show ?thesis using r(2) unfolding removes_def by (intro exI [of _ "x # as"] exI [of _ bs]) simp
  qed
  show "removes val (Suc k) (val # xs) ys" if r: "removes val k xs ys"
  proof -
    obtain as bs where "xs = as @ bs" "ys = filter (\<lambda>x. x \<noteq> val) as @ bs" "count_list as val = k"
      using r unfolding removes_def by blast
    then show ?thesis unfolding removes_def by (intro exI [of _ "val # as"] exI [of _ bs]) simp
  qed
  show "removes val 0 xs xs" unfolding removes_def by (intro exI [of _ "[]"] exI [of _ xs]) simp
qed

lemma lrem_loop_spec:
  assumes "lrem_loop val n xs r = (ys, m)" and "n \<noteq> 0 \<longrightarrow> r < unat n"
  shows "removes val (m - r) xs ys \<and> r \<le> m \<and>
    m = (if n = 0 then r + count_list xs val else min (unat n) (r + count_list xs val))"
  using assms
proof (induction val n xs r arbitrary: ys m rule: lrem_loop.induct)
  case (1 val n r)
  then show ?case by (auto simp: removes_Cons)
next
  case (2 val n x xs r)
  show ?case
  proof (cases "x = val")
    case False
    obtain ys' where "lrem_loop val n xs r = (ys', m)" "ys = x # ys'"
      using "2.prems"(1) False by (auto split: prod.splits)
    then show ?thesis using "2.IH"(2) [OF False _ "2.prems"(2)] False by (auto intro: removes_Cons)
  next
    case True
    have stop: "of_nat (r + 1) = n \<longleftrightarrow> r + 1 = unat n" if "n \<noteq> 0"
    proof -
      have "unat n < 2 ^ LENGTH(64)" by (rule unsigned_less)
      then have "r + 1 < 2 ^ 64" using that "2.prems"(2) by simp
      then have "unat (of_nat (r + 1) :: u64) = r + 1" using unat_of_nat [where 'a = 64, of "r + 1"] by (simp add: take_bit_nat_eq_self del: of_nat_Suc of_nat_add)
      then show ?thesis using word_unat_eq_iff [of "of_nat (r + 1)" n] by argo
    qed
    show ?thesis
    proof (cases "n \<noteq> 0 \<and> of_nat (r + 1) = n")
      case t: True
      then have "ys = xs" "m = r + 1" using "2.prems"(1) True by simp_all
      moreover have "unat n = r + 1" using t stop by simp
      ultimately show ?thesis using True t removes_Cons(2) [OF removes_Cons(3), of val xs] by simp
    next
      case f: False
      then have l: "lrem_loop val n xs (r + 1) = (ys, m)" using "2.prems"(1) True by auto
      have nn: "n \<noteq> 0 \<longrightarrow> r + 1 < unat n" using f stop "2.prems"(2) by fastforce
      have i: "removes val (m - (r + 1)) xs ys \<and> r + 1 \<le> m \<and>
          m = (if n = 0 then r + 1 + count_list xs val else min (unat n) (r + 1 + count_list xs val))"
        by (rule "2.IH"(1) [OF True f l nn])
      then have "removes val (Suc (m - (r + 1))) (val # xs) ys" by (intro removes_Cons(2)) (rule conjunct1)
      moreover have "Suc (m - (r + 1)) = m - r" using i by linarith
      ultimately show ?thesis using i True by auto
    qed
  qed
qed

lemma lrem_ok:
  assumes ok: "srv_ok s" "c < length (clients s)"
    and v: "visible s (cur_db s c) (argv s c 1) = Some (ListObj l)"
    and n: "getLongLongFromObject (Some (Raw (argv s c 2))) = Some n" "n \<noteq> LLONG_MIN"
  defines "xs \<equiv> list_elems l" and "val \<equiv> argv s c 3"
  shows "\<exists>s' ys m. lremCommand c s = Some s' \<and> last (c_replies (clients s' ! c)) = Integer (int m) \<and>
    seen s' (cur_db s c) (argv s c 1) = (if ys = [] then None else Some (ListObj (LinkedList ys))) \<and>
    m = (if n = 0 then count_list xs val else min (nat \<bar>sint n\<bar>) (count_list xs val)) \<and>
    (if sint n < 0 then removes val m (rev xs) (rev ys) else removes val m xs ys) \<and> dirty s' = dirty s + int m"
proof -
  let ?i = "cur_db s c" and ?key = "argv s c 1"
  obtain s1 where s1: "lookupKeyWrite ?i ?key s = Some (visible s ?i ?key, s1)" "sees ?i ?key (visible s ?i ?key) s1"
      "clients s1 = clients s" "dirty s1 = dirty s" "srv_ok s1" "length (dbs s1) = length (dbs s)"
      "\<forall>k'. visible s1 ?i k' = visible s ?i k'"
    by (rule looked_up [OF ok(1) cur_db_less [OF ok]])
  have val: "argv s1 c 3 = val" using s1(3) by (simp add: val_def argv_def)
  have cnt: "count_list (rev xs) val = count_list xs val" by (simp add: count_list_rev)
  obtain ys m where r: "(if sint n < 0
      then (case lrem_loop val (- n) (rev xs) 0 of (xs, n) \<Rightarrow> (rev xs, n)) else lrem_loop val n xs 0) = (ys, m)"
    and m: "m = (if n = 0 then count_list xs val else min (nat \<bar>sint n\<bar>) (count_list xs val))"
    and re: "if sint n < 0 then removes val m (rev xs) (rev ys) else removes val m xs ys"
  proof (cases "sint n < 0")
    case True
    obtain zs m where l: "lrem_loop val (- n) (rev xs) 0 = (zs, m)" by fastforce
    have "sint (- n) = - sint n"
      using n(2) sint_range_64 [of n] sint_minus_ok [of 0 n] True
      by (cases "sint n = - (2 ^ 63)") (auto simp: LLONG_MIN_def sint_inject [symmetric])
    then have u: "unat (- n) = nat \<bar>sint n\<bar>" using True sint_nonneg_unat [of "- n"] by simp
    have nz: "- n \<noteq> 0" "n \<noteq> 0" using True by auto
    have q: "removes val (m - 0) (rev xs) zs \<and> 0 \<le> m \<and>
        m = (if - n = 0 then 0 + count_list (rev xs) val else min (unat (- n)) (0 + count_list (rev xs) val))"
      by (rule lrem_loop_spec [OF l]) (use u True in simp)
    have "removes val m (rev xs) zs" using conjunct1 [OF q] by simp
    moreover have "m = min (nat \<bar>sint n\<bar>) (count_list xs val)" using q nz(1) u by (simp add: cnt)
    moreover have "(if sint n < 0
        then (case lrem_loop val (- n) (rev xs) 0 of (xs, n) \<Rightarrow> (rev xs, n)) else lrem_loop val n xs 0) = (rev zs, m)"
      using True l by simp
    ultimately show ?thesis using that [of "rev zs" m] True nz(2) by (simp only: if_True if_False rev_rev_ident)
  next
    case False
    obtain zs m where l: "lrem_loop val n xs 0 = (zs, m)" by fastforce
    have u: "unat n = nat \<bar>sint n\<bar>" using False sint_nonneg_unat [of n] by simp
    have "n \<noteq> 0 \<longrightarrow> 0 < unat n" by (simp add: unat_gt_0)
    then have q: "removes val (m - 0) xs zs \<and> 0 \<le> m \<and>
        m = (if n = 0 then 0 + count_list xs val else min (unat n) (0 + count_list xs val))"
      by (rule lrem_loop_spec [OF l])
    have "removes val m xs zs" using conjunct1 [OF q] by simp
    moreover have "m = (if n = 0 then count_list xs val else min (nat \<bar>sint n\<bar>) (count_list xs val))"
      using q by (simp add: u)
    ultimately show ?thesis using that [of zs m] False l by (simp only: if_False)
  qed
  define s2 where "s2 = storeObject ?i ?key (ListObj (set_elems l ys)) (add_dirty (int m) s1)"
  define s3 where "s3 = (if ys = [] then snd (dbDelete ?i ?key s2) else s2)"
  define s4 where "s4 = (if m > 0 then signalModifiedKey ?i ?key (addReply c (Integer (int m)) s3) else addReply c (Integer (int m)) s3)"
  have "lrem_found c ?i ?key n l s1 = Some s4"
    unfolding lrem_found_def Let_def val xs_def [symmetric] r prod.case s4_def s3_def s2_def ..
  then have "lremCommand c s = Some s4"
    using s1(1) v unfolding lremCommand_def getLong_Inr [OF n(1)] lookupKeyWriteOrReply_def by simp
  moreover have "visible s2 ?i ?key = Some (ListObj (set_elems l ys))"
    using s1(2) v visible_store [of ?i ?key "ListObj l" "add_dirty (int m) s1"] by (simp add: s2_def)
  then have "seen s4 ?i ?key = (if ys = [] then None else Some (ListObj (LinkedList ys)))"
    using s1(6) cur_db_less [OF ok] by (simp add: s4_def s3_def plain_list) (simp add: s2_def visible_dbDelete)
  moreover have "last (c_replies (clients s4 ! c)) = Integer (int m)" "dirty s4 = dirty s + int m"
    using ok(2) s1(3,4) by (simp_all add: s4_def s3_def s2_def)
  ultimately show ?thesis using m re by blast
qed

section \<open>Moving an element\<close>

lemma push_result:
  assumes ok: "srv_ok s" "i < length (dbs s)" and d: "sees i dst (map_option ListObj o2) s" and c: "cur_db s c = i"
    and n: "c < length (clients s)"
  obtains s' l where "rpoplpushHandlePush c dst o2 val s = Some s'" and "list_elems l = val # opt_elems o2"
    and "\<forall>k. visible s' i k = (if k = dst then Some (ListObj l) else visible s i k)"
    and "c_replies (clients s' ! c) = c_replies (clients s ! c) @ [Bulk val]"
    and "length (clients s') = length (clients s)" and "length (dbs s') = length (dbs s)"
proof -
  obtain l0 s1 where s1: "(case o2 of
         None \<Rightarrow> do {
           s \<leftarrow> dbAdd i dst (ListObj (ZipList [])) s;
           Some (ZipList [], signalListAsReady c dst s) }
       | Some l \<Rightarrow> Some (l, s)) = Some (l0, s1)" "list_elems l0 = opt_elems o2" "sees i dst (Some (ListObj l0)) s1"
      "clients s1 = clients s" "\<forall>k. k \<noteq> dst \<longrightarrow> visible s1 i k = visible s i k" "length (dbs s1) = length (dbs s)"
  proof (cases o2)
    case None
    obtain t where t: "dbAdd i dst (ListObj (ZipList [])) s = Some t"
      using d None dbAdd_ok [of s i dst] by (auto simp: sees_def)
    have "length (dbs t) = length (dbs s)" using upd_len [OF upd_dbAdd [OF upd_refl [OF ok(1)] ok(2) t]] by simp
    then show ?thesis
      using None that [of "ZipList []" "signalListAsReady c dst t"] t d visible_dbAdd [OF ok t] sees_dbAdd [OF ok(1) _ t]
        db_ops_frame(1) [OF t] by (simp add: opt_elems_def ready_frame)
  qed (use d that in \<open>simp add: opt_elems_def\<close>)
  define s2 where "s2 = signalModifiedKey i dst s1"
  define l where "l = listTypePush s2 l0 (tryObjectEncoding (Raw val)) REDIS_HEAD"
  define s3 where "s3 = addReply c (Bulk val) (notifyKeyspaceEvent NList ''lpush'' dst i (storeObject i dst (ListObj l) s2))"
  have "rpoplpushHandlePush c dst o2 val s = Some s3"
    unfolding rpoplpushHandlePush_def Let_def c s1(1) by (simp add: s3_def s2_def l_def)
  moreover have "list_elems l = val # opt_elems o2" using s1(2) by (simp add: l_def elems_push)
  moreover have "visible s3 i k = (if k = dst then Some (ListObj l) else visible s i k)" for k
    using s1(3,5) visible_store [of i dst "ListObj l0" s2 "ListObj l" k] by (simp add: s3_def s2_def)
  ultimately show thesis using s1(4,6) n by (intro that [of s3 l]) (simp_all add: s3_def s2_def frame_simps)
qed

lemma rpoplpush_ok:
  assumes ok: "srv_ok s" "c < length (clients s)" and ne: "list_elems l \<noteq> []"
    and v: "visible s (cur_db s c) (argv s c 1) = Some (ListObj l)"
    and d: "visible s (cur_db s c) (argv s c 2) = map_option ListObj o2"
  defines "src \<equiv> argv s c 1" and "dst \<equiv> argv s c 2" and "i \<equiv> cur_db s c"
  shows "\<exists>s'. rpoplpushCommand c s = Some s' \<and> last (c_replies (clients s' ! c)) = Bulk (last (list_elems l)) \<and>
    seen s' i dst = Some (ListObj (LinkedList (last (list_elems l) # (if src = dst then butlast (list_elems l) else opt_elems o2)))) \<and>
    (src \<noteq> dst \<longrightarrow> seen s' i src =
       (if butlast (list_elems l) = [] then None else Some (ListObj (LinkedList (butlast (list_elems l))))))"
proof -
  have i: "i < length (dbs s)" unfolding i_def by (rule cur_db_less [OF ok])
  obtain s1 where s1: "lookupKeyWrite i src s = Some (visible s i src, s1)" "sees i src (visible s i src) s1"
      "clients s1 = clients s" "dirty s1 = dirty s" "srv_ok s1" "length (dbs s1) = length (dbs s)"
      "\<forall>k'. visible s1 i k' = visible s i k'"
    by (rule looked_up [OF ok(1) i])
  have i1: "i < length (dbs s1)" using i s1(6) by simp
  obtain b s1' where x: "expireIfNeeded i dst s1 = Some (b, s1')" "quiet i s1 s1'" "lookupKey i dst s1' = visible s1 i dst"
    using expireIfNeeded_ok [OF s1(5) i1] by blast
  note q = quietD [OF x(2)]
  define s2 where "s2 = s1'"
  have s2: "lookupKeyWrite i dst s1 = Some (visible s i dst, s2)" "sees i dst (visible s i dst) s2" "sees i src (visible s i src) s2"
      "clients s2 = clients s" "srv_ok s2" "length (dbs s2) = length (dbs s)" "\<forall>k'. visible s2 i k' = visible s i k'"
    using x s1 i1 q expire_keeps [OF x(1,2) s1(2)]
    by (simp_all add: lookupKeyWrite_def s2_def sees_def lookupKey_def quiet_def)
  have a: "cur_db s2 c = i" "argv s2 c 1 = src" "argv s2 c 2 = dst" "c < length (clients s2)"
    using s2(4) ok(2) by (simp_all add: cur_db_def argv_def i_def src_def dst_def)
  define val where "val = last (list_elems l)"
  define l1 where "l1 = set_elems l (butlast (list_elems l))"
  have p: "listTypePop l REDIS_TAIL = (Some val, l1)" using ne by (simp add: listTypePop_def val_def l1_def Let_def)
  have ss: "sees i src (Some (ListObj l)) s2" using s2(3) v unfolding i_def src_def by simp
  define s3 where "s3 = storeObject i src (ListObj l1) s2"
  define o3 where "o3 = (if src = dst then Some l1 else o2)"
  have ok3: "srv_ok s3" "i < length (dbs s3)"
    using upd_srv_ok [OF upd_store1(1) [OF upd_refl [OF s2(5)] _ ss, of "ListObj l1"]] i s2(6) by (simp_all add: s3_def)
  have d3: "sees i dst (map_option ListObj o3) s3"
  proof (cases "src = dst")
    case True
    then show ?thesis using sees_store [OF ss] by (simp add: o3_def s3_def)
  next
    case False
    then show ?thesis using s2(2) d by (auto simp: o3_def s3_def i_def dst_def intro!: sees_store_other)
  qed
  have v3: "visible s3 i k = (if k = src then Some (ListObj l1) else visible s i k)" for k
    using visible_store [OF ss] s2(7) by (simp add: s3_def)
  have c3: "cur_db s3 c = i" "c < length (clients s3)" using a by (simp_all add: s3_def)
  obtain s4 l4 where s4: "rpoplpushHandlePush c dst o3 val s3 = Some s4" "list_elems l4 = val # opt_elems o3"
      "\<forall>k. visible s4 i k = (if k = dst then Some (ListObj l4) else visible s3 i k)"
      "c_replies (clients s4 ! c) = c_replies (clients s3 ! c) @ [Bulk val]"
      "length (clients s4) = length (clients s3)" "length (dbs s4) = length (dbs s3)"
    by (rule push_result [OF ok3 d3 c3])
  define s5 where "s5 = notifyKeyspaceEvent NList ''rpop'' src i s4"
  define s6 where "s6 = (if src \<noteq> dst \<and> listTypeLength l1 = 0
     then notifyKeyspaceEvent NGeneric ''del'' src i (snd (dbDelete i src s5)) else s5)"
  define s7 where "s7 = add_dirty 1 (signalModifiedKey i src s6)"
  have m: "rpoplpush_move c l o2 s2 = Some s7"
    unfolding rpoplpush_move_def Let_def a p
    by (simp add: s4(1) flip: s3_def o3_def) (simp add: s7_def s6_def s5_def)
  have "rpoplpushCommand c s = Some s7"
    using s1(1,3) s2(1) v d ne m
    by (cases o2) (simp_all add: rpoplpushCommand_def lookupKeyWriteOrReply_def cur_db_def argv_def i_def src_def dst_def listTypeLength_def)
  moreover have "last (c_replies (clients s7 ! c)) = Bulk val" using s4(4) by (simp add: s7_def s6_def s5_def)
  moreover have i5: "i < length (dbs s5)" using ok3(2) s4(6) by (simp add: s5_def)
  have "visible s7 i k = (if src \<noteq> dst \<and> butlast (list_elems l) = [] \<and> k = src then None
      else if k = dst then Some (ListObj l4) else if k = src then Some (ListObj l1) else visible s i k)" for k
    using s4(3) v3 i5 by (auto simp: s7_def s6_def visible_dbDelete l1_def) (simp_all add: s5_def l1_def)
  then have "seen s7 i dst = Some (ListObj (LinkedList (list_elems l4)))"
    "src \<noteq> dst \<longrightarrow> seen s7 i src = (if butlast (list_elems l) = [] then None else Some (ListObj (LinkedList (butlast (list_elems l)))))"
    by (auto simp: plain_list l1_def)
  ultimately show ?thesis
    using s4(2) unfolding val_def [symmetric] by (auto simp: o3_def opt_elems_def l1_def)
qed

section \<open>Properties\<close>

text \<open>C18: RPUSH appends its arguments to the list in their order and LPUSH puts them in front, the last one
  first; either creates the list when the key is absent, on either encoding leaves other keys alone, and
  replies with the new length.\<close>

theorem push_elements:
  assumes "srv_ok s" and "c < length (clients s)" and "3 \<le> argc s c"
    and "visible s (cur_db s c) (argv s c 1) = map_option ListObj o1"
  shows "\<exists>s' l. pushGenericCommand c w s = Some s' \<and> visible s' (cur_db s c) (argv s c 1) = Some (ListObj l) \<and>
    list_elems l = (if w = REDIS_HEAD then rev (drop 2 (c_argv (clients s ! c))) @ opt_elems o1
      else opt_elems o1 @ drop 2 (c_argv (clients s ! c))) \<and>
    (\<forall>k. k \<noteq> argv s c 1 \<longrightarrow> visible s' (cur_db s c) k = visible s (cur_db s c) k) \<and>
    last (c_replies (clients s' ! c)) = Integer (int (length (list_elems l)))"
  using push_ok [OF assms, of w] by blast

theorem push_elements_witness:
  "\<exists>s' l. pushGenericCommand 0 REDIS_HEAD (holding (ListObj (ZipList [[1]])) [ascii ''LPUSH'', key_k, [2], [3]]) = Some s' \<and>
     visible s' 0 key_k = Some (ListObj l) \<and> list_elems l = [[3], [2], [1]] \<and> last (c_replies (clients s' ! 0)) = Integer 3"
  using push_elements [of "holding (ListObj (ZipList [[1]])) [ascii ''LPUSH'', key_k, [2], [3]]" 0 "Some (ZipList [[1]])" REDIS_HEAD]
  by (fastforce simp: holding_ok opt_elems_def argc_def)

text \<open>LPOP replies the first and RPOP the last element and removes it; the key goes with the last
  element, and other keys are left alone.\<close>

lemma pop_element:
  assumes "srv_ok s" and "c < length (clients s)"
    and "visible s (cur_db s c) (argv s c 1) = Some (ListObj l)" and "list_elems l \<noteq> []"
  shows "\<exists>s'. popGenericCommand c w s = Some s' \<and>
    last (c_replies (clients s' ! c)) = Bulk (if w = REDIS_HEAD then hd (list_elems l) else last (list_elems l)) \<and>
    seen s' (cur_db s c) (argv s c 1) =
      (let xs = (if w = REDIS_HEAD then tl (list_elems l) else butlast (list_elems l))
       in if xs = [] then None else Some (ListObj (LinkedList xs))) \<and>
    (\<forall>k. k \<noteq> argv s c 1 \<longrightarrow> visible s' (cur_db s c) k = visible s (cur_db s c) k)"
  by (rule pop_ok [OF assms])

text \<open>C21: LRANGE replies the elements from the start to the end, both inclusive, and LTRIM keeps exactly
  these: negative positions count from the end of the list, positions outside it are moved to its ends,
  and a range with nothing in it deletes the key.\<close>

theorem range_of_list:
  assumes "srv_ok s" and "c < length (clients s)"
    and "visible s (cur_db s c) (argv s c 1) = Some (ListObj l)" and "length (list_elems l) < 2 ^ 63"
    and "getLongLongFromObject (Some (Raw (argv s c 2))) = Some start"
    and "getLongLongFromObject (Some (Raw (argv s c 3))) = Some end"
  shows "\<exists>s1 s2. lrangeCommand c s = Some s1 \<and> ltrimCommand c s = Some s2 \<and>
    (let xs = list_slice start end (list_elems l)
     in c_replies (clients s1 ! c) = c_replies (clients s ! c) @ MultiBulkLen (int (length xs)) # map Bulk xs \<and>
        seen s2 (cur_db s c) (argv s c 1) = (if xs = [] then None else Some (ListObj (LinkedList xs))))"
  using lrange_ok [OF assms(1-3,5,6,4)] ltrim_ok [OF assms(1-3,5,6,4)] by (auto simp: Let_def)

theorem range_of_list_witness:
  "\<exists>s1. lrangeCommand 0 (holding (ListObj (ZipList [[1], [2], [3]])) [ascii ''LRANGE'', key_k, ascii ''-2'', ascii ''9'']) = Some s1 \<and>
     c_replies (clients s1 ! 0) = [MultiBulkLen 2, Bulk [2], Bulk [3]]"
proof -
  let ?s = "holding (ListObj (ZipList [[1], [2], [3]])) [ascii ''LRANGE'', key_k, ascii ''-2'', ascii ''9'']"
  have n: "getLongLongFromObject (Some (Raw (argv ?s 0 2))) = Some (- 2)"
    "getLongLongFromObject (Some (Raw (argv ?s 0 3))) = Some 9"
    unfolding holding_ok by (simp_all add: ascii_def strtoll10_def isspace_def Let_def char_in_digit digit_def)
  have "c_replies (clients ?s ! 0) = []"
    by (simp add: holding_def storeObject_def frame_simps watched_server_def idle_client_def)
  then show ?thesis
    using range_of_list [OF _ _ _ _ n, of "ZipList [[1], [2], [3]]"]
    by (fastforce simp: holding_ok list_slice_def list_pos_def)
qed

text \<open>C20: LREM removes the first occurrences of the value, or the last ones when the count is negative, at
  most as many as the count says and all of them when it is 0; it leaves the other elements in their
  order, deletes the key when none is left, and replies with the number of elements removed.\<close>

theorem lrem_removes:
  assumes "srv_ok s" and "c < length (clients s)"
    and "visible s (cur_db s c) (argv s c 1) = Some (ListObj l)"
    and "getLongLongFromObject (Some (Raw (argv s c 2))) = Some n" and "n \<noteq> LLONG_MIN"
  shows "\<exists>s' ys m. lremCommand c s = Some s' \<and> last (c_replies (clients s' ! c)) = Integer (int m) \<and>
    seen s' (cur_db s c) (argv s c 1) = (if ys = [] then None else Some (ListObj (LinkedList ys))) \<and>
    m = (if n = 0 then count_list (list_elems l) (argv s c 3)
         else min (nat \<bar>sint n\<bar>) (count_list (list_elems l) (argv s c 3))) \<and>
    (if sint n < 0 then removes (argv s c 3) m (rev (list_elems l)) (rev ys)
     else removes (argv s c 3) m (list_elems l) ys)"
  using lrem_ok [OF assms] by blast

theorem lrem_removes_witness:
  "\<exists>s'. lremCommand 0 (holding (ListObj (ZipList [[1], [2], [1]])) [ascii ''LREM'', key_k, ascii ''-1'', [1]]) = Some s' \<and>
     last (c_replies (clients s' ! 0)) = Integer 1"
proof -
  let ?s = "holding (ListObj (ZipList [[1], [2], [1]])) [ascii ''LREM'', key_k, ascii ''-1'', [1]]"
  have n: "getLongLongFromObject (Some (Raw (argv ?s 0 2))) = Some (- 1)"
    unfolding holding_ok by (simp add: ascii_def strtoll10_def isspace_def Let_def char_in_digit digit_def)
  have "(- 1 :: u64) \<noteq> LLONG_MIN" by (simp add: LLONG_MIN_def)
  then show ?thesis
    using lrem_removes [OF _ _ _ n, of "ZipList [[1], [2], [1]]"] by (fastforce simp: holding_ok)
qed

text \<open>C19: RPOPLPUSH takes the last element of one list, puts it in front of the other and replies it. No
  element is lost or doubled: on one list it is a rotation, and a source without further elements is
  deleted.\<close>

theorem rpoplpush_moves:
  assumes "srv_ok s" and "c < length (clients s)" and "list_elems l \<noteq> []"
    and "visible s (cur_db s c) (argv s c 1) = Some (ListObj l)"
    and "visible s (cur_db s c) (argv s c 2) = map_option ListObj o2"
  shows "\<exists>s'. rpoplpushCommand c s = Some s' \<and> last (c_replies (clients s' ! c)) = Bulk (last (list_elems l)) \<and>
    seen s' (cur_db s c) (argv s c 2) =
      Some (ListObj (LinkedList (last (list_elems l) #
        (if argv s c 1 = argv s c 2 then butlast (list_elems l) else opt_elems o2)))) \<and>
    (argv s c 1 \<noteq> argv s c 2 \<longrightarrow> seen s' (cur_db s c) (argv s c 1) =
       (if butlast (list_elems l) = [] then None else Some (ListObj (LinkedList (butlast (list_elems l))))))"
  by (rule rpoplpush_ok [OF assms])

theorem rpoplpush_moves_witness:
  "\<exists>s'. rpoplpushCommand 0 (holding (ListObj (ZipList [[1], [2]])) [ascii ''RPOPLPUSH'', key_k, key_k]) = Some s' \<and>
     seen s' 0 key_k = Some (ListObj (LinkedList [[2], [1]]))"
  using rpoplpush_moves [of "holding (ListObj (ZipList [[1], [2]])) [ascii ''RPOPLPUSH'', key_k, key_k]" 0 "ZipList [[1], [2]]"
    "Some (ZipList [[1], [2]])"]
  by (fastforce simp: holding_ok)

text \<open>An index is cut to 32 bits on its way to a ziplist but not on its way to a linked list: on two
  servers that hold the same element, LINDEX with the index \<open>2 ^ 32\<close> replies the first element from one
  encoding and nil from the other.\<close>

lemma lindex_truncates:
  "\<exists>s' t'. lindexCommand 0 (holding (ListObj (ZipList [[7]])) [ascii ''LINDEX'', key_k, ascii ''4294967296'']) = Some s' \<and>
     lindexCommand 0 (holding (ListObj (LinkedList [[7]])) [ascii ''LINDEX'', key_k, ascii ''4294967296'']) = Some t' \<and>
     last (c_replies (clients s' ! 0)) = Bulk [7] \<and> last (c_replies (clients t' ! 0)) = NullBulk"
proof -
  let ?s = "\<lambda>l. holding (ListObj l) [ascii ''LINDEX'', key_k, ascii ''4294967296'']"
  have n: "getLongLongFromObject (Some (Raw (argv (?s l) 0 2))) = Some 4294967296" for l
    unfolding holding_ok by (simp add: ascii_def strtoll10_def isspace_def Let_def char_in_digit digit_def)
  have "list_index (ZipList [[7]]) 4294967296 = Some 0" "list_index (LinkedList [[7]]) 4294967296 = None"
    by (simp_all add: index_in_def)
  then show ?thesis
    using lindex_ok [OF _ _ _ n, of "ZipList [[7]]" "ZipList [[7]]"] lindex_ok [OF _ _ _ n, of "LinkedList [[7]]" "LinkedList [[7]]"]
    by (fastforce simp: holding_ok)
qed

text \<open>Every list command that does not block always answers, keeps the invariant of the server, and
  marks every client that watches a key whose value it changes; the push commands when they have at
  least one element, which the table of commands requires.\<close>

theorem list_commands_safe:
  "safe_for (- 3) lpushCommand \<and> safe_for (- 3) rpushCommand \<and> safe_command lpushxCommand \<and>
   safe_command rpushxCommand \<and> safe_command linsertCommand \<and> safe_command lpopCommand \<and>
   safe_command rpopCommand \<and> safe_command llenCommand \<and> safe_command lindexCommand \<and>
   safe_command lsetCommand \<and> safe_command lrangeCommand \<and> safe_command ltrimCommand \<and>
   safe_command lremCommand \<and> safe_command rpoplpushCommand"
  by (simp add: list_safe)

end
