(* ===== verification/T_set.thy ===== *)
theory T_set
  imports Safe_Steps
begin

text \<open>
  Redis t_set.c: sets in their two encodings and the commands on sets. An intset is given by its
  integers, as theory Intset shows its bytes to be; the strings of a hash table are kept decoded, as
  its keys are compared. SRANDMEMBER with a count and SSCAN are left out.

  The lemmas relate every operation to the mathematical set \<open>set_abs\<close> of strings; the properties
  say that the algebra of SINTER, SUNION and SDIFF is the one of sets whatever the encodings and
  whichever algorithm is chosen.
\<close>

section \<open>Operations on the two encodings\<close>

definition setTypeCreate :: "strobj \<Rightarrow> setobj" where
  "setTypeCreate value = (if isObjectRepresentableAsLongLong value \<noteq> None then IntSet {||} else HashSet {||})"

text \<open>The string of an integer, and the conversion to a hash table; only intsets are converted.\<close>

definition int_string :: "u64 \<Rightarrow> bytes" where
  "int_string v = getDecodedObject (createStringObjectFromLongLong v)"

fun setTypeConvert :: "setobj \<Rightarrow> setobj option" where
  "setTypeConvert (IntSet V) = Some (HashSet (int_string |`| V))"
| "setTypeConvert (HashSet S) = None"

text \<open>\<open>setTypeAdd\<close>: the set and whether the element is new. An element that is no integer is asserted
  to be new to the converted set.\<close>

fun setTypeAdd :: "nat \<Rightarrow> setobj \<Rightarrow> strobj \<Rightarrow> (setobj \<times> bool) option" where
  "setTypeAdd entries (HashSet S) value =
     (let b = getDecodedObject value
      in if b |\<in>| S then Some (HashSet S, False) else Some (HashSet (finsert b S), True))"
| "setTypeAdd entries (IntSet V) value =
     (case isObjectRepresentableAsLongLong value of
        Some llval \<Rightarrow>
          if llval |\<in>| V then Some (IntSet V, False)
          else (let V = finsert llval V
                in if fcard V > entries then map_option (\<lambda>s. (s, True)) (setTypeConvert (IntSet V))
                   else Some (IntSet V, True))
      | None \<Rightarrow>
          (case setTypeConvert (IntSet V) of
             Some (HashSet S) \<Rightarrow>
               (let b = getDecodedObject value
                in if b |\<in>| S then None else Some (HashSet (finsert b S), True))
           | _ \<Rightarrow> None))"

fun setTypeRemove :: "setobj \<Rightarrow> strobj \<Rightarrow> setobj \<times> bool" where
  "setTypeRemove (HashSet S) value =
     (let b = getDecodedObject value in if b |\<in>| S then (HashSet (S |-| {|b|}), True) else (HashSet S, False))"
| "setTypeRemove (IntSet V) value =
     (case isObjectRepresentableAsLongLong value of
        Some llval \<Rightarrow> if llval |\<in>| V then (IntSet (V |-| {|llval|}), True) else (IntSet V, False)
      | None \<Rightarrow> (IntSet V, False))"

fun setTypeIsMember :: "setobj \<Rightarrow> strobj \<Rightarrow> bool" where
  "setTypeIsMember (HashSet S) value = (getDecodedObject value |\<in>| S)"
| "setTypeIsMember (IntSet V) value =
     (case isObjectRepresentableAsLongLong value of Some llval \<Rightarrow> llval |\<in>| V | None \<Rightarrow> False)"

fun setTypeSize :: "setobj \<Rightarrow> nat" where
  "setTypeSize (HashSet S) = fcard S"
| "setTypeSize (IntSet V) = fcard V"

text \<open>The elements in the order of the iterator (\<open>setTypeInitIterator\<close>, \<open>setTypeNext\<close>): an intset is
  sorted, a hash table has an order of its own.\<close>

fun setTypeElements :: "(bytes fset \<Rightarrow> bytes list) \<Rightarrow> setobj \<Rightarrow> strobj list" where
  "setTypeElements ord (HashSet S) = map Raw (ord S)"
| "setTypeElements ord (IntSet V) = map (\<lambda>n. IntEnc (word_of_int n)) (sorted_list_of_set (sint ` fset V))"

definition setTypeRandomElement :: "redisServer \<Rightarrow> setobj \<Rightarrow> strobj" where
  "setTypeRandomElement s so = setTypeElements (dict_order s) so ! (random_value s mod setTypeSize so)"

section \<open>Commands on one set\<close>

text \<open>The loop of SADD over the arguments: the set and the number of elements added.\<close>

fun sadd_loop :: "nat \<Rightarrow> bytes list \<Rightarrow> setobj \<Rightarrow> nat \<Rightarrow> (setobj \<times> nat) option" where
  "sadd_loop entries [] so added = Some (so, added)"
| "sadd_loop entries (a # as) so added = do {
     (so, new) \<leftarrow> setTypeAdd entries so (tryObjectEncoding (Raw a));
     sadd_loop entries as so (if new then added + 1 else added) }"

definition sadd_set :: "nat \<Rightarrow> nat \<Rightarrow> bytes \<Rightarrow> setobj \<Rightarrow> redisServer \<Rightarrow> redisServer option" where
  "sadd_set c i key so s = do {
     (so, added) \<leftarrow> sadd_loop (set_max_intset_entries s) (drop 2 (c_argv (clients s ! c))) so 0;
     let s = (if added > 0
              then notifyKeyspaceEvent NSet ''sadd'' key i
                     (signalModifiedKey i key (storeObject i key (SetObj so) s))
              else s);
     Some (addReply c (Integer (int added)) (add_dirty (int added) s)) }"

definition saddCommand :: "nat \<Rightarrow> redisServer \<Rightarrow> redisServer option" where
  "saddCommand c s = do {
     let i = cur_db s c;
     let key = argv s c 1;
     (o1, s) \<leftarrow> lookupKeyWrite i key s;
     (case o1 of
        None \<Rightarrow> do {
          let so = setTypeCreate (Raw (argv s c 2));
          s \<leftarrow> dbAdd i key (SetObj so) s;
          sadd_set c i key so s }
      | Some (SetObj so) \<Rightarrow> sadd_set c i key so s
      | Some _ \<Rightarrow> Some (addReply c wrongtypeerr s)) }"

text \<open>The loop of SREM: the set, the number of elements deleted, and whether the key was removed.\<close>

fun srem_loop :: "bytes list \<Rightarrow> setobj \<Rightarrow> nat \<Rightarrow> setobj \<times> nat \<times> bool" where
  "srem_loop [] so deleted = (so, deleted, False)"
| "srem_loop (a # as) so deleted =
     (case setTypeRemove so (Raw a) of (so, gone) \<Rightarrow>
        if gone then (if setTypeSize so = 0 then (so, deleted + 1, True) else srem_loop as so (deleted + 1))
        else srem_loop as so deleted)"

definition sremCommand :: "nat \<Rightarrow> redisServer \<Rightarrow> redisServer option" where
  "sremCommand c s = do {
     let i = cur_db s c;
     let key = argv s c 1;
     (o1, s) \<leftarrow> lookupKeyWriteOrReply c key czero s;
     (case o1 of
        None \<Rightarrow> Some s
      | Some (SetObj so) \<Rightarrow>
          (case srem_loop (drop 2 (c_argv (clients s ! c))) so 0 of (so, deleted, keyremoved) \<Rightarrow>
             let s = (if deleted > 0 then
                        let s = storeObject i key (SetObj so) s;
                            s = (if keyremoved then snd (dbDelete i key s) else s);
                            s = signalModifiedKey i key s;
                            s = notifyKeyspaceEvent NSet ''srem'' key i s;
                            s = (if keyremoved then notifyKeyspaceEvent NGeneric ''del'' key i s else s)
                        in add_dirty (int deleted) s
                      else s)
             in Some (addReply c (Integer (int deleted)) s))
      | Some _ \<Rightarrow> Some (addReply c wrongtypeerr s)) }"

text \<open>The objects under two keys are the same object when the keys are the same.\<close>

definition smove_dst :: "nat \<Rightarrow> nat \<Rightarrow> bytes \<Rightarrow> strobj \<Rightarrow> setobj \<Rightarrow> redisServer \<Rightarrow> redisServer option" where
  "smove_dst c i dst ele so s = do {
     (so, new) \<leftarrow> setTypeAdd (set_max_intset_entries s) so ele;
     let s = (if new
              then notifyKeyspaceEvent NSet ''sadd'' dst i (add_dirty 1 (storeObject i dst (SetObj so) s))
              else s);
     Some (addReply c cone s) }"

definition smove_src ::
  "nat \<Rightarrow> nat \<Rightarrow> bytes \<Rightarrow> bytes \<Rightarrow> strobj \<Rightarrow> setobj \<Rightarrow> robj option \<Rightarrow> redisServer \<Rightarrow> redisServer option" where
  "smove_src c i src dst ele so o2 s =
     (case setTypeRemove so ele of (so, gone) \<Rightarrow>
        if \<not> gone then Some (addReply c czero s)
        else do {
          let s = storeObject i src (SetObj so) s;
          let s = notifyKeyspaceEvent NSet ''srem'' src i s;
          let s = (if setTypeSize so = 0
                   then notifyKeyspaceEvent NGeneric ''del'' src i (snd (dbDelete i src s)) else s);
          let s = signalModifiedKey i src s;
          let s = signalModifiedKey i dst s;
          let s = add_dirty 1 s;
          (case o2 of
             Some (SetObj dso) \<Rightarrow> smove_dst c i dst ele dso s
           | _ \<Rightarrow> do {
               let dso = setTypeCreate ele;
               s \<leftarrow> dbAdd i dst (SetObj dso) s;
               smove_dst c i dst ele dso s }) })"

definition smoveCommand :: "nat \<Rightarrow> redisServer \<Rightarrow> redisServer option" where
  "smoveCommand c s = do {
     let i = cur_db s c;
     let src = argv s c 1;
     let dst = argv s c 2;
     let ele = tryObjectEncoding (Raw (argv s c 3));
     (o1, s) \<leftarrow> lookupKeyWrite i src s;
     (o2, s) \<leftarrow> lookupKeyWrite i dst s;
     (case o1 of
        None \<Rightarrow> Some (addReply c czero s)
      | Some (SetObj so) \<Rightarrow>
          (case o2 of
             Some v \<Rightarrow> if otype v \<noteq> REDIS_SET then Some (addReply c wrongtypeerr s)
                       else if src = dst then Some (addReply c cone s)
                       else smove_src c i src dst ele so o2 s
           | None \<Rightarrow> smove_src c i src dst ele so o2 s)
      | Some _ \<Rightarrow> Some (addReply c wrongtypeerr s)) }"

definition sismemberCommand :: "nat \<Rightarrow> redisServer \<Rightarrow> redisServer option" where
  "sismemberCommand c s = do {
     (o1, s) \<leftarrow> lookupKeyReadOrReply c (argv s c 1) czero s;
     (case o1 of
        None \<Rightarrow> Some s
      | Some (SetObj so) \<Rightarrow>
          Some (addReply c (if setTypeIsMember so (tryObjectEncoding (Raw (argv s c 2))) then cone else czero) s)
      | Some _ \<Rightarrow> Some (addReply c wrongtypeerr s)) }"

definition scardCommand :: "nat \<Rightarrow> redisServer \<Rightarrow> redisServer option" where
  "scardCommand c s = do {
     (o1, s) \<leftarrow> lookupKeyReadOrReply c (argv s c 1) czero s;
     (case o1 of
        None \<Rightarrow> Some s
      | Some (SetObj so) \<Rightarrow> Some (addReply c (Integer (int (setTypeSize so))) s)
      | Some _ \<Rightarrow> Some (addReply c wrongtypeerr s)) }"

definition spopCommand :: "nat \<Rightarrow> redisServer \<Rightarrow> redisServer option" where
  "spopCommand c s = do {
     let i = cur_db s c;
     let key = argv s c 1;
     (o1, s) \<leftarrow> lookupKeyWriteOrReply c key NullBulk s;
     (case o1 of
        None \<Rightarrow> Some s
      | Some (SetObj so) \<Rightarrow>
          let ele = setTypeRandomElement s so;
              so = fst (setTypeRemove so ele);
              s = storeObject i key (SetObj so) s;
              s = notifyKeyspaceEvent NSet ''spop'' key i s;
              s = rewriteClientCommandVector c [ascii ''SREM'', key, getDecodedObject ele] s;
              s = addReply c (Bulk (getDecodedObject ele)) s;
              s = (if setTypeSize so = 0
                   then notifyKeyspaceEvent NGeneric ''del'' key i (snd (dbDelete i key s)) else s);
              s = signalModifiedKey i key s
          in Some (add_dirty 1 s)
      | Some _ \<Rightarrow> Some (addReply c wrongtypeerr s)) }"

text \<open>SRANDMEMBER without a count.\<close>

definition srandmemberCommand :: "nat \<Rightarrow> redisServer \<Rightarrow> redisServer option" where
  "srandmemberCommand c s = do {
     (o1, s) \<leftarrow> lookupKeyReadOrReply c (argv s c 1) NullBulk s;
     (case o1 of
        None \<Rightarrow> Some s
      | Some (SetObj so) \<Rightarrow> Some (addReply c (Bulk (getDecodedObject (setTypeRandomElement s so))) s)
      | Some _ \<Rightarrow> Some (addReply c wrongtypeerr s)) }"

section \<open>Intersection\<close>

text \<open>The sets under the keys, in order: \<^term>\<open>Inl\<close> when the command has answered. An absent key ends the
  loop of SINTER.\<close>

definition lookup_set :: "bool \<Rightarrow> nat \<Rightarrow> bytes \<Rightarrow> redisServer \<Rightarrow> (robj option \<times> redisServer) option" where
  "lookup_set store i key s = (if store then lookupKeyWrite i key s else lookupKeyRead i key s)"

definition emptymultibulk :: reply where "emptymultibulk = MultiBulkLen 0"

fun sinter_sets ::
  "nat \<Rightarrow> nat \<Rightarrow> bytes option \<Rightarrow> bytes list \<Rightarrow> redisServer \<Rightarrow> (redisServer + setobj list \<times> redisServer) option" where
  "sinter_sets c i dstkey [] s = Some (Inr ([], s))"
| "sinter_sets c i dstkey (key # keys) s = do {
     (o1, s) \<leftarrow> lookup_set (dstkey \<noteq> None) i key s;
     (case o1 of
        None \<Rightarrow>
          (case dstkey of
             Some dst \<Rightarrow>
               let (found, s) = dbDelete i dst s;
                   s = (if found then add_dirty 1 (signalModifiedKey i dst s) else s)
               in Some (Inl (addReply c czero s))
           | None \<Rightarrow> Some (Inl (addReply c emptymultibulk s)))
      | Some (SetObj so) \<Rightarrow> do {
          r \<leftarrow> sinter_sets c i dstkey keys s;
          Some (case r of Inl s \<Rightarrow> Inl s | Inr (sos, s) \<Rightarrow> Inr (so # sos, s)) }
      | Some _ \<Rightarrow> Some (Inl (addReply c wrongtypeerr s))) }"

text \<open>The test of an element against another set: an integer against an intset is searched for
  directly.\<close>

fun sinter_test :: "strobj \<Rightarrow> setobj \<Rightarrow> bool" where
  "sinter_test (IntEnc n) (IntSet V) = (n |\<in>| V)"
| "sinter_test e so = setTypeIsMember so e"

fun add_all :: "nat \<Rightarrow> setobj \<Rightarrow> strobj list \<Rightarrow> setobj option" where
  "add_all entries so [] = Some so"
| "add_all entries so (e # es) = do { (so, _) \<leftarrow> setTypeAdd entries so e; add_all entries so es }"

definition sinter_elements :: "(bytes fset \<Rightarrow> bytes list) \<Rightarrow> setobj list \<Rightarrow> strobj list" where
  "sinter_elements ord sets =
     (let sets = sort_key setTypeSize sets
      in filter (\<lambda>e. list_all (sinter_test e) (tl sets)) (setTypeElements ord (hd sets)))"

text \<open>The result of a set operation is stored under the destination, or the destination is deleted.\<close>

definition store_result :: "nat \<Rightarrow> nat \<Rightarrow> bytes \<Rightarrow> string \<Rightarrow> setobj \<Rightarrow> redisServer \<Rightarrow> redisServer option" where
  "store_result c i dstkey event so s = do {
     let (deleted, s) = dbDelete i dstkey s;
     s \<leftarrow> (if setTypeSize so > 0 then do {
            s \<leftarrow> dbAdd i dstkey (SetObj so) s;
            let s = addReply c (Integer (int (setTypeSize so))) s;
            Some (notifyKeyspaceEvent NSet event dstkey i s) }
          else (let s = addReply c czero s
                in Some (if deleted then notifyKeyspaceEvent NGeneric ''del'' dstkey i s else s)));
     let s = signalModifiedKey i dstkey s;
     Some (add_dirty 1 s) }"

definition reply_elements :: "nat \<Rightarrow> strobj list \<Rightarrow> redisServer \<Rightarrow> redisServer" where
  "reply_elements c es s =
     fold (\<lambda>e. addReply c (Bulk (getDecodedObject e))) es (addReply c (MultiBulkLen (int (length es))) s)"

definition sinterGenericCommand :: "nat \<Rightarrow> bytes list \<Rightarrow> bytes option \<Rightarrow> redisServer \<Rightarrow> redisServer option" where
  "sinterGenericCommand c setkeys dstkey s = do {
     let i = cur_db s c;
     r \<leftarrow> sinter_sets c i dstkey setkeys s;
     (case r of
        Inl s \<Rightarrow> Some s
      | Inr (sets, s) \<Rightarrow>
          let es = sinter_elements (dict_order s) sets
          in (case dstkey of
                None \<Rightarrow> Some (reply_elements c es s)
              | Some dst \<Rightarrow> do {
                  so \<leftarrow> add_all (set_max_intset_entries s) (IntSet {||}) es;
                  store_result c i dst ''sinterstore'' so s })) }"

definition sinterCommand :: "nat \<Rightarrow> redisServer \<Rightarrow> redisServer option" where
  "sinterCommand c s = sinterGenericCommand c (drop 1 (c_argv (clients s ! c))) None s"

definition sinterstoreCommand :: "nat \<Rightarrow> redisServer \<Rightarrow> redisServer option" where
  "sinterstoreCommand c s = sinterGenericCommand c (drop 2 (c_argv (clients s ! c))) (Some (argv s c 1)) s"

section \<open>Union and difference\<close>

datatype set_op = REDIS_OP_UNION | REDIS_OP_DIFF

text \<open>Absent keys stay in the list as empty places.\<close>

fun sunion_sets ::
  "nat \<Rightarrow> nat \<Rightarrow> bool \<Rightarrow> bytes list \<Rightarrow> redisServer \<Rightarrow> (redisServer + setobj option list \<times> redisServer) option" where
  "sunion_sets c i store [] s = Some (Inr ([], s))"
| "sunion_sets c i store (key # keys) s = do {
     (o1, s) \<leftarrow> lookup_set store i key s;
     (case o1 of
        None \<Rightarrow> do {
          r \<leftarrow> sunion_sets c i store keys s;
          Some (case r of Inl s \<Rightarrow> Inl s | Inr (sos, s) \<Rightarrow> Inr (None # sos, s)) }
      | Some (SetObj so) \<Rightarrow> do {
          r \<leftarrow> sunion_sets c i store keys s;
          Some (case r of Inl s \<Rightarrow> Inl s | Inr (sos, s) \<Rightarrow> Inr (Some so # sos, s)) }
      | Some _ \<Rightarrow> Some (Inl (addReply c wrongtypeerr s))) }"

definition opt_size :: "setobj option \<Rightarrow> nat" where
  "opt_size so = (case so of None \<Rightarrow> 0 | Some so \<Rightarrow> setTypeSize so)"

text \<open>The work of the two algorithms of SDIFF, and the choice.\<close>

definition diff_algo :: "setobj option list \<Rightarrow> nat" where
  "diff_algo sets =
     (let algo_one_work = sum_list (map (\<lambda>so. if so = None then 0 else opt_size (hd sets)) sets) div 2;
          algo_two_work = sum_list (map opt_size sets)
      in if algo_one_work \<le> algo_two_work then 1 else 2)"

text \<open>\<open>qsort\<close> by decreasing size.\<close>

definition sort_rev :: "setobj option list \<Rightarrow> setobj option list" where
  "sort_rev sets = sort_key (\<lambda>so. - int (opt_size so)) sets"

definition opt_elements :: "(bytes fset \<Rightarrow> bytes list) \<Rightarrow> setobj option \<Rightarrow> strobj list" where
  "opt_elements ord so = (case so of None \<Rightarrow> [] | Some so \<Rightarrow> setTypeElements ord so)"

text \<open>The first algorithm tests each element of the first set against the others.\<close>

definition sdiff_test :: "setobj option list \<Rightarrow> strobj \<Rightarrow> bool" where
  "sdiff_test others e = list_all (\<lambda>so. case so of None \<Rightarrow> True | Some so \<Rightarrow> \<not> setTypeIsMember so e) others"

definition sdiff_one :: "nat \<Rightarrow> (bytes fset \<Rightarrow> bytes list) \<Rightarrow> setobj option list \<Rightarrow> setobj option" where
  "sdiff_one entries ord sets =
     add_all entries (IntSet {||})
       (filter (sdiff_test (sort_rev (tl sets))) (opt_elements ord (hd sets)))"

text \<open>The second algorithm removes the elements of the others from a copy of the first set, and stops
  when it is empty.\<close>

fun remove_all :: "setobj \<Rightarrow> strobj list \<Rightarrow> setobj" where
  "remove_all so [] = so"
| "remove_all so (e # es) = remove_all (fst (setTypeRemove so e)) es"

fun sdiff_remove :: "(bytes fset \<Rightarrow> bytes list) \<Rightarrow> setobj \<Rightarrow> setobj option list \<Rightarrow> setobj" where
  "sdiff_remove ord so [] = so"
| "sdiff_remove ord so (None # sos) = sdiff_remove ord so sos"
| "sdiff_remove ord so (Some t # sos) =
     (let so = remove_all so (setTypeElements ord t)
      in if setTypeSize so = 0 then so else sdiff_remove ord so sos)"

definition sdiff_two :: "nat \<Rightarrow> (bytes fset \<Rightarrow> bytes list) \<Rightarrow> setobj option list \<Rightarrow> setobj option" where
  "sdiff_two entries ord sets = do {
     so \<leftarrow> add_all entries (IntSet {||}) (opt_elements ord (hd sets));
     Some (if setTypeSize so = 0 then so else sdiff_remove ord so (tl sets)) }"

fun sunion_all :: "nat \<Rightarrow> (bytes fset \<Rightarrow> bytes list) \<Rightarrow> setobj \<Rightarrow> setobj option list \<Rightarrow> setobj option" where
  "sunion_all entries ord so [] = Some so"
| "sunion_all entries ord so (t # sos) = do {
     so \<leftarrow> add_all entries so (opt_elements ord t);
     sunion_all entries ord so sos }"

definition sunion_diff_result ::
  "set_op \<Rightarrow> nat \<Rightarrow> (bytes fset \<Rightarrow> bytes list) \<Rightarrow> setobj option list \<Rightarrow> setobj option" where
  "sunion_diff_result op1 entries ord sets =
     (if op1 = REDIS_OP_UNION then sunion_all entries ord (IntSet {||}) sets
      else if hd sets = None then Some (IntSet {||})
      else if diff_algo sets = 1 then sdiff_one entries ord sets
      else sdiff_two entries ord sets)"

definition sunionDiffGenericCommand ::
  "nat \<Rightarrow> bytes list \<Rightarrow> bytes option \<Rightarrow> set_op \<Rightarrow> redisServer \<Rightarrow> redisServer option" where
  "sunionDiffGenericCommand c setkeys dstkey op1 s = do {
     let i = cur_db s c;
     r \<leftarrow> sunion_sets c i (dstkey \<noteq> None) setkeys s;
     (case r of
        Inl s \<Rightarrow> Some s
      | Inr (sets, s) \<Rightarrow> do {
          so \<leftarrow> sunion_diff_result op1 (set_max_intset_entries s) (dict_order s) sets;
          (case dstkey of
             None \<Rightarrow> Some (reply_elements c (setTypeElements (dict_order s) so) s)
           | Some dst \<Rightarrow>
               store_result c i dst (if op1 = REDIS_OP_UNION then ''sunionstore'' else ''sdiffstore'') so s) }) }"

definition sunionCommand :: "nat \<Rightarrow> redisServer \<Rightarrow> redisServer option" where
  "sunionCommand c s = sunionDiffGenericCommand c (drop 1 (c_argv (clients s ! c))) None REDIS_OP_UNION s"

definition sunionstoreCommand :: "nat \<Rightarrow> redisServer \<Rightarrow> redisServer option" where
  "sunionstoreCommand c s =
     sunionDiffGenericCommand c (drop 2 (c_argv (clients s ! c))) (Some (argv s c 1)) REDIS_OP_UNION s"

definition sdiffCommand :: "nat \<Rightarrow> redisServer \<Rightarrow> redisServer option" where
  "sdiffCommand c s = sunionDiffGenericCommand c (drop 1 (c_argv (clients s ! c))) None REDIS_OP_DIFF s"

definition sdiffstoreCommand :: "nat \<Rightarrow> redisServer \<Rightarrow> redisServer option" where
  "sdiffstoreCommand c s =
     sunionDiffGenericCommand c (drop 2 (c_argv (clients s ! c))) (Some (argv s c 1)) REDIS_OP_DIFF s"

section \<open>Sets of strings\<close>

fun set_abs :: "setobj \<Rightarrow> bytes set" where
  "set_abs (HashSet S) = fset S"
| "set_abs (IntSet V) = int_string ` fset V"

lemma int_string_rep: "int_string n = llrep n"
  by (simp add: int_string_def createStringObjectFromLongLong_def ll2string_rep)

lemma llrep_inj: "llrep m = llrep n \<longleftrightarrow> m = n"
  using string2ll_rep [of m] string2ll_rep [of n] by (metis option.inject)

lemma repr_iff: "isObjectRepresentableAsLongLong v = Some n \<longleftrightarrow> getDecodedObject v = int_string n"
proof (cases v)
  case (Raw a)
  have "string2ll a = Some n \<longleftrightarrow> a = llrep n" using string2ll_canonical [of a n] string2ll_rep [of n] by metis
  then show ?thesis using Raw by (simp add: int_string_rep)
next
  case (IntEnc m)
  then show ?thesis by (simp add: int_string_rep ll2string_rep llrep_inj)
qed

lemma int_string_inj: "int_string m = int_string n \<longleftrightarrow> m = n"
  by (simp add: int_string_rep llrep_inj)

lemma repr_None: "isObjectRepresentableAsLongLong v = None \<Longrightarrow> getDecodedObject v \<notin> int_string ` V"
  using repr_iff [of v] by auto

lemma decoded_try [simp]: "getDecodedObject (tryObjectEncoding v) = getDecodedObject v"
proof (cases v)
  case (Raw a)
  have "llrep w = a" if "string2ll a = Some w" for w using string2ll_canonical [OF that] by simp
  then show ?thesis using Raw by (auto simp: string2l_def ll2string_rep split: option.split)
qed simp

lemma setTypeCreate_abs [simp]: "set_abs (setTypeCreate v) = {}"
  by (simp add: setTypeCreate_def)

lemma setTypeSize_card: "setTypeSize so = card (set_abs so)"
  by (cases so) (auto simp: fcard.rep_eq card_image inj_on_def int_string_inj)

lemma set_abs_finite [simp]: "finite (set_abs so)"
  by (cases so) simp_all

lemma size_0 [simp]: "setTypeSize so = 0 \<longleftrightarrow> set_abs so = {}"
  by (simp add: setTypeSize_card)

lemma size_pos [simp]: "0 < setTypeSize so \<longleftrightarrow> set_abs so \<noteq> {}"
  by (simp add: setTypeSize_card card_gt_0_iff)

lemma setTypeAdd_ok:
  obtains so' where "setTypeAdd n so v = Some (so', getDecodedObject v \<notin> set_abs so)"
    and "set_abs so' = insert (getDecodedObject v) (set_abs so)"
proof (cases so)
  case (HashSet S)
  then show ?thesis using that by (cases "getDecodedObject v |\<in>| S") (auto simp: Let_def insert_absorb)
next
  case (IntSet V)
  show ?thesis
  proof (cases "isObjectRepresentableAsLongLong v")
    case None
    then show ?thesis using that IntSet repr_None [OF None] by (auto simp: Let_def)
  next
    case (Some m)
    then have "getDecodedObject v = int_string m" by (simp add: repr_iff)
    moreover have "int_string m \<in> int_string ` fset V \<longleftrightarrow> m |\<in>| V" by (auto simp: int_string_inj)
    ultimately show ?thesis using that IntSet Some
      by (cases "m |\<in>| V"; cases "n < fcard (finsert m V)") (auto simp: Let_def insert_absorb)
  qed
qed

lemma setTypeRemove_ok:
  "snd (setTypeRemove so v) = (getDecodedObject v \<in> set_abs so)"
  "set_abs (fst (setTypeRemove so v)) = set_abs so - {getDecodedObject v}"
proof -
  have "snd (setTypeRemove so v) = (getDecodedObject v \<in> set_abs so) \<and>
    set_abs (fst (setTypeRemove so v)) = set_abs so - {getDecodedObject v}"
  proof (cases so)
    case (HashSet S)
    then show ?thesis by (auto simp: Let_def)
  next
    case (IntSet V)
    show ?thesis
    proof (cases "isObjectRepresentableAsLongLong v")
      case None
      then show ?thesis using IntSet repr_None [OF None] by auto
    next
      case (Some m)
      then have "getDecodedObject v = int_string m" by (simp add: repr_iff)
      then show ?thesis using IntSet Some by (auto simp: int_string_inj)
    qed
  qed
  then show "snd (setTypeRemove so v) = (getDecodedObject v \<in> set_abs so)"
    "set_abs (fst (setTypeRemove so v)) = set_abs so - {getDecodedObject v}" by simp_all
qed

lemma setTypeIsMember_iff: "setTypeIsMember so v \<longleftrightarrow> getDecodedObject v \<in> set_abs so"
proof (cases so)
  case (IntSet V)
  show ?thesis
  proof (cases "isObjectRepresentableAsLongLong v")
    case None
    then show ?thesis using IntSet repr_None [OF None] by auto
  next
    case (Some m)
    then have "getDecodedObject v = int_string m" by (simp add: repr_iff)
    then show ?thesis using IntSet Some by (auto simp: int_string_inj)
  qed
qed simp

lemma setTypeElements_ok:
  assumes "order_ok ord"
  shows "getDecodedObject ` set (setTypeElements ord so) = set_abs so"
    and "distinct (map getDecodedObject (setTypeElements ord so))"
proof -
  have "getDecodedObject ` set (setTypeElements ord so) = set_abs so \<and>
    distinct (map getDecodedObject (setTypeElements ord so))"
  proof (cases so)
    case (HashSet S)
    then show ?thesis using assms by (simp add: order_ok_def image_image comp_def)
  next
    case (IntSet V)
    let ?f = "\<lambda>n. int_string (word_of_int n)"
    have e: "map getDecodedObject (setTypeElements ord so) = map ?f (sorted_list_of_set (sint ` fset V))"
      by (simp add: IntSet int_string_def createStringObjectFromLongLong_def)
    have "inj_on ?f (sint ` fset V)" by (auto simp: inj_on_def int_string_inj)
    then have "distinct (map getDecodedObject (setTypeElements ord so))" unfolding e distinct_map by simp
    moreover have "set (map getDecodedObject (setTypeElements ord so)) = int_string ` fset V"
      unfolding e by (simp add: image_image)
    ultimately show ?thesis by (simp only: set_map IntSet set_abs.simps)
  qed
  then show "getDecodedObject ` set (setTypeElements ord so) = set_abs so"
    "distinct (map getDecodedObject (setTypeElements ord so))" by simp_all
qed

lemma add_all_ok:
  "\<exists>so'. add_all n so es = Some so' \<and> set_abs so' = set_abs so \<union> getDecodedObject ` set es"
proof (induction es arbitrary: so)
  case (Cons e es)
  obtain so1 where so1: "setTypeAdd n so e = Some (so1, getDecodedObject e \<notin> set_abs so)"
      "set_abs so1 = insert (getDecodedObject e) (set_abs so)" by (rule setTypeAdd_ok)
  then show ?case using Cons.IH [of so1] by auto
qed simp

lemma remove_all_ok: "set_abs (remove_all so es) = set_abs so - getDecodedObject ` set es"
  by (induction es arbitrary: so) (auto simp: setTypeRemove_ok)

definition opt_abs :: "setobj option \<Rightarrow> bytes set" where
  "opt_abs so = (case so of None \<Rightarrow> {} | Some so \<Rightarrow> set_abs so)"

lemma opt_elements_ok: "order_ok ord \<Longrightarrow> getDecodedObject ` set (opt_elements ord so) = opt_abs so"
  by (simp add: opt_elements_def opt_abs_def setTypeElements_ok split: option.split)

lemma sinter_test_iff: "sinter_test e so \<longleftrightarrow> getDecodedObject e \<in> set_abs so"
proof (cases "(e, so)" rule: sinter_test.cases)
  case (1 n V)
  then show ?thesis using setTypeIsMember_iff [of so e] by simp
qed (simp_all add: setTypeIsMember_iff)

lemma sinter_elements_ok:
  assumes "order_ok ord" and "sets \<noteq> []"
  shows "getDecodedObject ` set (sinter_elements ord sets) = \<Inter> (set_abs ` set sets)"
proof -
  define t where "t = sort_key setTypeSize sets"
  have t: "set t = set sets" "t \<noteq> []" using assms(2) by (auto simp: t_def simp flip: set_empty)
  have "sinter_elements ord sets = filter (\<lambda>e. list_all (sinter_test e) (tl t)) (setTypeElements ord (hd t))"
    by (simp add: sinter_elements_def t_def Let_def)
  then have "getDecodedObject ` set (sinter_elements ord sets) =
      {b \<in> set_abs (hd t). \<forall>so \<in> set (tl t). b \<in> set_abs so}"
    using setTypeElements_ok(1) [OF assms(1), of "hd t"]
    by (auto simp: list_all_iff sinter_test_iff)
  also have "\<dots> = \<Inter> (set_abs ` set t)" using t(2) by (cases t) auto
  finally show ?thesis by (simp add: t)
qed

lemma sunion_all_ok:
  assumes "order_ok ord"
  shows "\<exists>so'. sunion_all n ord so sets = Some so' \<and> set_abs so' = set_abs so \<union> \<Union> (opt_abs ` set sets)"
proof (induction sets arbitrary: so)
  case (Cons t sets)
  obtain so1 where "add_all n so (opt_elements ord t) = Some so1"
      "set_abs so1 = set_abs so \<union> opt_abs t"
    using add_all_ok [of n so "opt_elements ord t"] opt_elements_ok [OF assms, of t] by auto
  then show ?case using Cons.IH [of so1] by (auto simp: Un_assoc)
qed simp

lemma sdiff_remove_ok:
  assumes "order_ok ord"
  shows "set_abs (sdiff_remove ord so sets) = set_abs so - \<Union> (opt_abs ` set sets)"
proof (induction sets arbitrary: so)
  case (Cons t sets)
  show ?case
  proof (cases t)
    case None
    then show ?thesis using Cons.IH by (simp add: opt_abs_def)
  next
    case (Some t')
    define so1 where "so1 = remove_all so (setTypeElements ord t')"
    have "set_abs so1 = set_abs so - opt_abs t"
      by (simp add: so1_def remove_all_ok setTypeElements_ok [OF assms] Some opt_abs_def)
    moreover have "sdiff_remove ord so (t # sets) = (if setTypeSize so1 = 0 then so1 else sdiff_remove ord so1 sets)"
      by (simp add: so1_def Some Let_def)
    ultimately show ?thesis using Cons.IH [of so1] by (cases "set_abs so1 = {}") auto
  qed
qed simp

text \<open>Both algorithms compute the difference.\<close>

lemma image_filter: "(\<And>x. P x \<longleftrightarrow> f x \<notin> B) \<Longrightarrow> f ` set (filter P xs) = f ` set xs - B"
  by auto

lemma sdiff_test_iff: "sdiff_test (sort_rev sets) e \<longleftrightarrow> getDecodedObject e \<notin> \<Union> (opt_abs ` set sets)"
  by (auto simp: sdiff_test_def sort_rev_def list_all_iff opt_abs_def setTypeIsMember_iff split: option.splits)

lemma sdiff_one_ok:
  assumes "order_ok ord"
  shows "\<exists>so. sdiff_one n ord sets = Some so \<and> set_abs so = opt_abs (hd sets) - \<Union> (opt_abs ` set (tl sets))"
proof -
  define es where "es = filter (sdiff_test (sort_rev (tl sets))) (opt_elements ord (hd sets))"
  have "getDecodedObject ` set es = opt_abs (hd sets) - \<Union> (opt_abs ` set (tl sets))"
    unfolding es_def image_filter [of _ getDecodedObject, OF sdiff_test_iff] opt_elements_ok [OF assms] ..
  then show ?thesis using add_all_ok [of n "IntSet {||}" es] by (simp add: sdiff_one_def flip: es_def)
qed

lemma sdiff_two_ok:
  assumes "order_ok ord"
  shows "\<exists>so. sdiff_two n ord sets = Some so \<and> set_abs so = opt_abs (hd sets) - \<Union> (opt_abs ` set (tl sets))"
proof -
  obtain so where so: "add_all n (IntSet {||}) (opt_elements ord (hd sets)) = Some so" "set_abs so = opt_abs (hd sets)"
    using add_all_ok [of n "IntSet {||}" "opt_elements ord (hd sets)"] opt_elements_ok [OF assms, of "hd sets"]
    by auto
  then show ?thesis using sdiff_remove_ok [OF assms, of so "tl sets"] by (auto simp: sdiff_two_def)
qed

lemma sunion_diff_ok:
  assumes "order_ok ord"
  shows "\<exists>so. sunion_diff_result op1 n ord sets = Some so \<and> set_abs so =
    (if op1 = REDIS_OP_UNION then \<Union> (opt_abs ` set sets)
     else opt_abs (hd sets) - \<Union> (opt_abs ` set (tl sets)))"
  using sunion_all_ok [OF assms, of n "IntSet {||}" sets] sdiff_one_ok [OF assms, of n sets] sdiff_two_ok [OF assms, of n sets]
  by (auto simp: sunion_diff_result_def opt_abs_def)

text \<open>Even with an order that is no order the result exists.\<close>

lemma add_all_total: "\<exists>so'. add_all n so es = Some so'"
  using add_all_ok by blast

lemma sunion_all_total: "\<exists>so'. sunion_all n ord so sets = Some so'"
proof (induction sets arbitrary: so)
  case (Cons t sets)
  obtain so1 where "add_all n so (opt_elements ord t) = Some so1" using add_all_total by blast
  then show ?case using Cons.IH by simp
qed simp

lemma sunion_diff_total: "\<exists>so. sunion_diff_result op1 n ord sets = Some so"
proof -
  obtain so where "add_all n (IntSet {||}) (opt_elements ord (hd sets)) = Some so" using add_all_total by blast
  then show ?thesis using sunion_all_total add_all_total [of n "IntSet {||}"]
    by (auto simp: sunion_diff_result_def sdiff_one_def sdiff_two_def)
qed

section \<open>Adding and removing elements\<close>

lemma sadd_loop_ok:
  "\<exists>so' added'. sadd_loop n as so added = Some (so', added') \<and> set_abs so' = set_abs so \<union> set as \<and>
    added' = added + card (set as - set_abs so)"
proof (induction as arbitrary: so added)
  case (Cons a as)
  obtain so1 where so1: "setTypeAdd n so (tryObjectEncoding (Raw a)) = Some (so1, a \<notin> set_abs so)"
      "set_abs so1 = insert a (set_abs so)"
    using setTypeAdd_ok [of n so "tryObjectEncoding (Raw a)"] by (metis decoded_try getDecodedObject.simps(1))
  have "set (a # as) - set_abs so = (if a \<in> set_abs so then {} else {a}) \<union> (set as - set_abs so1)"
    using so1(2) by auto
  moreover have "(if a \<in> set_abs so then {} else {a}) \<inter> (set as - set_abs so1) = {}" using so1(2) by auto
  ultimately have "card (set (a # as) - set_abs so) = (if a \<in> set_abs so then 0 else 1) + card (set as - set_abs so1)"
    by (simp add: card_Un_disjoint)
  then show ?case using so1 Cons.IH [of so1 "if a \<notin> set_abs so then added + 1 else added"] by auto
qed simp

lemma srem_loop_ok:
  "srem_loop as so deleted = (so', deleted', keyremoved) \<Longrightarrow>
    set_abs so' = set_abs so - set as \<and> deleted' = deleted + card (set as \<inter> set_abs so) \<and>
    (keyremoved \<longrightarrow> set_abs so' = {}) \<and> (set_abs so \<noteq> {} \<longrightarrow> \<not> keyremoved \<longrightarrow> set_abs so' \<noteq> {})"
proof (induction as arbitrary: so deleted)
  case (Cons a as)
  define so1 where "so1 = fst (setTypeRemove so (Raw a))"
  have so1: "setTypeRemove so (Raw a) = (so1, a \<in> set_abs so)" "set_abs so1 = set_abs so - {a}"
    using setTypeRemove_ok [of so "Raw a"] by (simp_all add: so1_def prod_eq_iff)
  have c: "card (set (a # as) \<inter> set_abs so) = (if a \<in> set_abs so then 1 else 0) + card (set as \<inter> set_abs so1)"
  proof -
    have "set (a # as) \<inter> set_abs so = (if a \<in> set_abs so then {a} else {}) \<union> (set as \<inter> set_abs so1)"
      using so1(2) by auto
    moreover have "(if a \<in> set_abs so then {a} else {}) \<inter> (set as \<inter> set_abs so1) = {}" using so1(2) by auto
    ultimately show ?thesis by (simp add: card_Un_disjoint)
  qed
  show ?case
  proof (cases "a \<in> set_abs so")
    case False
    then show ?thesis using Cons.prems Cons.IH [of so1 deleted] so1 c by auto
  next
    case True
    show ?thesis
    proof (cases "set_abs so1 = {}")
      case e: True
      then have "so' = so1" "deleted' = deleted + 1" "keyremoved" using Cons.prems so1 True by auto
      then show ?thesis using so1 c True e by auto
    next
      case ne: False
      then have r: "srem_loop as so1 (deleted + 1) = (so', deleted', keyremoved)" using Cons.prems so1 True by auto
      show ?thesis using Cons.IH [OF r] so1 c True ne by auto
    qed
  qed
qed auto

section \<open>Safety\<close>

lemma hollow_set [simp]: "hollow (SetObj so) \<longleftrightarrow> set_abs so = {}"
  by (cases so) auto

lemma safe_sadd_set:
  assumes "upd i {} s0 s \<or> upd i {key} s0 s" and "i < length (dbs s0)" and "sees i key (Some w) s"
    and "upd i {} s0 s \<or> set (drop 2 (c_argv (clients s ! c))) - set_abs so \<noteq> {}"
  shows "safe_res i s0 (sadd_set c i key so s)"
proof -
  obtain so' where so': "sadd_loop (set_max_intset_entries s) (drop 2 (c_argv (clients s ! c))) so 0 =
      Some (so', card (set (drop 2 (c_argv (clients s ! c))) - set_abs so))"
      "set_abs so' = set_abs so \<union> set (drop 2 (c_argv (clients s ! c)))"
    using sadd_loop_ok [of "set_max_intset_entries s" "drop 2 (c_argv (clients s ! c))" so 0] by auto
  have u: "upd i {key} s0 s" using assms(1) upd_mono by blast
  show ?thesis
  proof (cases "set (drop 2 (c_argv (clients s ! c))) - set_abs so = {}")
    case True
    then have z: "card (set (drop 2 (c_argv (clients s ! c))) - set_abs so) = 0" by simp
    show ?thesis using so'(1) [unfolded z] True assms(4) unfolding sadd_set_def by (auto intro!: safe_steps upd_intros)
  next
    case False
    then have "card (set (drop 2 (c_argv (clients s ! c))) - set_abs so) > 0" by (simp add: card_gt_0_iff)
    moreover have "set_abs so' \<noteq> {}" using False so'(2) by auto
    ultimately show ?thesis using so'(1) unfolding sadd_set_def
      by (auto intro!: safe_steps upd_intros upd_signal1 upd_store1(2) u assms(2,3))
  qed
qed

lemma safe_sadd_cases:
  "upd i {} s0 s \<Longrightarrow> i < length (dbs s0) \<Longrightarrow> sees i key (Some w) s \<Longrightarrow> safe_res i s0 (sadd_set c i key so s)"
  "upd i {key} s0 s \<Longrightarrow> i < length (dbs s0) \<Longrightarrow> sees i key (Some w) s \<Longrightarrow> 3 \<le> argc s c \<Longrightarrow>
    safe_res i s0 (sadd_set c i key (setTypeCreate v) s)"
proof -
  have "drop 2 (c_argv (clients s ! c)) \<noteq> []" if "3 \<le> argc s c" using that by (simp add: argc_def)
  then show "upd i {key} s0 s \<Longrightarrow> i < length (dbs s0) \<Longrightarrow> sees i key (Some w) s \<Longrightarrow> 3 \<le> argc s c \<Longrightarrow>
    safe_res i s0 (sadd_set c i key (setTypeCreate v) s)"
    by (intro safe_sadd_set) simp_all
qed (blast intro: safe_sadd_set)

lemma safe_sadd: "safe_for (- 3) saddCommand"
proof (rule safe_forI)
  fix s c
  assume a: "upd (cur_db s c) {} s s" "cur_db s c < length (dbs s)" "arity_ok (- 3) (argc s c)"
  then have "3 \<le> argc s c" by (simp add: arity_ok_def)
  then show "safe_res (cur_db s c) s (saddCommand c s)"
    unfolding saddCommand_def Let_def using a(1,2)
    apply (auto split: option.split robj.split intro!: safe_steps upd_intros dest!: same_viewD)
     apply (rule safe_sadd_cases(2), assumption+, simp)
    apply (rule safe_sadd_cases(1), assumption+)
    done
qed

lemma upd_key_removed:
  assumes "upd i {} s0 s" and "i < length (dbs s0)" and "sees i key (Some w) s" and "wf_obj v" and "hollow v \<longrightarrow> b"
  shows "upd i {} s0 (signalModifiedKey i key (if b then snd (dbDelete i key (storeObject i key v s)) else storeObject i key v s))"
proof -
  have u: "upd i {key} s0 (storeObject i key v s)" by (rule upd_store1(1) [OF assms(1-4)])
  have d: "upd i {key} s0 (snd (dbDelete i key (storeObject i key v s)))" by (rule upd_dbDelete_same [OF u assms(2)])
  show ?thesis using assms(5) by (intro upd_signal1 [OF _ assms(2)]) (auto simp: u d)
qed

lemma srem_left: "srem_loop as so 0 = (so', n, False) \<Longrightarrow> 0 < n \<Longrightarrow> set_abs so' \<noteq> {}"
  using srem_loop_ok [of as so 0 so' n False] by auto

lemma safe_srem: "safe_command sremCommand"
  unfolding sremCommand_def Let_def
  by (rule safe_commandI')
    (auto split: option.split robj.split prod.split dest!: srem_left intro!: safe_steps pending_intros)

lemma safe_set_reads:
  "safe_command sismemberCommand" "safe_command scardCommand" "safe_command srandmemberCommand"
  unfolding sismemberCommand_def scardCommand_def srandmemberCommand_def
  by (rule safe_commandI'; auto split: option.split robj.split intro!: safe_steps upd_intros)+

lemma safe_spop: "safe_command spopCommand"
  unfolding spopCommand_def Let_def
  by (rule safe_commandI')
    (auto split: option.split robj.split prod.split intro!: safe_steps pending_intros)

text \<open>The destination of SMOVE is signalled before it is changed.\<close>

lemma safe_smove_dst:
  assumes u: "upd i {dst} s0 s" and "marked s0 s i dst" and "i < length (dbs s0)" and "sees i dst (Some (SetObj so)) s"
    and "upd i {} s0 s \<or> set_abs so = {}"
  shows "safe_res i s0 (smove_dst c i dst ele so s)"
proof -
  obtain so' b where so': "setTypeAdd (set_max_intset_entries s) so ele = Some (so', b)"
      "set_abs so' = insert (getDecodedObject ele) (set_abs so)" "b \<longleftrightarrow> getDecodedObject ele \<notin> set_abs so"
    using setTypeAdd_ok [of "set_max_intset_entries s" so ele] by metis
  define s1 where "s1 = (if b then notifyKeyspaceEvent NSet ''sadd'' dst i (add_dirty 1 (storeObject i dst (SetObj so') s)) else s)"
  have "upd i {} s0 s1"
  proof (cases b)
    case True
    have us: "upd i {dst} s0 (storeObject i dst (SetObj so') s)" by (rule upd_store1(2) [OF u assms(3,4)]) simp
    have "marked s0 (storeObject i dst (SetObj so') s) i dst"
      using assms(2) by (simp add: marked_def storeObject_def frame_simps)
    then have "upd i {} s0 (storeObject i dst (SetObj so') s)" using upd_marked [OF us, of dst] so'(2) by simp
    then show ?thesis using True by (simp add: s1_def upd_log)
  next
    case False
    then show ?thesis using assms(5) so'(3) by (auto simp: s1_def)
  qed
  moreover have "smove_dst c i dst ele so s = Some (addReply c cone s1)"
    using so'(1) by (simp add: smove_dst_def s1_def Let_def)
  ultimately show ?thesis by (simp add: safe_Some upd_addReply)
qed

lemma safe_smove_src:
  assumes u: "upd i {} s0 s" and i: "i < length (dbs s0)" and src: "sees i src (Some w) s"
    and dst: "sees i dst o2 s" and ne: "src \<noteq> dst" and ty: "\<And>v. o2 = Some v \<Longrightarrow> otype v = REDIS_SET"
  shows "safe_res i s0 (smove_src c i src dst ele so o2 s)"
proof -
  define so1 where "so1 = fst (setTypeRemove so ele)"
  define s1 where "s1 = notifyKeyspaceEvent NSet ''srem'' src i (storeObject i src (SetObj so1) s)"
  define s2 where "s2 = (if setTypeSize so1 = 0 then notifyKeyspaceEvent NGeneric ''del'' src i (snd (dbDelete i src s1)) else s1)"
  define s3 where "s3 = add_dirty 1 (signalModifiedKey i dst (signalModifiedKey i src s2))"
  have u1: "upd i {src} s0 s1" unfolding s1_def by (intro upd_log upd_store1(1) [OF u i src]) simp
  have u2: "upd i {src} s0 s2" unfolding s2_def using u1 by (auto intro!: upd_log upd_dbDelete_same i)
  have u3': "upd i {} s0 (signalModifiedKey i src s2)" 
    by (rule upd_signal1 [OF u2 i]) (simp add: s2_def s1_def)
  have u3: "upd i {} s0 s3" unfolding s3_def by (intro upd_log upd_signal_any u3' i)
  have d3: "sees i dst o2 s3"
    unfolding s3_def s2_def s1_def using dst ne [symmetric]
    by (auto intro: sees_store_other intro!: sees_dbDelete_other)
  have m3: "marked s0 s3 i dst"
    using signal_marks [OF u3' i, of dst] by (simp add: s3_def marked_def add_dirty_def)
  have e: "smove_src c i src dst ele so o2 s =
    (if \<not> snd (setTypeRemove so ele) then Some (addReply c czero s)
     else (case o2 of
             Some (SetObj dso) \<Rightarrow> smove_dst c i dst ele dso s3
           | _ \<Rightarrow> do { s \<leftarrow> dbAdd i dst (SetObj (setTypeCreate ele)) s3; smove_dst c i dst ele (setTypeCreate ele) s }))"
    unfolding smove_src_def case_prod_unfold Let_def so1_def s1_def s2_def s3_def by (rule refl)
  have "safe_res i s0 (case o2 of
             Some (SetObj dso) \<Rightarrow> smove_dst c i dst ele dso s3
           | _ \<Rightarrow> do { s \<leftarrow> dbAdd i dst (SetObj (setTypeCreate ele)) s3; smove_dst c i dst ele (setTypeCreate ele) s })"
  proof (cases o2)
    case None
    obtain s4 where s4: "dbAdd i dst (SetObj (setTypeCreate ele)) s3 = Some s4"
      using d3 None dbAdd_ok [of s3 i dst] by (auto simp: sees_def)
    have d4: "sees i dst (Some (SetObj (setTypeCreate ele))) s4"
      using sees_dbAdd [OF upd_srv_ok [OF u3] _ s4] d3 None by simp
    have "marked s0 s4 i dst" using m3 db_ops_frame(1) [OF s4] by (simp add: marked_def)
    then have "safe_res i s0 (smove_dst c i dst ele (setTypeCreate ele) s4)"
      using upd_dbAdd [OF u3 i s4] i d4 by (intro safe_smove_dst) simp_all
    then show ?thesis by (simp add: s4 None)
  next
    case (Some v)
    then obtain dso where v: "v = SetObj dso" using ty [OF Some] by (cases v) auto
    have "safe_res i s0 (smove_dst c i dst ele dso s3)"
      using u3 d3 Some v by (intro safe_smove_dst [OF _ m3 i]) (auto intro: upd_mono)
    then show ?thesis by (simp add: Some v)
  qed
  then show ?thesis using u unfolding e by (auto intro!: safe_steps upd_intros)
qed

lemma safe_smove: "safe_command smoveCommand"
proof (rule safe_commandI')
  fix s c
  let ?i = "cur_db s c" and ?src = "argv s c 1" and ?dst = "argv s c 2"
  assume a: "cur_db s c < length (dbs s)" "upd (cur_db s c) {} s s"
  have "safe_res ?i s (case o1 of None \<Rightarrow> Some (addReply c czero s2)
      | Some (SetObj so) \<Rightarrow>
          (case o2 of
             Some v \<Rightarrow> if otype v \<noteq> REDIS_SET then Some (addReply c wrongtypeerr s2)
                       else if ?src = ?dst then Some (addReply c cone s2)
                       else smove_src c ?i ?src ?dst ele so o2 s2
           | None \<Rightarrow> smove_src c ?i ?src ?dst ele so o2 s2)
      | Some _ \<Rightarrow> Some (addReply c wrongtypeerr s2))" (is "safe_res _ _ ?r")
    if u: "upd ?i {} s s2" and o: "sees ?i ?src o1 s2" "sees ?i ?dst o2 s2" for o1 o2 s2 ele
  proof (cases "\<exists>so. o1 = Some (SetObj so)")
    case True
    then obtain so where so: "o1 = Some (SetObj so)" by blast
    then have ne: "?src \<noteq> ?dst" if "o2 = None" using o that by (auto simp: sees_def)
    show ?thesis
      using safe_smove_src [OF u a(1) o(1) [unfolded so] o(2), of c ele so] ne u so
      by (cases o2) (auto intro!: safe_steps upd_intros)
  qed (use u in \<open>auto intro!: safe_steps upd_intros split: option.split robj.split\<close>)
  then show "safe_res ?i s (smoveCommand c s)"
    unfolding smoveCommand_def Let_def
    using a by (auto intro!: safe_lookupKeyWrite [OF a(2,1)] safe_lookupKeyWrite_keep)
qed

text \<open>The loops that look up the sets, and the result stored or replied.\<close>

lemma lookup_set_ok:
  assumes "upd i {} s0 s" and "i < length (dbs s0)"
  obtains v s' where "lookup_set b i k s = Some (v, s')" and "upd i {} s0 s'"
proof -
  have "safe_res i s0 (lookup_set b i k s \<bind> (\<lambda>(v, s'). Some s'))"
    using assms by (cases b) (auto simp: lookup_set_def intro!: safe_steps)
  then show ?thesis using that by (cases "lookup_set b i k s") (auto simp: safe_res_def)
qed

lemma sinter_sets_safe:
  "upd i {} s0 s \<Longrightarrow> i < length (dbs s0) \<Longrightarrow> safe_sum i s0 (sinter_sets c i dst keys s)"
proof (induction keys arbitrary: s)
  case (Cons key keys)
  obtain v s1 where l: "lookup_set (dst \<noteq> None) i key s = Some (v, s1)" and u: "upd i {} s0 s1"
    by (rule lookup_set_ok [OF Cons.prems])
  have "upd i {} s0 (signalModifiedKey i d (snd (dbDelete i d s1)))" for d
    by (intro upd_signal1 upd_dbDelete1 u Cons.prems(2)) simp
  moreover have "upd i {} s0 (snd (dbDelete i d s1))" if "\<not> fst (dbDelete i d s1)" for d
    using that u Cons.prems(2) by (intro upd_dbDelete_absent)
  ultimately show ?case using l u Cons.IH [OF u Cons.prems(2)]
    by (auto simp: safe_sum_def Let_def case_prod_beta intro!: upd_intros split: option.split robj.split)
qed (simp add: safe_sum_def)

lemma sunion_sets_safe:
  "upd i {} s0 s \<Longrightarrow> i < length (dbs s0) \<Longrightarrow> safe_sum i s0 (sunion_sets c i b keys s)"
proof (induction keys arbitrary: s)
  case (Cons key keys)
  obtain v s1 where l: "lookup_set b i key s = Some (v, s1)" and u: "upd i {} s0 s1"
    by (rule lookup_set_ok [OF Cons.prems])
  then show ?case using Cons.IH [OF u Cons.prems(2)]
    by (auto simp: safe_sum_def intro!: upd_intros split: option.split robj.split)
qed (simp add: safe_sum_def)

lemma safe_store_result:
  assumes u: "upd i {} s0 s" and i: "i < length (dbs s0)"
  shows "safe_res i s0 (store_result c i dst e so s)"
proof -
  define s1 where "s1 = snd (dbDelete i dst s)"
  have u1: "upd i {dst} s0 s1" unfolding s1_def by (rule upd_dbDelete1 [OF u i])
  have "i < length (dbs s)" using i upd_len [OF u] by simp
  then have n1: "sees i dst None s1" unfolding s1_def by (rule sees_dbDelete [OF upd_srv_ok [OF u]])
  show ?thesis
  proof (cases "setTypeSize so > 0")
    case False
    moreover have "\<not> hollow_at s1 i dst" by (simp add: s1_def)
    ultimately show ?thesis using u1 i
      by (auto simp: store_result_def Let_def case_prod_beta simp flip: s1_def intro!: safe_steps upd_log pending_intros)
  next
    case True
    have "safe_res i s0 (dbAdd i dst (SetObj so) s1 \<bind>
      (\<lambda>s. Some (add_dirty 1 (signalModifiedKey i dst (notifyKeyspaceEvent NSet e dst i
         (addReply c (Integer (int (setTypeSize so))) s))))))"
      using True by (intro safe_dbAdd [OF u1 i n1]) (auto intro!: safe_steps upd_log pending_intros i)
    then show ?thesis using True
      by (simp add: store_result_def Let_def case_prod_beta flip: s1_def)
  qed
qed

lemma upd_reply_elements: "upd i K s0 s \<Longrightarrow> upd i K s0 (reply_elements c es s)"
proof -
  have "upd i K s0 s \<Longrightarrow> upd i K s0 (fold (\<lambda>e. addReply c (Bulk (getDecodedObject e))) es s)" for s
    by (induction es arbitrary: s) (auto intro: upd_addReply)
  then show "upd i K s0 s \<Longrightarrow> upd i K s0 (reply_elements c es s)" by (simp add: reply_elements_def upd_addReply)
qed

lemma safe_sinter: "safe_command (\<lambda>c s. sinterGenericCommand c (f c s) (g c s) s)"
proof (rule safe_commandI')
  fix s c
  assume a: "cur_db s c < length (dbs s)" "upd (cur_db s c) {} s s"
  show "safe_res (cur_db s c) s (sinterGenericCommand c (f c s) (g c s) s)"
    using sinter_sets_safe [OF a(2,1), of c "g c s" "f c s"]
  proof (cases rule: safe_sumE)
    case 1
    then show ?thesis by (simp add: sinterGenericCommand_def safe_Some)
  next
    case (2 sets s1)
    obtain so where "add_all (set_max_intset_entries s1) (IntSet {||}) (sinter_elements (dict_order s1) sets) = Some so"
      using add_all_total by blast
    then show ?thesis using 2 a(1)
      by (auto simp: sinterGenericCommand_def Let_def split: option.split
          intro!: safe_Some upd_reply_elements safe_store_result)
  qed
qed

lemma safe_sunion_diff: "safe_command (\<lambda>c s. sunionDiffGenericCommand c (f c s) (g c s) op1 s)"
proof (rule safe_commandI')
  fix s c
  assume a: "cur_db s c < length (dbs s)" "upd (cur_db s c) {} s s"
  show "safe_res (cur_db s c) s (sunionDiffGenericCommand c (f c s) (g c s) op1 s)"
    using sunion_sets_safe [OF a(2,1), of c "g c s \<noteq> None" "f c s"]
  proof (cases rule: safe_sumE)
    case 1
    then show ?thesis by (simp add: sunionDiffGenericCommand_def safe_Some)
  next
    case (2 sets s1)
    obtain so where "sunion_diff_result op1 (set_max_intset_entries s1) (dict_order s1) sets = Some so"
      using sunion_diff_total by blast
    then show ?thesis using 2 a(1)
      by (auto simp: sunionDiffGenericCommand_def Let_def split: option.split
          intro!: safe_Some upd_reply_elements safe_store_result)
  qed
qed

lemma safe_set_algebra:
  "safe_command sinterCommand" "safe_command sinterstoreCommand" "safe_command sunionCommand"
  "safe_command sunionstoreCommand" "safe_command sdiffCommand" "safe_command sdiffstoreCommand"
  unfolding sinterCommand_def [abs_def] sinterstoreCommand_def [abs_def] sunionCommand_def [abs_def]
    sunionstoreCommand_def [abs_def] sdiffCommand_def [abs_def] sdiffstoreCommand_def [abs_def]
  by (rule safe_sinter safe_sunion_diff)+

lemmas set_safe = safe_srem safe_set_reads safe_spop safe_smove safe_set_algebra

section \<open>The encoding after SADD\<close>

fun is_intset :: "setobj \<Rightarrow> bool" where
  "is_intset (IntSet V) = True"
| "is_intset (HashSet S) = False"

lemma is_intset_ints: "is_intset so \<Longrightarrow> set_abs so \<subseteq> range int_string"
  by (cases so) auto

lemma setTypeAdd_encoding:
  assumes "setTypeAdd n so v = Some (so', b)"
  shows "is_intset so' \<longleftrightarrow> is_intset so \<and>
    (getDecodedObject v \<in> set_abs so \<or> getDecodedObject v \<in> range int_string \<and> card (set_abs so') \<le> n)"
proof (cases so)
  case (HashSet S)
  then show ?thesis using assms by (auto simp: Let_def split: if_splits)
next
  case (IntSet V)
  show ?thesis
  proof (cases "isObjectRepresentableAsLongLong v")
    case None
    then have "getDecodedObject v \<notin> range int_string" by (rule repr_None)
    then show ?thesis using None assms IntSet by (auto simp: Let_def split: if_splits)
  next
    case (Some m)
    then have d: "getDecodedObject v = int_string m" by (simp add: repr_iff)
    show ?thesis
    proof (cases "m |\<in>| V")
      case True
      then show ?thesis using Some assms IntSet d by auto
    next
      case False
      have e: "set_abs so' = set_abs (IntSet (finsert m V))"
        using setTypeAdd_ok [of n so v] assms IntSet d by (metis finsert.rep_eq fst_conv image_insert option.inject set_abs.simps(2))
      have "int_string m \<notin> int_string ` fset V"
        using setTypeAdd_ok [of n so v] repr_iff [of v] Some d False by (metis image_iff option.inject)
      then show ?thesis
        using Some assms IntSet d False setTypeSize_card [of "IntSet (finsert m V)"] unfolding e by (auto simp: Let_def split: if_splits)
    qed
  qed
qed

lemma sadd_loop_encoding:
  "sadd_loop n as so k = Some (so', k') \<Longrightarrow> is_intset so' \<longleftrightarrow> is_intset so \<and>
     (set as \<subseteq> set_abs so \<or> set as \<subseteq> range int_string \<and> card (set_abs so') \<le> n)"
proof (induction as arbitrary: so k)
  case (Cons a as)
  obtain so1 b where so1: "setTypeAdd n so (tryObjectEncoding (Raw a)) = Some (so1, b)"
      "sadd_loop n as so1 (if b then k + 1 else k) = Some (so', k')"
    using Cons.prems by (auto simp: bind_eq_Some_conv split: prod.splits)
  have d: "getDecodedObject (tryObjectEncoding (Raw a)) = a" by (metis decoded_try getDecodedObject.simps(1))
  have a1: "set_abs so1 = insert a (set_abs so)"
    using setTypeAdd_ok [of n so "tryObjectEncoding (Raw a)"] so1(1) d by (metis fst_conv option.inject)
  have a2: "set_abs so' = set_abs so1 \<union> set as"
    using sadd_loop_ok [of n as so1 "if b then k + 1 else k"] so1(2) by auto
  have c: "card (set_abs so1) \<le> card (set_abs so')" using a2 by (intro card_mono) auto
  note IH = Cons.IH [OF so1(2)] and step = setTypeAdd_encoding [OF so1(1), unfolded d]
  note ints = is_intset_ints [of so] is_intset_ints [of so1]
  show ?case
  proof (cases "a \<in> set_abs so")
    case True
    then have "set_abs so1 = set_abs so" using a1 by (simp add: insert_absorb)
    then show ?thesis using IH step ints True by auto
  next
    case False
    show ?thesis
    proof (cases "set as \<subseteq> set_abs so1")
      case True
      then have "set_abs so' = set_abs so1" using a2 by blast
      then show ?thesis using IH step ints True False a1 by auto
    next
      case as: False
      then have "\<not> set (a # as) \<subseteq> set_abs so" using a1 by auto
      then show ?thesis using IH step False as c by (metis insert_subset le_trans list.simps(15))
    qed
  qed
qed simp

section \<open>What SADD and SREM store\<close>

lemma sadd_set_ok:
  assumes o1: "sees i key (Some (SetObj so)) s" and c: "c < length (clients s)"
  defines "as \<equiv> drop 2 (c_argv (clients s ! c))"
  shows "\<exists>s' so'. sadd_set c i key so s = Some s' \<and> visible s' i key = Some (SetObj so') \<and>
    set_abs so' = set_abs so \<union> set as \<and> (\<forall>k. k \<noteq> key \<longrightarrow> visible s' i k = visible s i k) \<and>
    last (c_replies (clients s' ! c)) = Integer (int (card (set as - set_abs so))) \<and>
    (is_intset so' \<longleftrightarrow> is_intset so \<and>
      (set as \<subseteq> set_abs so \<or> set as \<subseteq> range int_string \<and> card (set_abs so') \<le> set_max_intset_entries s))"
proof -
  define n where "n = card (set as - set_abs so)"
  obtain so' where so': "sadd_loop (set_max_intset_entries s) as so 0 = Some (so', n)" "set_abs so' = set_abs so \<union> set as"
    using sadd_loop_ok [of "set_max_intset_entries s" as so 0] by (auto simp: n_def)
  define s1 where "s1 = (if n > 0
    then notifyKeyspaceEvent NSet ''sadd'' key i (signalModifiedKey i key (storeObject i key (SetObj so') s)) else s)"
  have e: "sadd_set c i key so s = Some (addReply c (Integer (int n)) (add_dirty (int n) s1))"
    using so'(1) by (simp add: sadd_set_def as_def s1_def Let_def)
  have "c < length (clients (add_dirty (int n) s1))"
    using c by (simp add: s1_def add_dirty_def notifyKeyspaceEvent_def frame_simps storeObject_def)
  moreover have "visible s1 i k = visible s i k" if "k \<noteq> key" for k
    using that o1 by (simp add: s1_def visible_store_other sees_def)
  moreover have "visible s1 i key = Some (SetObj (if n > 0 then so' else so))"
    using sees_store [OF o1, of "SetObj so'"] o1 by (simp add: s1_def sees_def)
  moreover have "set_abs (if n > 0 then so' else so) = set_abs so \<union> set as"
    using so'(2) by (auto simp: n_def card_gt_0_iff)
  moreover have "n = 0 \<longleftrightarrow> set as \<subseteq> set_abs so" by (auto simp: n_def card_gt_0_iff)
  then have "is_intset (if n > 0 then so' else so) \<longleftrightarrow> is_intset so \<and>
      (set as \<subseteq> set_abs so \<or> set as \<subseteq> range int_string \<and> card (set_abs so') \<le> set_max_intset_entries s)"
    using sadd_loop_encoding [OF so'(1)] by auto
  moreover note so'(2)
  ultimately show ?thesis unfolding e
    by (intro exI [of _ "addReply c (Integer (int n)) (add_dirty (int n) s1)"] exI [of _ "if n > 0 then so' else so"])
      (auto simp: last_reply n_def)
qed

lemma sadd_ok:
  assumes ok: "srv_ok s" "c < length (clients s)"
    and so: "visible s (cur_db s c) (argv s c 1) = map_option SetObj o1"
  defines "as \<equiv> drop 2 (c_argv (clients s ! c))"
  shows "\<exists>s' so'. saddCommand c s = Some s' \<and> visible s' (cur_db s c) (argv s c 1) = Some (SetObj so') \<and>
    set_abs so' = opt_abs o1 \<union> set as \<and>
    (\<forall>k. k \<noteq> argv s c 1 \<longrightarrow> visible s' (cur_db s c) k = visible s (cur_db s c) k) \<and>
    last (c_replies (clients s' ! c)) = Integer (int (card (set as - opt_abs o1))) \<and>
    (is_intset so' \<longleftrightarrow> is_intset (case o1 of None \<Rightarrow> setTypeCreate (Raw (argv s c 2)) | Some so \<Rightarrow> so) \<and>
      (set as \<subseteq> opt_abs o1 \<or> set as \<subseteq> range int_string \<and> card (set_abs so') \<le> set_max_intset_entries s))"
proof -
  let ?i = "cur_db s c" and ?key = "argv s c 1"
  have i: "?i < length (dbs s)" by (rule cur_db_less [OF ok])
  obtain s1 where s1: "lookupKeyWrite ?i ?key s = Some (visible s ?i ?key, s1)" "quiet ?i s s1"
      "fmlookup (db_dict (dbs s1 ! ?i)) ?key = visible s ?i ?key" by (rule lookupKeyWrite_ok [OF ok(1) i])
  note q = quietD [OF s1(2)]
  have sees1: "sees ?i ?key (map_option SetObj o1) s1" using s1(3) q i so by (simp add: sees_def)
  have cl: "clients s1 = clients s" using s1(2) by (simp add: quiet_def)
  have o1: "only_key ?i ?key s s1" by (rule only_key_lookup [OF only_key_refl s1(1)])
  have m1: "set_max_intset_entries s1 = set_max_intset_entries s" by (rule settings_eq(1) [OF only_keyD(3) [OF o1]])
  show ?thesis
  proof (cases o1)
    case (Some so)
    then show ?thesis using sadd_set_ok [of ?i ?key so s1 c] m1 sees1 s1(1) so q cl ok(2)
      by (simp add: saddCommand_def opt_abs_def as_def)
  next
    case None
    define so where "so = setTypeCreate (Raw (argv s c 2))"
    obtain s2 where s2: "dbAdd ?i ?key (SetObj so) s1 = Some s2"
      using dbAdd_ok [of s1 ?i ?key] sees1 None by (auto simp: sees_def)
    have "sees ?i ?key (Some (SetObj so)) s2" using sees_dbAdd [OF q(5) _ s2] sees1 None by simp
    moreover have "clients s2 = clients s" using db_ops_frame(1) [OF s2] cl by simp
    moreover have "saddCommand c s = sadd_set c ?i ?key so s2"
      using s1(1) so None s2 cl by (simp add: saddCommand_def so_def argv_def)
    moreover have "visible s2 ?i k = visible s ?i k" if "k \<noteq> ?key" for k
      using visible_dbAdd [OF q(5) _ s2, of k] that q i by simp
    moreover have "set_max_intset_entries s2 = set_max_intset_entries s"
      using only_keyD(3) [OF only_key_opts(1) [OF o1 s2]] by (rule settings_eq(1))
    ultimately show ?thesis using sadd_set_ok [of ?i ?key so s2 c] None ok(2)
      by (simp add: opt_abs_def as_def so_def)
  qed
qed

text \<open>SREM of elements of a set: the key goes with the last element.\<close>

lemma srem_ok:
  assumes ok: "srv_ok s" "c < length (clients s)"
    and so: "visible s (cur_db s c) (argv s c 1) = Some (SetObj so)" and ne: "set_abs so \<noteq> {}"
  defines "as \<equiv> drop 2 (c_argv (clients s ! c))"
  shows "\<exists>s'. sremCommand c s = Some s' \<and>
    map_option otype (visible s' (cur_db s c) (argv s c 1)) = (if set_abs so \<subseteq> set as then None else Some REDIS_SET) \<and>
    (\<forall>so'. visible s' (cur_db s c) (argv s c 1) = Some (SetObj so') \<longrightarrow> set_abs so' = set_abs so - set as) \<and>
    last (c_replies (clients s' ! c)) = Integer (int (card (set as \<inter> set_abs so)))"
proof -
  let ?i = "cur_db s c" and ?key = "argv s c 1"
  have i: "?i < length (dbs s)" by (rule cur_db_less [OF ok])
  obtain s1 where s1: "lookupKeyWrite ?i ?key s = Some (visible s ?i ?key, s1)" "quiet ?i s s1"
      "fmlookup (db_dict (dbs s1 ! ?i)) ?key = visible s ?i ?key" by (rule lookupKeyWrite_ok [OF ok(1) i])
  note q = quietD [OF s1(2)]
  have sees1: "sees ?i ?key (Some (SetObj so)) s1" using s1(3) q i so by (simp add: sees_def)
  have cl: "clients s1 = clients s" using s1(2) by (simp add: quiet_def)
  obtain so' n gone where r: "srem_loop as so 0 = (so', n, gone)" by (metis prod_cases3)
  have r': "set_abs so' = set_abs so - set as" "n = card (set as \<inter> set_abs so)" "gone = (set_abs so' = {})"
    using srem_loop_ok [OF r] ne by auto
  define s2 where "s2 = storeObject ?i ?key (SetObj so') s1"
  define s3 where "s3 = (if gone then snd (dbDelete ?i ?key s2) else s2)"
  have u2: "srv_ok s2" "?i < length (dbs s2)"
    using upd_srv_ok [OF upd_store1(1) [OF upd_refl [OF q(5)] _ sees1]] i q(6)
    by (simp_all add: s2_def) (simp add: storeObject_def frame_simps)
  have v3: "visible s3 ?i ?key = (if gone then None else Some (SetObj so'))"
    using sees_store [OF sees1, of "SetObj so'"] visible_dbDelete [OF u2(2), of ?key ?i ?key]
    by (simp add: s3_def s2_def sees_def)
  have c3: "clients s3 = clients s" by (simp add: s3_def s2_def db_ops_frame storeObject_def frame_simps cl)
  define s4 where "s4 = notifyKeyspaceEvent NSet ''srem'' ?key ?i (signalModifiedKey ?i ?key s3)"
  define s5 where "s5 = (if gone then notifyKeyspaceEvent NGeneric ''del'' ?key ?i s4 else s4)"
  define s6 where "s6 = (if n > 0 then add_dirty (int n) s5 else s1)"
  have e: "sremCommand c s = Some (addReply c (Integer (int n)) s6)"
    using s1(1) so r unfolding as_def s6_def s5_def s4_def s3_def s2_def
    by (simp add: sremCommand_def lookupKeyWriteOrReply_def Let_def cl)
  have "c < length (clients s6)"
    using ok(2) by (simp add: s6_def s5_def s4_def add_dirty_def notifyKeyspaceEvent_def frame_simps c3 cl)
  moreover have "visible s6 ?i ?key = (if n > 0 then visible s3 ?i ?key else Some (SetObj so))"
    using sees1 by (simp add: s6_def s5_def s4_def sees_def)
  moreover have "n = 0 \<longleftrightarrow> set as \<inter> set_abs so = {}" using r'(2) by simp
  moreover have "gone \<longleftrightarrow> set_abs so \<subseteq> set as" using r' by auto
  ultimately show ?thesis unfolding e using r' v3 ne by (auto simp: last_reply)
qed

section \<open>Properties\<close>

text \<open>C5: The set operations are those of sets of strings, whatever the encodings of the operands, the
  limit on intsets, the order of the hash tables and the algorithm chosen: SINTER collects the
  intersection, SUNION the union and SDIFF, by either of its two algorithms, what is in the first set
  and in none of the others. Absent keys count as empty sets.\<close>

theorem set_algebra:
  assumes "order_ok ord" and "sets \<noteq> []"
  shows "getDecodedObject ` set (sinter_elements ord sets) = \<Inter> (set_abs ` set sets) \<and>
    (\<exists>so. sunion_diff_result REDIS_OP_UNION n ord osets = Some so \<and> set_abs so = \<Union> (opt_abs ` set osets)) \<and>
    (\<exists>so. sunion_diff_result REDIS_OP_DIFF n ord osets = Some so \<and>
       set_abs so = opt_abs (hd osets) - \<Union> (opt_abs ` set (tl osets)))"
  using sinter_elements_ok [OF assms] sunion_diff_ok [OF assms(1), of REDIS_OP_UNION n osets]
    sunion_diff_ok [OF assms(1), of REDIS_OP_DIFF n osets] by simp

theorem set_algebra_witness:
  "getDecodedObject ` set (sinter_elements (dict_order (watched_server [] [])) [HashSet {|[97], [98]|}, HashSet {|[98]|}]) = {[98]}"
  using set_algebra [OF dict_order_ok, of "[HashSet {|[97], [98]|}, HashSet {|[98]|}]"] by simp

text \<open>C35: SADD leaves under the key the set with the arguments added, creating it when absent; it leaves
  other keys alone, and replies with the number of arguments, duplicates aside, that were not members. The
  set is an intset afterwards exactly when it was one (or is new and its first argument is an integer)
  and either nothing was added, or all the arguments are integers and the set is not larger than the limit
  on intsets.\<close>

theorem sadd_adds:
  assumes "srv_ok s" and "c < length (clients s)"
    and "visible s (cur_db s c) (argv s c 1) = map_option SetObj o1"
  shows "\<exists>s' so'. saddCommand c s = Some s' \<and> visible s' (cur_db s c) (argv s c 1) = Some (SetObj so') \<and>
    set_abs so' = opt_abs o1 \<union> set (drop 2 (c_argv (clients s ! c))) \<and>
    (\<forall>k. k \<noteq> argv s c 1 \<longrightarrow> visible s' (cur_db s c) k = visible s (cur_db s c) k) \<and>
    last (c_replies (clients s' ! c)) = Integer (int (card (set (drop 2 (c_argv (clients s ! c))) - opt_abs o1))) \<and>
    (is_intset so' \<longleftrightarrow> is_intset (case o1 of None \<Rightarrow> setTypeCreate (Raw (argv s c 2)) | Some so \<Rightarrow> so) \<and>
      (set (drop 2 (c_argv (clients s ! c))) \<subseteq> opt_abs o1 \<or>
       set (drop 2 (c_argv (clients s ! c))) \<subseteq> range int_string \<and> card (set_abs so') \<le> set_max_intset_entries s))"
  by (rule sadd_ok [OF assms])

theorem sadd_adds_witness:
  "\<exists>s' so'. saddCommand 0 (holding (SetObj (HashSet {|[97]|})) [ascii ''SADD'', key_k, [97], [98]]) = Some s' \<and>
     visible s' 0 key_k = Some (SetObj so') \<and> set_abs so' = {[97], [98]} \<and>
     last (c_replies (clients s' ! 0)) = Integer 1"
  using sadd_adds [of "holding (SetObj (HashSet {|[97]|})) [ascii ''SADD'', key_k, [97], [98]]" 0 "Some (HashSet {|[97]|})"]
  by (auto simp: holding_ok opt_abs_def insert_Diff_if insert_commute)

text \<open>C34: SREM removes the arguments from the set, deletes the key exactly when no element is left, and
  replies with the number of elements removed.\<close>

theorem srem_removes:
  assumes "srv_ok s" and "c < length (clients s)"
    and "visible s (cur_db s c) (argv s c 1) = Some (SetObj so)" and "set_abs so \<noteq> {}"
  shows "\<exists>s'. sremCommand c s = Some s' \<and>
    map_option otype (visible s' (cur_db s c) (argv s c 1)) =
      (if set_abs so \<subseteq> set (drop 2 (c_argv (clients s ! c))) then None else Some REDIS_SET) \<and>
    (\<forall>so'. visible s' (cur_db s c) (argv s c 1) = Some (SetObj so') \<longrightarrow>
       set_abs so' = set_abs so - set (drop 2 (c_argv (clients s ! c)))) \<and>
    last (c_replies (clients s' ! c)) = Integer (int (card (set (drop 2 (c_argv (clients s ! c))) \<inter> set_abs so)))"
  by (rule srem_ok [OF assms])

theorem srem_removes_witness:
  "\<exists>s'. sremCommand 0 (holding (SetObj (HashSet {|[97]|})) [ascii ''SREM'', key_k, [97], [98]]) = Some s' \<and>
     visible s' 0 key_k = None \<and> last (c_replies (clients s' ! 0)) = Integer 1"
  using srem_removes [of "holding (SetObj (HashSet {|[97]|})) [ascii ''SREM'', key_k, [97], [98]]" 0 "HashSet {|[97]|}"]
  by (auto simp: holding_ok)

text \<open>Every set command always answers, keeps the invariant of the server, and marks every client
  that watches a key whose value it changes; SADD when it has at least one element to add, which the
  table of commands requires.\<close>

theorem set_commands_safe:
  "safe_for (- 3) saddCommand \<and> safe_command sremCommand \<and> safe_command smoveCommand \<and>
   safe_command spopCommand \<and> safe_command sismemberCommand \<and> safe_command scardCommand \<and>
   safe_command sinterCommand \<and> safe_command sinterstoreCommand \<and> safe_command sunionCommand \<and>
   safe_command sunionstoreCommand \<and> safe_command sdiffCommand \<and> safe_command sdiffstoreCommand"
  by (simp add: set_safe safe_sadd)

end
