(* ===== verification/T_hash.thy ===== *)
theory T_hash
  imports T_string
begin

text \<open>
  Redis t_hash.c: hashes in their two encodings and the commands on hashes. A ziplist is given by its
  pairs of field and value in order; fields and values are kept decoded, and an object made of one is
  the encoding of its string, as the code stores it in both encodings. HINCRBYFLOAT and HSCAN are
  left out.

  The lemmas relate every operation to the finite map \<open>hash_abs\<close>, for hashes whose ziplist has no
  field twice.
\<close>

section \<open>Operations on the two encodings\<close>

text \<open>The entry of a field in a ziplist is replaced in place, a new one is pushed at the tail.\<close>

fun zip_put :: "bytes \<Rightarrow> bytes \<Rightarrow> (bytes \<times> bytes) list \<Rightarrow> (bytes \<times> bytes) list" where
  "zip_put f v [] = [(f, v)]"
| "zip_put f v ((g, w) # ps) = (if g = f then (g, v) # ps else (g, w) # zip_put f v ps)"

fun zip_remove :: "bytes \<Rightarrow> (bytes \<times> bytes) list \<Rightarrow> (bytes \<times> bytes) list" where
  "zip_remove f [] = []"
| "zip_remove f ((g, w) # ps) = (if g = f then ps else (g, w) # zip_remove f ps)"

text \<open>A field that occurs twice fails the assertion of the conversion.\<close>

fun hashTypeConvertZiplist :: "(bytes \<times> bytes) list \<Rightarrow> (bytes, bytes) fmap \<Rightarrow> (bytes, bytes) fmap option" where
  "hashTypeConvertZiplist [] m = Some m"
| "hashTypeConvertZiplist ((f, v) # ps) m =
     (if fmlookup m f \<noteq> None then None else hashTypeConvertZiplist ps (fmupd f v m))"

fun hashTypeConvert :: "hashobj \<Rightarrow> hashobj option" where
  "hashTypeConvert (ZipHash ps) = map_option TableHash (hashTypeConvertZiplist ps fmempty)"
| "hashTypeConvert (TableHash m) = None"

text \<open>The arguments of a command are not encoded yet.\<close>

fun hashTypeTryConversion :: "nat \<Rightarrow> hashobj \<Rightarrow> bytes list \<Rightarrow> hashobj option" where
  "hashTypeTryConversion max_value (TableHash m) args = Some (TableHash m)"
| "hashTypeTryConversion max_value (ZipHash ps) args =
     (if list_ex (\<lambda>a. length a > max_value) args then hashTypeConvert (ZipHash ps) else Some (ZipHash ps))"

fun hashTypeTryObjectEncoding :: "hashobj \<Rightarrow> strobj \<Rightarrow> strobj" where
  "hashTypeTryObjectEncoding (TableHash m) o1 = tryObjectEncoding o1"
| "hashTypeTryObjectEncoding (ZipHash ps) o1 = o1"

definition hashTypeGetFromZiplist :: "(bytes \<times> bytes) list \<Rightarrow> strobj \<Rightarrow> bytes option" where
  "hashTypeGetFromZiplist ps field = map_of ps (getDecodedObject field)"

definition hashTypeGetFromHashTable :: "(bytes, bytes) fmap \<Rightarrow> strobj \<Rightarrow> bytes option" where
  "hashTypeGetFromHashTable m field = fmlookup m (getDecodedObject field)"

fun hash_get :: "hashobj \<Rightarrow> strobj \<Rightarrow> bytes option" where
  "hash_get (ZipHash ps) field = hashTypeGetFromZiplist ps field"
| "hash_get (TableHash m) field = hashTypeGetFromHashTable m field"

definition hashTypeGetObject :: "hashobj \<Rightarrow> strobj \<Rightarrow> strobj option" where
  "hashTypeGetObject h field = map_option (\<lambda>v. tryObjectEncoding (Raw v)) (hash_get h field)"

definition hashTypeExists :: "hashobj \<Rightarrow> strobj \<Rightarrow> bool" where
  "hashTypeExists h field \<longleftrightarrow> hash_get h field \<noteq> None"

fun hashTypeLength :: "hashobj \<Rightarrow> nat" where
  "hashTypeLength (ZipHash ps) = length ps"
| "hashTypeLength (TableHash m) = fcard (fmdom m)"

text \<open>The hash and whether the field was there.\<close>

fun hashTypeSet :: "nat \<Rightarrow> hashobj \<Rightarrow> strobj \<Rightarrow> strobj \<Rightarrow> (hashobj \<times> bool) option" where
  "hashTypeSet entries (ZipHash ps) field val =
     (let f = getDecodedObject field;
          update = (map_of ps f \<noteq> None);
          h = ZipHash (zip_put f (getDecodedObject val) ps)
      in if hashTypeLength h > entries then map_option (\<lambda>h. (h, update)) (hashTypeConvert h)
         else Some (h, update))"
| "hashTypeSet entries (TableHash m) field val =
     (let f = getDecodedObject field
      in Some (TableHash (fmupd f (getDecodedObject val) m), fmlookup m f \<noteq> None))"

fun hashTypeDelete :: "hashobj \<Rightarrow> strobj \<Rightarrow> hashobj \<times> bool" where
  "hashTypeDelete (ZipHash ps) field =
     (let f = getDecodedObject field
      in if map_of ps f \<noteq> None then (ZipHash (zip_remove f ps), True) else (ZipHash ps, False))"
| "hashTypeDelete (TableHash m) field =
     (let f = getDecodedObject field
      in if fmlookup m f \<noteq> None then (TableHash (fmdrop f m), True) else (TableHash m, False))"

text \<open>The entries in the order of the iterator.\<close>

fun hashTypeNext_list :: "(bytes fset \<Rightarrow> bytes list) \<Rightarrow> hashobj \<Rightarrow> (bytes \<times> bytes) list" where
  "hashTypeNext_list ord (ZipHash ps) = ps"
| "hashTypeNext_list ord (TableHash m) = map (\<lambda>f. (f, the (fmlookup m f))) (ord (fmdom m))"

section \<open>Commands\<close>

definition hashTypeLookupWriteOrCreate ::
  "nat \<Rightarrow> bytes \<Rightarrow> redisServer \<Rightarrow> (redisServer + hashobj \<times> redisServer) option" where
  "hashTypeLookupWriteOrCreate c key s = do {
     let i = cur_db s c;
     (o1, s) \<leftarrow> lookupKeyWrite i key s;
     (case o1 of
        None \<Rightarrow> do {
          s \<leftarrow> dbAdd i key (HashObj (ZipHash [])) s;
          Some (Inr (ZipHash [], s)) }
      | Some (HashObj h) \<Rightarrow> Some (Inr (h, s))
      | Some _ \<Rightarrow> Some (Inl (addReply c wrongtypeerr s))) }"

definition hsetCommand :: "nat \<Rightarrow> redisServer \<Rightarrow> redisServer option" where
  "hsetCommand c s = do {
     let i = cur_db s c;
     let key = argv s c 1;
     r \<leftarrow> hashTypeLookupWriteOrCreate c key s;
     (case r of
        Inl s \<Rightarrow> Some s
      | Inr (h, s) \<Rightarrow> do {
          h \<leftarrow> hashTypeTryConversion (hash_max_ziplist_value s) h [argv s c 2, argv s c 3];
          let field = hashTypeTryObjectEncoding h (Raw (argv s c 2));
          let val = hashTypeTryObjectEncoding h (Raw (argv s c 3));
          (h, update) \<leftarrow> hashTypeSet (hash_max_ziplist_entries s) h field val;
          let s = storeObject i key (HashObj h) s;
          let s = addReply c (if update then czero else cone) s;
          let s = signalModifiedKey i key s;
          let s = notifyKeyspaceEvent NHash ''hset'' key i s;
          Some (add_dirty 1 s) }) }"

text \<open>HSETNX converts the hash even when the field is there and nothing is set.\<close>

definition hsetnxCommand :: "nat \<Rightarrow> redisServer \<Rightarrow> redisServer option" where
  "hsetnxCommand c s = do {
     let i = cur_db s c;
     let key = argv s c 1;
     r \<leftarrow> hashTypeLookupWriteOrCreate c key s;
     (case r of
        Inl s \<Rightarrow> Some s
      | Inr (h, s) \<Rightarrow> do {
          h \<leftarrow> hashTypeTryConversion (hash_max_ziplist_value s) h [argv s c 2, argv s c 3];
          let s = storeObject i key (HashObj h) s;
          if hashTypeExists h (Raw (argv s c 2)) then Some (addReply c czero s)
          else do {
            let field = hashTypeTryObjectEncoding h (Raw (argv s c 2));
            let val = hashTypeTryObjectEncoding h (Raw (argv s c 3));
            (h, _) \<leftarrow> hashTypeSet (hash_max_ziplist_entries s) h field val;
            let s = storeObject i key (HashObj h) s;
            let s = addReply c cone s;
            let s = signalModifiedKey i key s;
            let s = notifyKeyspaceEvent NHash ''hset'' key i s;
            Some (add_dirty 1 s) } }) }"

fun hmset_loop :: "nat \<Rightarrow> bytes list \<Rightarrow> hashobj \<Rightarrow> hashobj option" where
  "hmset_loop entries (f # v # as) h = do {
     (h, _) \<leftarrow> hashTypeSet entries h (hashTypeTryObjectEncoding h (Raw f)) (hashTypeTryObjectEncoding h (Raw v));
     hmset_loop entries as h }"
| "hmset_loop entries _ h = Some h"

definition hmsetCommand :: "nat \<Rightarrow> redisServer \<Rightarrow> redisServer option" where
  "hmsetCommand c s =
     (if argc s c mod 2 = 1 then Some (addReply c (Error ''ERR wrong number of arguments for HMSET'') s)
      else do {
        let i = cur_db s c;
        let key = argv s c 1;
        let args = drop 2 (c_argv (clients s ! c));
        r \<leftarrow> hashTypeLookupWriteOrCreate c key s;
        (case r of
           Inl s \<Rightarrow> Some s
         | Inr (h, s) \<Rightarrow> do {
             h \<leftarrow> hashTypeTryConversion (hash_max_ziplist_value s) h args;
             h \<leftarrow> hmset_loop (hash_max_ziplist_entries s) args h;
             let s = storeObject i key (HashObj h) s;
             let s = addReply c ok_reply s;
             let s = signalModifiedKey i key s;
             let s = notifyKeyspaceEvent NHash ''hset'' key i s;
             Some (add_dirty 1 s) }) })"

text \<open>The number in the field, or the reply that it is none.\<close>

definition hincrby_value :: "nat \<Rightarrow> hashobj \<Rightarrow> strobj \<Rightarrow> redisServer \<Rightarrow> redisServer + u64" where
  "hincrby_value c h field s =
     (case hashTypeGetObject h field of
        None \<Rightarrow> Inr 0
      | Some cur \<Rightarrow> getLongLongFromObjectOrReply c (Some cur) (Error ''ERR hash value is not an integer'') s)"

definition hincrbyCommand :: "nat \<Rightarrow> redisServer \<Rightarrow> redisServer option" where
  "hincrbyCommand c s =
     (case getLongLongFromObjectOrReply c (Some (Raw (argv s c 3))) not_an_integer s of
        Inl s \<Rightarrow> Some s
      | Inr incr \<Rightarrow> do {
          let i = cur_db s c;
          let key = argv s c 1;
          r \<leftarrow> hashTypeLookupWriteOrCreate c key s;
          (case r of
             Inl s \<Rightarrow> Some s
           | Inr (h, s) \<Rightarrow>
             (case hincrby_value c h (Raw (argv s c 2)) s of
                Inl s \<Rightarrow> Some s
              | Inr oldvalue \<Rightarrow>
                if incr_overflows oldvalue incr then
                  Some (addReply c (Error ''ERR increment or decrement would overflow'') s)
                else do {
                  let value = oldvalue + incr;
                  let new = createStringObjectFromLongLong value;
                  let field = hashTypeTryObjectEncoding h (Raw (argv s c 2));
                  (h, _) \<leftarrow> hashTypeSet (hash_max_ziplist_entries s) h field new;
                  let s = storeObject i key (HashObj h) s;
                  let s = addReply c (Integer (sint value)) s;
                  let s = signalModifiedKey i key s;
                  let s = notifyKeyspaceEvent NHash ''hincrby'' key i s;
                  Some (add_dirty 1 s) })) })"

definition addHashFieldToReply :: "nat \<Rightarrow> hashobj option \<Rightarrow> bytes \<Rightarrow> redisServer \<Rightarrow> redisServer" where
  "addHashFieldToReply c h field s =
     (case h of
        None \<Rightarrow> addReply c NullBulk s
      | Some h \<Rightarrow>
          (case hash_get h (Raw field) of
             None \<Rightarrow> addReply c NullBulk s
           | Some v \<Rightarrow> addReply c (Bulk v) s))"

definition hgetCommand :: "nat \<Rightarrow> redisServer \<Rightarrow> redisServer option" where
  "hgetCommand c s = do {
     (o1, s) \<leftarrow> lookupKeyReadOrReply c (argv s c 1) NullBulk s;
     (case o1 of
        None \<Rightarrow> Some s
      | Some (HashObj h) \<Rightarrow> Some (addHashFieldToReply c (Some h) (argv s c 2) s)
      | Some _ \<Rightarrow> Some (addReply c wrongtypeerr s)) }"

definition hmget_reply :: "nat \<Rightarrow> hashobj option \<Rightarrow> redisServer \<Rightarrow> redisServer" where
  "hmget_reply c h s =
     (let args = drop 2 (c_argv (clients s ! c))
      in fold (addHashFieldToReply c h) args (addReply c (MultiBulkLen (int (argc s c) - 2)) s))"

definition hmgetCommand :: "nat \<Rightarrow> redisServer \<Rightarrow> redisServer option" where
  "hmgetCommand c s = do {
     (o1, s) \<leftarrow> lookupKeyRead (cur_db s c) (argv s c 1) s;
     (case o1 of
        None \<Rightarrow> Some (hmget_reply c None s)
      | Some (HashObj h) \<Rightarrow> Some (hmget_reply c (Some h) s)
      | Some _ \<Rightarrow> Some (addReply c wrongtypeerr s)) }"

fun hdel_loop :: "bytes list \<Rightarrow> hashobj \<Rightarrow> nat \<Rightarrow> hashobj \<times> nat \<times> bool" where
  "hdel_loop [] h deleted = (h, deleted, False)"
| "hdel_loop (a # as) h deleted =
     (case hashTypeDelete h (Raw a) of (h, gone) \<Rightarrow>
        if gone then (if hashTypeLength h = 0 then (h, deleted + 1, True) else hdel_loop as h (deleted + 1))
        else hdel_loop as h deleted)"

definition hdelCommand :: "nat \<Rightarrow> redisServer \<Rightarrow> redisServer option" where
  "hdelCommand c s = do {
     let i = cur_db s c;
     let key = argv s c 1;
     (o1, s) \<leftarrow> lookupKeyWriteOrReply c key czero s;
     (case o1 of
        None \<Rightarrow> Some s
      | Some (HashObj h) \<Rightarrow>
          (case hdel_loop (drop 2 (c_argv (clients s ! c))) h 0 of (h, deleted, keyremoved) \<Rightarrow>
             let s = (if deleted > 0 then
                        let s = storeObject i key (HashObj h) s;
                            s = (if keyremoved then snd (dbDelete i key s) else s);
                            s = signalModifiedKey i key s;
                            s = notifyKeyspaceEvent NHash ''hdel'' key i s;
                            s = (if keyremoved then notifyKeyspaceEvent NGeneric ''del'' key i s else s)
                        in add_dirty (int deleted) s
                      else s)
             in Some (addReply c (Integer (int deleted)) s))
      | Some _ \<Rightarrow> Some (addReply c wrongtypeerr s)) }"

definition hlenCommand :: "nat \<Rightarrow> redisServer \<Rightarrow> redisServer option" where
  "hlenCommand c s = do {
     (o1, s) \<leftarrow> lookupKeyReadOrReply c (argv s c 1) czero s;
     (case o1 of
        None \<Rightarrow> Some s
      | Some (HashObj h) \<Rightarrow> Some (addReply c (Integer (int (hashTypeLength h))) s)
      | Some _ \<Rightarrow> Some (addReply c wrongtypeerr s)) }"

text \<open>The replies for one entry, and the assertion on their number.\<close>

definition hgetall_entry :: "bool \<Rightarrow> bool \<Rightarrow> bytes \<times> bytes \<Rightarrow> bytes list" where
  "hgetall_entry keys vals e = (if keys then [fst e] else []) @ (if vals then [snd e] else [])"

definition genericHgetallCommand :: "nat \<Rightarrow> bool \<Rightarrow> bool \<Rightarrow> redisServer \<Rightarrow> redisServer option" where
  "genericHgetallCommand c keys vals s = do {
     (o1, s) \<leftarrow> lookupKeyReadOrReply c (argv s c 1) (MultiBulkLen 0) s;
     (case o1 of
        None \<Rightarrow> Some s
      | Some (HashObj h) \<Rightarrow> do {
          let multiplier = (if keys then 1 else 0) + (if vals then 1 else 0);
          let length1 = hashTypeLength h * multiplier;
          let es = concat (map (hgetall_entry keys vals) (hashTypeNext_list (dict_order s) h));
          let s = fold (\<lambda>e. addReply c (Bulk e)) es (addReply c (MultiBulkLen (int length1)) s);
          if length es = length1 then Some s else None }
      | Some _ \<Rightarrow> Some (addReply c wrongtypeerr s)) }"

definition hkeysCommand :: "nat \<Rightarrow> redisServer \<Rightarrow> redisServer option" where
  "hkeysCommand c s = genericHgetallCommand c True False s"

definition hvalsCommand :: "nat \<Rightarrow> redisServer \<Rightarrow> redisServer option" where
  "hvalsCommand c s = genericHgetallCommand c False True s"

definition hgetallCommand :: "nat \<Rightarrow> redisServer \<Rightarrow> redisServer option" where
  "hgetallCommand c s = genericHgetallCommand c True True s"

definition hexistsCommand :: "nat \<Rightarrow> redisServer \<Rightarrow> redisServer option" where
  "hexistsCommand c s = do {
     (o1, s) \<leftarrow> lookupKeyReadOrReply c (argv s c 1) czero s;
     (case o1 of
        None \<Rightarrow> Some s
      | Some (HashObj h) \<Rightarrow> Some (addReply c (if hashTypeExists h (Raw (argv s c 2)) then cone else czero) s)
      | Some _ \<Rightarrow> Some (addReply c wrongtypeerr s)) }"

section \<open>Hashes as finite maps\<close>

fun hash_abs :: "hashobj \<Rightarrow> (bytes, bytes) fmap" where
  "hash_abs (ZipHash ps) = fmap_of_list ps"
| "hash_abs (TableHash m) = m"

abbreviation hash_wf :: "hashobj \<Rightarrow> bool" where
  "hash_wf h \<equiv> wf_obj (HashObj h)"

lemma plain_hash: "plain (HashObj h) = HashObj (TableHash (hash_abs h))"
  by (cases h) simp_all

lemma map_of_put: "map_of (zip_put f v ps) = (map_of ps)(f \<mapsto> v)"
  by (induction f v ps rule: zip_put.induct) auto

lemma set_put: "fst ` set (zip_put f v ps) = insert f (fst ` set ps)"
  by (induction f v ps rule: zip_put.induct) auto

lemma distinct_put: "distinct (map fst ps) \<Longrightarrow> distinct (map fst (zip_put f v ps))"
  by (induction f v ps rule: zip_put.induct) (auto simp: set_put)

lemma put_abs: "fmap_of_list (zip_put f v ps) = fmupd f v (fmap_of_list ps)"
  by (rule fmap_ext) (simp add: fmlookup_of_list map_of_put)

lemma set_remove_le: "fst ` set (zip_remove f ps) \<subseteq> fst ` set ps"
  by (induction f ps rule: zip_remove.induct) auto

lemma distinct_remove: "distinct (map fst ps) \<Longrightarrow> distinct (map fst (zip_remove f ps))"
proof (induction f ps rule: zip_remove.induct)
  case (2 f g w ps)
  then show ?case using set_remove_le [of f ps] by auto
qed simp

lemma remove_abs: "distinct (map fst ps) \<Longrightarrow> fmap_of_list (zip_remove f ps) = fmdrop f (fmap_of_list ps)"
proof (induction f ps rule: zip_remove.induct)
  case (2 f g w ps)
  then show ?case
    by (auto intro!: fmap_ext simp: fmlookup_of_list map_of_eq_None_iff)
qed simp

lemma convert_loop_ok:
  "distinct (map fst ps) \<Longrightarrow> \<forall>f \<in> fst ` set ps. fmlookup m f = None \<Longrightarrow>
     \<exists>m'. hashTypeConvertZiplist ps m = Some m' \<and>
       (\<forall>k. fmlookup m' k = (case map_of ps k of None \<Rightarrow> fmlookup m k | Some v \<Rightarrow> Some v))"
proof (induction ps m rule: hashTypeConvertZiplist.induct)
  case (2 f v ps m)
  have "\<forall>g \<in> fst ` set ps. fmlookup (fmupd f v m) g = None" using 2(2,3) by auto
  then obtain m' where "hashTypeConvertZiplist ps (fmupd f v m) = Some m'"
      "\<forall>k. fmlookup m' k = (case map_of ps k of None \<Rightarrow> fmlookup (fmupd f v m) k | Some v \<Rightarrow> Some v)"
    using 2 by auto
  moreover have "map_of ps f = None" using 2(2) by (simp add: map_of_eq_None_iff)
  ultimately show ?case using 2(3) by (auto split: option.split)
qed (simp split: option.split)

lemma hashTypeConvert_ok:
  "hash_wf (ZipHash ps) \<Longrightarrow> \<exists>h'. hashTypeConvert (ZipHash ps) = Some h' \<and> hash_wf h' \<and>
     hash_abs h' = fmap_of_list ps"
proof -
  assume "hash_wf (ZipHash ps)"
  then obtain m' where "hashTypeConvertZiplist ps fmempty = Some m'"
      "\<forall>k. fmlookup m' k = (case map_of ps k of None \<Rightarrow> None | Some v \<Rightarrow> Some v)"
    using convert_loop_ok [of ps fmempty] by (auto cong: option.case_cong)
  then show ?thesis by (auto intro!: fmap_ext simp: fmlookup_of_list split: option.split)
qed

lemma tryConversion_ok:
  assumes "hash_wf h"
  obtains h' where "hashTypeTryConversion n h args = Some h'" and "hash_wf h'" and "hash_abs h' = hash_abs h"
proof (cases h)
  case (ZipHash ps)
  then show ?thesis using assms hashTypeConvert_ok [of ps] that by (cases "list_ex (\<lambda>a. length a > n) args") auto
qed (use assms that in simp)

lemma decoded_enc [simp]: "getDecodedObject (tryObjectEncoding (Raw a)) = a"
  using decoded_encoded [of a] by (simp add: encoded_def)

declare tryObjectEncoding.simps(2) [simp del]

lemma decoded_try_hash [simp]: "getDecodedObject (hashTypeTryObjectEncoding h (Raw a)) = a"
  by (cases h) simp_all

lemma hash_get_abs: "hash_get h field = fmlookup (hash_abs h) (getDecodedObject field)"
  by (cases h) (simp_all add: hashTypeGetFromZiplist_def hashTypeGetFromHashTable_def fmlookup_of_list)

lemma hashTypeSet_ok:
  assumes "hash_wf h"
  obtains h' where "hashTypeSet n h field val = Some (h', fmlookup (hash_abs h) (getDecodedObject field) \<noteq> None)"
    and "hash_wf h'" and "hash_abs h' = fmupd (getDecodedObject field) (getDecodedObject val) (hash_abs h)"
proof (cases h)
  case (ZipHash ps)
  define ps' where "ps' = zip_put (getDecodedObject field) (getDecodedObject val) ps"
  have wf: "hash_wf (ZipHash ps')" using assms ZipHash by (simp add: ps'_def distinct_put)
  have abs: "fmap_of_list ps' = fmupd (getDecodedObject field) (getDecodedObject val) (hash_abs h)"
    by (simp add: ps'_def put_abs ZipHash)
  have old: "map_of ps (getDecodedObject field) = fmlookup (hash_abs h) (getDecodedObject field)"
    by (simp add: ZipHash fmlookup_of_list)
  obtain h2 where h2: "hashTypeConvert (ZipHash ps') = Some h2" "hash_wf h2" "hash_abs h2 = fmap_of_list ps'"
    using hashTypeConvert_ok [OF wf] by blast
  show ?thesis
  proof (cases "length ps' > n")
    case True
    then show ?thesis using that [of h2] h2 abs old by (simp add: ZipHash Let_def ps'_def)
  next
    case False
    then show ?thesis using that [of "ZipHash ps'"] wf abs old by (simp add: ZipHash Let_def ps'_def)
  qed
next
  case (TableHash m)
  then show ?thesis using that by (simp add: Let_def)
qed

lemma hashTypeSet_ex:
  "hash_wf h \<Longrightarrow> \<exists>h'. hashTypeSet n h field val = Some (h', fmlookup (hash_abs h) (getDecodedObject field) \<noteq> None) \<and>
     hash_wf h' \<and> hash_abs h' = fmupd (getDecodedObject field) (getDecodedObject val) (hash_abs h)"
  by (rule hashTypeSet_ok [of h]) blast+

lemma hashTypeDelete_ok:
  assumes "hash_wf h"
  obtains h' where "hashTypeDelete h field = (h', fmlookup (hash_abs h) (getDecodedObject field) \<noteq> None)"
    and "hash_wf h'" and "hash_abs h' = fmdrop (getDecodedObject field) (hash_abs h)"
proof (cases h)
  case (ZipHash ps)
  show ?thesis
  proof (cases "map_of ps (getDecodedObject field)")
    case None
    then have "fmdrop (getDecodedObject field) (fmap_of_list ps) = fmap_of_list ps"
      by (auto intro!: fmap_ext simp: fmlookup_of_list)
    then show ?thesis using that [of h] None assms ZipHash by (auto simp: Let_def fmlookup_of_list)
  next
    case (Some v)
    then show ?thesis using that [of "ZipHash (zip_remove (getDecodedObject field) ps)"] assms ZipHash
      by (simp add: Let_def fmlookup_of_list distinct_remove remove_abs)
  qed
next
  case (TableHash m)
  show ?thesis
  proof (cases "fmlookup m (getDecodedObject field)")
    case None
    then have "fmdrop (getDecodedObject field) m = m" by (auto intro!: fmap_ext)
    then show ?thesis using that [of h] None TableHash by (auto simp: Let_def)
  next
    case (Some v)
    then show ?thesis using that [of "TableHash (fmdrop (getDecodedObject field) m)"] TableHash
      by (simp add: Let_def)
  qed
qed

lemma hashTypeLength_ok: "hash_wf h \<Longrightarrow> hashTypeLength h = fcard (fmdom (hash_abs h))"
proof (cases h)
  case (ZipHash ps)
  assume "hash_wf h"
  then show ?thesis using ZipHash distinct_card [of "map fst ps"]
    by (simp add: fcard.rep_eq fset_of_list.rep_eq)
qed simp

text \<open>When a hash is still a ziplist.\<close>

fun is_ziphash :: "hashobj \<Rightarrow> bool" where
  "is_ziphash (ZipHash ps) = True"
| "is_ziphash (TableHash m) = False"

lemma convert_encoding: "hashTypeConvert h = Some h' \<Longrightarrow> \<not> is_ziphash h'"
  by (cases h) auto

lemma tryConversion_encoding:
  "hashTypeTryConversion n h args = Some h' \<Longrightarrow> is_ziphash h' \<longleftrightarrow> is_ziphash h \<and> (\<forall>a \<in> set args. length a \<le> n)"
  by (cases h) (auto simp: list_ex_iff split: if_splits dest: convert_encoding)

lemma hashTypeSet_encoding:
  assumes "hash_wf h" and "hashTypeSet n h field val = Some (h', b)"
  shows "is_ziphash h' \<longleftrightarrow> is_ziphash h \<and> fcard (fmdom (hash_abs h')) \<le> n"
proof (cases h)
  case (ZipHash ps)
  define ps' where "ps' = zip_put (getDecodedObject field) (getDecodedObject val) ps"
  have wf: "hash_wf (ZipHash ps')" using assms(1) ZipHash by (simp add: ps'_def distinct_put)
  show ?thesis
  proof (cases "length ps' > n")
    case True
    then have "hashTypeConvert (ZipHash ps') = Some h'" using assms(2) ZipHash by (auto simp: Let_def ps'_def)
    moreover obtain h2 where "hashTypeConvert (ZipHash ps') = Some h2" "hash_abs h2 = hash_abs (ZipHash ps')"
      using hashTypeConvert_ok [OF wf] by auto
    ultimately have "hash_abs h' = hash_abs (ZipHash ps')" "\<not> is_ziphash h'" using convert_encoding by auto
    then show ?thesis using True hashTypeLength_ok [OF wf] by simp
  next
    case False
    then have "h' = ZipHash ps'" using assms(2) ZipHash by (auto simp: Let_def ps'_def)
    then show ?thesis using False hashTypeLength_ok [OF wf] ZipHash by simp
  qed
next
  case (TableHash m)
  then show ?thesis using assms(2) by (auto simp: Let_def)
qed

section \<open>Safety\<close>

lemma sees_wf: "sees i k (Some v) s \<Longrightarrow> srv_ok s \<Longrightarrow> wf_obj v"
  by (auto simp: sees_def dest: objects_okD)

lemma fmupd_nonempty [simp]: "fmupd k v m \<noteq> fmempty"
  by (metis fmempty_lookup fmupd_lookup option.distinct(1))

lemma hollow_hash [simp]: "hollow (HashObj h) \<longleftrightarrow> hash_abs h = fmempty"
  using hollow_plain [of "HashObj h"] by (simp add: plain_hash del: hollow_plain)

text \<open>The hash was there, and nothing has changed, or it has just been created.\<close>

definition unchanged :: "nat \<Rightarrow> redisServer \<Rightarrow> redisServer \<Rightarrow> hashobj \<Rightarrow> bool" where
  "unchanged i s0 s h \<longleftrightarrow> h = ZipHash [] \<or> upd i {} s0 s"

lemma safe_create [safe_steps]:
  assumes "upd i {} s0 s" and "i < length (dbs s0)" and "cur_db s c = i"
    and "\<And>h s'. upd i {key} s0 s' \<Longrightarrow> unchanged i s0 s' h \<Longrightarrow> same_view s s' \<Longrightarrow>
      sees i key (Some (HashObj h)) s' \<Longrightarrow> hash_wf h \<Longrightarrow> safe_res i s0 (f (Inr (h, s')))"
    and "\<And>s'. upd i {} s0 s' \<Longrightarrow> same_view s s' \<Longrightarrow> safe_res i s0 (f (Inl s'))"
  shows "safe_res i s0 (hashTypeLookupWriteOrCreate c key s \<bind> f)"
proof -
  have "safe_res i s0 (lookupKeyWrite i key s \<bind> (\<lambda>(o1, s).
      (case o1 of
        None \<Rightarrow> dbAdd i key (HashObj (ZipHash [])) s \<bind> (\<lambda>s. f (Inr (ZipHash [], s)))
      | Some (HashObj h) \<Rightarrow> f (Inr (h, s))
      | Some _ \<Rightarrow> f (Inl (addReply c wrongtypeerr s)))))"
  proof (rule safe_lookupKeyWrite [OF assms(1,2)])
    fix v s1
    assume s1: "upd i {} s0 s1" "same_view s s1" "sees i key v s1"
    have u: "upd i {key} s0 s1" using upd_mono [OF s1(1)] by simp
    show "safe_res i s0 (case (v, s1) of (o1, s) \<Rightarrow>
      (case o1 of
        None \<Rightarrow> dbAdd i key (HashObj (ZipHash [])) s \<bind> (\<lambda>s. f (Inr (ZipHash [], s)))
      | Some (HashObj h) \<Rightarrow> f (Inr (h, s))
      | Some _ \<Rightarrow> f (Inl (addReply c wrongtypeerr s))))"
    proof (cases v)
      case None
      show ?thesis using s1 assms(2) None
        by (auto intro!: safe_dbAdd1 assms(4) dest: same_view_trans simp: unchanged_def)
    next
      case (Some w)
      have "hash_wf h" if "w = HashObj h" for h using sees_wf s1(3) upd_srv_ok [OF s1(1)] Some that by blast
      then show ?thesis using s1 u Some by (auto intro!: assms(4,5) upd_addReply simp: unchanged_def split: robj.split)
    qed
  qed
  then show ?thesis
    by (simp add: hashTypeLookupWriteOrCreate_def assms(3) Let_def case_prod_unfold option.case_distrib [of "\<lambda>x. x \<bind> f"]
        robj.case_distrib [of "\<lambda>x. x \<bind> f"] Option.bind_assoc cong: option.case_cong robj.case_cong)
qed

text \<open>The hash is changed, the key signalled.\<close>

lemma upd_hash:
  "upd i {key} s0 s \<Longrightarrow> i < length (dbs s0) \<Longrightarrow> sees i key (Some w) s \<Longrightarrow> hash_wf h \<Longrightarrow> hash_abs h \<noteq> fmempty \<Longrightarrow>
     upd i {} s0 (add_dirty n (notifyKeyspaceEvent NHash e key i (signalModifiedKey i key
       (addReply c r (storeObject i key (HashObj h) s)))))"
  by (auto intro!: pending_intros upd_store1(2))

lemma safe_conversion [safe_steps]:
  assumes "hash_wf h" and "\<And>h'. hash_wf h' \<Longrightarrow> hash_abs h' = hash_abs h \<Longrightarrow> safe_res i s0 (f h')"
  shows "safe_res i s0 (hashTypeTryConversion n h args \<bind> f)"
  by (rule tryConversion_ok [OF assms(1), of n args]) (simp add: assms(2))

lemma safe_hash_set [safe_steps]:
  assumes "hash_wf h"
    and "\<And>h' b. hash_wf h' \<Longrightarrow> hash_abs h' \<noteq> fmempty \<Longrightarrow> safe_res i s0 (f (h', b))"
  shows "safe_res i s0 (hashTypeSet n h field val \<bind> f)"
  by (rule hashTypeSet_ok [OF assms(1), of n field val]) (simp add: assms(2))

lemma safe_hset: "safe_command hsetCommand"
  unfolding hsetCommand_def Let_def
  by (rule safe_commandI') (auto intro!: safe_steps upd_hash)

lemma safe_hmset_loop:
  assumes "hash_wf h" and "2 \<le> length as \<or> hash_abs h \<noteq> fmempty"
    and "\<And>h'. hash_wf h' \<Longrightarrow> hash_abs h' \<noteq> fmempty \<Longrightarrow> safe_res i s0 (f h')"
  shows "safe_res i s0 (hmset_loop n as h \<bind> f)"
  using assms(1,2)
proof (induction n as h rule: hmset_loop.induct)
  case (1 n f1 v as h)
  have "safe_res i s0 (hashTypeSet n h (hashTypeTryObjectEncoding h (Raw f1)) (hashTypeTryObjectEncoding h (Raw v)) \<bind>
    (\<lambda>(h, _). hmset_loop n as h \<bind> f))"
    by (rule hashTypeSet_ok [OF 1(2), of n "hashTypeTryObjectEncoding h (Raw f1)" "hashTypeTryObjectEncoding h (Raw v)"])
      (simp add: 1(1))
  then show ?case by (simp add: case_prod_unfold)
qed (simp_all add: assms(3))

lemma safe_hmset: "safe_for (- 4) hmsetCommand"
  unfolding hmsetCommand_def Let_def
  by (rule safe_forI) (auto intro!: safe_steps upd_addReply upd_hash safe_hmset_loop simp: arity_ok_def argc_def)

text \<open>A field that exists is in no new hash.\<close>

lemma field_exists: "hashTypeExists h field \<Longrightarrow> hash_abs h = hash_abs h0 \<Longrightarrow> unchanged i s0 s h0 \<Longrightarrow> upd i {} s0 s"
  by (auto simp: hashTypeExists_def hash_get_abs unchanged_def)

lemma upd_hsetnx:
  assumes "unchanged i s0 s h0" and "hash_wf h" and "hash_abs h = hash_abs h0" and "i < length (dbs s0)"
    and "sees i key (Some (HashObj h0)) s"
  shows "hashTypeExists h field \<Longrightarrow> upd i {} s0 (storeObject i key (HashObj h) s)"
    and "upd i {key} s0 s \<Longrightarrow> hash_wf h' \<Longrightarrow> hash_abs h' \<noteq> fmempty \<Longrightarrow>
      upd i {} s0 (add_dirty n (notifyKeyspaceEvent NHash e key i (signalModifiedKey i key
       (addReply c r (storeObject i key (HashObj h') (storeObject i key (HashObj h) s))))))"
  using assms by (auto intro!: upd_recode upd_hash upd_store1(2) intro: field_exists sees_store simp: plain_hash)

lemma safe_hsetnx: "safe_command hsetnxCommand"
  unfolding hsetnxCommand_def Let_def
  apply (rule safe_commandI')
  apply (auto intro!: safe_steps upd_addReply)
   apply (rule upd_hsetnx(1); assumption)
  apply (rule upd_hsetnx(2); assumption)
  done

lemma hincrby_refused:
  assumes "unchanged i s0 s h"
  shows "hincrby_value c h field s = Inl s' \<Longrightarrow> upd i {} s0 s'"
    and "hincrby_value c h field s = Inr v \<Longrightarrow> incr_overflows v n \<Longrightarrow> upd i {} s0 s"
  using assms
  by (auto simp: unchanged_def hincrby_value_def hashTypeGetObject_def hash_get_abs incr_overflows_def
      dest!: getLongLong_reply intro: upd_addReply split: option.splits)

lemma safe_hincrby: "safe_command hincrbyCommand"
  unfolding hincrbyCommand_def Let_def
  by (rule safe_commandI')
    (auto intro!: safe_getLongLong safe_steps upd_addReply upd_hash intro: hincrby_refused
      dest!: getLongLong_reply split: sum.split)

lemma safe_field_replies:
  "upd i K s0 s \<Longrightarrow> upd i K s0 (addHashFieldToReply c h f s)"
  "upd i K s0 s \<Longrightarrow> upd i K s0 (fold (addHashFieldToReply c h) fs s)"
proof -
  show f: "upd i K s0 s \<Longrightarrow> upd i K s0 (addHashFieldToReply c h f s)" for f s
    by (auto simp: addHashFieldToReply_def intro: upd_addReply split: option.split)
  show "upd i K s0 s \<Longrightarrow> upd i K s0 (fold (addHashFieldToReply c h) fs s)"
    by (induction fs arbitrary: s) (simp_all add: f)
qed

lemma upd_bulks: "upd i K s0 s \<Longrightarrow> upd i K s0 (fold (\<lambda>e. addReply c (Bulk e)) es s)"
  by (induction es arbitrary: s) (simp_all add: upd_addReply)

lemma safe_hash_reads:
  "safe_command hgetCommand" "safe_command hmgetCommand" "safe_command hlenCommand" "safe_command hexistsCommand"
  unfolding hgetCommand_def hmgetCommand_def hmget_reply_def hlenCommand_def hexistsCommand_def Let_def
  by (rule safe_commandI'; auto split: option.split robj.split intro!: safe_steps upd_addReply safe_field_replies)+

text \<open>The iterator returns every field with its value once.\<close>

lemma hashTypeNext_list_ok:
  assumes "order_ok ord" and "hash_wf h"
  shows "fmap_of_list (hashTypeNext_list ord h) = hash_abs h"
    and "length (hashTypeNext_list ord h) = hashTypeLength h"
    and "distinct (map fst (hashTypeNext_list ord h))"
proof (atomize (full), cases h)
  case (ZipHash ps)
  then show "fmap_of_list (hashTypeNext_list ord h) = hash_abs h \<and>
    length (hashTypeNext_list ord h) = hashTypeLength h \<and> distinct (map fst (hashTypeNext_list ord h))"
    using assms(2) by simp
next
  case (TableHash m)
  have o1: "set (ord (fmdom m)) = fset (fmdom m)" "distinct (ord (fmdom m))" using assms(1) by (simp_all add: order_ok_def)
  have "map_of (map (\<lambda>f. (f, the (fmlookup m f))) (ord (fmdom m))) k = fmlookup m k" for k
    using map_of_map_keys [of "ord (fmdom m)" "fmlookup m"] o1(1) by (simp add: fmdom.rep_eq)
  then show "fmap_of_list (hashTypeNext_list ord h) = hash_abs h \<and>
    length (hashTypeNext_list ord h) = hashTypeLength h \<and> distinct (map fst (hashTypeNext_list ord h))"
    using o1 distinct_card [OF o1(2)] TableHash
    by (auto intro!: fmap_ext simp: fmlookup_of_list fcard.rep_eq comp_def)
qed

lemma length_entries: "length (concat (map (hgetall_entry keys vals) ps)) =
    length ps * ((if keys then 1 else 0) + (if vals then 1 else 0))"
  by (induction ps) (simp_all add: hgetall_entry_def)

lemma safe_hgetall: "safe_command (\<lambda>c. genericHgetallCommand c keys vals)"
proof (rule safe_commandI')
  fix s c
  assume a: "cur_db s c < length (dbs s)" "upd (cur_db s c) {} s s"
  have "hash_wf h" if "sees i k (Some (HashObj h)) s'" "upd i {} s s'" for i k h s'
    using sees_wf [OF that(1) upd_srv_ok [OF that(2)]] .
  note wf = hashTypeNext_list_ok(2) [OF dict_order_ok this]
  show "safe_res (cur_db s c) s (genericHgetallCommand c keys vals s)"
    unfolding genericHgetallCommand_def Let_def using a wf
    by (auto split: option.split robj.split intro!: safe_steps upd_addReply upd_bulks simp: length_entries)
qed

lemma fmdrop_set_insert: "fmdrop_set (insert a A) m = fmdrop_set A (fmdrop a m)"
  by (rule fmap_ext) simp

lemma hashTypeLength_0: "hash_wf h \<Longrightarrow> hashTypeLength h = 0 \<longleftrightarrow> hash_abs h = fmempty"
proof -
  have "m = fmempty" if "fset (fmdom m) = {}" for m :: "(bytes, bytes) fmap"
    using that by (intro fmap_ext) (simp add: fmdom_notD)
  then show "hash_wf h \<Longrightarrow> hashTypeLength h = 0 \<longleftrightarrow> hash_abs h = fmempty"
    by (auto simp: hashTypeLength_ok fcard.rep_eq)
qed

lemma card_deleted:
  "card (set (a # as) \<inter> fset (fmdom m)) =
    (if fmlookup m a \<noteq> None then 1 else 0) + card (set as \<inter> fset (fmdom (fmdrop a m)))"
proof -
  have "set (a # as) \<inter> fset (fmdom m) =
      (if fmlookup m a \<noteq> None then {a} else {}) \<union> (set as \<inter> fset (fmdom (fmdrop a m)))"
    by (auto simp: fmlookup_dom_iff fmdom_notI)
  then show ?thesis by (auto simp: card_Un_disjoint)
qed

lemma hdel_loop_ok:
  "hash_wf h \<Longrightarrow> hdel_loop as h deleted = (h', deleted', keyremoved) \<Longrightarrow>
    hash_wf h' \<and> hash_abs h' = fmdrop_set (set as) (hash_abs h) \<and>
    deleted' = deleted + card (set as \<inter> fset (fmdom (hash_abs h))) \<and>
    (keyremoved \<longrightarrow> hash_abs h' = fmempty) \<and>
    (hash_abs h \<noteq> fmempty \<longrightarrow> \<not> keyremoved \<longrightarrow> hash_abs h' \<noteq> fmempty)"
proof (induction as arbitrary: h deleted)
  case (Cons a as)
  obtain h1 where h1: "hashTypeDelete h (Raw a) = (h1, fmlookup (hash_abs h) a \<noteq> None)" "hash_wf h1"
      "hash_abs h1 = fmdrop a (hash_abs h)"
    using hashTypeDelete_ok [OF Cons.prems(1), of "Raw a"] by auto
  have d: "fmdrop_set (set (a # as)) (hash_abs h) = fmdrop_set (set as) (hash_abs h1)"
    by (simp add: fmdrop_set_insert h1(3))
  note c = card_deleted [of a as "hash_abs h", folded h1(3)]
  show ?case
  proof (cases "fmlookup (hash_abs h) a")
    case None
    then have same: "hash_abs h1 = hash_abs h" by (auto intro!: fmap_ext simp: h1(3))
    show ?thesis using Cons.prems Cons.IH [of h1 deleted] h1(1,2) c d None unfolding same by auto
  next
    case (Some v)
    show ?thesis
    proof (cases "hash_abs h1 = fmempty")
      case True
      then have "h' = h1" "deleted' = deleted + 1" keyremoved
        using Cons.prems h1 Some hashTypeLength_0 [OF h1(2)] by auto
      then show ?thesis using h1 c d True Some by auto
    next
      case False
      then have "hdel_loop as h1 (deleted + 1) = (h', deleted', keyremoved)"
        using Cons.prems h1 Some hashTypeLength_0 [OF h1(2)] by auto
      then show ?thesis using Cons.IH [of h1 "deleted + 1"] h1 c d False Some by auto
    qed
  qed
qed auto

lemma hdel_left: "hash_wf h \<Longrightarrow> hdel_loop as h 0 = (h', n, False) \<Longrightarrow> 0 < n \<Longrightarrow> hash_abs h' \<noteq> fmempty"
  using hdel_loop_ok [of h as 0 h' n False] by (cases "hash_abs h = fmempty") auto

lemma safe_hdel: "safe_command hdelCommand"
proof (rule safe_commandI')
  fix s c
  assume a: "cur_db s c < length (dbs s)" "upd (cur_db s c) {} s s"
  have wf: "hash_wf h" if "sees i k (Some (HashObj h)) s'" "upd i {} s s'" for i k h s'
    using sees_wf [OF that(1) upd_srv_ok [OF that(2)]] .
  have wf': "hash_wf h'" if "sees i k (Some (HashObj h)) s'" "upd i {} s s'" "hdel_loop as h 0 = (h', d, r)" for i k h s' as h' d r
    using hdel_loop_ok [OF wf [OF that(1,2)] that(3)] by blast
  have left: "hash_abs h' \<noteq> fmempty" if "sees i k (Some (HashObj h)) s'" "upd i {} s s'" "hdel_loop as h 0 = (h', d, False)" "0 < d"
    for i k h s' as h' d by (rule hdel_left [OF wf [OF that(1,2)] that(3,4)])
  show "safe_res (cur_db s c) s (hdelCommand c s)"
    unfolding hdelCommand_def Let_def using a
    by (auto split: option.split robj.split prod.split intro!: safe_steps pending_intros)
      (assumption | blast intro: wf' dest: left)+
qed

lemma hash_safe:
  "safe_command hsetCommand" "safe_command hsetnxCommand" "safe_for (- 4) hmsetCommand" "safe_command hincrbyCommand"
  "safe_command hgetCommand" "safe_command hmgetCommand" "safe_command hlenCommand" "safe_command hexistsCommand"
  "safe_command hdelCommand" "safe_command hkeysCommand" "safe_command hvalsCommand" "safe_command hgetallCommand"
  using safe_hset safe_hsetnx safe_hmset safe_hincrby safe_hash_reads safe_hdel safe_hgetall
  by (simp_all add: hkeysCommand_def [abs_def] hvalsCommand_def [abs_def] hgetallCommand_def [abs_def])

section \<open>What the commands store and reply\<close>

definition opt_hash :: "hashobj option \<Rightarrow> (bytes, bytes) fmap" where
  "opt_hash o1 = (case o1 of None \<Rightarrow> fmempty | Some h \<Rightarrow> hash_abs h)"

lemma create_ok:
  assumes "srv_ok s" and "c < length (clients s)"
    and "visible s (cur_db s c) key = map_option HashObj o1"
  obtains h s' where "hashTypeLookupWriteOrCreate c key s = Some (Inr (h, s'))" and "hash_wf h"
    and "hash_abs h = opt_hash o1" and "sees (cur_db s c) key (Some (HashObj h)) s'" and "clients s' = clients s"
    and "\<forall>k. k \<noteq> key \<longrightarrow> visible s' (cur_db s c) k = visible s (cur_db s c) k"
    and "\<forall>h0. o1 = Some h0 \<longrightarrow> h = h0" and "is_ziphash h \<longleftrightarrow> (\<forall>h0. o1 = Some h0 \<longrightarrow> is_ziphash h0)"
    and "settings s' = settings s"
proof -
  let ?i = "cur_db s c"
  have i: "?i < length (dbs s)" by (rule cur_db_less [OF assms(1,2)])
  obtain s1 where s1: "lookupKeyWrite ?i key s = Some (visible s ?i key, s1)" "quiet ?i s s1"
      "fmlookup (db_dict (dbs s1 ! ?i)) key = visible s ?i key" by (rule lookupKeyWrite_ok [OF assms(1) i])
  note q = quietD [OF s1(2)]
  have sees1: "sees ?i key (map_option HashObj o1) s1" using s1(3) q i assms(3) by (simp add: sees_def)
  have cl: "clients s1 = clients s" using s1(2) by (simp add: quiet_def)
  have o: "only_key ?i key s s1" by (rule only_key_lookup [OF only_key_refl s1(1)])
  show thesis
  proof (cases o1)
    case (Some h)
    have "hashTypeLookupWriteOrCreate c key s = Some (Inr (h, s1))"
      using s1(1) assms(3) Some by (simp add: hashTypeLookupWriteOrCreate_def)
    moreover have "hash_wf h" using sees_wf sees1 q(5) Some by simp
    ultimately show thesis using sees1 cl q(3) Some only_keyD(3) [OF o] by (intro that [of h s1]) (simp_all add: opt_hash_def)
  next
    case None
    obtain s2 where s2: "dbAdd ?i key (HashObj (ZipHash [])) s1 = Some s2"
      using dbAdd_ok [of s1 ?i key] sees1 None by (auto simp: sees_def)
    have "hashTypeLookupWriteOrCreate c key s = Some (Inr (ZipHash [], s2))"
      using s1(1) assms(3) None s2 by (simp add: hashTypeLookupWriteOrCreate_def)
    moreover have "visible s2 ?i k = visible s ?i k" if "k \<noteq> key" for k
      using visible_dbAdd [OF q(5) _ s2, of k] that q i by simp
    moreover have "sees ?i key (Some (HashObj (ZipHash []))) s2" using sees_dbAdd [OF q(5) _ s2] sees1 None by simp
    moreover have "clients s2 = clients s" using db_ops_frame(1) [OF s2] cl by simp
    moreover have "settings s2 = settings s" by (rule only_keyD(3) [OF only_key_opts(1) [OF o s2]])
    ultimately show thesis using None by (intro that [of "ZipHash []" s2]) (simp_all add: opt_hash_def)
  qed
qed

text \<open>The end of the commands that set fields.\<close>

lemma hash_stored:
  fixes n e r h k
  assumes "sees i key (Some (HashObj h0)) s" and "c < length (clients s)"
  defines "s' \<equiv> add_dirty n (notifyKeyspaceEvent NHash e key i (signalModifiedKey i key
       (addReply c r (storeObject i key (HashObj h) s))))"
  shows "visible s' i key = Some (HashObj h)" and "k \<noteq> key \<Longrightarrow> visible s' i k = visible s i k"
    and "last (c_replies (clients s' ! c)) = r"
proof -
  show "visible s' i key = Some (HashObj h)"
    using sees_store [OF assms(1), of "HashObj h"] by (simp add: s'_def sees_def)
  show "k \<noteq> key \<Longrightarrow> visible s' i k = visible s i k"
    using assms(1) by (simp add: s'_def visible_store_other sees_def)
  have "c < length (clients (storeObject i key (HashObj h) s))"
    using assms(2) by (simp add: storeObject_def frame_simps)
  then have "last (c_replies (clients (addReply c r (storeObject i key (HashObj h) s)) ! c)) = r"
    by (rule last_reply)
  then show "last (c_replies (clients s' ! c)) = r"
    by (simp add: s'_def add_dirty_def notifyKeyspaceEvent_def frame_simps)
qed

lemma hset_ok:
  assumes ok: "srv_ok s" "c < length (clients s)"
    and o1: "visible s (cur_db s c) (argv s c 1) = map_option HashObj o1"
  shows "\<exists>s' h. hsetCommand c s = Some s' \<and> visible s' (cur_db s c) (argv s c 1) = Some (HashObj h) \<and>
    hash_abs h = fmupd (argv s c 2) (argv s c 3) (opt_hash o1) \<and>
    (\<forall>k. k \<noteq> argv s c 1 \<longrightarrow> visible s' (cur_db s c) k = visible s (cur_db s c) k) \<and>
    last (c_replies (clients s' ! c)) = Integer (if fmlookup (opt_hash o1) (argv s c 2) = None then 1 else 0) \<and>
    (is_ziphash h \<longleftrightarrow> (\<forall>h0. o1 = Some h0 \<longrightarrow> is_ziphash h0) \<and> length (argv s c 2) \<le> hash_max_ziplist_value s \<and>
      length (argv s c 3) \<le> hash_max_ziplist_value s \<and> fcard (fmdom (hash_abs h)) \<le> hash_max_ziplist_entries s)"
proof -
  let ?i = "cur_db s c" and ?key = "argv s c 1" and ?f = "argv s c 2" and ?v = "argv s c 3"
  obtain h s1 where h: "hashTypeLookupWriteOrCreate c ?key s = Some (Inr (h, s1))" "hash_wf h" "hash_abs h = opt_hash o1"
      "sees ?i ?key (Some (HashObj h)) s1" "clients s1 = clients s"
      "\<forall>k. k \<noteq> ?key \<longrightarrow> visible s1 ?i k = visible s ?i k" "\<forall>h0. o1 = Some h0 \<longrightarrow> h = h0"
      "is_ziphash h \<longleftrightarrow> (\<forall>h0. o1 = Some h0 \<longrightarrow> is_ziphash h0)" "settings s1 = settings s"
    by (rule create_ok [OF ok o1])
  have av: "argv s1 c j = argv s c j" for j by (simp add: argv_def h(5))
  obtain h1 where h1: "hashTypeTryConversion (hash_max_ziplist_value s1) h [?f, ?v] = Some h1" "hash_wf h1"
      "hash_abs h1 = hash_abs h" by (rule tryConversion_ok [OF h(2)])
  obtain h2 where h2: "hashTypeSet (hash_max_ziplist_entries s1) h1 (hashTypeTryObjectEncoding h1 (Raw ?f))
        (hashTypeTryObjectEncoding h1 (Raw ?v)) = Some (h2, fmlookup (hash_abs h1) ?f \<noteq> None)"
      "hash_abs h2 = fmupd ?f ?v (hash_abs h1)"
    using hashTypeSet_ex [OF h1(2), of "hash_max_ziplist_entries s1" "hashTypeTryObjectEncoding h1 (Raw ?f)"
        "hashTypeTryObjectEncoding h1 (Raw ?v)"] by auto
  define r where "r = (if fmlookup (hash_abs h1) ?f \<noteq> None then czero else cone)"
  define s2 where "s2 = add_dirty 1 (notifyKeyspaceEvent NHash ''hset'' ?key ?i (signalModifiedKey ?i ?key
       (addReply c r (storeObject ?i ?key (HashObj h2) s1))))"
  have e: "hsetCommand c s = Some s2"
    using h1(1) h2(1) h(1) by (simp add: hsetCommand_def av Let_def s2_def r_def)
  have c: "c < length (clients s1)" using ok(2) h(5) by simp
  note st = hash_stored [OF h(4) c, where n = 1 and e = "''hset''" and r = r and h = h2, folded s2_def]
  have "visible s2 ?i k = visible s ?i k" if "k \<noteq> ?key" for k using st(2) [OF that] h(6) that by simp
  moreover have "r = Integer (if fmlookup (opt_hash o1) ?f = None then 1 else 0)"
    by (simp add: r_def h1(3) h(3) czero_def cone_def)
  moreover have "hash_abs h2 = fmupd ?f ?v (opt_hash o1)" by (simp add: h2(2) h1(3) h(3))
  moreover have "is_ziphash h2 \<longleftrightarrow> (\<forall>h0. o1 = Some h0 \<longrightarrow> is_ziphash h0) \<and> length ?f \<le> hash_max_ziplist_value s \<and>
      length ?v \<le> hash_max_ziplist_value s \<and> fcard (fmdom (hash_abs h2)) \<le> hash_max_ziplist_entries s"
    using hashTypeSet_encoding [OF h1(2) h2(1)] tryConversion_encoding [OF h1(1)] h(8)
    unfolding settings_eq(2,3) [OF h(9)] by auto
  ultimately show ?thesis unfolding e using st(1,3)
    by (intro exI [of _ s2] exI [of _ h2]) simp
qed

text \<open>HINCRBY adds the numbers, or refuses.\<close>

lemma length_llrep: "length (llrep v) \<le> 21"
proof -
  have "length (dec (unat v)) \<le> 20" "length (dec (2 ^ 64 - unat v)) \<le> 20"
    using length_dec [of "unat v" 19] length_dec [of "2 ^ 64 - unat v" 19] unat_less_numeral(4) [of v] by simp_all
  then show ?thesis by (simp add: llrep_def)
qed

lemma long_long_int: "getLongLongFromObject (Some (tryObjectEncoding (Raw (getDecodedObject (IntEnc v))))) = Some v"
proof -
  have "\<not> sint v < sint LLONG_MIN" "\<not> sint LLONG_MAX < sint v"
    using sint_range_64 [of v] by (simp_all add: LLONG_MIN_def LLONG_MAX_def)
  then have "tryObjectEncoding (Raw (llrep v)) = IntEnc v"
    using length_llrep [of v] string2ll_rep [of v] by (simp add: tryObjectEncoding.simps(2) string2l_def)
  then show ?thesis by (simp add: ll2string_rep)
qed

definition field_value :: "hashobj option \<Rightarrow> bytes \<Rightarrow> u64 option" where
  "field_value o1 f =
     (case fmlookup (opt_hash o1) f of None \<Rightarrow> Some 0
      | Some v \<Rightarrow> getLongLongFromObject (Some (tryObjectEncoding (Raw v))))"

lemma hincrby_value_ok:
  "hash_abs h = opt_hash o1 \<Longrightarrow> hincrby_value c h (Raw f) s =
    (case field_value o1 f of None \<Rightarrow> Inl (addReply c (Error ''ERR hash value is not an integer'') s) | Some v \<Rightarrow> Inr v)"
  by (auto simp: hincrby_value_def hashTypeGetObject_def hash_get_abs field_value_def
      getLongLongFromObjectOrReply_def split: option.split)

lemma hincrby_ok:
  assumes ok: "srv_ok s" "c < length (clients s)"
    and o1: "visible s (cur_db s c) (argv s c 1) = map_option HashObj o1"
    and old: "field_value o1 (argv s c 2) = Some old"
    and n: "getLongLongFromObject (Some (Raw (argv s c 3))) = Some n"
  shows "\<exists>s'. hincrbyCommand c s = Some s' \<and>
    (if - (2 ^ 63) \<le> sint old + sint n \<and> sint old + sint n < 2 ^ 63
     then (\<exists>h. visible s' (cur_db s c) (argv s c 1) = Some (HashObj h) \<and>
            hash_abs h = fmupd (argv s c 2) (getDecodedObject (IntEnc (old + n))) (opt_hash o1)) \<and>
          last (c_replies (clients s' ! c)) = Integer (sint old + sint n)
     else visible s' (cur_db s c) (argv s c 1) = map_option HashObj o1 \<and>
          last (c_replies (clients s' ! c)) = Error ''ERR increment or decrement would overflow'')"
proof -
  let ?i = "cur_db s c" and ?key = "argv s c 1" and ?f = "argv s c 2"
  obtain h s1 where h: "hashTypeLookupWriteOrCreate c ?key s = Some (Inr (h, s1))" "hash_wf h" "hash_abs h = opt_hash o1"
      "sees ?i ?key (Some (HashObj h)) s1" "clients s1 = clients s"
      "\<forall>k. k \<noteq> ?key \<longrightarrow> visible s1 ?i k = visible s ?i k" "\<forall>h0. o1 = Some h0 \<longrightarrow> h = h0"
    by (rule create_ok [OF ok o1])
  have av: "argv s1 c j = argv s c j" for j by (simp add: argv_def h(5))
  have hv: "hincrby_value c h (Raw ?f) s1 = Inr old" using hincrby_value_ok [OF h(3)] old by simp
  have nn: "getLongLongFromObjectOrReply c (Some (Raw (argv s c 3))) not_an_integer s = Inr n"
    using n by (simp add: getLongLongFromObjectOrReply_def)
  have c: "c < length (clients s1)" using ok(2) h(5) by simp
  show ?thesis
  proof (cases "incr_overflows old n")
    case True
    have e: "hincrbyCommand c s = Some (addReply c (Error ''ERR increment or decrement would overflow'') s1)"
      using h(1) nn hv True by (simp add: hincrbyCommand_def av Let_def)
    have "o1 = Some (the o1)"
      using True old by (cases o1) (auto simp: field_value_def opt_hash_def incr_overflows_def)
    then have "o1 = Some h" using h(7) by blast
    moreover have "visible s1 ?i ?key = Some (HashObj h)" using h(4) by (simp add: sees_def)
    ultimately have "visible s1 ?i ?key = map_option HashObj o1" by simp
    then have "visible (addReply c r s1) ?i ?key = map_option HashObj o1" for r by simp
    moreover have out: "\<not> (- (2 ^ 63) \<le> sint old + sint n \<and> sint old + sint n < 2 ^ 63)"
      using True incr_overflows_iff by blast
    ultimately show ?thesis unfolding e if_not_P [OF out] using last_reply [OF c] by blast
  next
    case False
    then have range: "- (2 ^ 63) \<le> sint old + sint n" "sint old + sint n < 2 ^ 63"
      using incr_overflows_iff by blast+
    have sum: "sint (old + n) = sint old + sint n" using range by (rule sint_plus_ok)
    obtain h2 b where h2: "hashTypeSet (hash_max_ziplist_entries s1) h (hashTypeTryObjectEncoding h (Raw ?f))
        (IntEnc (old + n)) = Some (h2, b)" "hash_abs h2 = fmupd ?f (getDecodedObject (IntEnc (old + n))) (hash_abs h)"
      using hashTypeSet_ex [OF h(2), of "hash_max_ziplist_entries s1" "hashTypeTryObjectEncoding h (Raw ?f)"
          "IntEnc (old + n)"] by auto
    define s2 where "s2 = add_dirty 1 (notifyKeyspaceEvent NHash ''hincrby'' ?key ?i (signalModifiedKey ?i ?key
       (addReply c (Integer (sint (old + n))) (storeObject ?i ?key (HashObj h2) s1))))"
    have e: "hincrbyCommand c s = Some s2"
      using h(1) nn hv False h2(1)
      by (simp add: hincrbyCommand_def av Let_def s2_def createStringObjectFromLongLong_def)
    note st = hash_stored [OF h(4) c, where n = 1 and e = "''hincrby''" and r = "Integer (sint (old + n))" and h = h2,
        folded s2_def]
    show ?thesis unfolding e if_P [OF conjI [OF range]] using st(1,3) h2(2) unfolding h(3) sum by blast
  qed
qed

text \<open>What HGETALL replies.\<close>

lemma bulk_replies:
  "c < length (clients s) \<Longrightarrow>
     c_replies (clients (fold (\<lambda>e. addReply c (Bulk e)) es s) ! c) = c_replies (clients s ! c) @ map Bulk es"
  by (induction es arbitrary: s) (simp_all add: addReply_def clients_upd_client frame_simps)

lemma hgetall_ok:
  assumes ok: "srv_ok s" "c < length (clients s)"
    and h: "visible s (cur_db s c) (argv s c 1) = Some (HashObj h)"
  shows "\<exists>s' ps. hgetallCommand c s = Some s' \<and> fmap_of_list ps = hash_abs h \<and> distinct (map fst ps) \<and>
    c_replies (clients s' ! c) =
      c_replies (clients s ! c) @ MultiBulkLen (2 * int (length ps)) # map Bulk (concat (map (\<lambda>(f, v). [f, v]) ps))"
proof -
  let ?i = "cur_db s c" and ?key = "argv s c 1"
  have i: "?i < length (dbs s)" by (rule cur_db_less [OF ok])
  obtain s1 where s1: "lookupKeyRead ?i ?key s = Some (visible s ?i ?key, s1)" "quiet ?i s s1"
    by (rule lookupKeyRead_ok [OF ok(1) i])
  have cl: "clients s1 = clients s" using s1(2) by (simp add: quiet_def)
  have wf: "hash_wf h" by (rule visible_wf [OF ok(1) i h])
  define ps where "ps = hashTypeNext_list (dict_order s1) h"
  note ps = hashTypeNext_list_ok [OF dict_order_ok wf, of s1, folded ps_def]
  define es where "es = concat (map (hgetall_entry True True) ps)"
  have es: "es = concat (map (\<lambda>(f, v). [f, v]) ps)" "length es = length ps * 2"
    unfolding es_def length_entries by (simp_all add: hgetall_entry_def [abs_def] case_prod_unfold)
  define s2 where "s2 = fold (\<lambda>e. addReply c (Bulk e)) es (addReply c (MultiBulkLen (2 * int (length ps))) s1)"
  have "hgetallCommand c s = Some s2"
    using s1(1) h ps(2) es(2)
    by (simp add: hgetallCommand_def genericHgetallCommand_def lookupKeyReadOrReply_def Let_def s2_def es_def mult.commute
        flip: ps_def)
  moreover have "c_replies (clients s2 ! c) = c_replies (clients s ! c) @ MultiBulkLen (2 * int (length ps)) # map Bulk es"
    using ok(2) unfolding s2_def by (subst bulk_replies) (simp_all add: addReply_def clients_upd_client frame_simps cl)
  ultimately show ?thesis using ps(1,3) unfolding es(1) by blast
qed

section \<open>Properties\<close>

text \<open>C23: HSET leaves under the key the hash with the field set to the value, creating it when absent; it
  leaves other keys alone and replies 1 exactly when the field is new. The hash is a ziplist afterwards
  exactly when it was one (or is new), the field and the value are not longer than the limit on
  elements of ziplists, and the fields are not more than the limit on their number.\<close>

theorem hset_stores:
  assumes "srv_ok s" and "c < length (clients s)"
    and "visible s (cur_db s c) (argv s c 1) = map_option HashObj o1"
  shows "\<exists>s' h. hsetCommand c s = Some s' \<and> visible s' (cur_db s c) (argv s c 1) = Some (HashObj h) \<and>
    hash_abs h = fmupd (argv s c 2) (argv s c 3) (opt_hash o1) \<and>
    (\<forall>k. k \<noteq> argv s c 1 \<longrightarrow> visible s' (cur_db s c) k = visible s (cur_db s c) k) \<and>
    last (c_replies (clients s' ! c)) = Integer (if fmlookup (opt_hash o1) (argv s c 2) = None then 1 else 0) \<and>
    (is_ziphash h \<longleftrightarrow> (\<forall>h0. o1 = Some h0 \<longrightarrow> is_ziphash h0) \<and> length (argv s c 2) \<le> hash_max_ziplist_value s \<and>
      length (argv s c 3) \<le> hash_max_ziplist_value s \<and> fcard (fmdom (hash_abs h)) \<le> hash_max_ziplist_entries s)"
  by (rule hset_ok [OF assms])

theorem hset_stores_witness:
  "\<exists>s' h. hsetCommand 0 (holding (HashObj (ZipHash [([1], [2])])) [ascii ''HSET'', key_k, [1], [3]]) = Some s' \<and>
     visible s' 0 key_k = Some (HashObj h) \<and> fmlookup (hash_abs h) [1] = Some [3] \<and>
     last (c_replies (clients s' ! 0)) = Integer 0"
  using hset_stores [of "holding (HashObj (ZipHash [([1], [2])])) [ascii ''HSET'', key_k, [1], [3]]" 0 "Some (ZipHash [([1], [2])])"]
  by (fastforce simp: holding_ok opt_hash_def fmlookup_of_list)

text \<open>HGETALL replies every field with its value exactly once, after their number.\<close>

lemma hgetall_lists:
  assumes "srv_ok s" and "c < length (clients s)"
    and "visible s (cur_db s c) (argv s c 1) = Some (HashObj h)"
  shows "\<exists>s' ps. hgetallCommand c s = Some s' \<and> fmap_of_list ps = hash_abs h \<and> distinct (map fst ps) \<and>
    c_replies (clients s' ! c) =
      c_replies (clients s ! c) @ MultiBulkLen (2 * int (length ps)) # map Bulk (concat (map (\<lambda>(f, v). [f, v]) ps))"
  by (rule hgetall_ok [OF assms])

text \<open>C33: HINCRBY adds exactly or refuses with an error that leaves the hash alone: the field never wraps
  around at 64 bits.\<close>

theorem hincrby_exact:
  assumes "srv_ok s" and "c < length (clients s)"
    and "visible s (cur_db s c) (argv s c 1) = map_option HashObj o1"
    and "field_value o1 (argv s c 2) = Some old"
    and "getLongLongFromObject (Some (Raw (argv s c 3))) = Some n"
  shows "\<exists>s'. hincrbyCommand c s = Some s' \<and>
    (if - (2 ^ 63) \<le> sint old + sint n \<and> sint old + sint n < 2 ^ 63
     then (\<exists>h. visible s' (cur_db s c) (argv s c 1) = Some (HashObj h) \<and>
            hash_abs h = fmupd (argv s c 2) (getDecodedObject (IntEnc (old + n))) (opt_hash o1)) \<and>
          last (c_replies (clients s' ! c)) = Integer (sint old + sint n)
     else visible s' (cur_db s c) (argv s c 1) = map_option HashObj o1 \<and>
          last (c_replies (clients s' ! c)) = Error ''ERR increment or decrement would overflow'')"
  by (rule hincrby_ok [OF assms])

lemma five: "getLongLongFromObject (Some (Raw [53])) = Some 5"
  by (simp add: strtoll10_def isspace_def Let_def char_in_digit digit_def)

theorem hincrby_exact_witness:
  "\<exists>s' h. hincrbyCommand 0 (holding (HashObj (ZipHash [([2], [3])])) [ascii ''HINCRBY'', key_k, [1], [53]]) = Some s' \<and>
     visible s' 0 key_k = Some (HashObj h) \<and> fmlookup (hash_abs h) [1] \<noteq> None"
proof -
  let ?s = "holding (HashObj (ZipHash [([2], [3])])) [ascii ''HINCRBY'', key_k, [1], [53]]"
  have "srv_ok ?s" "0 < length (clients ?s)" "cur_db ?s 0 = 0" "argv ?s 0 1 = key_k" "argv ?s 0 2 = [1]" "argv ?s 0 3 = [53]"
      "visible ?s 0 key_k = Some (HashObj (ZipHash [([2], [3])]))"
      "field_value (Some (ZipHash [([2], [3])])) [1] = Some 0"
    by (simp_all add: holding_ok field_value_def opt_hash_def fmlookup_of_list)
  then show ?thesis using hincrby_exact [of ?s 0 "Some (ZipHash [([2], [3])])" 0 5] five by auto
qed

text \<open>Every hash command always answers (no ziplist ever has a field twice, so its conversion never
  fails), keeps the invariant of the server, and marks every client that watches a key whose value it
  changes (HMSET with the arguments its arity asks for); HSETNX may change the encoding of a hash without signalling it, which no client can tell.\<close>

theorem hash_commands_safe:
  "safe_command hsetCommand \<and> safe_command hsetnxCommand \<and> safe_for (- 4) hmsetCommand \<and>
   safe_command hincrbyCommand \<and> safe_command hgetCommand \<and> safe_command hmgetCommand \<and>
   safe_command hlenCommand \<and> safe_command hexistsCommand \<and> safe_command hdelCommand \<and>
   safe_command hkeysCommand \<and> safe_command hvalsCommand \<and> safe_command hgetallCommand"
  by (simp add: hash_safe)

end
