(* ===== verification/Bitops.thy ===== *)
theory Bitops
  imports T_string
begin

unbundle bit_operations_syntax

text \<open>
  bitops.c: SETBIT, GETBIT, BITCOUNT and BITOP on strings of bits. Bit 0 is the highest bit of the
  first byte.

  BITCOUNT adds up the set bits 16 bytes at a time by arithmetic on 32-bit words, and the rest by a
  table; BITOP works on 32 bytes at a time where all sources have them. Both are shown equal to what
  they compute byte by byte. Words are read in the byte order of a little-endian host.
\<close>

section \<open>Offsets\<close>

definition bit_offset_error :: reply where
  "bit_offset_error = Error ''ERR bit offset is not an integer or out of range''"

definition getBitOffsetFromArgument :: "nat \<Rightarrow> bytes \<Rightarrow> redisServer \<Rightarrow> redisServer + u64" where
  "getBitOffsetFromArgument c arg s =
     (case getLongLongFromObjectOrReply c (Some (Raw arg)) bit_offset_error s of
        Inl s \<Rightarrow> Inl s
      | Inr loffset \<Rightarrow>
          if sint loffset < 0 \<or> drop_bit 3 loffset \<ge> 512 * 1024 * 1024 then Inl (addReply c bit_offset_error s)
          else Inr loffset)"

section \<open>Counting bits\<close>

definition bitsinbyte :: "nat list" where
  "bitsinbyte =
    [0, 1, 1, 2, 1, 2, 2, 3, 1, 2, 2, 3, 2, 3, 3, 4, 1, 2, 2, 3, 2, 3, 3, 4, 2, 3, 3, 4, 3, 4, 4, 5,
     1, 2, 2, 3, 2, 3, 3, 4, 2, 3, 3, 4, 3, 4, 4, 5, 2, 3, 3, 4, 3, 4, 4, 5, 3, 4, 4, 5, 4, 5, 5, 6,
     1, 2, 2, 3, 2, 3, 3, 4, 2, 3, 3, 4, 3, 4, 4, 5, 2, 3, 3, 4, 3, 4, 4, 5, 3, 4, 4, 5, 4, 5, 5, 6,
     2, 3, 3, 4, 3, 4, 4, 5, 3, 4, 4, 5, 4, 5, 5, 6, 3, 4, 4, 5, 4, 5, 5, 6, 4, 5, 5, 6, 5, 6, 6, 7,
     1, 2, 2, 3, 2, 3, 3, 4, 2, 3, 3, 4, 3, 4, 4, 5, 2, 3, 3, 4, 3, 4, 4, 5, 3, 4, 4, 5, 4, 5, 5, 6,
     2, 3, 3, 4, 3, 4, 4, 5, 3, 4, 4, 5, 4, 5, 5, 6, 3, 4, 4, 5, 4, 5, 5, 6, 4, 5, 5, 6, 5, 6, 6, 7,
     2, 3, 3, 4, 3, 4, 4, 5, 3, 4, 4, 5, 4, 5, 5, 6, 3, 4, 4, 5, 4, 5, 5, 6, 4, 5, 5, 6, 5, 6, 6, 7,
     3, 4, 4, 5, 4, 5, 5, 6, 4, 5, 5, 6, 5, 6, 6, 7, 4, 5, 5, 6, 5, 6, 6, 7, 5, 6, 6, 7, 6, 7, 7, 8]"

definition popcount32 :: "u32 \<Rightarrow> u32" where
  "popcount32 aux =
     (let aux = aux - (drop_bit 1 aux AND 0x55555555);
          aux = (aux AND 0x33333333) + (drop_bit 2 aux AND 0x33333333)
      in drop_bit 24 (((aux + drop_bit 4 aux) AND 0x0F0F0F0F) * 0x01010101))"

definition word32 :: "nat \<Rightarrow> bytes \<Rightarrow> u32" where
  "word32 off b = of_nat (le_nat (take 4 (drop off b)))"

function redisPopcount :: "bytes \<Rightarrow> nat" where
  "redisPopcount s =
     (if length s \<ge> 16
      then unat (popcount32 (word32 0 s) + popcount32 (word32 4 s) + popcount32 (word32 8 s) + popcount32 (word32 12 s)) +
        redisPopcount (drop 16 s)
      else sum_list (map (\<lambda>b. bitsinbyte ! unat b) s))"
  by pat_completeness auto

termination by (relation "measure length") auto

declare redisPopcount.simps [simp del]

definition bitcount_reply :: "nat \<Rightarrow> bytes \<Rightarrow> u64 \<Rightarrow> u64 \<Rightarrow> redisServer \<Rightarrow> redisServer option" where
  "bitcount_reply c p start end s =
     (if sint start > sint end then Some (addReply c czero s)
      else do {
        bs \<leftarrow> rd (unat start) (unat (end - start + 1)) p;
        Some (addReply c (Integer (int (redisPopcount bs))) s) })"

definition bitcountCommand :: "nat \<Rightarrow> redisServer \<Rightarrow> redisServer option" where
  "bitcountCommand c s = do {
     (o1, s) \<leftarrow> lookupKeyReadOrReply c (argv s c 1) czero s;
     (case o1 of
        None \<Rightarrow> Some s
      | Some (StringObj v) \<Rightarrow>
        let p = getDecodedObject v
        in if argc s c = 4 then
             (case getLongFromObjectOrReply c (Some (Raw (argv s c 2))) not_an_integer s of
                Inl s \<Rightarrow> Some s
              | Inr start \<Rightarrow>
                (case getLongFromObjectOrReply c (Some (Raw (argv s c 3))) not_an_integer s of
                   Inl s \<Rightarrow> Some s
                 | Inr end \<Rightarrow>
                   let strlen = of_nat (length p);
                       start = (if sint start < 0 then strlen + start else start);
                       end = (if sint end < 0 then strlen + end else end);
                       start = (if sint start < 0 then 0 else start);
                       end = (if sint end < 0 then 0 else end);
                       end = (if sint end \<ge> sint strlen then strlen - 1 else end)
                   in bitcount_reply c p start end s))
           else if argc s c = 2 then bitcount_reply c p 0 (of_nat (length p) - 1) s
           else Some (addReply c (Error ''ERR syntax error'') s)
      | Some _ \<Rightarrow> Some (addReply c wrongtypeerr s)) }"

section \<open>Single bits\<close>

definition bit_not_integer :: reply where
  "bit_not_integer = Error ''ERR bit is not an integer or out of range''"

text \<open>The byte with a new bit, and its old bit.\<close>

definition set_bit_byte :: "nat \<Rightarrow> u64 \<Rightarrow> byte \<Rightarrow> byte" where
  "set_bit_byte k on b = (b AND NOT (push_bit k 1)) OR push_bit k (ucast (on AND 1))"

definition setbit_store :: "nat \<Rightarrow> nat \<Rightarrow> bytes \<Rightarrow> bytes \<Rightarrow> u64 \<Rightarrow> u64 \<Rightarrow> redisServer \<Rightarrow> redisServer option" where
  "setbit_store c i key str bitoffset on s = do {
     let byte = unat (drop_bit 3 bitoffset);
     let str = sdsgrowzero (byte + 1) str;
     bs \<leftarrow> rd byte 1 str;
     let byteval = hd bs;
     let k = 7 - unat (bitoffset AND 7);
     str \<leftarrow> wr byte [set_bit_byte k on byteval] str;
     s \<leftarrow> dbOverwrite i key (StringObj (Raw str)) s;
     let s = signalModifiedKey i key s;
     let s = notifyKeyspaceEvent NString ''setbit'' key i s;
     let s = add_dirty 1 s;
     Some (addReply c (if byteval AND push_bit k 1 \<noteq> 0 then cone else czero) s) }"

definition setbitCommand :: "nat \<Rightarrow> redisServer \<Rightarrow> redisServer option" where
  "setbitCommand c s =
     (let i = cur_db s c; key = argv s c 1
      in case getBitOffsetFromArgument c (argv s c 2) s of
           Inl s \<Rightarrow> Some s
         | Inr bitoffset \<Rightarrow>
           (case getLongFromObjectOrReply c (Some (Raw (argv s c 3))) bit_not_integer s of
              Inl s \<Rightarrow> Some s
            | Inr on \<Rightarrow>
              if on AND NOT 1 \<noteq> 0 then Some (addReply c bit_not_integer s)
              else do {
                (o1, s) \<leftarrow> lookupKeyWrite i key s;
                (case o1 of
                   None \<Rightarrow> do {
                     s \<leftarrow> dbAdd i key (StringObj (Raw [])) s;
                     setbit_store c i key [] bitoffset on s }
                 | Some (StringObj v) \<Rightarrow> setbit_store c i key (getDecodedObject v) bitoffset on s
                 | Some _ \<Rightarrow> Some (addReply c wrongtypeerr s)) }))"

definition getbitCommand :: "nat \<Rightarrow> redisServer \<Rightarrow> redisServer option" where
  "getbitCommand c s =
     (case getBitOffsetFromArgument c (argv s c 2) s of
        Inl s \<Rightarrow> Some s
      | Inr bitoffset \<Rightarrow> do {
          (o1, s) \<leftarrow> lookupKeyReadOrReply c (argv s c 1) czero s;
          (case o1 of
             None \<Rightarrow> Some s
           | Some (StringObj v) \<Rightarrow>
             let str = getDecodedObject v; byte = unat (drop_bit 3 bitoffset); k = 7 - unat (bitoffset AND 7)
             in Some (addReply c (if byte < length str \<and> str ! byte AND push_bit k 1 \<noteq> 0 then cone else czero) s)
           | Some _ \<Rightarrow> Some (addReply c wrongtypeerr s)) })"

section \<open>Operations on strings of bits\<close>

datatype bitop = Bitop_and | Bitop_or | Bitop_xor | Bitop_not

definition bitop_named :: "bytes \<Rightarrow> bitop option" where
  "bitop_named opname =
     (let name = takeWhile (\<lambda>b. b \<noteq> 0) opname
      in if strcasecmp_eq name (ascii ''and'') then Some Bitop_and
         else if strcasecmp_eq name (ascii ''or'') then Some Bitop_or
         else if strcasecmp_eq name (ascii ''xor'') then Some Bitop_xor
         else if strcasecmp_eq name (ascii ''not'') then Some Bitop_not
         else None)"

text \<open>The sources: a key that does not exist is an empty string.\<close>

fun bitop_sources :: "nat \<Rightarrow> nat \<Rightarrow> bytes list \<Rightarrow> redisServer \<Rightarrow> (redisServer + bytes list \<times> redisServer) option" where
  "bitop_sources c i [] s = Some (Inr ([], s))"
| "bitop_sources c i (key # keys) s = do {
     (o1, s) \<leftarrow> lookupKeyRead i key s;
     (case o1 of
        None \<Rightarrow> do {
          r \<leftarrow> bitop_sources c i keys s;
          Some (case r of Inl s \<Rightarrow> Inl s | Inr (srcs, s) \<Rightarrow> Inr ([] # srcs, s)) }
      | Some (StringObj v) \<Rightarrow> do {
          r \<leftarrow> bitop_sources c i keys s;
          Some (case r of Inl s \<Rightarrow> Inl s | Inr (srcs, s) \<Rightarrow> Inr (getDecodedObject v # srcs, s)) }
      | Some _ \<Rightarrow> Some (Inl (addReply c wrongtypeerr s))) }"

text \<open>The longest and the shortest length.\<close>

fun bitop_lens :: "nat \<Rightarrow> nat \<Rightarrow> nat \<Rightarrow> bytes list \<Rightarrow> nat \<times> nat" where
  "bitop_lens j maxlen minlen [] = (maxlen, minlen)"
| "bitop_lens j maxlen minlen (src # srcs) =
     bitop_lens (j + 1) (if length src > maxlen then length src else maxlen)
       (if j = 0 \<or> length src < minlen then length src else minlen) srcs"

fun word_op :: "bitop \<Rightarrow> u64 \<Rightarrow> u64 \<Rightarrow> u64" where
  "word_op Bitop_and a b = a AND b"
| "word_op Bitop_or a b = a OR b"
| "word_op Bitop_xor a b = a XOR b"
| "word_op Bitop_not a b = a"

fun byte_op :: "bitop \<Rightarrow> byte \<Rightarrow> byte \<Rightarrow> byte" where
  "byte_op Bitop_and a b = a AND b"
| "byte_op Bitop_or a b = a OR b"
| "byte_op Bitop_xor a b = a XOR b"
| "byte_op Bitop_not a b = a"

text \<open>Four words at a place of a buffer, and their bytes.\<close>

definition word64 :: "bytes \<Rightarrow> u64" where "word64 bs = of_nat (le_nat bs)"

definition words4 :: "nat \<Rightarrow> bytes \<Rightarrow> u64 list option" where
  "words4 j b = map_option (\<lambda>bs. map (\<lambda>k. word64 (take 8 (drop (8 * k) bs))) [0, 1, 2, 3]) (rd j 32 b)"

definition bytes4 :: "u64 list \<Rightarrow> bytes" where
  "bytes4 ws = concat (map (\<lambda>w. le_bytes 8 (unat w)) ws)"

fun fast_sources :: "bitop \<Rightarrow> nat \<Rightarrow> u64 list \<Rightarrow> bytes list \<Rightarrow> u64 list option" where
  "fast_sources op j lres [] = Some lres"
| "fast_sources op j lres (src # srcs) = do {
     lp \<leftarrow> words4 j src;
     fast_sources op j (map2 (word_op op) lres lp) srcs }"

text \<open>The rounds of the fast path write into the result; the next byte to process is returned.\<close>

function fast_loop :: "bitop \<Rightarrow> bytes list \<Rightarrow> nat \<Rightarrow> nat \<Rightarrow> bytes \<Rightarrow> (nat \<times> bytes) option" where
  "fast_loop op srcs j minlen res =
     (if minlen \<ge> 32 then do {
        lres \<leftarrow> words4 j res;
        lres \<leftarrow> (if op = Bitop_not then Some (map NOT lres) else fast_sources op j lres (tl srcs));
        res \<leftarrow> wr j (bytes4 lres) res;
        fast_loop op srcs (j + 32) (minlen - 32) res }
      else Some (j, res))"
  by pat_completeness auto

termination by (relation "measure (\<lambda>(_, _, _, minlen, _). minlen)") auto

declare fast_loop.simps [simp del]

definition bitop_byte :: "bitop \<Rightarrow> bytes list \<Rightarrow> nat \<Rightarrow> byte" where
  "bitop_byte op srcs j =
     (let at = (\<lambda>src. if length src \<le> j then 0 else src ! j);
          output = (if op = Bitop_not then NOT (at (hd srcs)) else at (hd srcs))
      in foldl (byte_op op) output (map at (tl srcs)))"

definition bitop_result :: "bitop \<Rightarrow> bytes list \<Rightarrow> nat \<Rightarrow> nat \<Rightarrow> bytes option" where
  "bitop_result op srcs maxlen minlen = do {
     let res = replicate maxlen 0;
     (j, res) \<leftarrow>
       (if minlen \<noteq> 0 \<and> length srcs \<le> 16 then do {
          bs \<leftarrow> rd 0 minlen (hd srcs);
          res \<leftarrow> wr 0 bs res;
          fast_loop op srcs 0 minlen res }
        else Some (0, res));
     Some (foldl (\<lambda>res j. res[j := bitop_byte op srcs j]) res [j..<maxlen]) }"

definition bitopCommand :: "nat \<Rightarrow> redisServer \<Rightarrow> redisServer option" where
  "bitopCommand c s =
     (let i = cur_db s c; targetkey = argv s c 2
      in case bitop_named (argv s c 1) of
           None \<Rightarrow> Some (addReply c (Error ''ERR syntax error'') s)
         | Some op \<Rightarrow>
           if op = Bitop_not \<and> argc s c \<noteq> 4
           then Some (addReply c (Error ''ERR BITOP NOT must be called with a single source key.'') s)
           else do {
             r \<leftarrow> bitop_sources c i (drop 3 (c_argv (clients s ! c))) s;
             (case r of
                Inl s \<Rightarrow> Some s
              | Inr (srcs, s) \<Rightarrow>
                let (maxlen, minlen) = bitop_lens 0 0 0 srcs
                in do {
                  s \<leftarrow> (if maxlen \<noteq> 0 then do {
                         res \<leftarrow> bitop_result op srcs maxlen minlen;
                         s \<leftarrow> setKey i targetkey (StringObj (Raw res)) s;
                         Some (notifyKeyspaceEvent NString ''set'' targetkey i s) }
                       else (let (deleted, s) = dbDelete i targetkey s
                             in Some (if deleted then notifyKeyspaceEvent NGeneric ''del'' targetkey i
                                        (signalModifiedKey i targetkey s) else s)));
                  let s = add_dirty 1 s;
                  Some (addReply c (Integer (int maxlen)) s) }) })"

section \<open>Counting on words\<close>

definition byte_bits :: "byte \<Rightarrow> nat" where
  "byte_bits b = length (filter (bit b) [0..<8])"

text \<open>The bits of a byte as a number, and the steps of \<^const>\<open>popcount32\<close> on it.\<close>

definition int_bits :: "int \<Rightarrow> int" where
  "int_bits n = n mod 2 + n div 2 mod 2 + n div 4 mod 2 + n div 8 mod 2 + n div 16 mod 2 + n div 32 mod 2 +
     n div 64 mod 2 + n div 128 mod 2"

definition pop1 :: "int \<Rightarrow> int" where "pop1 n = (n div 2) AND 0x55"
definition pop2 :: "int \<Rightarrow> int" where "pop2 n = (n AND 0x33) + ((n div 4) AND 0x33)"
definition pop3 :: "int \<Rightarrow> int" where "pop3 n = (n + n div 16) mod 16"

lemma byte_table: "map int bitsinbyte = map int_bits [0..255]"
  by code_simp

lemma step_table:
  "\<forall>n \<in> set [0..255]. let m = n - pop1 n; k = pop2 m in
     pop3 k = int_bits n \<and> pop1 n \<le> n \<and> 0 \<le> k \<and> k \<le> 0x44 \<and> k mod 16 \<le> 4 \<and> int_bits n \<le> 8"
  by code_simp

lemma step_facts:
  assumes "0 \<le> n" and "n < 256"
  shows "pop3 (pop2 (n - pop1 n)) = int_bits n" and "pop1 n \<le> n" and "0 \<le> pop2 (n - pop1 n)"
    and "pop2 (n - pop1 n) \<le> 0x44" and "pop2 (n - pop1 n) mod 16 \<le> 4" and "int_bits n \<le> 8"
  using step_table assms by (auto simp: Let_def)

lemma uint_bit: "(uint b div 2 ^ k) mod 2 = of_bool (bit (b :: byte) k)"
proof -
  have "bit (uint b) k = bit b k"
  proof (cases "bit b k")
    case True
    then have "k < LENGTH(8)" by (rule bit_imp_le_length)
    then show ?thesis using True by (simp add: bit_uint_iff)
  qed (simp add: bit_uint_iff)
  then show ?thesis by (simp only: bit_iff_odd [of "uint b"] mod_2_eq_odd)
qed

lemma int_bits_byte: "int_bits (uint b) = int (byte_bits b)"
proof -
  have u: "[0..<8] = [0, 1, 2, 3, 4, 5, 6, 7]" by code_simp
  have e: "int (length (filter P ns)) = sum_list (map (\<lambda>n. of_bool (P n)) ns)" for P and ns :: "nat list"
    by (induction ns) simp_all
  have "int_bits (uint b) = sum_list (map (\<lambda>k. (uint b div 2 ^ k) mod 2) [0, 1, 2, 3, 4, 5, 6, 7])"
    by (simp only: int_bits_def list.map sum_list.Cons sum_list.Nil) simp
  then show ?thesis unfolding uint_bit byte_bits_def e u .
qed

lemma bitsinbyte_bits: "bitsinbyte ! unat b = byte_bits b"
proof -
  have l: "length bitsinbyte = 256" by (simp add: bitsinbyte_def)
  have u: "unat b < 256" using unat_less_numeral(1) [of b] by simp
  have n: "[0..255] ! unat b = 0 + int (unat b)" by (rule nth_upto) (use u in linarith)
  have "int (bitsinbyte ! unat b) = map int bitsinbyte ! unat b" using u l by (simp only: nth_map)
  also have "\<dots> = int_bits ([0..255] ! unat b)" unfolding byte_table by (rule nth_map) (use u in simp)
  also have "\<dots> = int (byte_bits b)" unfolding n by (simp add: int_bits_byte)
  finally show ?thesis by simp
qed

text \<open>Numbers as sequences of bytes; a mask that is the same in all bytes.\<close>

fun val :: "int list \<Rightarrow> int" where
  "val [] = 0"
| "val (n # ns) = n + 256 * val ns"

lemma and_split:
  assumes "0 \<le> a" "a < 256" "0 \<le> m" "m < 256"
  shows "(a + 256 * x) AND (m + 256 * y) = (a AND m) + 256 * ((x :: int) AND y)"
proof -
  have d: "(a + 256 * x) div 256 = x" "(a + 256 * x) mod 256 = a" if "0 \<le> a" "a < 256" for a x :: int
    using that by simp_all
  have t: "take_bit 8 (a + 256 * x) = a" "take_bit 8 (m + 256 * y) = m" "drop_bit 8 (a + 256 * x) = x" "drop_bit 8 (m + 256 * y) = y"
    using assms d by (simp_all add: take_bit_eq_mod drop_bit_eq_div)
  have "push_bit 8 (drop_bit 8 ((a + 256 * x) AND (m + 256 * y))) + take_bit 8 ((a + 256 * x) AND (m + 256 * y)) =
      (a + 256 * x) AND (m + 256 * y)" by (rule bits_ident)
  then show ?thesis by (simp add: take_bit_and drop_bit_and t push_bit_eq_mult)
qed

definition bytes_ok :: "int \<Rightarrow> int list \<Rightarrow> bool" where
  "bytes_ok k ns \<longleftrightarrow> (\<forall>n \<in> set ns. 0 \<le> n \<and> n \<le> k)"

lemma step_and:
  assumes "bytes_ok 255 ns" and "0 \<le> m" "m < 256"
  shows "val ns AND val (replicate (length ns) m) = val (map (\<lambda>n. n AND m) ns)"
  using assms(1) by (induction ns) (use assms(2,3) in \<open>simp_all add: bytes_ok_def and_split\<close>)


text \<open>A division by a power of 2 brings in bits of the next byte, which the masks cut off.\<close>

lemma byte_and_masks:
  "\<forall>n \<in> set [0..255]. \<forall>h \<in> {0, 1}. (n div 2 + 128 * h) AND 0x55 = (n div 2) AND 0x55"
  "\<forall>n \<in> set [0..255]. \<forall>h \<in> {0, 1, 2, 3}. (n div 4 + 64 * h) AND 0x33 = (n div 4) AND 0x33"
  by code_simp code_simp

lemma div_part:
  assumes "c * k = 256" and "c \<noteq> 0"
  shows "(n + 256 * v) div c = (n div c + k * (v mod c)) + 256 * ((v :: int) div c)"
proof -
  have e: "n + 256 * v = n + c * (k * v)" unfolding assms(1) [symmetric] by (simp only: mult.assoc)
  have "(n + 256 * v) div c = k * v + n div c" unfolding e by (rule div_mult_self2 [OF assms(2)])
  moreover have "k * v = k * (v mod c) + (c * k) * (v div c)"
    by (simp only: mult.commute [of c k] mult.assoc distrib_left [symmetric] mod_mult_div_eq)
  ultimately show ?thesis unfolding assms(1) by simp
qed

lemmas div_split = div_part [of 2 128, simplified] div_part [of 4 64, simplified] div_part [of 16 16, simplified]

lemma mod_256: "(n + 256 * v) mod 16 = (n :: int) mod 16"
  using mod_mult_self2 [of n 16 "16 * v"] by simp

lemma val_nonneg: "bytes_ok k ns \<Longrightarrow> 0 \<le> val ns"
  by (induction ns) (auto simp: bytes_ok_def)

lemma step_div2:
  assumes "bytes_ok 255 ns"
  shows "val ns div 2 AND val (replicate (length ns) 0x55) = val (map pop1 ns)"
  using assms
proof (induction ns)
  case (Cons n ns)
  have n: "0 \<le> n" "n < 256" "bytes_ok 255 ns" using Cons.prems by (auto simp: bytes_ok_def)
  have "val ns mod 2 = 0 \<or> val ns mod 2 = 1" by presburger
  then have m: "(n div 2 + 128 * (val ns mod 2)) AND 0x55 = pop1 n"
    using byte_and_masks(1) n(1,2) by (auto simp: pop1_def)
  have "0 \<le> n div 2 + 128 * (val ns mod 2)" "n div 2 + 128 * (val ns mod 2) < 256" using n(1,2) by linarith+
  then show ?case using Cons.IH [OF n(3)] m by (simp add: div_split(1) and_split)
qed (simp add: pop1_def)

lemma step_div4:
  assumes "bytes_ok 255 ns"
  shows "val ns div 4 AND val (replicate (length ns) 0x33) = val (map (\<lambda>n. n div 4 AND 0x33) ns)"
  using assms
proof (induction ns)
  case (Cons n ns)
  have n: "0 \<le> n" "n < 256" "bytes_ok 255 ns" using Cons.prems by (auto simp: bytes_ok_def)
  have "val ns mod 4 = 0 \<or> val ns mod 4 = 1 \<or> val ns mod 4 = 2 \<or> val ns mod 4 = 3" by presburger
  then have m: "(n div 4 + 64 * (val ns mod 4)) AND 0x33 = n div 4 AND 0x33"
    using byte_and_masks(2) n(1,2) by auto
  have "0 \<le> n div 4 + 64 * (val ns mod 4)" "n div 4 + 64 * (val ns mod 4) < 256" using n(1,2) by linarith+
  then show ?case using Cons.IH [OF n(3)] m by (simp add: div_split(2) and_split)
qed simp

lemma step_div16:
  assumes "\<forall>n \<in> set ns. 0 \<le> n \<and> n \<le> 0x44 \<and> n mod 16 \<le> 4"
  shows "(val ns + val ns div 16) AND val (replicate (length ns) 0x0F) = val (map pop3 ns)"
  using assms
proof (induction ns)
  case (Cons n ns)
  have n: "0 \<le> n" "n \<le> 0x44" "\<forall>n \<in> set ns. 0 \<le> n \<and> n \<le> 0x44 \<and> n mod 16 \<le> 4" using Cons.prems by auto
  have v: "val ns mod 16 \<le> 4" using n(3) mod_256 by (cases ns) auto
  have m: "(n + n div 16 + 16 * (val ns mod 16)) AND 0x0F = pop3 n"
    using take_bit_eq_mask [of 4 "n + n div 16 + 16 * (val ns mod 16)"]
    by (simp add: pop3_def take_bit_eq_mod mask_eq_exp_minus_1)
  let ?a = "n + n div 16 + 16 * (val ns mod 16)" and ?b = "val ns + val ns div 16" and ?r = "val (replicate (length ns) 0x0F)"
  have b: "0 \<le> ?a" "?a < 256" using n(1,2) v by linarith+
  have "(?a + 256 * ?b) AND (0x0F + 256 * ?r) = (?a AND 0x0F) + 256 * (?b AND ?r)" by (rule and_split) (use b in simp_all)
  then have "(?a + 256 * ?b) AND (0x0F + 256 * ?r) = pop3 n + 256 * val (map pop3 ns)" unfolding m Cons.IH [OF n(3)] .
  moreover have "val (n # ns) + val (n # ns) div 16 = n + n div 16 + 16 * (val ns mod 16) + 256 * (val ns + val ns div 16)"
    by (simp add: div_split(3))
  ultimately show ?case by (simp only: list.size replicate_Suc val.simps list.map add_0 add_Suc plus_1_eq_Suc One_nat_def) simp
qed (simp add: pop3_def)

lemma val_less: "bytes_ok 255 ns \<Longrightarrow> val ns < 256 ^ length ns"
  by (induction ns) (auto simp: bytes_ok_def)

lemma val_minus: "length ns = length ms \<Longrightarrow> val ns - val ms = val (map2 (-) ns ms)"
  by (induction ns ms rule: list_induct2) simp_all

lemma val_plus: "length ns = length ms \<Longrightarrow> val ns + val ms = val (map2 (+) ns ms)"
  by (induction ns ms rule: list_induct2) simp_all

lemma u32_uint:
  "uint a + uint b < 2 ^ 32 \<Longrightarrow> uint (a + b :: u32) = uint a + uint b"
  "uint b \<le> uint a \<Longrightarrow> uint (a - b :: u32) = uint a - uint b"
  "uint (drop_bit n a) = uint a div 2 ^ n"
proof -
  show "uint b \<le> uint a \<Longrightarrow> uint (a - b) = uint a - uint b"
    using uint_minus_simple_alt [of b a] by (simp add: word_le_def)
  have "unat (drop_bit n a) = unat a div 2 ^ n" by (subst unat_drop_bit_eq) (rule drop_bit_eq_div)
  then have "int (unat (drop_bit n a)) = int (unat a) div 2 ^ n" by (simp only: zdiv_int of_nat_power of_nat_numeral)
  then show "uint (drop_bit n a) = uint a div 2 ^ n" by (simp only: uint_nat)
qed (simp add: uint_plus_if')

lemma uint_byte: "0 \<le> uint (b :: byte) \<and> uint b \<le> 255"
proof -
  have "uint b < 2 ^ LENGTH(8)" by (rule unsigned_less)
  then show ?thesis by simp
qed

lemma popcount32_bytes:
  assumes l: "length bs = 4"
  shows "unat (popcount32 (of_nat (le_nat bs))) = sum_list (map byte_bits bs)"
proof -
  define ns where "ns = map uint bs"
  define ms where "ms = map (\<lambda>n. n - pop1 n) ns"
  define ks where "ks = map pop2 ms"
  define w :: u32 where "w = of_nat (le_nat bs)"
  define w1 where "w1 = w - (drop_bit 1 w AND 0x55555555)"
  define w2 where "w2 = (w1 AND 0x33333333) + (drop_bit 2 w1 AND 0x33333333)"
  define w3 where "w3 = (w2 + drop_bit 4 w2) AND 0x0F0F0F0F"
  have ns: "length ns = 4" "bytes_ok 255 ns" using l uint_byte by (auto simp: ns_def bytes_ok_def)
  have masks: "val (replicate 4 0x55) = 0x55555555" "val (replicate 4 0x33) = 0x33333333" "val (replicate 4 0x0F) = 0x0F0F0F0F"
    by code_simp+
  have facts: "pop3 (pop2 (n - pop1 n)) = int_bits n" "pop1 n \<le> n" "0 \<le> pop2 (n - pop1 n)"
      "pop2 (n - pop1 n) \<le> 0x44" "pop2 (n - pop1 n) mod 16 \<le> 4" "int_bits n \<le> 8" if "n \<in> set ns" for n
    using step_facts [of n] ns(2) that by (auto simp: bytes_ok_def)
  have "le_nat bs < 2 ^ 32" using le_nat_less [of bs] l by simp
  moreover have "int (le_nat bs) = val ns" unfolding ns_def by (induction bs) simp_all
  ultimately have w: "uint w = val ns" unfolding w_def by (simp add: unsigned_of_nat take_bit_nat_eq_self)
  have p1: "0 \<le> pop1 n" for n by (simp add: pop1_def)
  have "uint (drop_bit 1 w AND 0x55555555) = val (map pop1 ns)"
    unfolding uint_and u32_uint(3) w using step_div2 [OF ns(2)] by (simp add: ns(1) masks)
  moreover have "val (map pop1 ns) \<le> val ns" using facts(2) by (induction ns) (simp_all add: add_mono)
  moreover have "map2 (-) ns (map pop1 ns) = ms" by (rule nth_equalityI) (simp_all add: ms_def)
  ultimately have w1: "uint w1 = val ms"
    unfolding w1_def using u32_uint(2) [of "drop_bit 1 w AND 0x55555555" w] val_minus [of ns "map pop1 ns"] w by simp
  have ms: "length ms = 4" "bytes_ok 255 ms"
  proof -
    have "0 \<le> n - pop1 n \<and> n - pop1 n \<le> 255" if "n \<in> set ns" for n
    proof -
      have "n \<le> 255" using ns(2) that by (simp add: bytes_ok_def)
      then show ?thesis using facts(2) [OF that] p1 [of n] by linarith
    qed
    then show "length ms = 4" "bytes_ok 255 ms" using ns(1) by (auto simp: ms_def bytes_ok_def)
  qed
  have "uint (w1 AND 0x33333333) + uint (drop_bit 2 w1 AND 0x33333333) =
      val (map (\<lambda>n. n AND 0x33) ms) + val (map (\<lambda>n. n div 4 AND 0x33) ms)"
    unfolding uint_and u32_uint(3) w1 using step_div4 [OF ms(2)] step_and [OF ms(2), where m = "0x33"] by (simp add: ms(1) masks)
  also have "\<dots> = val (map2 (+) (map (\<lambda>n. n AND 0x33) ms) (map (\<lambda>n. n div 4 AND 0x33) ms))" by (rule val_plus) simp
  also have "map2 (+) (map (\<lambda>n. n AND 0x33) ms) (map (\<lambda>n. n div 4 AND 0x33) ms) = ks"
    by (rule nth_equalityI) (simp_all add: ks_def pop2_def)
  finally have s2: "uint (w1 AND 0x33333333) + uint (drop_bit 2 w1 AND 0x33333333) = val ks" .
  have ks: "\<forall>n \<in> set ks. 0 \<le> n \<and> n \<le> 0x44 \<and> n mod 16 \<le> 4" "length ks = 4" "bytes_ok 0x44 ks"
    using facts(3-5) ns(1) by (auto simp: ks_def ms_def bytes_ok_def)
  have small: "val ks < 2 ^ 31"
  proof -
    obtain a b c d where "ks = [a, b, c, d]" using ks(2) by (auto simp: numeral_eq_Suc length_Suc_conv)
    then show ?thesis using ks(3) by (simp add: bytes_ok_def)
  qed
  have w2: "uint w2 = val ks" unfolding w2_def using u32_uint(1) s2 small by simp
  have "0 \<le> val ks" by (rule val_nonneg [OF ks(3)])
  then have "uint w2 + uint (drop_bit 4 w2) < 2 ^ 32" unfolding u32_uint(3) w2 using small by simp
  then have "uint (w2 + drop_bit 4 w2) = val ks + val ks div 16" using u32_uint(1,3) w2 by simp
  then have w3: "uint w3 = val (map int_bits ns)"
    unfolding w3_def uint_and using step_div16 [OF ks(1)] facts(1) by (simp add: ns(1) masks ks_def ms_def cong: map_cong)
  obtain a b c d where ps: "map int_bits ns = [a, b, c, d]" using ns(1) by (auto simp: numeral_eq_Suc length_Suc_conv)
  have "\<forall>p \<in> set (map int_bits ns). 0 \<le> p \<and> p \<le> 8" using facts(6) by (auto simp: int_bits_def)
  then have p: "0 \<le> a" "a \<le> 8" "0 \<le> b" "b \<le> 8" "0 \<le> c" "c \<le> 8" "0 \<le> d" "d \<le> 8" unfolding ps by simp_all
  have "uint (drop_bit 24 (w3 * 0x01010101)) = (val [a, b, c, d] * 0x01010101) mod 2 ^ 32 div 2 ^ 24"
    unfolding u32_uint(3) uint_word_ariths(3) w3 ps by simp
  also have "\<dots> = a + b + c + d"
  proof -
    let ?l = "a + 2 ^ 8 * (a + b) + 2 ^ 16 * (a + b + c)" and ?r = "(b + c + d) + 2 ^ 8 * (c + d) + 2 ^ 16 * d"
    have "val [a, b, c, d] * 0x01010101 = ?l + 2 ^ 24 * (a + b + c + d) + 2 ^ 32 * ?r" by simp
    then have "val [a, b, c, d] * 0x01010101 mod 2 ^ 32 = (?l + 2 ^ 24 * (a + b + c + d)) mod 2 ^ 32"
      by (simp only: mod_mult_self2)
    also have "\<dots> = ?l + 2 ^ 24 * (a + b + c + d)" by (rule mod_pos_pos_trivial) (use p in simp_all)
    also have "\<dots> div 2 ^ 24 = (a + b + c + d) + ?l div 2 ^ 24" by (rule div_mult_self2) simp
    also have "?l div 2 ^ 24 = 0" by (rule div_pos_pos_trivial) (use p in simp_all)
    finally show ?thesis by simp
  qed
  also have "\<dots> = int (sum_list (map byte_bits bs))"
  proof -
    have "sum_list (map int_bits ns) = int (sum_list (map byte_bits bs))"
      unfolding ns_def by (induction bs) (simp_all add: int_bits_byte)
    then show ?thesis unfolding ps by simp
  qed
  finally have "int (unat (drop_bit 24 (w3 * 0x01010101))) = int (sum_list (map byte_bits bs))" by simp
  then have "unat (drop_bit 24 (w3 * 0x01010101)) = sum_list (map byte_bits bs)" by (simp only: of_nat_eq_iff)
  then show ?thesis by (simp only: popcount32_def Let_def w_def w1_def w2_def w3_def)
qed

lemma byte_bits_le: "byte_bits b \<le> 8"
  unfolding byte_bits_def by (rule order_trans [OF length_filter_le]) simp

text \<open>C14: The count of the set bits of a string, 16 bytes at a time by arithmetic on four 32-bit words and the
  rest by a table, is the number of its set bits, counted bit by bit.\<close>

theorem redisPopcount_counts: "redisPopcount s = length (filter (\<lambda>(b, k). bit b k) (List.product s [0..<8]))"
proof -
  have "redisPopcount s = sum_list (map byte_bits s)"
  proof (induction s rule: redisPopcount.induct)
    case (1 s)
    show ?case
    proof (cases "length s \<ge> 16")
      case True
      let ?w = "\<lambda>k. popcount32 (word32 k s)" and ?n = "\<lambda>k. sum_list (map byte_bits (take 4 (drop k s)))"
      have w: "unat (?w k) = ?n k" if "k + 4 \<le> length s" for k
        using popcount32_bytes [of "take 4 (drop k s)"] that by (simp add: word32_def)
      have le: "?n k \<le> 32" for k
      proof -
        have "sum_list (map byte_bits (take 4 (drop k s))) \<le> sum_list (map (\<lambda>_. 8) (take 4 (drop k s)))"
          by (rule sum_list_mono) (rule byte_bits_le)
        also have "\<dots> \<le> 32" by (simp add: sum_list_triv)
        finally show ?thesis .
      qed
      have step: "sum_list (map byte_bits (drop k s)) = ?n k + sum_list (map byte_bits (drop (k + 4) s))" for k
      proof -
        have "map byte_bits (drop k s) = map byte_bits (take 4 (drop k s)) @ map byte_bits (drop 4 (drop k s))"
          unfolding map_append [symmetric] append_take_drop_id ..
        then show ?thesis by (simp add: add.commute)
      qed
      have "sum_list (map byte_bits s) = ?n 0 + ?n 4 + ?n 8 + ?n 12 + sum_list (map byte_bits (drop 16 s))"
        using step [of 0] step [of 4] step [of 8] step [of 12] by simp
      moreover have "unat (?w 0 + ?w 4 + ?w 8 + ?w 12) = ?n 0 + ?n 4 + ?n 8 + ?n 12"
        using le [of 0] le [of 4] le [of 8] le [of 12] w [of 0] w [of 4] w [of 8] w [of 12] True
        by (simp add: unat_word_ariths)
      ultimately show ?thesis using 1 True by (subst redisPopcount.simps) simp
    qed (simp add: redisPopcount.simps [of s] bitsinbyte_bits)
  qed
  moreover have "length (filter (\<lambda>(b, k). bit b k) (List.product s [0..<8])) = sum_list (map byte_bits s)"
    by (induction s) (simp_all add: byte_bits_def filter_map o_def)
  ultimately show ?thesis by simp
qed

section \<open>Words and their bytes\<close>

lemma bit_le_nat: "bit (le_nat bs) n \<longleftrightarrow> n div 8 < length bs \<and> bit (bs ! (n div 8)) (n mod 8)"
proof (induction bs arbitrary: n)
  case (Cons b bs)
  let ?x = "unat b + 256 * le_nat bs"
  have u: "unat b < 256" using unat_less_numeral(1) [of b] by simp
  then have t: "take_bit 8 ?x = unat b" "drop_bit 8 ?x = le_nat bs" by (simp_all add: take_bit_eq_mod drop_bit_eq_div)
  show ?case
  proof (cases "n < 8")
    case True
    then have "bit ?x n = bit (take_bit 8 ?x) n" by (simp add: bit_take_bit_iff)
    then show ?thesis using True unfolding t by (simp add: bit_unsigned_iff)
  next
    case False
    then have "bit ?x n = bit (drop_bit 8 ?x) (n - 8)" by (simp add: bit_drop_bit_eq)
    moreover have "n div 8 = Suc ((n - 8) div 8)" "n mod 8 = (n - 8) mod 8" using False by (simp_all add: le_div_geq le_mod_geq)
    ultimately show ?thesis unfolding t using Cons.IH [of "n - 8"] by simp
  qed
qed simp

lemma unat_word64:
  assumes "length bs = 8"
  shows "unat (word64 bs) = le_nat bs"
proof -
  have "le_nat bs < 2 ^ 64" using le_nat_less [of bs] assms by simp
  then show ?thesis by (simp add: word64_def unsigned_of_nat take_bit_nat_eq_self)
qed

lemma bit_word64:
  assumes "length bs = 8" and "n < 64"
  shows "bit (word64 bs) n \<longleftrightarrow> bit (bs ! (n div 8)) (n mod 8)"
proof -
  have "bit (word64 bs) n \<longleftrightarrow> bit (unat (word64 bs)) n" using assms(2) by (simp add: bit_unsigned_iff)
  moreover have "n div 8 < 8" using assms(2) by linarith
  ultimately show ?thesis using assms by (simp add: unat_word64 bit_le_nat)
qed

lemma word_op_bytes:
  assumes "length as = 8" and "length bs = 8"
  shows "word_op op (word64 as) (word64 bs) = word64 (map2 (byte_op op) as bs)"
proof (rule bit_word_eqI)
  fix n assume n: "n < LENGTH(64)"
  then have "n div 8 < 8" by simp
  then have "bit (map2 (byte_op op) as bs ! (n div 8)) (n mod 8) = bit (byte_op op (as ! (n div 8)) (bs ! (n div 8))) (n mod 8)"
    using assms by simp
  then show "bit (word_op op (word64 as) (word64 bs)) n = bit (word64 (map2 (byte_op op) as bs)) n"
    using assms n by (cases op) (simp_all add: bit_word64 bit_and_iff bit_or_iff bit_xor_iff)
qed

lemma not_bytes:
  assumes "length as = 8"
  shows "NOT (word64 as) = word64 (map NOT as)"
proof (rule bit_word_eqI)
  fix n assume n: "n < LENGTH(64)"
  then have "n div 8 < 8" by simp
  moreover have "n mod 8 < 8" by simp
  ultimately show "bit (NOT (word64 as)) n = bit (word64 (map NOT as)) n"
    using assms n by (simp add: bit_word64 bit_not_iff)
qed

lemma bytes_word64:
  assumes "length bs = 8"
  shows "le_bytes 8 (unat (word64 bs)) = bs"
proof -
  have "unat (word64 bs) = le_nat bs" by (rule unat_word64 [OF assms])
  then show ?thesis using le_bytes_le_nat [of bs] assms by simp
qed

text \<open>The four words of 32 bytes.\<close>

definition quad :: "bytes \<Rightarrow> u64 list" where
  "quad bs = map (\<lambda>k. word64 (take 8 (drop (8 * k) bs))) [0, 1, 2, 3]"

lemma words4_quad: "j + 32 \<le> length b \<Longrightarrow> words4 j b = Some (quad (take 32 (drop j b)))"
  by (simp add: words4_def quad_def rd_def)

lemma quad_map2:
  "length as = 32 \<Longrightarrow> length bs = 32 \<Longrightarrow> map2 (word_op op) (quad as) (quad bs) = quad (map2 (byte_op op) as bs)"
  by (simp add: quad_def word_op_bytes take_map drop_map take_zip drop_zip)

lemma quad_not: "length as = 32 \<Longrightarrow> map NOT (quad as) = quad (map NOT as)"
  by (simp add: quad_def not_bytes take_map drop_map)

lemma bytes4_quad:
  assumes "length bs = 32"
  shows "bytes4 (quad bs) = bs"
proof -
  have "drop (8 * k) bs = take 8 (drop (8 * k) bs) @ drop (8 * (k + 1)) bs" for k
    using append_take_drop_id [of 8 "drop (8 * k) bs"] by (simp add: add.commute)
  from this [of 0] this [of 1] this [of 2] this [of 3] show ?thesis
    using assms by (simp add: bytes4_def quad_def bytes_word64)
qed

section \<open>The fast path\<close>

definition chunks :: "bitop \<Rightarrow> nat \<Rightarrow> bytes \<Rightarrow> bytes list \<Rightarrow> bytes" where
  "chunks op j as srcs = foldl (\<lambda>as src. map2 (byte_op op) as (take 32 (drop j src))) as srcs"

lemma fast_sources_ok:
  assumes "length as = 32" and "\<forall>src \<in> set srcs. j + 32 \<le> length src"
  shows "fast_sources op j (quad as) srcs = Some (quad (chunks op j as srcs)) \<and> length (chunks op j as srcs) = 32 \<and>
    (\<forall>k < 32. chunks op j as srcs ! k = foldl (byte_op op) (as ! k) (map (\<lambda>src. src ! (j + k)) srcs))"
  using assms
proof (induction srcs arbitrary: as)
  case (Cons src srcs)
  let ?as = "map2 (byte_op op) as (take 32 (drop j src))"
  have "length src - j \<ge> 32" using Cons.prems(2) by auto
  then have l: "length ?as = 32" "length (take 32 (drop j src)) = 32" using Cons.prems by simp_all
  have "words4 j src = Some (quad (take 32 (drop j src)))" using Cons.prems(2) by (simp add: words4_quad)
  then show ?case using Cons.IH [OF l(1)] Cons.prems l by (simp add: quad_map2 chunks_def)
qed (simp add: chunks_def)

lemma fast_loop_ok:
  assumes "srcs \<noteq> []" and "op = Bitop_not \<Longrightarrow> tl srcs = []" and "\<forall>src \<in> set srcs. j + minlen \<le> length src"
    and "j + minlen \<le> length res" and "\<forall>k < j + minlen. res ! k = (if k < j then bitop_byte op srcs k else hd srcs ! k)"
  shows "\<exists>j' res'. fast_loop op srcs j minlen res = Some (j', res') \<and> length res' = length res \<and> j' \<le> length res \<and>
    (\<forall>k < j'. res' ! k = bitop_byte op srcs k)"
  using assms
proof (induction minlen arbitrary: j res rule: less_induct)
  case (less minlen)
  show ?case
  proof (cases "minlen \<ge> 32")
    case False
    then show ?thesis using less.prems by (subst fast_loop.simps) simp
  next
    case True
    let ?as = "take 32 (drop j res)"
    define bs where "bs = (if op = Bitop_not then map NOT ?as else chunks op j ?as (tl srcs))"
    have as: "length ?as = 32" "\<forall>k < 32. ?as ! k = hd srcs ! (j + k)" using less.prems(4,5) True by simp_all
    have long: "j + 32 \<le> length src" if "src \<in> set srcs" for src
    proof -
      have "j + minlen \<le> length src" using less.prems(3) that by blast
      then show ?thesis using True by simp
    qed
    have tl: "\<forall>src \<in> set (tl srcs). j + 32 \<le> length src" "j + 32 \<le> length (hd srcs)"
      using long list.set_sel(1) [OF less.prems(1)] list.set_sel(2) [OF less.prems(1)] by blast+
    note f = fast_sources_ok [OF as(1) tl(1), of op]
    have q: "(if op = Bitop_not then Some (map NOT (quad ?as)) else fast_sources op j (quad ?as) (tl srcs)) = Some (quad bs)"
      using f by (simp add: bs_def quad_not [OF as(1)])
    have bs: "length bs = 32" using f as(1) by (simp add: bs_def)
    have at: "bs ! k = bitop_byte op srcs (j + k)" if k: "k < 32" for k
    proof -
      have m: "map (\<lambda>src. if length src \<le> j + k then 0 else src ! (j + k)) (tl srcs) = map (\<lambda>src. src ! (j + k)) (tl srcs)"
        using tl(1) k by (intro map_cong) auto
      have h: "\<not> length (hd srcs) \<le> j + k" using tl(2) k by simp
      show ?thesis
      proof (cases "op = Bitop_not")
        case True
        then show ?thesis using less.prems(2) h k as by (simp add: bs_def bitop_byte_def)
      next
        case False
        then show ?thesis using f h k as(2) by (simp add: bs_def bitop_byte_def Let_def m)
      qed
    qed
    let ?res = "take j res @ bs @ drop (j + 32) res"
    have w: "wr j (bytes4 (quad bs)) res = Some ?res"
      using bs less.prems(4) True by (simp add: bytes4_quad wr_def)
    have len: "length ?res = length res" using bs less.prems(4) True by simp
    have nth: "?res ! k = (if k < j then res ! k else if k < j + 32 then bs ! (k - j) else res ! k)" if "k < length res" for k
      using that bs less.prems(4) True by (auto simp: nth_append)
    have "\<forall>k < (j + 32) + (minlen - 32). ?res ! k = (if k < j + 32 then bitop_byte op srcs k else hd srcs ! k)"
      using less.prems(4,5) True at nth by auto
    moreover have "\<forall>src \<in> set srcs. (j + 32) + (minlen - 32) \<le> length src" "(j + 32) + (minlen - 32) \<le> length ?res"
      using less.prems(3,4) True len by auto
    moreover have "minlen - 32 < minlen" using True by simp
    ultimately obtain j' res' where r: "fast_loop op srcs (j + 32) (minlen - 32) ?res = Some (j', res')" "length res' = length ?res"
        "j' \<le> length ?res" "\<forall>k < j'. res' ! k = bitop_byte op srcs k"
      using less.IH [of "minlen - 32" "j + 32" ?res] less.prems(1,2) by blast
    have "words4 j res = Some (quad ?as)" using less.prems(4) True by (simp add: words4_quad)
    then have "fast_loop op srcs j minlen res = fast_loop op srcs (j + 32) (minlen - 32) ?res"
      using True q w by (subst fast_loop.simps) simp
    then show ?thesis using r len by metis
  qed
qed

lemma bitop_lens_ok:
  assumes "bitop_lens j mx mn srcs = (maxlen, minlen)"
  shows "mx \<le> maxlen \<and> (0 < j \<longrightarrow> minlen \<le> mn) \<and> (\<forall>src \<in> set srcs. length src \<le> maxlen \<and> minlen \<le> length src) \<and>
    (maxlen = mx \<or> (\<exists>src \<in> set srcs. maxlen = length src))"
  using assms
proof (induction j mx mn srcs rule: bitop_lens.induct)
  case (2 j mx mn src srcs)
  then show ?case by (auto split: if_splits)
qed simp

lemma slow_loop:
  assumes "m \<le> length res" and "\<forall>k < j. res ! k = f k"
  shows "length (foldl (\<lambda>res j. res[j := f j]) res [j..<m]) = length res \<and>
    (\<forall>k < max j m. k < length res \<longrightarrow> foldl (\<lambda>res j. res[j := f j]) res [j..<m] ! k = f k)"
  using assms
proof (induction m)
  case (Suc m)
  then show ?case by (cases "j \<le> m") (auto simp: nth_list_update less_Suc_eq max_def)
qed simp

text \<open>C15: The result of BITOP, computed 32 bytes at a time where all sources have them and byte by byte behind,
  is as long as the longest source, and each byte combines the bytes of the sources at its place, those
  behind the end of a source counting as zero; no access is outside a source or the result.\<close>

theorem bitop_bytewise:
  assumes "srcs \<noteq> []" and "op = Bitop_not \<longrightarrow> length srcs = 1" and "bitop_lens 0 0 0 srcs = (maxlen, minlen)"
  shows "bitop_result op srcs maxlen minlen =
      Some (map (\<lambda>j. let at = map (\<lambda>src. if length src \<le> j then 0 else src ! j) srcs
                     in if op = Bitop_not then NOT (hd at) else foldl (byte_op op) (hd at) (tl at)) [0..<maxlen]) \<and>
    maxlen = Max (set (map length srcs))"
proof -
  have l: "\<forall>src \<in> set srcs. length src \<le> maxlen \<and> minlen \<le> length src" "maxlen = 0 \<or> (\<exists>src \<in> set srcs. maxlen = length src)"
    using bitop_lens_ok [OF assms(3)] by simp_all
  have h: "hd srcs \<in> set srcs" using assms(1) by simp
  have not: "op = Bitop_not \<Longrightarrow> tl srcs = []" using assms(1,2) by (cases srcs) auto
  let ?f = "bitop_byte op srcs"
  obtain j res where r: "(if minlen \<noteq> 0 \<and> length srcs \<le> 16 then do {
          bs \<leftarrow> rd 0 minlen (hd srcs);
          res \<leftarrow> wr 0 bs (replicate maxlen 0);
          fast_loop op srcs 0 minlen res }
        else Some (0, replicate maxlen 0)) = Some (j, res)" "length res = maxlen" "\<forall>k < j. res ! k = ?f k" "j \<le> maxlen"
  proof (cases "minlen \<noteq> 0 \<and> length srcs \<le> 16")
    case True
    have m: "minlen \<le> length (hd srcs)" "minlen \<le> maxlen" using l(1) h by (auto intro: order_trans)
    let ?res = "take minlen (hd srcs) @ replicate (maxlen - minlen) 0"
    have w: "rd 0 minlen (hd srcs) = Some (take minlen (hd srcs))"
        "wr 0 (take minlen (hd srcs)) (replicate maxlen 0) = Some ?res"
      using m by (simp_all add: rd_def wr_def)
    obtain j res where "fast_loop op srcs 0 minlen ?res = Some (j, res)" "length res = length ?res" "j \<le> length ?res"
        "\<forall>k < j. res ! k = ?f k"
      using fast_loop_ok [OF assms(1) not, where op = op and j = 0 and minlen = minlen and res = ?res] l(1) m by (auto simp: nth_append)
    then show ?thesis using that True w m by simp
  next
    case False
    then show ?thesis using that [of 0 "replicate maxlen 0"] by auto
  qed
  define out where "out = foldl (\<lambda>res j. res[j := ?f j]) res [j..<maxlen]"
  have "length out = maxlen" "\<forall>k < maxlen. out ! k = ?f k"
    using slow_loop [of maxlen res j ?f] r(2-4) unfolding out_def by (simp_all add: max_def)
  then have "out = map ?f [0..<maxlen]" by (intro nth_equalityI) simp_all
  moreover have "?f = (\<lambda>j. let at = map (\<lambda>src. if length src \<le> j then 0 else src ! j) srcs
      in if op = Bitop_not then NOT (hd at) else foldl (byte_op op) (hd at) (tl at))"
    using assms(1) not by (cases srcs) (auto simp: bitop_byte_def Let_def fun_eq_iff)
  moreover have "bitop_result op srcs maxlen minlen = Some out" unfolding bitop_result_def Let_def r(1) by (simp add: out_def)
  moreover have "maxlen = Max (set (map length srcs))"
  proof -
    have "maxlen \<in> length ` set srcs" using l h by force
    then show ?thesis using l(1) by (intro Max_eqI [symmetric]) auto
  qed
  ultimately show ?thesis by simp
qed

theorem bitop_bytewise_witness:
  "bitop_result Bitop_and [replicate 40 255, 15 # replicate 32 3] 40 33 \<noteq> None"
proof -
  have "bitop_lens 0 0 0 [replicate 40 255, 15 # replicate 32 3] = (40, 33)" by simp
  then show ?thesis using bitop_bytewise [of "[replicate 40 255, 15 # replicate 32 3]" Bitop_and 40 33] by simp
qed

section \<open>Safety\<close>

lemma bit_offset_reply: "getBitOffsetFromArgument c a s = Inl s' \<Longrightarrow> s' = addReply c bit_offset_error s"
  by (auto simp: getBitOffsetFromArgument_def dest!: getLongLong_reply split: sum.splits if_splits)

lemma safe_bit_offset [safe_steps]:
  assumes "upd i {} s0 s" and "\<And>v. safe_res i s0 (f v)"
  shows "safe_res i s0 (case getBitOffsetFromArgument c a s of Inl s \<Rightarrow> Some s | Inr v \<Rightarrow> f v)"
  using assms by (auto split: sum.split dest!: bit_offset_reply intro!: safe_steps upd_intros)

lemma safe_getbit: "safe_command getbitCommand"
  unfolding getbitCommand_def Let_def
  by (rule safe_commandI') (auto split: option.split robj.split intro!: safe_steps upd_intros)

text \<open>SETBIT reads and writes inside the string it has grown.\<close>

definition setbit_string :: "bytes \<Rightarrow> u64 \<Rightarrow> u64 \<Rightarrow> bytes" where
  "setbit_string str bitoffset on =
     (let byte = unat (drop_bit 3 bitoffset); str = sdsgrowzero (byte + 1) str
      in str[byte := set_bit_byte (7 - unat (bitoffset AND 7)) on (str ! byte)])"

lemma setbit_store_eq:
  "setbit_store c i key str bitoffset on s = do {
     s \<leftarrow> dbOverwrite i key (StringObj (Raw (setbit_string str bitoffset on))) s;
     Some (addReply c (if sdsgrowzero (unat (drop_bit 3 bitoffset) + 1) str ! unat (drop_bit 3 bitoffset) AND
         push_bit (7 - unat (bitoffset AND 7)) 1 \<noteq> 0 then cone else czero)
       (add_dirty 1 (notifyKeyspaceEvent NString ''setbit'' key i (signalModifiedKey i key s)))) }"
proof -
  let ?n = "unat (drop_bit 3 bitoffset)" and ?str = "sdsgrowzero (unat (drop_bit 3 bitoffset) + 1) str"
  have l: "?n < length ?str" by (simp add: sdsgrowzero_def)
  then have r: "rd ?n 1 ?str = Some [?str ! ?n]" by (simp add: rd_def take_Suc_conv_app_nth hd_drop_conv_nth)
  have w: "wr ?n [b] ?str = Some (?str[?n := b])" for b using l by (simp add: wr_def upd_conv_take_nth_drop)
  show ?thesis
    unfolding setbit_store_def Let_def r setbit_string_def bind.bind_lunit list.sel w ..
qed

lemma safe_setbit_store:
  assumes "upd i {} s0 s \<or> upd i {key} s0 s" and "i < length (dbs s0)" and "sees i key (Some v) s"
  shows "safe_res i s0 (setbit_store c i key str bitoffset on s)"
proof -
  have u: "upd i {key} s0 s" using assms(1) upd_mono by blast
  show ?thesis unfolding setbit_store_eq
    by (rule safe_dbOverwrite [OF u assms(2,3)]) (auto intro!: safe_steps upd_signal1 upd_intros assms(2))
qed

lemma safe_setbit: "safe_command setbitCommand"
  unfolding setbitCommand_def Let_def
  by (rule safe_commandI')
    (auto split: option.split robj.split sum.split dest!: getLongLong_reply bit_offset_reply
      intro!: safe_steps upd_intros safe_setbit_store)

text \<open>The range of BITCOUNT is inside the string, however long it is.\<close>

lemma sint_length: "sint (of_nat n - 1 :: u64) < int n" "sint (of_nat n :: u64) \<le> int n"
proof -
  show "sint (of_nat n - 1 :: u64) < int n"
  proof (cases "n < 2 ^ 63")
    case True
    then show ?thesis using sint_of_nat [OF True] sint_minus_ok [of "of_nat n :: u64" 1] by simp
  next
    case False
    then show ?thesis using sint_range_64(2) [of "of_nat n - 1"] by simp
  qed
  show "sint (of_nat n :: u64) \<le> int n"
  proof (cases "n < 2 ^ 63")
    case False
    then show ?thesis using sint_range_64(2) [of "of_nat n"] by simp
  qed (simp add: sint_of_nat)
qed

lemma sint_below: "sint (e :: u64) < sint (of_nat n :: u64) \<Longrightarrow> sint e < int n"
  using sint_length(2) [of n] by linarith

lemma bitcount_range:
  assumes "0 \<le> sint start" and "sint start \<le> sint end" and "sint end < int (length p)"
  shows "rd (unat start) (unat (end - start + 1 :: u64)) p = Some (take (nat (sint end - sint start + 1)) (drop (unat start) p))"
proof -
  have s: "sint start = int (unat start)" "sint end = int (unat end)" using assms(1,2) sint_nonneg_unat by auto
  have le: "unat start \<le> unat end" "unat end < length p"
    using assms(2,3) unfolding s by (simp_all only: of_nat_le_iff of_nat_less_iff)
  have "int (unat end) < int (2 ^ 63)" using sint_range_64(2) [of "end"] unfolding s by simp
  then have b: "unat end < 2 ^ 63" by (simp only: of_nat_less_iff)
  have "end - start + 1 = of_nat (unat end - unat start + 1)" using le(1) by (simp add: of_nat_diff)
  moreover have "unat (of_nat (unat end - unat start + 1) :: u64) = unat end - unat start + 1"
    by (rule of_nat_inverse [OF refl]) (use b in simp)
  ultimately have "unat (end - start + 1) = unat end - unat start + 1" by (simp only:)
  moreover have "int (unat end - unat start + 1) = sint end - sint start + 1"
    unfolding s using le(1) by (simp only: of_nat_add of_nat_diff of_nat_1)
  then have "nat (sint end - sint start + 1) = unat end - unat start + 1" by (metis nat_int)
  ultimately show ?thesis using le by (simp add: rd_def)
qed

lemma safe_bitcount_reply [safe_steps]:
  assumes "upd i {} s0 s" and "0 \<le> sint start" and "sint end < int (length p)"
  shows "safe_res i s0 (bitcount_reply c p start end s)"
proof (cases "sint start > sint end")
  case False
  then show ?thesis
    using bitcount_range [OF assms(2) _ assms(3)] assms(1) by (auto simp: bitcount_reply_def intro!: safe_steps upd_intros)
qed (use assms(1) in \<open>auto simp: bitcount_reply_def intro!: safe_steps upd_intros\<close>)

lemma safe_bitcount: "safe_command bitcountCommand"
  unfolding bitcountCommand_def Let_def
  by (rule safe_commandI')
    (auto split: option.split robj.split simp: sint_length not_le intro!: safe_steps upd_intros, (erule sint_below)+)

lemma bitop_sources_safe:
  "upd i {} s0 s \<Longrightarrow> i < length (dbs s0) \<Longrightarrow> safe_sum i s0 (bitop_sources c i keys s)"
proof (induction keys arbitrary: s)
  case (Cons key keys)
  have "safe_res i s0 (lookupKeyRead i key s \<bind> (\<lambda>(v, s'). Some s'))"
    using Cons.prems by (auto intro!: safe_steps)
  then obtain v s1 where "lookupKeyRead i key s = Some (v, s1)" "upd i {} s0 s1"
    by (cases "lookupKeyRead i key s") (auto simp: safe_res_def)
  then show ?case using Cons.IH [of s1] Cons.prems(2)
    by (auto simp: safe_sum_def intro!: upd_intros split: option.split robj.split)
qed (simp add: safe_sum_def)

lemma bitop_sources_length: "bitop_sources c i keys s = Some (Inr (srcs, s')) \<Longrightarrow> length srcs = length keys"
proof (induction keys arbitrary: s srcs)
  case (Cons key keys)
  then obtain v s1 where l: "lookupKeyRead i key s = Some (v, s1)" by (cases "lookupKeyRead i key s") auto
  then show ?case
    using Cons.prems Cons.IH
    by (cases "bitop_sources c i keys s1") (auto split: option.splits robj.splits sum.splits)
qed simp

lemma safe_bitop: "safe_command bitopCommand"
proof (rule safe_commandI')
  fix s c
  assume a: "cur_db s c < length (dbs s)" "upd (cur_db s c) {} s s"
  let ?i = "cur_db s c" and ?k = "argv s c 2"
  show "safe_res ?i s (bitopCommand c s)"
  proof (cases "bitop_named (argv s c 1)")
    case None
    then show ?thesis using a by (auto simp: bitopCommand_def intro!: safe_steps upd_intros)
  next
    case (Some op)
    show ?thesis
    proof (cases "op = Bitop_not \<and> argc s c \<noteq> 4")
      case True
      then show ?thesis using a Some by (auto simp: bitopCommand_def intro!: safe_steps upd_intros)
    next
      case False
      from bitop_sources_safe [OF a(2,1), of c "drop 3 (c_argv (clients s ! c))"] show ?thesis
      proof (cases rule: safe_sumE)
        case (1 s1)
        then show ?thesis using Some False by (auto simp: bitopCommand_def intro!: safe_steps)
      next
        case (2 srcs s1)
        obtain maxlen minlen where l: "bitop_lens 0 0 0 srcs = (maxlen, minlen)" by fastforce
        have n: "length srcs = argc s c - 3" using bitop_sources_length [OF 2(1)] by (simp add: argc_def)
        have "\<exists>res. bitop_result op srcs maxlen minlen = Some res" if "maxlen \<noteq> 0"
        proof -
          have "srcs \<noteq> []" using that l by auto
          moreover have "op = Bitop_not \<longrightarrow> length srcs = 1" using False n by auto
          ultimately show ?thesis using bitop_bytewise [OF _ _ l, of op] by blast
        qed
        then show ?thesis
          using a Some False 2 l upd_dbDelete1 [OF 2(2) a(1), of ?k] upd_dbDelete_absent [OF 2(2) a(1), of ?k]
          by (cases "maxlen = 0")
            (auto simp: bitopCommand_def Let_def case_prod_beta intro!: safe_steps upd_signal1 upd_intros)
      qed
    qed
  qed
qed

section \<open>What SETBIT does to the bits\<close>

definition string_bit :: "bytes \<Rightarrow> nat \<Rightarrow> bool" where
  "string_bit str n \<longleftrightarrow> n div 8 < length str \<and> bit (str ! (n div 8)) (7 - n mod 8)"

lemma offset_parts: "unat (drop_bit 3 (off :: u64)) = unat off div 8" "unat (off AND 7) = unat off mod 8"
proof -
  show "unat (drop_bit 3 off) = unat off div 8" by (subst unat_drop_bit_eq) (simp add: drop_bit_eq_div)
  have "unat (off AND 7) = unat off AND 7" by (simp add: unsigned_and_eq)
  also have "\<dots> = unat off mod 8" using take_bit_eq_mask [of 3 "unat off"] by (simp add: take_bit_eq_mod mask_eq_exp_minus_1)
  finally show "unat (off AND 7) = unat off mod 8" .
qed

lemma bit_and_single: "k < 8 \<Longrightarrow> (b AND push_bit k 1 \<noteq> 0) = bit (b :: byte) k"
  by (simp add: push_bit_eq_mult and_exp_eq_0_iff_not_bit)

lemma bit_set_bit_byte:
  assumes "k < 8" and "m < 8"
  shows "bit (set_bit_byte k on b) m = (if m = k then bit on 0 else bit b m)"
  using assms
  by (auto simp: set_bit_byte_def bit_or_iff bit_and_iff bit_not_iff bit_push_bit_iff bit_1_iff bit_ucast_iff bit_exp_iff)

lemma grown_nth: "j < n \<Longrightarrow> sdsgrowzero n str ! j = (if j < length str then str ! j else 0)"
  by (auto simp: sdsgrowzero_def nth_append)

lemma string_bit_set: "string_bit (setbit_string str off on) n = (if n = unat off then bit on 0 else string_bit str n)"
proof -
  let ?b = "unat off div 8" and ?k = "7 - unat off mod 8"
  let ?str = "sdsgrowzero (?b + 1) str"
  have e: "setbit_string str off on = ?str[?b := set_bit_byte ?k on (?str ! ?b)]"
    by (simp add: setbit_string_def offset_parts Let_def)
  have l: "?b < length ?str" "length str \<le> length ?str" by (simp_all add: sdsgrowzero_def)
  have g: "?str ! j = (if j < length str then str ! j else 0)" if "j < length ?str" for j
    using that by (auto simp: sdsgrowzero_def nth_append split: if_splits)
  show ?thesis
  proof (cases "n div 8 = ?b")
    case True
    have "?k < 8" "7 - n mod 8 < 8" by simp_all
    moreover have "7 - n mod 8 = ?k \<longleftrightarrow> n mod 8 = unat off mod 8" using mod_less_divisor [of 8 n] mod_less_divisor [of 8 "unat off"] by linarith
    moreover have "n = unat off \<longleftrightarrow> n mod 8 = unat off mod 8" using True div_mult_mod_eq [of n 8] div_mult_mod_eq [of "unat off" 8] by metis
    ultimately show ?thesis using True l g [OF l(1)] by (simp add: string_bit_def e bit_set_bit_byte)
  next
    case False
    then have "n \<noteq> unat off" by auto
    then show ?thesis using False l(2) g [of "n div 8"] by (auto simp: string_bit_def e split: if_splits)
  qed
qed

lemma setbit_store_ok:
  assumes "sees i key (Some v) s" and "c < length (clients s)"
  obtains s' where "setbit_store c i key str off on s = Some s'"
    and "visible s' i key = Some (StringObj (Raw (setbit_string str off on)))"
    and "\<forall>k. k \<noteq> key \<longrightarrow> visible s' i k = visible s i k"
    and "last (c_replies (clients s' ! c)) = Integer (if string_bit str (unat off) then 1 else 0)"
proof -
  have v: "visible s i key \<noteq> None" "i < length (dbs s)" and "fmlookup (db_dict (dbs s ! i)) key \<noteq> None"
    using assms(1) by (simp_all add: sees_def)
  then obtain s1 where s1: "dbOverwrite i key (StringObj (Raw (setbit_string str off on))) s = Some s1"
    using dbOverwrite_ok by blast
  let ?b = "unat off div 8"
  have "sdsgrowzero (?b + 1) str ! ?b = (if ?b < length str then str ! ?b else 0)" by (rule grown_nth) simp
  then have "(sdsgrowzero (?b + 1) str ! ?b AND push_bit (7 - unat off mod 8) 1 \<noteq> 0) = string_bit str (unat off)"
    by (subst bit_and_single) (auto simp: string_bit_def)
  then have e: "setbit_store c i key str off on s = Some (addReply c (if string_bit str (unat off) then cone else czero)
      (add_dirty 1 (notifyKeyspaceEvent NString ''setbit'' key i (signalModifiedKey i key s1))))"
    unfolding setbit_store_eq s1 offset_parts by simp
  have len: "c < length (clients (add_dirty 1 (notifyKeyspaceEvent NString ''setbit'' key i (signalModifiedKey i key s1))))"
    using db_ops_frame(2) [OF s1] assms(2) by (simp add: add_dirty_def notifyKeyspaceEvent_def frame_simps)
  show thesis
    by (rule that [OF e]) (use visible_dbOverwrite [OF v s1] in \<open>simp_all add: last_reply [OF len] cone_def czero_def\<close>)
qed

text \<open>C27: SETBIT sets the bit at its offset and no other, on a string that grows by zero bits when needed, and
  replies the bit that was there; a key that does not exist is an empty string.\<close>

theorem setbit_sets:
  assumes ok: "srv_ok s" and c: "c < length (clients s)"
    and off: "getBitOffsetFromArgument c (argv s c 2) s = Inr off"
    and on: "getLongFromObjectOrReply c (Some (Raw (argv s c 3))) bit_not_integer s = Inr on" "on AND NOT 1 = 0"
    and v: "visible s (cur_db s c) (argv s c 1) = map_option StringObj v"
  shows "\<exists>s' str. setbitCommand c s = Some s' \<and> visible s' (cur_db s c) (argv s c 1) = Some (StringObj (Raw str)) \<and>
    (\<forall>n. string_bit str n = (if n = unat off then on = 1 else string_bit (case v of None \<Rightarrow> [] | Some v \<Rightarrow> getDecodedObject v) n)) \<and>
    (\<forall>k. k \<noteq> argv s c 1 \<longrightarrow> visible s' (cur_db s c) k = visible s (cur_db s c) k) \<and>
    last (c_replies (clients s' ! c)) =
      Integer (if string_bit (case v of None \<Rightarrow> [] | Some v \<Rightarrow> getDecodedObject v) (unat off) then 1 else 0)"
proof -
  let ?i = "cur_db s c" and ?key = "argv s c 1" and ?str = "case v of None \<Rightarrow> [] | Some v \<Rightarrow> getDecodedObject v"
  have i: "?i < length (dbs s)" by (rule cur_db_less [OF ok c])
  obtain s1 where s1: "lookupKeyWrite ?i ?key s = Some (visible s ?i ?key, s1)" "quiet ?i s s1"
      "fmlookup (db_dict (dbs s1 ! ?i)) ?key = visible s ?i ?key"
    by (rule lookupKeyWrite_ok [OF ok i])
  note q = quietD [OF s1(2)]
  have bit1: "bit on 0 = (on = 1)"
  proof -
    have "on = (on AND 1) OR (on AND NOT 1)" by (rule bit_word_eqI) (auto simp: bit_or_iff bit_and_iff bit_not_iff)
    then have "on = on AND 1" using on(2) by simp
    then show ?thesis by (metis and_one_eq bit_0 mod2_eq_if odd_one zero_neq_one)
  qed
  have e: "setbitCommand c s = lookupKeyWrite ?i ?key s \<bind> (\<lambda>(o1, s).
      case o1 of None \<Rightarrow> do { s \<leftarrow> dbAdd ?i ?key (StringObj (Raw [])) s; setbit_store c ?i ?key [] off on s }
      | Some (StringObj v) \<Rightarrow> setbit_store c ?i ?key (getDecodedObject v) off on s
      | Some _ \<Rightarrow> Some (addReply c wrongtypeerr s))"
    unfolding setbitCommand_def Let_def off on sum.case by (simp only: simp_thms if_False)
  obtain s2 w where s2: "setbitCommand c s = setbit_store c ?i ?key ?str off on s2" "sees ?i ?key (Some w) s2" "c < length (clients s2)"
      "\<forall>k. k \<noteq> ?key \<longrightarrow> visible s2 ?i k = visible s ?i k"
  proof (cases v)
    case None
    then have "fmlookup (db_dict (dbs s1 ! ?i)) ?key = None" using s1(3) v by simp
    then obtain s2 where s2: "dbAdd ?i ?key (StringObj (Raw [])) s1 = Some s2" using dbAdd_ok by blast
    have see: "sees ?i ?key None s1" using s1(3) q(3,6) i v None by (simp add: sees_def)
    have "sees ?i ?key (Some (StringObj (Raw []))) s2" by (rule sees_dbAdd [OF q(5) see s2])
    moreover have "\<forall>k. k \<noteq> ?key \<longrightarrow> visible s2 ?i k = visible s ?i k"
      using visible_dbAdd [OF q(5) _ s2] q(3,6) i by simp
    ultimately show ?thesis using that [of s2] None v s1(1) s2 e db_ops_frame(1) [OF s2] q(7) c by simp
  next
    case (Some b)
    then have "sees ?i ?key (Some (StringObj b)) s1" using s1(3) q(3,6) i v by (simp add: sees_def)
    then show ?thesis using that [of s1] Some v s1(1) e q(3,7) c by simp
  qed
  obtain s' where "setbit_store c ?i ?key ?str off on s2 = Some s'"
      "visible s' ?i ?key = Some (StringObj (Raw (setbit_string ?str off on)))"
      "\<forall>k. k \<noteq> ?key \<longrightarrow> visible s' ?i k = visible s2 ?i k"
      "last (c_replies (clients s' ! c)) = Integer (if string_bit ?str (unat off) then 1 else 0)"
    by (rule setbit_store_ok [OF s2(2,3)])
  then show ?thesis using s2(1,4) string_bit_set [of ?str off on] bit1 by auto
qed

theorem setbit_sets_witness:
  "\<exists>s' str. setbitCommand 0 (watched_server [] [ascii ''SETBIT'', key_k, ascii ''10'', ascii ''1'']) = Some s' \<and>
     visible s' 0 key_k = Some (StringObj (Raw str)) \<and> string_bit str 10"
proof -
  let ?s = "watched_server [] [ascii ''SETBIT'', key_k, ascii ''10'', ascii ''1'']"
  have s: "srv_ok ?s" "0 < length (clients ?s)" by (simp add: watched_server_ok, simp add: watched_server_def)
  have a: "argv ?s 0 1 = key_k" "argv ?s 0 2 = ascii ''10''" "argv ?s 0 3 = ascii ''1''" "cur_db ?s 0 = 0"
    by (simp_all add: argv_def cur_db_def watched_server_def idle_client_def)
  have n: "getLongLongFromObject (Some (Raw (ascii ''10''))) = Some 10" "getLongLongFromObject (Some (Raw (ascii ''1''))) = Some 1"
    by (simp_all add: ascii_def strtoll10_def isspace_def Let_def char_in_digit digit_def)
  have off: "getBitOffsetFromArgument 0 (argv ?s 0 2) ?s = Inr 10"
    unfolding a getBitOffsetFromArgument_def getLongLongFromObjectOrReply_def n option.case sum.case by (simp add: word_le_nat_alt)
  have on: "getLongFromObjectOrReply 0 (Some (Raw (argv ?s 0 3))) bit_not_integer ?s = Inr 1"
    unfolding a getLongFromObjectOrReply_def getLongLongFromObjectOrReply_def n option.case sum.case
    by (simp add: LLONG_MIN_def LLONG_MAX_def)
  have v: "visible ?s (cur_db ?s 0) (argv ?s 0 1) = map_option StringObj (Some (Raw [1]))"
    unfolding a by (simp add: watched_server_def visible_def db_visible_def fmlookup_of_list)
  have one: "(1 :: u64) AND NOT 1 = 0" by simp
  show ?thesis using setbit_sets [OF s off on one v] unfolding a by auto
qed

lemmas bit_safe = safe_setbit safe_getbit safe_bitcount safe_bitop

end
