(* ===== verification/Client_Steps.thy ===== *)
theory Client_Steps
  imports Safe_Steps
begin

text \<open>
  What a step of one client leaves to the others: \<open>kept a s s'\<close> is what client \<open>a\<close> can rely on while
  another client runs, and \<open>step_ok c s s'\<close> says that a step of client \<open>c\<close> keeps the invariant of the
  server and what all other clients rely on. Every safe command is such a step; so are the changes
  of the client's own record, of its watched keys and of the keys it waits for.
\<close>

section \<open>What the other clients keep\<close>

definition kept :: "nat \<Rightarrow> redisServer \<Rightarrow> redisServer \<Rightarrow> bool" where
  "kept a s s' \<longleftrightarrow>
     c_watched (clients s' ! a) = c_watched (clients s ! a) \<and> c_multi (clients s' ! a) = c_multi (clients s ! a) \<and>
     c_commands (clients s' ! a) = c_commands (clients s ! a) \<and>
     c_dirty_exec (clients s' ! a) = c_dirty_exec (clients s ! a) \<and>
     (c_dirty_cas (clients s ! a) \<longrightarrow> c_dirty_cas (clients s' ! a)) \<and>
     (c_blocked (clients s' ! a) \<longrightarrow> c_blocked (clients s ! a)) \<and>
     (a \<in> set (unblocked_clients s') \<longrightarrow> a \<in> set (unblocked_clients s) \<or> c_blocked (clients s ! a)) \<and>
     (\<forall>j k. j < length (dbs s) \<longrightarrow> watches s a j k \<longrightarrow>
        seen s' j k \<noteq> seen s j k \<or> (j, k) \<in> set (ready_keys s') - set (ready_keys s) \<longrightarrow>
        c_dirty_cas (clients s' ! a))"

definition same_size :: "redisServer \<Rightarrow> redisServer \<Rightarrow> bool" where
  "same_size s s' \<longleftrightarrow> length (dbs s') = length (dbs s) \<and> length (clients s') = length (clients s) \<and>
     mstime s' = mstime s \<and> loading s' = loading s \<and> masterhost s' = masterhost s"

text \<open>The list of ready keys and the tables of the databases agree.\<close>

definition ready_ok :: "redisServer \<Rightarrow> bool" where
  "ready_ok s \<longleftrightarrow> distinct (ready_keys s) \<and> (\<forall>(j, k) \<in> set (ready_keys s). j < length (dbs s)) \<and>
     (\<forall>j k. j < length (dbs s) \<longrightarrow> (k |\<in>| db_ready (dbs s ! j) \<longleftrightarrow> (j, k) \<in> set (ready_keys s)))"

definition step_ok :: "nat \<Rightarrow> redisServer \<Rightarrow> redisServer \<Rightarrow> bool" where
  "step_ok c s s' \<longleftrightarrow> srv_full s' \<and> same_size s s' \<and> (ready_ok s \<longrightarrow> ready_ok s') \<and>
     (\<forall>a < length (clients s). a \<noteq> c \<longrightarrow> kept a s s')"

lemma kept_refl [simp]: "kept a s s"
  by (simp add: kept_def)

lemma kept_trans:
  assumes k1: "kept a s s1" and k2: "kept a s1 s2" and len: "length (dbs s1) = length (dbs s)"
  shows "kept a s s2"
proof -
  have w: "watches s1 a j k = watches s a j k" for j k using k1 by (simp add: kept_def watches_def)
  have "c_dirty_cas (clients s2 ! a)"
    if "j < length (dbs s)" "watches s a j k" "seen s2 j k \<noteq> seen s j k \<or> (j, k) \<in> set (ready_keys s2) - set (ready_keys s)"
    for j k
  proof (cases "seen s1 j k \<noteq> seen s j k \<or> (j, k) \<in> set (ready_keys s1) - set (ready_keys s)")
    case True
    then have "c_dirty_cas (clients s1 ! a)" using that(1,2) k1 unfolding kept_def by blast
    then show ?thesis using k2 by (simp add: kept_def)
  next
    case False
    then have "seen s2 j k \<noteq> seen s1 j k \<or> (j, k) \<in> set (ready_keys s2) - set (ready_keys s1)" using that(3) by auto
    then show ?thesis using that(1,2) len w k2 unfolding kept_def by metis
  qed
  moreover have "a \<in> set (unblocked_clients s2) \<longrightarrow> a \<in> set (unblocked_clients s) \<or> c_blocked (clients s ! a)"
    "c_blocked (clients s2 ! a) \<longrightarrow> c_blocked (clients s ! a)"
    using k1 k2 unfolding kept_def by blast+
  ultimately show ?thesis using k1 k2 by (simp add: kept_def)
qed

lemma same_size_refl [simp]: "same_size s s"
  by (simp add: same_size_def)

lemma same_size_trans: "same_size s s1 \<Longrightarrow> same_size s1 s2 \<Longrightarrow> same_size s s2"
  by (simp add: same_size_def)

lemma step_ok_refl: "srv_full s \<Longrightarrow> step_ok c s s"
  by (simp add: step_ok_def)

lemma step_ok_trans: "step_ok c s s1 \<Longrightarrow> step_ok c s1 s2 \<Longrightarrow> step_ok c s s2"
  unfolding step_ok_def by (metis kept_trans same_size_def same_size_trans)

lemma step_ok_full: "step_ok c s s' \<Longrightarrow> srv_full s'"
  by (simp add: step_ok_def)

lemma step_ok_len: "step_ok c s s' \<Longrightarrow> length (clients s') = length (clients s)"
  by (simp add: step_ok_def same_size_def)

lemma upd_kept:
  assumes u: "upd i {} s s'" and a: "a < length (clients s)"
  shows "kept a s s'"
proof -
  have p: "c_dirty_cas (clients s' ! a)" if "pending i {} s s' j k" "watches s a j k" for j k
    using that a by (auto simp: pending_def marked_def)
  have n: "pending i {} s s' j k" if r: "(j, k) \<in> set (ready_keys s') - set (ready_keys s)" for j k
  proof -
    obtain ks where "ready_keys s' = ready_keys s @ ks" "\<forall>(j, k) \<in> set ks. pending i {} s s' j k"
      using u unfolding upd_def ready_upd_def new_ready_def by blast
    then show ?thesis using r by auto
  qed
  have "\<forall>j k. j < length (dbs s) \<longrightarrow> watches s a j k \<longrightarrow>
      seen s' j k \<noteq> seen s j k \<or> (j, k) \<in> set (ready_keys s') - set (ready_keys s) \<longrightarrow> c_dirty_cas (clients s' ! a)"
    using u p n unfolding upd_def seen_upd_def by blast
  then show ?thesis using upd_shape [OF u] a by (simp add: kept_def same_shape_def)
qed

lemma upd_ready_ok:
  assumes "upd i K s s'" and r: "ready_ok s"
  shows "ready_ok s'"
proof -
  obtain ks where n: "new_ready ks s s'" using assms(1) by (auto simp: upd_def ready_upd_def)
  have len: "length (dbs s') = length (dbs s)" using upd_shape [OF assms(1)] by (simp add: same_shape_def)
  have "set (ready_keys s) \<inter> set ks = {}" using n r by (fastforce simp: ready_ok_def new_ready_def)
  then have "distinct (ready_keys s')" using n r by (simp add: ready_ok_def new_ready_def)
  then show ?thesis using n r len by (auto simp: ready_ok_def new_ready_def)
qed

lemma upd_step: "upd i {} s s' \<Longrightarrow> srv_full s \<Longrightarrow> step_ok c s s'"
  using upd_kept upd_ready_ok upd_full
  by (auto simp: step_ok_def same_size_def dest: upd_shape simp: same_shape_def)

section \<open>Steps that leave the data alone\<close>

definition same_data :: "redisServer \<Rightarrow> redisServer \<Rightarrow> bool" where
  "same_data s s' \<longleftrightarrow> same_size s s' \<and> ready_keys s' = ready_keys s \<and>
     (\<forall>j < length (dbs s). db_dict (dbs s' ! j) = db_dict (dbs s ! j) \<and>
        db_expires (dbs s' ! j) = db_expires (dbs s ! j) \<and> db_ready (dbs s' ! j) = db_ready (dbs s ! j))"

lemma same_data_visible:
  "same_data s s' \<Longrightarrow> j < length (dbs s) \<Longrightarrow> visible s' j k = visible s j k"
  by (simp add: same_data_def same_size_def visible_def due_def [abs_def] db_visible_def cong: option.case_cong if_cong)

text \<open>A client changes its own record and the lists of the databases that speak of it.\<close>

lemma list_step:
  assumes "srv_full s" and d: "same_data s s'" and "watch_ok s'" and "blocking_ok s'"
    and o: "\<And>a. a < length (clients s) \<Longrightarrow> a \<noteq> c \<Longrightarrow> clients s' ! a = clients s ! a"
    and "cur_db s' c = cur_db s c"
    and u: "\<And>a. a \<noteq> c \<Longrightarrow> a \<in> set (unblocked_clients s') \<Longrightarrow> a \<in> set (unblocked_clients s)"
  shows "step_ok c s s'"
proof -
  have sz: "same_size s s'" "length (dbs s') = length (dbs s)" "length (clients s') = length (clients s)"
    using d by (simp_all add: same_data_def same_size_def)
  have "c_db (clients s' ! a) = c_db (clients s ! a)" if "a < length (clients s)" for a
    using o [OF that] assms(6) by (cases "a = c") (simp_all add: cur_db_def)
  then have "clients_ok s'" using srv_full_ok [OF assms(1)] sz
    by (simp add: srv_ok_def clients_ok_def all_set_conv_all_nth)
  then have "srv_full s'"
    using assms(1-4) sz(2) by (simp add: srv_full_def srv_ok_def expires_ok_def objects_ok_def hollow_at_def same_data_def)
  moreover have "kept a s s'" if "a < length (clients s)" "a \<noteq> c" for a
    using o [OF that] u [OF that(2)] d same_data_visible [OF d] by (auto simp: kept_def same_data_def)
  moreover have "ready_ok s \<longrightarrow> ready_ok s'" using d sz(2) by (simp add: ready_ok_def same_data_def)
  ultimately show ?thesis using sz(1) by (simp add: step_ok_def)
qed

lemma same_watches_client: "(\<And>cl. c_watched (f cl) = c_watched cl) \<Longrightarrow> same_watches s (upd_client c f s)"
  using client_field_upd [of c_watched f c s] by (simp add: same_watches_def frame_simps)

lemma same_waits_client:
  assumes "\<And>cl. c_blocked (f cl) = c_blocked cl \<and> c_bpop_keys (f cl) = c_bpop_keys cl \<and> c_db (f cl) = c_db cl \<and>
    c_unblocked (f cl) = c_unblocked cl"
  shows "same_waits s (upd_client c f s)"
  using client_field_upd [of c_blocked f c s] client_field_upd [of c_bpop_keys f c s] client_field_upd [of c_db f c s]
    client_field_upd [of c_unblocked f c s] assms
  by (simp add: same_waits_def frame_simps)

lemma own_step:
  assumes "srv_full s"
    and f: "\<And>cl. c_watched (f cl) = c_watched cl \<and> c_blocked (f cl) = c_blocked cl \<and> c_bpop_keys (f cl) = c_bpop_keys cl \<and>
      c_db (f cl) = c_db cl \<and> c_unblocked (f cl) = c_unblocked cl"
  shows "step_ok c s (upd_client c f s)"
proof (rule list_step [OF assms(1)])
  have ok: "watch_ok s" "blocking_ok s" using srv_full_ok [OF assms(1)] by (simp_all add: srv_ok_def)
  show "watch_ok (upd_client c f s)" using f by (intro watch_ok_cong [OF ok(1)] same_watches_client) simp
  show "blocking_ok (upd_client c f s)" using f by (intro blocking_ok_cong [OF ok(2)] same_waits_client) simp
  show "cur_db (upd_client c f s) c = cur_db s c" using f client_field_upd [of c_db f c s c] by (simp add: cur_db_def)
qed (simp_all add: same_data_def same_size_def frame_simps, simp add: upd_client_def)

lemma log_step:
  assumes "srv_full s"
  shows "step_ok c s (addReply a r s)" and "step_ok c s (add_dirty n s)" and "step_ok c s (propagate j av s)"
  using assms by (auto intro!: upd_step [of 0] upd_intros upd_refl srv_full_ok)

section \<open>Commands as steps\<close>

text \<open>What transactions and requests need of a command: it answers, is a step of its client, leaves the
  client's transaction alone, and does not block a client that has one.\<close>

definition step_for :: "int \<Rightarrow> (nat \<Rightarrow> redisServer \<Rightarrow> redisServer option) \<Rightarrow> bool" where
  "step_for a f \<longleftrightarrow> (\<forall>s c. srv_full s \<longrightarrow> c < length (clients s) \<longrightarrow> \<not> c_blocked (clients s ! c) \<longrightarrow>
     arity_ok a (argc s c) \<longrightarrow> (\<exists>s'. f c s = Some s' \<and> step_ok c s s' \<and>
       c_commands (clients s' ! c) = c_commands (clients s ! c) \<and> c_multi (clients s' ! c) = c_multi (clients s ! c) \<and>
       (c_multi (clients s ! c) \<longrightarrow> \<not> c_blocked (clients s' ! c))))"

lemma step_for_safe:
  assumes "safe_for a f"
  shows "step_for a f"
  unfolding step_for_def
proof (intro allI impI)
  fix s c
  assume s: "srv_full s" "c < length (clients s)" "\<not> c_blocked (clients s ! c)" "arity_ok a (argc s c)"
  then obtain s' where s': "f c s = Some s'" "upd (cur_db s c) {} s s'" using assms unfolding safe_for_def by blast
  then show "\<exists>s'. f c s = Some s' \<and> step_ok c s s' \<and> c_commands (clients s' ! c) = c_commands (clients s ! c) \<and>
      c_multi (clients s' ! c) = c_multi (clients s ! c) \<and> (c_multi (clients s ! c) \<longrightarrow> \<not> c_blocked (clients s' ! c))"
    using upd_step [OF s'(2) s(1)] upd_shape [OF s'(2)] s(2,3) by (simp add: same_shape_def)
qed

end
