(* ===== verification/T_list_blocking.thy ===== *)
theory T_list_blocking
  imports T_list Client_Steps
begin

text \<open>
  The blocking operations of t_list.c: a client that pops from lists that do not exist waits for their
  keys, a push that creates a list makes its key ready, and after the command
  \<open>handleClientsBlockedOnLists\<close> serves the clients that wait for the keys that are ready, the first
  to come first. The timeout of redis.c \<open>clientsCronHandleTimeout\<close> is included, for a server that
  does not close idle clients.

  A client's keys are a hash table whose iteration order has no effect; they are listed in the order
  of insertion. The list of clients of a key is read anew in every round of the loop, as the code
  does through its pointer; a list that is gone is \<^term>\<open>None\<close>.
\<close>

section \<open>Waiting\<close>

definition block_key :: "nat \<Rightarrow> bytes \<Rightarrow> redisServer \<Rightarrow> redisServer" where
  "block_key c key s =
     (let i = cur_db s c
      in if key \<in> set (c_bpop_keys (clients s ! c)) then s
         else let s = upd_client c (\<lambda>cl. cl\<lparr>c_bpop_keys := c_bpop_keys cl @ [key]\<rparr>) s;
                  cs = (case fmlookup (db_blocking (dbs s ! i)) key of None \<Rightarrow> [] | Some cs \<Rightarrow> cs)
              in upd_db i (\<lambda>d. d\<lparr>db_blocking := fmupd key (cs @ [c]) (db_blocking d)\<rparr>) s)"

definition blockForKeys :: "nat \<Rightarrow> bytes list \<Rightarrow> u64 \<Rightarrow> bytes option \<Rightarrow> redisServer \<Rightarrow> redisServer" where
  "blockForKeys c keys timeout target s =
     (let s = upd_client c (\<lambda>cl. cl\<lparr>c_bpop_timeout := timeout, c_bpop_target := target\<rparr>) s;
          s = fold (block_key c) keys s;
          s = upd_client c (\<lambda>cl. cl\<lparr>c_blocked := True\<rparr>) s
      in s\<lparr>bpop_blocked_clients := bpop_blocked_clients s + 1\<rparr>)"

text \<open>The assertions are that the client waits for some key and is listed for each of its keys.\<close>

fun unblock_loop :: "nat \<Rightarrow> bytes list \<Rightarrow> redisServer \<Rightarrow> redisServer option" where
  "unblock_loop c [] s = Some s"
| "unblock_loop c (key # keys) s =
     (let i = cur_db s c
      in case fmlookup (db_blocking (dbs s ! i)) key of
           None \<Rightarrow> None
         | Some cs \<Rightarrow>
             if c \<notin> set cs then None
             else unblock_loop c keys
               (upd_db i (\<lambda>d. d\<lparr>db_blocking :=
                  (if remove1 c cs = [] then fmdrop key (db_blocking d)
                   else fmupd key (remove1 c cs) (db_blocking d))\<rparr>) s))"

definition unblockClientWaitingData :: "nat \<Rightarrow> redisServer \<Rightarrow> redisServer option" where
  "unblockClientWaitingData c s =
     (if c_bpop_keys (clients s ! c) = [] then None
      else do {
        s \<leftarrow> unblock_loop c (c_bpop_keys (clients s ! c)) s;
        let s = upd_client c (\<lambda>cl. cl\<lparr>c_bpop_keys := [], c_bpop_target := None, c_blocked := False, c_unblocked := True\<rparr>) s;
        Some (s\<lparr>bpop_blocked_clients := bpop_blocked_clients s - 1, unblocked_clients := unblocked_clients s @ [c]\<rparr>) })"

section \<open>Serving the clients that wait\<close>

definition pop_name :: "list_end \<Rightarrow> bytes" where
  "pop_name w = (if w = REDIS_HEAD then ascii ''LPOP'' else ascii ''RPOP'')"

text \<open>\<^term>\<open>False\<close> is \<open>REDIS_ERR\<close>: the destination has another type.\<close>

definition serveClientBlockedOnList ::
  "nat \<Rightarrow> bytes \<Rightarrow> bytes option \<Rightarrow> nat \<Rightarrow> bytes \<Rightarrow> list_end \<Rightarrow> redisServer \<Rightarrow> (bool \<times> redisServer) option" where
  "serveClientBlockedOnList receiver key dstkey j val w s =
     (case dstkey of
        None \<Rightarrow>
          let s = propagate j [pop_name w, key] s;
              s = addReply receiver (MultiBulkLen 2) s;
              s = addReply receiver (Bulk key) s
          in Some (True, addReply receiver (Bulk val) s)
      | Some dst \<Rightarrow> do {
          (dstobj, s) \<leftarrow> lookupKeyWrite (cur_db s receiver) dst s;
          if dstobj \<noteq> None \<and> otype (the dstobj) \<noteq> REDIS_LIST then Some (False, addReply receiver wrongtypeerr s)
          else do {
            let s = propagate j [ascii ''RPOP'', key] s;
            s \<leftarrow> rpoplpushHandlePush receiver dst (case dstobj of Some (ListObj l) \<Rightarrow> Some l | _ \<Rightarrow> None) val s;
            Some (True, propagate j [ascii ''LPUSH'', dst, val] s) } })"

text \<open>A value that could not be delivered is pushed again where it was.\<close>

definition push_back :: "nat \<Rightarrow> bytes \<Rightarrow> bytes \<Rightarrow> list_end \<Rightarrow> redisServer \<Rightarrow> redisServer option" where
  "push_back j key val w s =
     (case fmlookup (db_dict (dbs s ! j)) key of
        Some (ListObj l) \<Rightarrow> Some (storeObject j key (ListObj (listTypePush s l (tryObjectEncoding (Raw val)) w)) s)
      | _ \<Rightarrow> None)"

definition wait_end :: "redisClient \<Rightarrow> list_end" where
  "wait_end cl = (if c_lastcmd cl = ''blpop'' then REDIS_HEAD else REDIS_TAIL)"

text \<open>One client has its value: it no longer waits, and is served.\<close>

definition deliver :: "nat \<Rightarrow> bytes \<Rightarrow> nat \<Rightarrow> bytes \<Rightarrow> list_end \<Rightarrow> redisServer \<Rightarrow> redisServer option" where
  "deliver j key receiver val w s =
     (let dstkey = c_bpop_target (clients s ! receiver)
      in do {
        s \<leftarrow> unblockClientWaitingData receiver s;
        (served, s) \<leftarrow> serveClientBlockedOnList receiver key dstkey j val w s;
        if served then Some s else push_back j key val w s })"

fun serve_clients :: "nat \<Rightarrow> nat \<Rightarrow> bytes \<Rightarrow> redisServer \<Rightarrow> redisServer option" where
  "serve_clients 0 j key s = Some s"
| "serve_clients (Suc numclients) j key s =
     (case fmlookup (db_blocking (dbs s ! j)) key of
        Some (receiver # _) \<Rightarrow>
          (case fmlookup (db_dict (dbs s ! j)) key of
             Some (ListObj l) \<Rightarrow>
               let w = wait_end (clients s ! receiver)
               in (case listTypePop l w of
                     (None, _) \<Rightarrow> Some s
                   | (Some val, l) \<Rightarrow> do {
                       s \<leftarrow> deliver j key receiver val w (storeObject j key (ListObj l) s);
                       serve_clients numclients j key s })
           | _ \<Rightarrow> None)
      | _ \<Rightarrow> None)"

definition drop_empty :: "nat \<Rightarrow> bytes \<Rightarrow> redisServer \<Rightarrow> redisServer option" where
  "drop_empty j key s =
     (case fmlookup (db_dict (dbs s ! j)) key of
        Some (ListObj l) \<Rightarrow> Some (if listTypeLength l = 0 then snd (dbDelete j key s) else s)
      | _ \<Rightarrow> None)"

definition handle_key :: "nat \<Rightarrow> bytes \<Rightarrow> redisServer \<Rightarrow> redisServer option" where
  "handle_key j key s = do {
     let s = upd_db j (\<lambda>d. d\<lparr>db_ready := db_ready d |-| {|key|}\<rparr>) s;
     (o1, s) \<leftarrow> lookupKeyWrite j key s;
     (case o1 of
        Some (ListObj _) \<Rightarrow> do {
          s \<leftarrow> (case fmlookup (db_blocking (dbs s ! j)) key of
                  None \<Rightarrow> Some s | Some cs \<Rightarrow> serve_clients (length cs) j key s);
          drop_empty j key s }
      | _ \<Rightarrow> Some s) }"

fun handle_keys :: "(nat \<times> bytes) list \<Rightarrow> redisServer \<Rightarrow> redisServer option" where
  "handle_keys [] s = Some s"
| "handle_keys ((j, key) # l) s = do { s \<leftarrow> handle_key j key s; handle_keys l s }"

text \<open>The outer loop goes on while serving clients makes more keys ready.\<close>

partial_function (option) handleClientsBlockedOnLists :: "redisServer \<Rightarrow> redisServer option" where
  "handleClientsBlockedOnLists s =
     (if ready_keys s = [] then Some s
      else case handle_keys (ready_keys s) (s\<lparr>ready_keys := []\<rparr>) of
          None \<Rightarrow> None
        | Some s \<Rightarrow> handleClientsBlockedOnLists s)"

declare handleClientsBlockedOnLists.simps [code]

section \<open>Commands\<close>

text \<open>\<open>Inl\<close> is \<open>REDIS_ERR\<close>, after a reply. The sum is one of two longs.\<close>

definition getTimeoutFromObjectOrReply :: "nat \<Rightarrow> bytes \<Rightarrow> redisServer \<Rightarrow> redisServer + u64" where
  "getTimeoutFromObjectOrReply c arg s =
     (case getLongFromObjectOrReply c (Some (Raw arg)) (Error ''ERR timeout is not an integer or out of range'') s of
        Inl s \<Rightarrow> Inl s
      | Inr tval \<Rightarrow>
          if sint tval < 0 then Inl (addReply c (Error ''ERR timeout is negative'') s)
          else Inr (if sint tval > 0 then tval + unixtime s else tval))"

definition bpop_reply :: "nat \<Rightarrow> nat \<Rightarrow> bytes \<Rightarrow> list_end \<Rightarrow> bytes \<Rightarrow> listobj \<Rightarrow> redisServer \<Rightarrow> redisServer" where
  "bpop_reply c i key w v l s =
     (let s = storeObject i key (ListObj l) s;
          s = addReply c (MultiBulkLen 2) s;
          s = addReply c (Bulk key) s;
          s = addReply c (Bulk v) s;
          s = notifyKeyspaceEvent NList (pop_event w) key i s;
          s = (if listTypeLength l = 0
               then notifyKeyspaceEvent NGeneric ''del'' key i (snd (dbDelete i key s)) else s);
          s = signalModifiedKey i key s;
          s = add_dirty 1 s
      in rewriteClientCommandVector c [pop_name w, key] s)"

text \<open>The loop over the keys: \<open>Inr\<close> when it has replied, \<open>Inl\<close> when no key holds a list.\<close>

fun bpop_loop :: "nat \<Rightarrow> list_end \<Rightarrow> bytes list \<Rightarrow> redisServer \<Rightarrow> (redisServer + redisServer) option" where
  "bpop_loop c w [] s = Some (Inl s)"
| "bpop_loop c w (key # keys) s = do {
     (o1, s) \<leftarrow> lookupKeyWrite (cur_db s c) key s;
     (case o1 of
        None \<Rightarrow> bpop_loop c w keys s
      | Some (ListObj l) \<Rightarrow>
          if listTypeLength l \<noteq> 0 then
            (case listTypePop l w of
               (None, _) \<Rightarrow> None
             | (Some v, l) \<Rightarrow> Some (Inr (bpop_reply c (cur_db s c) key w v l s)))
          else bpop_loop c w keys s
      | Some _ \<Rightarrow> Some (Inr (addReply c wrongtypeerr s))) }"

definition blockingPopGenericCommand :: "nat \<Rightarrow> list_end \<Rightarrow> redisServer \<Rightarrow> redisServer option" where
  "blockingPopGenericCommand c w s =
     (let av = c_argv (clients s ! c); keys = butlast (tl av)
      in case getTimeoutFromObjectOrReply c (last av) s of
           Inl s \<Rightarrow> Some s
         | Inr timeout \<Rightarrow> do {
             r \<leftarrow> bpop_loop c w keys s;
             (case r of
                Inr s \<Rightarrow> Some s
              | Inl s \<Rightarrow>
                  if c_multi (clients s ! c) then Some (addReply c NullMultiBulk s)
                  else Some (blockForKeys c keys timeout None s)) })"

definition blpopCommand :: "nat \<Rightarrow> redisServer \<Rightarrow> redisServer option" where
  "blpopCommand c s = blockingPopGenericCommand c REDIS_HEAD s"

definition brpopCommand :: "nat \<Rightarrow> redisServer \<Rightarrow> redisServer option" where
  "brpopCommand c s = blockingPopGenericCommand c REDIS_TAIL s"

definition brpoplpushCommand :: "nat \<Rightarrow> redisServer \<Rightarrow> redisServer option" where
  "brpoplpushCommand c s =
     (case getTimeoutFromObjectOrReply c (argv s c 3) s of
        Inl s \<Rightarrow> Some s
      | Inr timeout \<Rightarrow> do {
          (o1, s) \<leftarrow> lookupKeyWrite (cur_db s c) (argv s c 1) s;
          (case o1 of
             None \<Rightarrow>
               if c_multi (clients s ! c) then Some (addReply c NullBulk s)
               else Some (blockForKeys c [argv s c 1] timeout (Some (argv s c 2)) s)
           | Some (ListObj l) \<Rightarrow> if listTypeLength l > 0 then rpoplpushCommand c s else None
           | Some _ \<Rightarrow> Some (addReply c wrongtypeerr s)) })"

section \<open>Timeouts\<close>

text \<open>The clock is read once per round of the cron.\<close>

definition clientsCronHandleTimeout :: "nat \<Rightarrow> redisServer \<Rightarrow> redisServer option" where
  "clientsCronHandleTimeout c s =
     (let cl = clients s ! c
      in if c_blocked cl \<and> c_bpop_timeout cl \<noteq> 0 \<and> sint (c_bpop_timeout cl) < sint (unixtime s)
         then unblockClientWaitingData c (addReply c NullMultiBulk s) else Some s)"

section \<open>The lists of clients that wait\<close>

definition wlist :: "redisServer \<Rightarrow> nat \<Rightarrow> bytes \<Rightarrow> nat list" where
  "wlist s i k = (case fmlookup (db_blocking (dbs s ! i)) k of None \<Rightarrow> [] | Some cs \<Rightarrow> cs)"

text \<open>\<open>blocking_ok\<close> without the flag of the clients.\<close>

definition waits_ok :: "redisServer \<Rightarrow> bool" where
  "waits_ok s \<longleftrightarrow>
     (\<forall>i k. i < length (dbs s) \<longrightarrow> fmlookup (db_blocking (dbs s ! i)) k \<noteq> Some [] \<and> distinct (wlist s i k) \<and>
        set (wlist s i k) = {c. c < length (clients s) \<and> waits s c i k}) \<and>
     (\<forall>c < length (clients s). distinct (c_bpop_keys (clients s ! c)))"

lemma blocking_iff:
  "blocking_ok s \<longleftrightarrow> waits_ok s \<and>
     (\<forall>c < length (clients s). c_blocked (clients s ! c) \<longleftrightarrow> c_bpop_keys (clients s ! c) \<noteq> []) \<and> unblocked_ok s"
proof -
  have "(case fmlookup (db_blocking (dbs s ! i)) k of
           None \<Rightarrow> \<forall>c < length (clients s). \<not> waits s c i k
         | Some cs \<Rightarrow> cs \<noteq> [] \<and> distinct cs \<and> set cs = {c. c < length (clients s) \<and> waits s c i k}) \<longleftrightarrow>
      fmlookup (db_blocking (dbs s ! i)) k \<noteq> Some [] \<and> distinct (wlist s i k) \<and>
        set (wlist s i k) = {c. c < length (clients s) \<and> waits s c i k}" for i k
    by (auto simp: wlist_def split: option.split)
  then show ?thesis unfolding blocking_ok_def waits_ok_def all_set_conv_all_nth by blast
qed

lemma wlist_lookup:
  assumes "waits_ok s" and "i < length (dbs s)"
  shows "fmlookup (db_blocking (dbs s ! i)) k = (if wlist s i k = [] then None else Some (wlist s i k))"
    and "set (wlist s i k) = {c. c < length (clients s) \<and> waits s c i k}" and "distinct (wlist s i k)"
  using assms by (auto simp: waits_ok_def wlist_def split: option.splits)

text \<open>What a client that starts or ends waiting changes of itself.\<close>

definition wait_fields :: "redisClient \<Rightarrow> redisClient" where
  "wait_fields cl = cl\<lparr>c_bpop_keys := [], c_bpop_timeout := 0, c_bpop_target := None, c_blocked := False, c_unblocked := False\<rparr>"

lemma wait_fieldsD:
  assumes "wait_fields cl' = wait_fields cl"
  shows "c_db cl' = c_db cl" "c_watched cl' = c_watched cl" "c_multi cl' = c_multi cl" "c_commands cl' = c_commands cl"
    "c_dirty_exec cl' = c_dirty_exec cl" "c_dirty_cas cl' = c_dirty_cas cl" "c_replies cl' = c_replies cl"
    "c_argv cl' = c_argv cl" "c_lastcmd cl' = c_lastcmd cl"
  using arg_cong [OF assms, of c_db] arg_cong [OF assms, of c_watched] arg_cong [OF assms, of c_multi]
    arg_cong [OF assms, of c_commands] arg_cong [OF assms, of c_dirty_exec] arg_cong [OF assms, of c_dirty_cas]
    arg_cong [OF assms, of c_replies] arg_cong [OF assms, of c_argv] arg_cong [OF assms, of c_lastcmd]
  by (simp_all add: wait_fields_def)

definition wait_step :: "nat \<Rightarrow> redisServer \<Rightarrow> redisServer \<Rightarrow> bool" where
  "wait_step c s s' \<longleftrightarrow> same_data s s' \<and> (\<forall>j < length (dbs s). db_watched (dbs s' ! j) = db_watched (dbs s ! j)) \<and>
     (\<forall>a. a \<noteq> c \<longrightarrow> clients s' ! a = clients s ! a) \<and>
     (\<forall>a \<in> set (unblocked_clients s'). a \<noteq> c \<longrightarrow> a \<in> set (unblocked_clients s)) \<and> wait_fields (clients s' ! c) = wait_fields (clients s ! c)"

lemma wait_step_refl: "wait_step c s s"
  by (simp add: wait_step_def same_data_def)

lemma wait_step_trans: "wait_step c s s1 \<Longrightarrow> wait_step c s1 s2 \<Longrightarrow> wait_step c s s2"
  by (auto simp: wait_step_def same_data_def same_size_def)

lemma wait_step_len: "wait_step c s s' \<Longrightarrow> length (dbs s') = length (dbs s) \<and> length (clients s') = length (clients s)"
  by (simp add: wait_step_def same_data_def same_size_def)

lemma wait_step_client: "wait_step c s s' \<Longrightarrow> wait_fields (clients s' ! a) = wait_fields (clients s ! a)"
  by (cases "a = c") (simp_all add: wait_step_def)

lemma wait_step_watches:
  assumes "wait_step c s s'"
  shows "same_watches s s'"
  using assms wait_step_len [OF assms] wait_fieldsD(2) [OF wait_step_client [OF assms]]
  by (simp add: same_watches_def wait_step_def)

lemma wait_step_srv:
  assumes "srv_ok s" and w: "wait_step c s s'" and b: "blocking_ok s'"
  shows "srv_ok s'" and "hollow_at s' j k = hollow_at s j k"
proof -
  have d: "db_dict (dbs s' ! j) = db_dict (dbs s ! j)" "db_expires (dbs s' ! j) = db_expires (dbs s ! j)"
    if "j < length (dbs s)" for j using w that by (simp_all add: wait_step_def same_data_def)
  note l = wait_step_len [OF w]
  have "clients_ok s'" using assms(1) l wait_fieldsD(1) [OF wait_step_client [OF w]]
    by (simp add: srv_ok_def clients_ok_def all_set_conv_all_nth)
  moreover have "watch_ok s'" using assms(1) watch_ok_cong [OF _ wait_step_watches [OF w]] by (simp add: srv_ok_def)
  ultimately show "srv_ok s'" using assms(1) b d l by (simp add: srv_ok_def expires_ok_def objects_ok_def)
  show "hollow_at s' j k = hollow_at s j k" using d l by (auto simp: hollow_at_def)
qed

lemma wait_step_ok:
  assumes "srv_full s" and w: "wait_step c s s'" and b: "blocking_ok s'"
  shows "step_ok c s s'"
proof (rule list_step [OF assms(1) _ _ b])
  show "same_data s s'" using w by (simp add: wait_step_def)
  show "watch_ok s'" using wait_step_srv(1) [OF srv_full_ok [OF assms(1)] w b] by (simp add: srv_ok_def)
  show "cur_db s' c = cur_db s c" using wait_fieldsD(1) [OF wait_step_client [OF w]] by (simp add: cur_db_def)
qed (use w in \<open>auto simp: wait_step_def\<close>)

section \<open>Starting to wait\<close>

lemma block_key_ok:
  fixes key j k
  assumes ok: "waits_ok s" "c < length (clients s)" "i < length (dbs s)" "cur_db s c = i"
  defines "s' \<equiv> block_key c key s"
  shows "waits_ok s'" and "wait_step c s s'"
    and "set (c_bpop_keys (clients s' ! c)) = insert key (set (c_bpop_keys (clients s ! c)))"
    and "wlist s' j k = (if j = i \<and> k = key \<and> key \<notin> set (c_bpop_keys (clients s ! c)) then wlist s j k @ [c] else wlist s j k)"
    and "c_blocked (clients s' ! c) = c_blocked (clients s ! c)"
proof -
  have all: "waits_ok s' \<and> wait_step c s s' \<and>
      set (c_bpop_keys (clients s' ! c)) = insert key (set (c_bpop_keys (clients s ! c))) \<and>
      (\<forall>j k. wlist s' j k =
        (if j = i \<and> k = key \<and> key \<notin> set (c_bpop_keys (clients s ! c)) then wlist s j k @ [c] else wlist s j k)) \<and>
      c_blocked (clients s' ! c) = c_blocked (clients s ! c)"
  proof (cases "key \<in> set (c_bpop_keys (clients s ! c))")
    case True
    then have "s' = s" by (simp add: s'_def block_key_def)
    then show ?thesis using True ok(1) by (auto simp: wait_step_refl)
  next
    case False
    let ?cl = "(clients s ! c)\<lparr>c_bpop_keys := c_bpop_keys (clients s ! c) @ [key]\<rparr>"
    have s': "s' = upd_db i (\<lambda>d. d\<lparr>db_blocking := fmupd key (wlist s i key @ [c]) (db_blocking d)\<rparr>)
        (upd_client c (\<lambda>cl. cl\<lparr>c_bpop_keys := c_bpop_keys cl @ [key]\<rparr>) s)"
      using False ok(4) by (simp add: s'_def block_key_def Let_def wlist_def frame_simps)
    have cl: "clients s' ! a = (if a = c then ?cl else clients s ! a)" for a
      using ok(2) by (simp add: s' frame_simps clients_upd_client)
    have len: "length (dbs s') = length (dbs s)" "length (clients s') = length (clients s)"
      by (simp_all add: s' frame_simps)
    have db: "dbs s' ! j = (if j = i then (dbs s ! i)\<lparr>db_blocking := fmupd key (wlist s i key @ [c]) (db_blocking (dbs s ! i))\<rparr>
        else dbs s ! j)" for j
      using ok(3) by (simp add: s' dbs_upd_db frame_simps)
    have wl: "wlist s' j k = (if j = i \<and> k = key then wlist s j k @ [c] else wlist s j k)" for j k
      by (auto simp: wlist_def db)
    have w: "waits s' a j k \<longleftrightarrow> waits s a j k \<or> a = c \<and> j = i \<and> k = key" for a j k
      using ok(4) by (auto simp: waits_def cl cur_db_def)
    have n: "c \<notin> set (wlist s i key)" using wlist_lookup(2) [OF ok(1,3)] False by (simp add: waits_def)
    have "waits_ok s'"
      unfolding waits_ok_def len
    proof (intro conjI allI impI)
      fix j k
      assume j: "j < length (dbs s)"
      show "fmlookup (db_blocking (dbs s' ! j)) k \<noteq> Some []" using wlist_lookup(1) [OF ok(1) j, of k] by (auto simp: db split: if_splits)
      show "distinct (wlist s' j k)" using wlist_lookup(3) [OF ok(1) j] n by (auto simp: wl)
      show "set (wlist s' j k) = {c. c < length (clients s) \<and> waits s' c j k}"
        using wlist_lookup(2) [OF ok(1) j, of k] ok(2) by (auto simp: wl w)
    next
      fix a
      assume "a < length (clients s)"
      then show "distinct (c_bpop_keys (clients s' ! a))" using ok(1) False by (auto simp: waits_ok_def cl)
    qed
    moreover have "wait_step c s s'"
      using len by (simp add: wait_step_def same_data_def same_size_def cl db wait_fields_def) (simp add: s' frame_simps)
    ultimately show ?thesis using False wl by (auto simp: cl)
  qed
  then show "waits_ok s'" "wait_step c s s'"
    "set (c_bpop_keys (clients s' ! c)) = insert key (set (c_bpop_keys (clients s ! c)))"
    "wlist s' j k = (if j = i \<and> k = key \<and> key \<notin> set (c_bpop_keys (clients s ! c)) then wlist s j k @ [c] else wlist s j k)"
    "c_blocked (clients s' ! c) = c_blocked (clients s ! c)" by blast+
qed

lemma block_keys_ok:
  fixes keys
  assumes ok: "waits_ok s" "c < length (clients s)" "i < length (dbs s)" "cur_db s c = i"
  defines "s' \<equiv> fold (block_key c) keys s"
  shows "waits_ok s' \<and> wait_step c s s' \<and>
    set (c_bpop_keys (clients s' ! c)) = set keys \<union> set (c_bpop_keys (clients s ! c)) \<and>
    (\<forall>k. wlist s' i k =
      (if k \<in> set keys \<and> k \<notin> set (c_bpop_keys (clients s ! c)) then wlist s i k @ [c] else wlist s i k))"
  unfolding s'_def using ok
proof (induction keys arbitrary: s)
  case (Cons key keys)
  let ?s1 = "block_key c key s"
  note b = block_key_ok [OF Cons.prems, of key]
  have l: "length (dbs ?s1) = length (dbs s)" "length (clients ?s1) = length (clients s)" "cur_db ?s1 c = i"
    using wait_step_len [OF b(2)] wait_fieldsD(1) [OF wait_step_client [OF b(2)]] Cons.prems(4) by (simp_all add: cur_db_def)
  have "waits_ok (fold (block_key c) keys ?s1) \<and> wait_step c ?s1 (fold (block_key c) keys ?s1) \<and>
      set (c_bpop_keys (clients (fold (block_key c) keys ?s1) ! c)) = set keys \<union> set (c_bpop_keys (clients ?s1 ! c)) \<and>
      (\<forall>k. wlist (fold (block_key c) keys ?s1) i k =
        (if k \<in> set keys \<and> k \<notin> set (c_bpop_keys (clients ?s1 ! c)) then wlist ?s1 i k @ [c] else wlist ?s1 i k))"
    using Cons.prems l by (intro Cons.IH b(1)) simp_all
  then show ?case using wait_step_trans [OF b(2)] b(3,4) by auto
qed (simp add: wait_step_refl)

lemma blockForKeys_unblocked:
  "unblocked_clients (blockForKeys c keys timeout target s) = unblocked_clients s"
  "c_unblocked (clients (blockForKeys c keys timeout target s) ! a) = c_unblocked (clients s ! a)"
proof -
  have k: "unblocked_clients (block_key c key s) = unblocked_clients s \<and>
      c_unblocked (clients (block_key c key s) ! a) = c_unblocked (clients s ! a)" for key s
    using client_field_upd [of c_unblocked "\<lambda>cl. cl\<lparr>c_bpop_keys := c_bpop_keys cl @ [key]\<rparr>" c s a]
    by (simp add: block_key_def Let_def frame_simps)
  have f: "unblocked_clients (fold (block_key c) keys s) = unblocked_clients s \<and>
      c_unblocked (clients (fold (block_key c) keys s) ! a) = c_unblocked (clients s ! a)" for s
    by (induction keys arbitrary: s) (simp_all add: k)
  show "unblocked_clients (blockForKeys c keys timeout target s) = unblocked_clients s"
    by (simp add: blockForKeys_def Let_def f frame_simps)
  show "c_unblocked (clients (blockForKeys c keys timeout target s) ! a) = c_unblocked (clients s ! a)"
    by (simp add: blockForKeys_def Let_def f client_field_upd)
qed

lemma blockForKeys_ok:
  fixes timeout target k
  assumes ok: "blocking_ok s" "c < length (clients s)" "cur_db s c = i" "i < length (dbs s)"
    and "\<not> c_blocked (clients s ! c)" and ne: "keys \<noteq> []"
  defines "s' \<equiv> blockForKeys c keys timeout target s"
  shows "blocking_ok s'" and "wait_step c s s'" and "c_blocked (clients s' ! c)"
    and "wlist s' i k = (if k \<in> set keys then wlist s i k @ [c] else wlist s i k)"
proof -
  define s1 where "s1 = upd_client c (\<lambda>cl. cl\<lparr>c_bpop_timeout := timeout, c_bpop_target := target\<rparr>) s"
  define s2 where "s2 = fold (block_key c) keys s1"
  have s': "s' = (upd_client c (\<lambda>cl. cl\<lparr>c_blocked := True\<rparr>) s2)\<lparr>bpop_blocked_clients := bpop_blocked_clients s2 + 1\<rparr>"
    by (simp add: s'_def blockForKeys_def Let_def s1_def s2_def upd_client_def)
  have k0: "c_bpop_keys (clients s ! c) = []" using ok(1,2) assms(5) by (simp add: blocking_iff)
  have cl1: "clients s1 ! a = (if a = c then (clients s ! c)\<lparr>c_bpop_timeout := timeout, c_bpop_target := target\<rparr> else clients s ! a)" for a
    using ok(2) by (simp add: s1_def clients_upd_client)
  have d1: "dbs s1 = dbs s" "length (clients s1) = length (clients s)" by (simp_all add: s1_def frame_simps)
  have w1: "waits s1 a j k = waits s a j k" "wlist s1 j k = wlist s j k" for a j k
    by (simp_all add: waits_def cl1 wlist_def d1)
  have "waits_ok s1" using ok(1) by (simp add: blocking_iff waits_ok_def d1 w1 cl1)
  moreover have st1: "wait_step c s s1"
    by (simp add: wait_step_def same_data_def same_size_def cl1 wait_fields_def) (simp add: s1_def frame_simps)
  moreover have "cur_db s1 c = i" using ok(3) by (simp add: cur_db_def cl1)
  ultimately have b: "waits_ok s2 \<and> wait_step c s1 s2 \<and> set (c_bpop_keys (clients s2 ! c)) = set keys \<and>
      (\<forall>k. wlist s2 i k = (if k \<in> set keys then wlist s i k @ [c] else wlist s i k))"
    using block_keys_ok [of s1 c i keys] ok(2,4) k0 by (simp add: s2_def d1 w1 cl1)
  then have st2: "wait_step c s s2" using wait_step_trans [OF st1] by blast
  have l2: "length (clients s2) = length (clients s)" "length (dbs s2) = length (dbs s)" using wait_step_len [OF st2] by simp_all
  have cl': "clients s' ! a = (if a = c then (clients s2 ! c)\<lparr>c_blocked := True\<rparr> else clients s2 ! a)" for a
    using ok(2) l2 by (simp add: s' clients_upd_client)
  have d': "dbs s' = dbs s2" "length (clients s') = length (clients s)" by (simp_all add: s' frame_simps l2)
  have w': "waits s' a j k = waits s2 a j k" "wlist s' j k = wlist s2 j k" for a j k
    by (simp_all add: waits_def cl' wlist_def d')
  have "waits_ok s'" using b by (simp add: waits_ok_def d' w' cl' l2)
  moreover have "c_blocked (clients s' ! a) \<longleftrightarrow> c_bpop_keys (clients s' ! a) \<noteq> []" if "a < length (clients s)" for a
  proof (cases "a = c")
    case True
    have "c_bpop_keys (clients s2 ! c) \<noteq> []" using b ne by (metis set_empty)
    then show ?thesis using True by (simp add: cl')
  next
    case False
    then have "clients s2 ! a = clients s ! a" using st2 by (simp add: wait_step_def)
    then show ?thesis using False ok(1) that by (simp add: cl' blocking_iff)
  qed
  moreover have "unblocked_ok s'"
    using ok(1) by (simp add: blocking_iff unblocked_ok_def d') (simp add: s'_def blockForKeys_unblocked)
  ultimately show "blocking_ok s'" by (simp add: blocking_iff d')
  have "wait_step c s2 s'"
    by (simp add: wait_step_def same_data_def same_size_def cl' wait_fields_def d') (simp add: s' frame_simps l2)
  then show "wait_step c s s'" by (rule wait_step_trans [OF st2])
  show "c_blocked (clients s' ! c)" by (simp add: cl')
  show "wlist s' i k = (if k \<in> set keys then wlist s i k @ [c] else wlist s i k)" using b by (simp add: w')
qed

section \<open>No longer waiting\<close>

lemma unblock_loop_ok:
  assumes "distinct keys" and "\<forall>k \<in> set keys. c \<in> set (wlist s i k)" and "cur_db s c = i" and "i < length (dbs s)"
  shows "\<exists>m. unblock_loop c keys s = Some (upd_db i (\<lambda>d. d\<lparr>db_blocking := m\<rparr>) s) \<and>
    (\<forall>k. fmlookup m k = (if k \<in> set keys
       then (if remove1 c (wlist s i k) = [] then None else Some (remove1 c (wlist s i k)))
       else fmlookup (db_blocking (dbs s ! i)) k))"
  using assms
proof (induction keys arbitrary: s)
  case Nil
  have "upd_db i (\<lambda>d. d\<lparr>db_blocking := db_blocking (dbs s ! i)\<rparr>) s = s"
    using Nil(4) by (simp add: upd_db_def)
  then show ?case by (intro exI [of _ "db_blocking (dbs s ! i)"]) simp
next
  case (Cons key keys)
  have key: "c \<in> set (wlist s i key)" using Cons.prems(2) by simp
  then obtain cs where cs: "fmlookup (db_blocking (dbs s ! i)) key = Some cs" "wlist s i key = cs" "c \<in> set cs"
    by (cases "fmlookup (db_blocking (dbs s ! i)) key") (auto simp: wlist_def)
  let ?m1 = "if remove1 c cs = [] then fmdrop key (db_blocking (dbs s ! i)) else fmupd key (remove1 c cs) (db_blocking (dbs s ! i))"
  let ?s1 = "upd_db i (\<lambda>d. d\<lparr>db_blocking := (if remove1 c cs = [] then fmdrop key (db_blocking d)
                   else fmupd key (remove1 c cs) (db_blocking d))\<rparr>) s"
  have l1: "cur_db ?s1 c = i" "i < length (dbs ?s1)" using Cons.prems(3,4) by (simp_all add: cur_db_def frame_simps)
  have b1: "db_blocking (dbs ?s1 ! i) = ?m1" using Cons.prems(4) by (simp add: dbs_upd_db)
  have w1: "wlist ?s1 i k = (if k = key then remove1 c cs else wlist s i k)" for k by (auto simp: wlist_def b1)
  have "distinct keys" "\<forall>k \<in> set keys. c \<in> set (wlist ?s1 i k)" using Cons.prems(1,2) by (auto simp: w1)
  from Cons.IH [OF this l1] obtain m where m: "unblock_loop c keys ?s1 = Some (upd_db i (\<lambda>d. d\<lparr>db_blocking := m\<rparr>) ?s1)"
      "\<forall>k. fmlookup m k = (if k \<in> set keys
         then (if remove1 c (wlist ?s1 i k) = [] then None else Some (remove1 c (wlist ?s1 i k)))
         else fmlookup (db_blocking (dbs ?s1 ! i)) k)" by blast
  have "upd_db i (\<lambda>d. d\<lparr>db_blocking := m\<rparr>) ?s1 = upd_db i (\<lambda>d. d\<lparr>db_blocking := m\<rparr>) s"
    using Cons.prems(4) by (simp add: upd_db_def)
  moreover have "unblock_loop c (key # keys) s = unblock_loop c keys ?s1"
    using cs(1,3) Cons.prems(3) by (simp add: Let_def)
  moreover have "fmlookup m k = (if k \<in> set (key # keys)
       then (if remove1 c (wlist s i k) = [] then None else Some (remove1 c (wlist s i k)))
       else fmlookup (db_blocking (dbs s ! i)) k)" for k
    using m(2) Cons.prems(1) cs(2) unfolding b1 w1 by auto
  ultimately show ?case using m(1) by auto
qed

definition nblocked :: "redisServer \<Rightarrow> nat" where
  "nblocked s = card {c. c < length (clients s) \<and> c_blocked (clients s ! c)}"

lemma unblock_ok:
  assumes ok: "blocking_ok s" "c < length (clients s)" "cur_db s c < length (dbs s)" and b: "c_blocked (clients s ! c)"
  obtains s' where "unblockClientWaitingData c s = Some s'" and "wait_step c s s'" and "blocking_ok s'"
    and "\<forall>j k. j < length (dbs s) \<longrightarrow> wlist s' j k = remove1 c (wlist s j k)" and "\<not> c_blocked (clients s' ! c)"
    and "nblocked s' < nblocked s" and "unblocked_clients s' = unblocked_clients s @ [c]"
proof -
  define i where "i = cur_db s c"
  have w: "waits_ok s" and k0: "c_bpop_keys (clients s ! c) \<noteq> []" using ok(1,2) b by (simp_all add: blocking_iff)
  have i: "i < length (dbs s)" using ok(3) by (simp add: i_def)
  have ws: "waits s c i k \<longleftrightarrow> k \<in> set (c_bpop_keys (clients s ! c))" for k by (simp add: waits_def i_def cur_db_def)
  have "distinct (c_bpop_keys (clients s ! c))" using w ok(2) by (simp add: waits_ok_def)
  moreover have "\<forall>k \<in> set (c_bpop_keys (clients s ! c)). c \<in> set (wlist s i k)"
    using wlist_lookup(2) [OF w i] ok(2) by (simp add: ws)
  ultimately obtain m where m: "unblock_loop c (c_bpop_keys (clients s ! c)) s = Some (upd_db i (\<lambda>d. d\<lparr>db_blocking := m\<rparr>) s)"
      "\<forall>k. fmlookup m k = (if k \<in> set (c_bpop_keys (clients s ! c))
         then (if remove1 c (wlist s i k) = [] then None else Some (remove1 c (wlist s i k)))
         else fmlookup (db_blocking (dbs s ! i)) k)"
    using unblock_loop_ok [OF _ _ i_def [symmetric] i] by blast
  have m': "fmlookup m k = (if remove1 c (wlist s i k) = [] then None else Some (remove1 c (wlist s i k)))" for k
  proof (cases "k \<in> set (c_bpop_keys (clients s ! c))")
    case False
    then have "c \<notin> set (wlist s i k)" using wlist_lookup(2) [OF w i] by (simp add: ws)
    then show ?thesis using False m(2) wlist_lookup(1) [OF w i] by (simp add: remove1_idem)
  qed (use m(2) in simp)
  define s1 where "s1 = upd_db i (\<lambda>d. d\<lparr>db_blocking := m\<rparr>) s"
  define s2 where "s2 = upd_client c (\<lambda>cl. cl\<lparr>c_bpop_keys := [], c_bpop_target := None, c_blocked := False, c_unblocked := True\<rparr>) s1"
  define s' where "s' = s2\<lparr>bpop_blocked_clients := bpop_blocked_clients s2 - 1, unblocked_clients := unblocked_clients s2 @ [c]\<rparr>"
  have e: "unblockClientWaitingData c s = Some s'"
    using k0 m(1) by (simp add: unblockClientWaitingData_def s1_def s2_def s'_def Let_def)
  have cl: "clients s' ! a = (if a = c then (clients s ! c)\<lparr>c_bpop_keys := [], c_bpop_target := None, c_blocked := False, c_unblocked := True\<rparr>
      else clients s ! a)" for a
    using ok(2) by (simp add: s'_def s2_def s1_def clients_upd_client frame_simps)
  have db: "dbs s' ! j = (if j = i then (dbs s ! i)\<lparr>db_blocking := m\<rparr> else dbs s ! j)" for j
    using i by (simp add: s'_def s2_def s1_def dbs_upd_db frame_simps)
  have len: "length (dbs s') = length (dbs s)" "length (clients s') = length (clients s)"
    by (simp_all add: s'_def s2_def s1_def frame_simps)
  have st: "wait_step c s s'"
    by (simp add: wait_step_def same_data_def same_size_def cl db len wait_fields_def) (simp add: s'_def s2_def s1_def frame_simps)
  have wl: "wlist s' j k = remove1 c (wlist s j k)" if "j < length (dbs s)" for j k
  proof (cases "j = i")
    case True
    then show ?thesis by (simp add: wlist_def db m')
  next
    case False
    then have "c \<notin> set (wlist s j k)" using wlist_lookup(2) [OF w that] by (simp add: waits_def i_def cur_db_def)
    then show ?thesis using False by (simp add: wlist_def db remove1_idem)
  qed
  have wa: "waits s' a j k \<longleftrightarrow> waits s a j k \<and> a \<noteq> c" for a j k by (simp add: waits_def cl)
  have "waits_ok s'"
    unfolding waits_ok_def len
  proof (intro conjI allI impI)
    fix j k
    assume j: "j < length (dbs s)"
    show "fmlookup (db_blocking (dbs s' ! j)) k \<noteq> Some []" using wlist_lookup(1) [OF w j, of k] by (simp add: db m')
    show "distinct (wlist s' j k)" using wlist_lookup(3) [OF w j] by (simp add: wl [OF j])
    show "set (wlist s' j k) = {c. c < length (clients s) \<and> waits s' c j k}"
      using wlist_lookup(2,3) [OF w j] by (auto simp: wl [OF j] wa)
  next
    fix a
    assume "a < length (clients s)"
    then show "distinct (c_bpop_keys (clients s' ! a))" using w by (simp add: waits_ok_def cl)
  qed
  moreover have un: "unblocked_clients s' = unblocked_clients s @ [c]"
    by (simp add: s'_def s2_def s1_def upd_client_def upd_db_def)
  then have "unblocked_ok s'" using ok(1,2) by (auto simp: blocking_iff unblocked_ok_def len cl)
  ultimately have bo: "blocking_ok s'" using ok(1) by (simp add: blocking_iff len cl)
  have "{a. a < length (clients s') \<and> c_blocked (clients s' ! a)} = {a. a < length (clients s) \<and> c_blocked (clients s ! a)} - {c}"
    by (auto simp: len cl)
  then have "nblocked s' < nblocked s"
    unfolding nblocked_def using ok(2) b by (simp only:) (rule card_Diff1_less, simp_all)
  then show thesis using that [OF e st bo] wl un by (simp add: cl)
qed

section \<open>The commands that may block\<close>

lemma bpop_reply_upd:
  assumes "upd i {} s0 s" and "i < length (dbs s0)" and "sees i key (Some (ListObj l0)) s"
  shows "upd i {} s0 (bpop_reply c i key w v l s)"
proof -
  define s1 where "s1 = storeObject i key (ListObj l) s"
  have u: "upd i {key} s0 s1" unfolding s1_def by (rule upd_store1(1) [OF assms]) simp
  have k: "sees i key (Some (ListObj l)) s1" unfolding s1_def by (rule sees_store [OF assms(3)])
  show ?thesis
    unfolding bpop_reply_def Let_def s1_def [symmetric]
    by (cases "listTypeLength l = 0") (auto intro!: pending_intros u assms(2) simp: k listTypeLength_def sees_hollow(1) [OF k])
qed

lemma bpop_loop_ok:
  assumes "upd i {} s0 s" and "i < length (dbs s0)" and "cur_db s c = i"
  shows "\<exists>r. bpop_loop c w keys s = Some r \<and>
    (case r of Inl s' \<Rightarrow> upd i {} s0 s' \<and> same_view s s' | Inr s' \<Rightarrow> upd i {} s0 s')"
  using assms
proof (induction keys arbitrary: s)
  case (Cons key keys)
  have i: "i < length (dbs s)" using Cons.prems(1,2) by (simp add: upd_len)
  obtain s1 where s1: "lookupKeyWrite i key s = Some (visible s i key, s1)" "quiet i s s1"
      "fmlookup (db_dict (dbs s1 ! i)) key = visible s i key"
    by (rule lookupKeyWrite_ok [OF upd_srv_ok [OF Cons.prems(1)] i])
  note q = quietD [OF s1(2)]
  have u1: "upd i {} s0 s1" using upd_trans [OF Cons.prems(1) q(1)] by simp
  have v1: "same_view s s1" by (rule same_args_view [OF q(2)])
  have c1: "cur_db s1 c = i" using same_viewD [OF v1] Cons.prems(3) by simp
  have k1: "sees i key (visible s i key) s1" using s1(3) q(3,6) i by (simp add: sees_def)
  obtain r where r: "bpop_loop c w keys s1 = Some r"
      "case r of Inl s' \<Rightarrow> upd i {} s0 s' \<and> same_view s1 s' | Inr s' \<Rightarrow> upd i {} s0 s'"
    using Cons.IH [OF u1 Cons.prems(2) c1] by blast
  have go: ?case if "bpop_loop c w (key # keys) s = bpop_loop c w keys s1"
    using r that same_view_trans [OF v1] by (auto split: sum.splits)
  show ?case
  proof (cases "visible s i key")
    case None
    then show ?thesis using s1(1) Cons.prems(3) by (intro go) simp
  next
    case (Some x)
    show ?thesis
    proof (cases x)
      case (ListObj l)
      show ?thesis
      proof (cases "list_elems l = []")
        case True
        then show ?thesis using s1(1) Cons.prems(3) Some ListObj by (intro go) (simp add: listTypeLength_def)
      next
        case False
        then obtain v l1 where p: "listTypePop l w = (Some v, l1)"
          by (cases "w = REDIS_HEAD") (auto simp: listTypePop_def Let_def)
        have "upd i {} s0 (bpop_reply c i key w v l1 s1)"
          by (rule bpop_reply_upd [OF u1 Cons.prems(2)]) (use k1 Some ListObj in simp)
        then show ?thesis using False p s1(1) Cons.prems(3) c1 Some ListObj by (simp add: listTypeLength_def)
      qed
    qed (use s1(1) Cons.prems(3) Some u1 in \<open>simp_all add: upd_addReply\<close>)
  qed
qed (simp add: same_view_def)

lemma getTimeout_reply:
  assumes "upd i {} s0 s"
  shows "case getTimeoutFromObjectOrReply c arg s of Inl s' \<Rightarrow> upd i {} s0 s' | Inr t \<Rightarrow> True"
  using assms
  by (auto simp: getTimeoutFromObjectOrReply_def getLongFromObjectOrReply_def getLongLongFromObjectOrReply_def Let_def
      split: sum.splits option.splits intro!: upd_addReply)

text \<open>What a command of a client that has no transaction may do: wait.\<close>

lemma block_step:
  fixes timeout target
  assumes full: "srv_full s0" and c: "c < length (clients s0)" and nb: "\<not> c_blocked (clients s0 ! c)"
    and u: "upd i {} s0 s" and i: "i < length (dbs s0)" "cur_db s c = i" and ne: "keys \<noteq> []"
    and m: "\<not> c_multi (clients s0 ! c)"
  defines "s' \<equiv> blockForKeys c keys timeout target s"
  shows "step_ok c s0 s' \<and> c_commands (clients s' ! c) = c_commands (clients s0 ! c) \<and>
    c_multi (clients s' ! c) = c_multi (clients s0 ! c) \<and> (c_multi (clients s0 ! c) \<longrightarrow> \<not> c_blocked (clients s' ! c))"
proof -
  have st: "step_ok c s0 s" by (rule upd_step [OF u full])
  have full': "srv_full s" by (rule step_ok_full [OF st])
  have cl: "c < length (clients s)" "i < length (dbs s)" "\<not> c_blocked (clients s ! c)"
      "c_commands (clients s ! c) = c_commands (clients s0 ! c)" "c_multi (clients s ! c) = c_multi (clients s0 ! c)"
    using upd_shape [OF u] c i nb by (simp_all add: same_shape_def)
  have "blocking_ok s" using srv_full_ok [OF full'] by (simp add: srv_ok_def)
  note b = blockForKeys_ok [OF this cl(1) i(2) cl(2,3) ne, of timeout target, folded s'_def]
  have "step_ok c s0 s'" by (rule step_ok_trans [OF st wait_step_ok [OF full' b(2,1)]])
  then show ?thesis using cl(4,5) wait_fieldsD(3,4) [OF wait_step_client [OF b(2)]] m by simp
qed

lemma upd_step_for:
  assumes "srv_full s" and "c < length (clients s)" and "\<not> c_blocked (clients s ! c)" and "upd i {} s s'"
  shows "step_ok c s s' \<and> c_commands (clients s' ! c) = c_commands (clients s ! c) \<and>
    c_multi (clients s' ! c) = c_multi (clients s ! c) \<and> (c_multi (clients s ! c) \<longrightarrow> \<not> c_blocked (clients s' ! c))"
  using upd_step [OF assms(4,1)] upd_shape [OF assms(4)] assms(2,3) by (simp add: same_shape_def)

lemma step_for_bpop: "step_for (- 3) (\<lambda>c. blockingPopGenericCommand c w)"
  unfolding step_for_def
proof (intro allI impI)
  fix s c
  assume s: "srv_full s" "c < length (clients s)" "\<not> c_blocked (clients s ! c)" "arity_ok (- 3) (argc s c)"
  define i where "i = cur_db s c"
  define av where "av = c_argv (clients s ! c)"
  define keys where "keys = butlast (tl av)"
  have i: "i < length (dbs s)" using srv_full_ok [OF s(1)] s(2) by (simp add: i_def srv_ok_def clients_ok_def cur_db_def all_set_conv_all_nth)
  have "3 \<le> length av" using s(4) by (simp add: arity_ok_def argc_def av_def)
  then have ne: "keys \<noteq> []" by (simp add: keys_def flip: length_0_conv)
  have u0: "upd i {} s s" by (rule upd_refl [OF srv_full_ok [OF s(1)]])
  let ?g = "\<lambda>s'. step_ok c s s' \<and> c_commands (clients s' ! c) = c_commands (clients s ! c) \<and>
      c_multi (clients s' ! c) = c_multi (clients s ! c) \<and> (c_multi (clients s ! c) \<longrightarrow> \<not> c_blocked (clients s' ! c))"
  note g = upd_step_for [OF s(1-3)]
  show "\<exists>s'. blockingPopGenericCommand c w s = Some s' \<and> ?g s'"
  proof (cases "getTimeoutFromObjectOrReply c (last av) s")
    case (Inl s1)
    then show ?thesis using g getTimeout_reply [OF u0, of c "last av"]
      by (auto simp: blockingPopGenericCommand_def Let_def av_def)
  next
    case (Inr timeout)
    obtain r where r: "bpop_loop c w keys s = Some r"
        "case r of Inl s' \<Rightarrow> upd i {} s s' \<and> same_view s s' | Inr s' \<Rightarrow> upd i {} s s'"
      using bpop_loop_ok [OF u0 i i_def [symmetric], of w keys] by blast
    have e: "blockingPopGenericCommand c w s = (case r of Inr s \<Rightarrow> Some s
        | Inl s \<Rightarrow> if c_multi (clients s ! c) then Some (addReply c NullMultiBulk s) else Some (blockForKeys c keys timeout None s))"
      using Inr r(1) unfolding keys_def av_def by (simp add: blockingPopGenericCommand_def Let_def)
    show ?thesis
    proof (cases r)
      case (Inl s1)
      have u1: "upd i {} s s1" and c1: "cur_db s1 c = i" using r(2) Inl same_viewD by (auto simp: i_def)
      have m1: "c_multi (clients s1 ! c) = c_multi (clients s ! c)" using upd_shape [OF u1] s(2) by (simp add: same_shape_def)
      show ?thesis
      proof (cases "c_multi (clients s ! c)")
        case True
        then show ?thesis using e Inl m1 g [OF upd_addReply [OF u1]] by simp
      next
        case False
        then show ?thesis using e Inl m1 block_step [OF s(1-3) u1 i c1 ne, of timeout None] by simp
      qed
    next
      case (Inr s1)
      then show ?thesis using e r(2) g by simp
    qed
  qed
qed

lemma step_for_brpoplpush: "step_for 4 brpoplpushCommand"
  unfolding step_for_def
proof (intro allI impI)
  fix s c
  assume s: "srv_full s" "c < length (clients s)" "\<not> c_blocked (clients s ! c)" "arity_ok 4 (argc s c)"
  define i where "i = cur_db s c"
  have i: "i < length (dbs s)" using srv_full_ok [OF s(1)] s(2) by (simp add: i_def srv_ok_def clients_ok_def cur_db_def all_set_conv_all_nth)
  have u0: "upd i {} s s" by (rule upd_refl [OF srv_full_ok [OF s(1)]])
  let ?g = "\<lambda>s'. step_ok c s s' \<and> c_commands (clients s' ! c) = c_commands (clients s ! c) \<and>
      c_multi (clients s' ! c) = c_multi (clients s ! c) \<and> (c_multi (clients s ! c) \<longrightarrow> \<not> c_blocked (clients s' ! c))"
  note g = upd_step_for [OF s(1-3)]
  obtain s1 where s1: "lookupKeyWrite i (argv s c 1) s = Some (visible s i (argv s c 1), s1)" "quiet i s s1"
      "fmlookup (db_dict (dbs s1 ! i)) (argv s c 1) = visible s i (argv s c 1)"
    by (rule lookupKeyWrite_ok [OF srv_full_ok [OF s(1)] i])
  note q = quietD [OF s1(2)]
  have v1: "argv s1 = argv s" "cur_db s1 = cur_db s" using same_viewD [OF same_args_view [OF q(2)]] by simp_all
  have cl1: "clients s1 = clients s" using s1(2) by (simp add: quiet_def)
  show "\<exists>s'. brpoplpushCommand c s = Some s' \<and> ?g s'"
  proof (cases "getTimeoutFromObjectOrReply c (argv s c 3) s")
    case (Inl s1)
    then show ?thesis using g getTimeout_reply [OF u0, of c "argv s c 3"] by (auto simp: brpoplpushCommand_def)
  next
    case (Inr timeout)
    show ?thesis
    proof (cases "visible s i (argv s c 1)")
      case None
      show ?thesis
      proof (cases "c_multi (clients s ! c)")
        case True
        then show ?thesis using Inr None s1(1) cl1 g [OF upd_addReply [OF q(1)]] by (simp add: brpoplpushCommand_def i_def)
      next
        case False
        then show ?thesis using Inr None s1(1) cl1 v1 block_step [OF s(1-3) q(1) i, of "[argv s c 1]" timeout "Some (argv s c 2)"]
          by (simp add: brpoplpushCommand_def i_def)
      qed
    next
      case (Some x)
      show ?thesis
      proof (cases x)
        case (ListObj l)
        have full1: "srv_full s1" by (rule upd_full [OF q(1) s(1)])
        have "\<not> hollow x" using full_visible [OF s(1) Some i] .
        then have ne: "0 < listTypeLength l" using ListObj by (simp add: listTypeLength_def)
        obtain s2 where s2: "rpoplpushCommand c s1 = Some s2" "upd i {} s1 s2"
          using safe_rpoplpush full1 s(2,3) cl1 v1 unfolding safe_command_def i_def by metis
        then show ?thesis using Inr Some s1(1) ListObj ne g [of i s2] upd_trans [OF q(1) s2(2)]
          by (simp add: brpoplpushCommand_def i_def)
      qed (use Inr Some s1(1) g [OF upd_addReply [OF q(1)]] in \<open>simp_all add: brpoplpushCommand_def i_def\<close>)
    qed
  qed
qed

lemma blocking_steps:
  "step_for (- 3) blpopCommand" "step_for (- 3) brpopCommand" "step_for 4 brpoplpushCommand"
  using step_for_bpop step_for_brpoplpush by (simp_all add: blpopCommand_def [abs_def] brpopCommand_def [abs_def])

text \<open>A client whose time is over no longer waits.\<close>

lemma timeout_ok:
  assumes full: "srv_full s" and c: "c < length (clients s)"
  obtains s' where "clientsCronHandleTimeout c s = Some s'" and "step_ok c s s'"
proof (cases "c_blocked (clients s ! c) \<and> c_bpop_timeout (clients s ! c) \<noteq> 0 \<and> sint (c_bpop_timeout (clients s ! c)) < sint (unixtime s)")
  case True
  define s1 where "s1 = addReply c NullMultiBulk s"
  have st: "step_ok c s s1" unfolding s1_def by (rule log_step(1) [OF full])
  have full1: "srv_full s1" by (rule step_ok_full [OF st])
  have c1: "c < length (clients s1)" using c step_ok_len [OF st] by simp
  have b1: "blocking_ok s1" and i: "cur_db s1 c < length (dbs s1)"
    using srv_full_ok [OF full1] c1 by (simp_all add: srv_ok_def clients_ok_def cur_db_def all_set_conv_all_nth)
  have "c_blocked (clients s1 ! c)" using True c by (simp add: s1_def addReply_def clients_upd_client)
  then obtain s2 where "unblockClientWaitingData c s1 = Some s2" "wait_step c s1 s2" "blocking_ok s2"
    by (rule unblock_ok [OF b1 c1 i])
  then show thesis using that [of s2] True step_ok_trans [OF st wait_step_ok [OF full1]]
    by (simp add: clientsCronHandleTimeout_def s1_def)
next
  case False
  then show thesis using that [of s] step_ok_refl [OF full] by (auto simp: clientsCronHandleTimeout_def Let_def)
qed

end
