(* ===== verification/T_list_serving.thy ===== *)
theory T_list_serving
  imports T_list_blocking
begin

text \<open>
  Serving the clients that wait for lists: no step of \<open>handleClientsBlockedOnLists\<close> fails, it ends,
  it keeps the invariant of the server and what the watchers of keys rely on, and afterwards no client
  waits for a key that holds a list, unless one did so before without the key being ready.
\<close>

section \<open>Keys that are ready\<close>

text \<open>\<open>L\<close> are the keys taken from the list of the server that are still to be handled. The watchers of
  all keys that are ready have been marked, those of the clients \<open>A\<close>: the others than the one whose
  command has run.\<close>

definition marked_for :: "nat set \<Rightarrow> redisServer \<Rightarrow> nat \<Rightarrow> bytes \<Rightarrow> bool" where
  "marked_for A s j k \<longleftrightarrow>
     (\<forall>a < length (clients s). a \<in> A \<longrightarrow> watches s a j k \<longrightarrow> c_dirty_cas (clients s ! a))"

definition ready_in :: "nat set \<Rightarrow> (nat \<times> bytes) set \<Rightarrow> redisServer \<Rightarrow> bool" where
  "ready_in A L s \<longleftrightarrow> distinct (ready_keys s) \<and> set (ready_keys s) \<inter> L = {} \<and>
     (\<forall>j k. (j, k) \<in> set (ready_keys s) \<union> L \<longrightarrow> j < length (dbs s) \<and> marked_for A s j k) \<and>
     (\<forall>j k. j < length (dbs s) \<longrightarrow> (k |\<in>| db_ready (dbs s ! j) \<longleftrightarrow> (j, k) \<in> set (ready_keys s) \<union> L))"

text \<open>A list that nobody will serve although clients wait for it.\<close>

definition list_at :: "redisServer \<Rightarrow> nat \<Rightarrow> bytes \<Rightarrow> bool" where
  "list_at s j k \<longleftrightarrow> j < length (dbs s) \<and> (\<exists>l. fmlookup (db_dict (dbs s ! j)) k = Some (ListObj l))"

definition lost :: "redisServer \<Rightarrow> nat \<Rightarrow> bytes \<Rightarrow> bool" where
  "lost s j k \<longleftrightarrow> list_at s j k \<and> wlist s j k \<noteq> [] \<and> k |\<notin>| db_ready (dbs s ! j)"

text \<open>A part of the work: keys of \<open>H\<close> may be left empty or lost.\<close>

definition handled :: "nat set \<Rightarrow> (nat \<times> bytes) set \<Rightarrow> (nat \<times> bytes) set \<Rightarrow> redisServer \<Rightarrow> redisServer \<Rightarrow> bool" where
  "handled A L H s s' \<longleftrightarrow> srv_ok s' \<and> same_size s s' \<and> ready_in A L s' \<and>
     (\<forall>a < length (clients s). a \<in> A \<longrightarrow> kept a s s') \<and>
     (\<forall>j k. hollow_at s' j k \<longrightarrow> (j, k) \<in> H \<or> hollow_at s j k) \<and>
     (\<forall>j k. lost s' j k \<longrightarrow> (j, k) \<in> H \<or> lost s j k) \<and> nblocked s' \<le> nblocked s \<and>
     (\<forall>a < length (clients s). c_commands (clients s' ! a) = c_commands (clients s ! a))"

lemma handled_refl: "srv_ok s \<Longrightarrow> ready_in A L s \<Longrightarrow> handled A L H s s"
  by (simp add: handled_def)

lemma handledD:
  assumes "handled A L H s s'"
  shows "srv_ok s'" "ready_in A L s'" "length (dbs s') = length (dbs s)" "length (clients s') = length (clients s)"
    "nblocked s' \<le> nblocked s"
  using assms by (simp_all add: handled_def same_size_def)

lemma handled_trans:
  assumes h1: "handled A L1 H s s1" and h2: "handled A L2 H s1 s2"
  shows "handled A L2 H s s2"
proof -
  note l = handledD(3,4) [OF h1]
  have "kept a s s2" if "a < length (clients s)" "a \<in> A" for a
    using h1 h2 that l(2) kept_trans [OF _ _ l(1)] by (simp add: handled_def)
  moreover have "c_commands (clients s2 ! a) = c_commands (clients s ! a)" if "a < length (clients s)" for a
    using h1 h2 that l(2) by (simp add: handled_def)
  ultimately show ?thesis using h1 h2 same_size_trans unfolding handled_def by (meson le_trans)
qed

lemma handled_mono: "handled A L H s s' \<Longrightarrow> H \<subseteq> H' \<Longrightarrow> handled A L H' s s'"
  unfolding handled_def by blast

lemma handled_close:
  assumes "handled A L {(j, k)} s s'" and "\<not> hollow_at s' j k" and "\<not> lost s' j k"
  shows "handled A L {} s s'"
  using assms unfolding handled_def by blast

lemma marked_for_kept:
  assumes "marked_for A s j k" and "length (clients s') = length (clients s)"
    and "\<forall>a < length (clients s). a \<in> A \<longrightarrow> kept a s s'"
  shows "marked_for A s' j k"
  using assms by (auto simp: marked_for_def kept_def watches_def)

lemma marked_for_handled: "handled A L H s s' \<Longrightarrow> marked_for A s j k \<Longrightarrow> marked_for A s' j k"
  using marked_for_kept [of A s j k s'] unfolding handled_def same_size_def by blast

section \<open>Updates while keys are handled\<close>

lemma same_shape_wlist: "same_shape s s' \<Longrightarrow> j < length (dbs s) \<Longrightarrow> wlist s' j k = wlist s j k"
  by (simp add: same_shape_def wlist_def)

lemma same_shape_nblocked: "same_shape s s' \<Longrightarrow> nblocked s' = nblocked s"
  unfolding nblocked_def same_shape_def by (metis (no_types, lifting))

lemma upd_handled:
  assumes u: "upd i K s s'" and r: "ready_in A L s" and K: "\<forall>k \<in> K. marked_for A s i k \<and> (i, k) \<in> H"
    and new: "\<And>j k. list_at s' j k \<Longrightarrow> list_at s j k \<or> (j, k) \<in> H \<or> wlist s' j k = [] \<or> k |\<in>| db_ready (dbs s' ! j)"
  shows "handled A L H s s'"
proof -
  note sh = upd_shape [OF u]
  have len: "length (dbs s') = length (dbs s)" "length (clients s') = length (clients s)"
    using sh by (simp_all add: same_shape_def)
  obtain ks where n: "new_ready ks s s'" "\<forall>(j, k) \<in> set ks. pending i K s s' j k"
    using u by (auto simp: upd_def ready_upd_def)
  have mark: "c_dirty_cas (clients s' ! a)"
    if "pending i K s s' j k" "a < length (clients s)" "a \<in> A" "watches s a j k" for a j k
  proof (cases "marked s s' j k")
    case True
    then show ?thesis using that by (simp add: marked_def)
  next
    case False
    then have "marked_for A s j k" using that(1) K by (auto simp: pending_def)
    then show ?thesis using that sh by (simp add: marked_for_def same_shape_def)
  qed
  have kept: "kept a s s'" if a: "a < length (clients s)" "a \<in> A" for a
  proof -
    have "c_dirty_cas (clients s' ! a)"
      if "j < length (dbs s)" "watches s a j k" "seen s' j k \<noteq> seen s j k \<or> (j, k) \<in> set (ready_keys s') - set (ready_keys s)"
      for j k
    proof -
      have "pending i K s s' j k"
        using that(1,3) u n unfolding upd_def seen_upd_def new_ready_def by fastforce
      then show ?thesis using mark a that(2) by blast
    qed
    then show ?thesis using sh a by (simp add: kept_def same_shape_def)
  qed
  have mf: "marked_for A s j k \<Longrightarrow> marked_for A s' j k" for j k
    using marked_for_kept [OF _ len(2)] kept by blast
  have new_mf: "marked_for A s' j k" if "(j, k) \<in> set ks" for j k
  proof -
    have "watches s' a j k = watches s a j k" if "a < length (clients s)" for a
      using sh that by (simp add: watches_def same_shape_def)
    moreover have "pending i K s s' j k" using n(2) that by auto
    ultimately show ?thesis using mark len(2) by (simp add: marked_for_def)
  qed
  have rk: "ready_keys s' = ready_keys s @ ks" using n(1) by (simp add: new_ready_def)
  have fresh: "set ks \<inter> (set (ready_keys s) \<union> L) = {}" "distinct ks" "\<forall>(j, k) \<in> set ks. j < length (dbs s)"
    using n(1) r by (fastforce simp: new_ready_def ready_in_def)+
  have "ready_in A L s'"
    unfolding ready_in_def len
  proof (intro conjI allI impI)
    show "distinct (ready_keys s')" using r fresh by (auto simp: rk ready_in_def)
    show "set (ready_keys s') \<inter> L = {}" using r fresh by (auto simp: rk ready_in_def)
    fix j k
    show "j < length (dbs s)" "marked_for A s' j k" if "(j, k) \<in> set (ready_keys s') \<union> L"
      using that r fresh(3) mf new_mf by (auto simp: rk ready_in_def)
    show "k |\<in>| db_ready (dbs s' ! j) \<longleftrightarrow> (j, k) \<in> set (ready_keys s') \<union> L" if "j < length (dbs s)"
      using that n(1) r by (auto simp: new_ready_def ready_in_def)
  qed
  moreover have "(j, k) \<in> H \<or> hollow_at s j k" if "hollow_at s' j k" for j k
    using that u K unfolding upd_def hollow_upd_def by blast
  moreover have "(j, k) \<in> H \<or> lost s j k" if l: "lost s' j k" for j k
  proof -
    have j: "j < length (dbs s)" using l len by (simp add: lost_def list_at_def)
    have "k |\<notin>| db_ready (dbs s ! j)" using l n(1) j by (auto simp: lost_def new_ready_def)
    then show ?thesis using l new [of j k] same_shape_wlist [OF sh j] by (auto simp: lost_def)
  qed
  ultimately show ?thesis
    using u kept sh same_shape_nblocked [OF sh] by (simp add: handled_def same_size_def upd_def same_shape_def)
qed

lemma wait_handled:
  assumes "srv_ok s" and w: "wait_step r s s'" and b: "blocking_ok s'" and rd: "ready_in A L s"
    and wl: "\<forall>j k. j < length (dbs s) \<longrightarrow> wlist s' j k \<noteq> [] \<longrightarrow> wlist s j k \<noteq> []" and n: "nblocked s' \<le> nblocked s"
    and br: "c_blocked (clients s ! r)"
  shows "handled A L H s s'"
proof -
  have d: "same_data s s'" using w by (simp add: wait_step_def)
  note len = wait_step_len [OF w] and cl = wait_fieldsD [OF wait_step_client [OF w]]
  have kept: "kept a s s'" for a
  proof -
    have "c_blocked (clients s' ! a) \<longrightarrow> c_blocked (clients s ! a)"
      "a \<in> set (unblocked_clients s') \<longrightarrow> a \<in> set (unblocked_clients s) \<or> c_blocked (clients s ! a)"
      using w br by (cases "a = r"; auto simp: wait_step_def)+
    then show ?thesis using d same_data_visible [OF d] by (simp add: kept_def same_data_def cl)
  qed
  have "marked_for A s' j k = marked_for A s j k" for j k by (simp add: marked_for_def watches_def cl len)
  then have "ready_in A L s'" using rd d len by (simp add: ready_in_def same_data_def)
  moreover have "lost s' j k \<Longrightarrow> lost s j k" for j k
    using d wl len by (auto simp: lost_def list_at_def same_data_def)
  ultimately show ?thesis
    using wait_step_srv [OF assms(1) w b] d kept n cl(4) by (simp add: handled_def same_data_def)
qed

lemma unready_handled:
  fixes j key
  assumes ok: "srv_ok s" and rd: "ready_in A (insert (j, key) L) s" and n: "(j, key) \<notin> L"
  defines "s' \<equiv> upd_db j (\<lambda>d. d\<lparr>db_ready := db_ready d |-| {|key|}\<rparr>) s"
  shows "handled A L {(j, key)} s s'" and "marked_for A s' j key" and "ready_keys s' = ready_keys s"
proof -
  have j: "j < length (dbs s)" and m: "marked_for A s j key" using rd by (simp_all add: ready_in_def)
  have db: "dbs s' ! i = (if i = j then (dbs s ! j)\<lparr>db_ready := db_ready (dbs s ! j) |-| {|key|}\<rparr> else dbs s ! i)" for i
    using j by (simp add: s'_def dbs_upd_db)
  have f: "clients s' = clients s" "length (dbs s') = length (dbs s)" "ready_keys s' = ready_keys s" "same_size s s'"
      "unblocked_clients s' = unblocked_clients s"
    by (simp_all add: s'_def same_size_def frame_simps)
  have du: "due s' = due s" by (simp add: s'_def due_upd_db)
  have v: "visible s' i k = visible s i k" for i k
    by (simp add: visible_def db_visible_def du db cong: option.case_cong if_cong)
  have sh: "same_shape s s'" by (simp add: same_shape_def f db) (simp add: s'_def frame_simps)
  have "srv_ok s'"
    using ok watch_ok_cong [OF _ same_shape_parts(1) [OF sh]] blocking_ok_cong [OF _ same_shape_parts(2) [OF sh]]
    by (simp add: srv_ok_def expires_ok_def objects_ok_def clients_ok_def f db)
  moreover have mf: "marked_for A s' i k = marked_for A s i k" for i k by (simp add: marked_for_def watches_def f)
  moreover have "ready_in A L s'"
    using rd n unfolding ready_in_def mf f by (auto simp: db)
  moreover have "lost s' i k \<Longrightarrow> (i, k) = (j, key) \<or> lost s i k" for i k
    using f by (auto simp: lost_def list_at_def db wlist_def split: if_splits)
  ultimately show "handled A L {(j, key)} s s'"
    using f v same_shape_nblocked [OF sh] by (auto simp: handled_def kept_def hollow_at_def db)
  show "marked_for A s' j key" "ready_keys s' = ready_keys s" using m f by (simp_all add: mf)
qed

section \<open>Serving one client\<close>

lemma expire_dict_any:
  "expireIfNeeded i k s = Some (b, s') \<Longrightarrow>
     fmlookup (db_dict (dbs s' ! j)) k' = Some v \<Longrightarrow> fmlookup (db_dict (dbs s ! j)) k' = Some v"
  by (auto simp: expireIfNeeded_def dbDelete_def dbs_upd_any notifyKeyspaceEvent_def propagateExpire_def
      propagate_def Let_def frame_simps split: if_splits Option.bind_splits)

lemma list_at_mono:
  assumes "\<And>j k v. fmlookup (db_dict (dbs s' ! j)) k = Some v \<Longrightarrow> fmlookup (db_dict (dbs s ! j)) k = Some v"
    and "length (dbs s') = length (dbs s)"
  shows "list_at s' j k \<Longrightarrow> list_at s j k"
  using assms by (auto simp: list_at_def)

lemma lookup_handled:
  assumes ok: "srv_ok s" and i: "i < length (dbs s)" and rd: "ready_in A L s"
  obtains s' where "lookupKeyWrite i k s = Some (visible s i k, s')" and "handled A L H s s'"
    and "sees i k (visible s i k) s'" and "\<forall>k' v. sees i k' v s \<longrightarrow> sees i k' v s'"
    and "ready_keys s' = ready_keys s" and "clients s' = clients s" and "\<forall>j k'. j < length (dbs s) \<longrightarrow> wlist s' j k' = wlist s j k'"
proof -
  obtain b s1 where e: "expireIfNeeded i k s = Some (b, s1)" "quiet i s s1" "lookupKey i k s1 = visible s i k"
    using expireIfNeeded_ok [OF ok i] by blast
  note q = quietD [OF e(2)]
  have "handled A L H s s1"
    by (rule upd_handled [OF q(1) rd]) (use list_at_mono [of s1 s] expire_dict_any [OF e(1)] q(6) in auto)
  moreover have "sees i k (visible s i k) s1" using e(3) q i by (simp add: sees_def lookupKey_def)
  moreover have "ready_keys s1 = ready_keys s"
    using e(1) by (auto simp: expireIfNeeded_def dbDelete_def notifyKeyspaceEvent_def propagateExpire_def
        propagate_def Let_def frame_simps split: if_splits Option.bind_splits)
  moreover have "clients s1 = clients s" using e(2) by (simp add: quiet_def)
  ultimately show thesis
    using that [of s1] e expire_keeps [OF e(1,2)] same_shape_wlist [OF upd_shape [OF q(1)]]
    by (simp add: lookupKeyWrite_def)
qed

lemma store_handled:
  assumes ok: "srv_ok s" and rd: "ready_in A L s" and k: "sees j key (Some (ListObj l)) s" and m: "marked_for A s j key"
    and s': "s' = storeObject j key (ListObj l') s"
  shows "handled A L {(j, key)} s s'" and "sees j key (Some (ListObj l')) s'" and "ready_keys s' = ready_keys s"
    and "clients s' = clients s" and "wlist s' i k = wlist s i k"
proof -
  have j: "j < length (dbs s)" using k by (simp add: sees_def)
  have u: "upd j {key} s s'" unfolding s' by (rule upd_store1(1) [OF upd_refl [OF ok] j k]) simp
  show "handled A L {(j, key)} s s'"
    by (rule upd_handled [OF u rd]) (use m j in \<open>auto simp: list_at_def s' storeObject_def dbs_upd_any frame_simps split: if_splits\<close>)
  show "sees j key (Some (ListObj l')) s'" unfolding s' by (rule sees_store [OF k])
  show "ready_keys s' = ready_keys s" "clients s' = clients s" "wlist s' i k = wlist s i k"
    by (auto simp: s' storeObject_def frame_simps wlist_def dbs_upd_any)
qed

lemma log_handled:
  assumes "upd i {} s s'" and "ready_in A L s" and "dbs s' = dbs s"
  shows "handled A L H s s'"
  by (rule upd_handled [OF assms(1,2)]) (simp_all add: list_at_def assms(3))

lemma sees_propagate [simp]: "sees i k v (propagate j av s) = sees i k v s"
proof -
  have "visible (propagate j av s) i k = visible s i k" by (rule same_dbs_visible) (simp_all add: propagate_def)
  then show ?thesis by (simp add: sees_def) (simp add: propagate_def)
qed

definition serves :: "nat set \<Rightarrow> (nat \<times> bytes) set \<Rightarrow> nat \<Rightarrow> bytes \<Rightarrow> redisServer \<Rightarrow> redisServer option \<Rightarrow> bool" where
  "serves A L j key s r \<longleftrightarrow> (\<exists>s' l'. r = Some s' \<and> handled A L {(j, key)} s s' \<and>
     sees j key (Some (ListObj l')) s' \<and> (\<forall>k. wlist s' j k = wlist s j k))"

definition serve_or_undo ::
  "nat \<Rightarrow> bytes \<Rightarrow> bytes option \<Rightarrow> nat \<Rightarrow> bytes \<Rightarrow> list_end \<Rightarrow> redisServer \<Rightarrow> redisServer option" where
  "serve_or_undo r key dstkey j val w s =
     serveClientBlockedOnList r key dstkey j val w s \<bind>
     (\<lambda>(served, s). if served then Some s else push_back j key val w s)"

lemma serve_reply:
  assumes ok: "srv_ok s" and rd: "ready_in A L s" and k: "sees j key (Some (ListObj l)) s"
  shows "serves A L j key s (serve_or_undo r key None j val w s)"
proof -
  define s1 where "s1 = addReply r (Bulk val) (addReply r (Bulk key) (addReply r (MultiBulkLen 2) (propagate j [pop_name w, key] s)))"
  have "upd j {} s s1" unfolding s1_def by (intro upd_intros upd_refl ok)
  then have "handled A L {(j, key)} s s1"
    by (rule log_handled [OF _ rd]) (simp add: s1_def addReply_def propagate_def frame_simps)
  moreover have "wlist s1 j k = wlist s j k" for k
    by (simp add: s1_def wlist_def addReply_def propagate_def frame_simps)
  moreover have "sees j key (Some (ListObj l)) s1" using k by (simp add: s1_def)
  moreover have "serve_or_undo r key None j val w s = Some s1"
    by (simp add: serve_or_undo_def serveClientBlockedOnList_def s1_def Let_def)
  ultimately show ?thesis unfolding serves_def by blast
qed

text \<open>The destination has another type: the value returns to its list.\<close>

lemma undo_ok:
  assumes ok: "srv_ok s" and rd: "ready_in A L s" and k: "sees j key (Some (ListObj l)) s" and m: "marked_for A s j key"
  shows "serves A L j key s (push_back j key val w (addReply r wrongtypeerr s))"
proof -
  define s2 where "s2 = addReply r wrongtypeerr s"
  define l' where "l' = listTypePush s2 l (tryObjectEncoding (Raw val)) w"
  define s3 where "s3 = storeObject j key (ListObj l') s2"
  have "upd j {} s s2" unfolding s2_def by (intro upd_intros upd_refl ok)
  then have h2: "handled A L {(j, key)} s s2"
    by (rule log_handled [OF _ rd]) (simp add: s2_def addReply_def frame_simps)
  have k2: "sees j key (Some (ListObj l)) s2" using k by (simp add: s2_def)
  note st = store_handled [OF handledD(1,2) [OF h2] k2 marked_for_handled [OF h2 m] s3_def]
  have "push_back j key val w s2 = Some s3"
    using k2 by (simp add: push_back_def s3_def l'_def sees_def)
  moreover have "handled A L {(j, key)} s s3" by (rule handled_trans [OF h2 st(1)])
  moreover have "wlist s3 j k = wlist s j k" for k
    using st(5) by (simp add: s2_def wlist_def addReply_def frame_simps)
  ultimately show ?thesis using st(2) unfolding serves_def s2_def by blast
qed

lemma move_ok:
  assumes ok: "srv_ok s" and rd: "ready_in A L s" and k: "sees j key (Some (ListObj l)) s"
    and d: "sees j dst (map_option ListObj o2) s" and r: "cur_db s r = j"
  shows "serves A L j key s (rpoplpushHandlePush r dst o2 val (propagate j [ascii ''RPOP'', key] s) \<bind>
     (\<lambda>s. Some (propagate j [ascii ''LPUSH'', dst, val] s)))"
proof -
  define s2 where "s2 = propagate j [ascii ''RPOP'', key] s"
  have "upd j {} s s2" unfolding s2_def by (intro upd_intros upd_refl ok)
  then have h2: "handled A L {(j, key)} s s2"
    by (rule log_handled [OF _ rd]) (simp add: s2_def propagate_def)
  have db2: "dbs s2 = dbs s" by (simp add: s2_def propagate_def)
  have j2: "j < length (dbs s2)" using k by (simp add: db2 sees_def)
  have d2: "sees j dst (map_option ListObj o2) s2" using d by (simp add: s2_def)
  have c2: "cur_db s2 r = j" using r by (simp add: s2_def propagate_def cur_db_def)
  obtain s3 l2 where s3: "rpoplpushHandlePush r dst o2 val s2 = Some s3" "upd j ({} - {dst}) s2 s3"
      "\<forall>k w. k \<noteq> dst \<longrightarrow> sees j k w s2 \<longrightarrow> sees j k w s3" "sees j dst (Some (ListObj l2)) s3"
      "\<forall>i k. (i, k) \<noteq> (j, dst) \<longrightarrow> fmlookup (db_dict (dbs s3 ! i)) k = fmlookup (db_dict (dbs s2 ! i)) k"
      "o2 = None \<longrightarrow> fmlookup (db_blocking (dbs s3 ! j)) dst = None \<or> dst |\<in>| db_ready (dbs s3 ! j)"
    by (rule push_handled [OF upd_refl [OF handledD(1) [OF h2]] j2 d2 c2, of val])
  define s4 where "s4 = propagate j [ascii ''LPUSH'', dst, val] s3"
  have u4: "upd j {} s2 s4" using s3(2) unfolding s4_def by (intro upd_intros) simp
  have db4: "dbs s4 = dbs s3" by (simp add: s4_def propagate_def)
  have new: "list_at s2 i k \<or> (i, k) \<in> {(j, key)} \<or> wlist s4 i k = [] \<or> k |\<in>| db_ready (dbs s4 ! i)" if "list_at s4 i k" for i k
  proof (cases "(i, k) = (j, dst)")
    case True
    then show ?thesis using s3(6) d2 j2 by (cases o2) (auto simp: list_at_def sees_def wlist_def db4)
  next
    case False
    then show ?thesis using that s3(5) upd_len [OF u4] by (simp add: list_at_def db4)
  qed
  have "handled A L {(j, key)} s2 s4"
    by (rule upd_handled [OF u4 handledD(2) [OF h2] _ new]) simp_all
  then have "handled A L {(j, key)} s s4" by (rule handled_trans [OF h2])
  moreover obtain l' where "sees j key (Some (ListObj l')) s4"
    using s3(3,4) k by (cases "key = dst") (auto simp: s4_def s2_def)
  moreover have "wlist s4 j k = wlist s j k" for k
    using same_shape_wlist [OF upd_shape [OF u4] j2] by (simp add: wlist_def db2)
  ultimately show ?thesis using s3(1) unfolding serves_def s2_def [symmetric] by (auto simp: s4_def)
qed

lemma serves_after:
  assumes "handled A L {(j, key)} s s1" and "\<forall>k. wlist s1 j k = wlist s j k" and "serves A L j key s1 r"
  shows "serves A L j key s r"
  using assms handled_trans unfolding serves_def by (metis (no_types, lifting))

lemma serve_ok:
  assumes ok: "srv_ok s" and rd: "ready_in A L s" and r: "cur_db s r = j" and k: "sees j key (Some (ListObj l)) s"
    and m: "marked_for A s j key"
  shows "serves A L j key s (serve_or_undo r key dstkey j val w s)"
proof (cases dstkey)
  case None
  then show ?thesis using serve_reply [OF ok rd k] by simp
next
  case (Some dst)
  have j: "j < length (dbs s)" using k by (simp add: sees_def)
  obtain s1 where s1: "lookupKeyWrite j dst s = Some (visible s j dst, s1)" "handled A L {(j, key)} s s1"
      "sees j dst (visible s j dst) s1" "\<forall>k' v. sees j k' v s \<longrightarrow> sees j k' v s1"
      "ready_keys s1 = ready_keys s" "clients s1 = clients s"
      "\<forall>i k'. i < length (dbs s) \<longrightarrow> wlist s1 i k' = wlist s i k'"
    by (rule lookup_handled [OF ok j rd, of dst "{(j, key)}"])
  have k1: "sees j key (Some (ListObj l)) s1" using s1(4) k by blast
  have c1: "cur_db s1 r = j" using r s1(6) by (simp add: cur_db_def)
  note h1 = handledD(1,2) [OF s1(2)]
  have "serves A L j key s1 (serve_or_undo r key dstkey j val w s)"
  proof (cases "visible s j dst \<noteq> None \<and> otype (the (visible s j dst)) \<noteq> REDIS_LIST")
    case True
    then have "serve_or_undo r key dstkey j val w s = push_back j key val w (addReply r wrongtypeerr s1)"
      by (simp add: serve_or_undo_def serveClientBlockedOnList_def Some r s1(1))
    then show ?thesis using undo_ok [OF h1 k1 marked_for_handled [OF s1(2) m]] by simp
  next
    case False
    define o2 where "o2 = (case visible s j dst of Some (ListObj l) \<Rightarrow> Some l | _ \<Rightarrow> None)"
    have o2: "map_option ListObj o2 = visible s j dst"
      using False unfolding o2_def by (auto split: option.split robj.split)
    have "serve_or_undo r key dstkey j val w s = rpoplpushHandlePush r dst o2 val (propagate j [ascii ''RPOP'', key] s1) \<bind>
        (\<lambda>s. Some (propagate j [ascii ''LPUSH'', dst, val] s))"
      using False by (simp add: serve_or_undo_def serveClientBlockedOnList_def Some r s1(1) o2_def Let_def) auto
    then show ?thesis using move_ok [OF h1 k1 _ c1, of dst o2 val] s1(3) by (simp add: o2)
  qed
  then show ?thesis using serves_after [OF s1(2)] s1(7) j by blast
qed

text \<open>The first client that waits has a value.\<close>

lemma wlist_waits:
  assumes ok: "srv_ok s" and j: "j < length (dbs s)" and r: "r \<in> set (wlist s j key)"
  shows "r < length (clients s)" and "cur_db s r = j" and "c_blocked (clients s ! r)"
proof -
  have b: "blocking_ok s" using ok by (simp add: srv_ok_def)
  then have "r < length (clients s) \<and> waits s r j key" using wlist_lookup(2) [OF _ j] r by (simp add: blocking_iff)
  then show "r < length (clients s)" "cur_db s r = j" "c_blocked (clients s ! r)"
    using b by (auto simp: waits_def cur_db_def blocking_iff)
qed

lemma deliver_ok:
  assumes ok: "srv_ok s" and rd: "ready_in A L s" and k: "sees j key (Some (ListObj l)) s" and m: "marked_for A s j key"
    and r: "r \<in> set (wlist s j key)"
  obtains s' l' where "deliver j key r val w s = Some s'" and "handled A L {(j, key)} s s'"
    and "sees j key (Some (ListObj l')) s'" and "wlist s' j key = remove1 r (wlist s j key)" and "nblocked s' < nblocked s"
proof -
  have j: "j < length (dbs s)" using k by (simp add: sees_def)
  note r = wlist_waits [OF ok j r]
  have b: "blocking_ok s" and rj: "cur_db s r < length (dbs s)" using ok r(2) j by (simp_all add: srv_ok_def)
  obtain s1 where s1: "unblockClientWaitingData r s = Some s1" "wait_step r s s1" "blocking_ok s1"
      "\<forall>j k. j < length (dbs s) \<longrightarrow> wlist s1 j k = remove1 r (wlist s j k)" "\<not> c_blocked (clients s1 ! r)"
      "nblocked s1 < nblocked s" "unblocked_clients s1 = unblocked_clients s @ [r]"
    by (rule unblock_ok [OF b r(1) rj r(3)])
  have h1: "handled A L {(j, key)} s s1"
    by (rule wait_handled [OF ok s1(2,3) rd]) (use s1(4,6) r(3) in auto)
  have d: "same_data s s1" using s1(2) by (simp add: wait_step_def)
  have k1: "sees j key (Some (ListObj l)) s1"
    using k d same_data_visible [OF d j] by (simp add: sees_def same_data_def same_size_def)
  have c1: "cur_db s1 r = j" using r(2) wait_fieldsD(1) [OF wait_step_client [OF s1(2)]] by (simp add: cur_db_def)
  have "serves A L j key s1 (serve_or_undo r key (c_bpop_target (clients s ! r)) j val w s1)"
    by (rule serve_ok [OF handledD(1,2) [OF h1] c1 k1 marked_for_handled [OF h1 m]])
  then obtain s2 l' where s2: "serve_or_undo r key (c_bpop_target (clients s ! r)) j val w s1 = Some s2"
      "handled A L {(j, key)} s1 s2" "sees j key (Some (ListObj l')) s2" "\<forall>k. wlist s2 j k = wlist s1 j k"
    unfolding serves_def by blast
  have "deliver j key r val w s = Some s2"
    using s1(1) s2(1) by (simp add: deliver_def serve_or_undo_def)
  then show thesis
    using that [of s2 l'] handled_trans [OF h1 s2(2)] s2(3,4) s1(4,6) j handledD(5) [OF s2(2)] by simp
qed

section \<open>Serving a key\<close>

lemma serve_clients_ok:
  assumes "srv_ok s" and "ready_in A L s" and "sees j key (Some (ListObj l)) s" and "marked_for A s j key"
    and "length (wlist s j key) = n"
  shows "\<exists>s' l'. serve_clients n j key s = Some s' \<and> handled A L {(j, key)} s s' \<and>
    sees j key (Some (ListObj l')) s' \<and> (wlist s' j key = [] \<or> list_elems l' = []) \<and>
    (ready_keys s' = ready_keys s \<or> nblocked s' < nblocked s)"
  using assms
proof (induction n arbitrary: s l)
  case 0
  then show ?case using handled_refl by auto
next
  case (Suc n)
  have j: "j < length (dbs s)" using Suc.prems(3) by (simp add: sees_def)
  obtain r cs where w: "wlist s j key = r # cs" using Suc.prems(5) by (cases "wlist s j key") auto
  have bl: "fmlookup (db_blocking (dbs s ! j)) key = Some (r # cs)"
    using w by (auto simp: wlist_def split: option.splits)
  have dk: "fmlookup (db_dict (dbs s ! j)) key = Some (ListObj l)" using Suc.prems(3) by (simp add: sees_def)
  let ?w = "wait_end (clients s ! r)"
  show ?case
  proof (cases "list_elems l = []")
    case True
    then have "serve_clients (Suc n) j key s = Some s" using bl dk by (simp add: listTypePop_def Let_def)
    then show ?thesis using Suc.prems(1-3) True handled_refl by auto
  next
    case False
    then obtain val l1 where p: "listTypePop l ?w = (Some val, l1)"
      by (cases "?w = REDIS_HEAD") (auto simp: listTypePop_def Let_def)
    define s1 where "s1 = storeObject j key (ListObj l1) s"
    note st = store_handled [OF Suc.prems(1-4) s1_def]
    have r1: "r \<in> set (wlist s1 j key)" by (simp add: st(5) w)
    obtain s2 l2 where s2: "deliver j key r val ?w s1 = Some s2" "handled A L {(j, key)} s1 s2"
        "sees j key (Some (ListObj l2)) s2" "wlist s2 j key = remove1 r (wlist s1 j key)" "nblocked s2 < nblocked s1"
      by (rule deliver_ok [OF handledD(1,2) [OF st(1)] st(2) marked_for_handled [OF st(1) Suc.prems(4)] r1])
    have h2: "handled A L {(j, key)} s s2" by (rule handled_trans [OF st(1) s2(2)])
    have "length (wlist s2 j key) = n" using Suc.prems(5) by (simp add: s2(4) st(5) w)
    then obtain s3 l3 where s3: "serve_clients n j key s2 = Some s3" "handled A L {(j, key)} s2 s3"
        "sees j key (Some (ListObj l3)) s3" "wlist s3 j key = [] \<or> list_elems l3 = []"
      using Suc.IH [OF handledD(1,2) [OF h2] s2(3) marked_for_handled [OF h2 Suc.prems(4)]] by blast
    have "nblocked s3 < nblocked s"
      using handledD(5) [OF st(1)] handledD(5) [OF s3(2)] s2(5) by linarith
    moreover have "serve_clients (Suc n) j key s = Some s3"
      using bl dk p s2(1) s3(1) by (simp add: s1_def)
    ultimately show ?thesis using handled_trans [OF h2 s3(2)] s3(3,4) by blast
  qed
qed

lemma drop_empty_ok:
  assumes ok: "srv_ok s" and rd: "ready_in A L s" and k: "sees j key (Some (ListObj l)) s" and m: "marked_for A s j key"
    and w: "wlist s j key = [] \<or> list_elems l = []"
  obtains s' where "drop_empty j key s = Some s'" and "handled A L {(j, key)} s s'" and "ready_keys s' = ready_keys s"
    and "\<not> hollow_at s' j key" and "\<not> lost s' j key"
proof (cases "list_elems l = []")
  case True
  define s1 where "s1 = snd (dbDelete j key s)"
  have j: "j < length (dbs s)" and dk: "fmlookup (db_dict (dbs s ! j)) key = Some (ListObj l)" using k by (simp_all add: sees_def)
  have u: "upd j {key} s s1" unfolding s1_def by (rule upd_dbDelete [OF upd_refl [OF ok] j])
  have "list_at s1 i k \<Longrightarrow> list_at s i k" for i k
    by (auto simp: s1_def list_at_def dbDelete_def dbs_upd_any frame_simps split: if_splits)
  then have "handled A L {(j, key)} s s1" by (intro upd_handled [OF u rd]) (use m in auto)
  moreover have "drop_empty j key s = Some s1" using dk True by (simp add: drop_empty_def listTypeLength_def s1_def)
  moreover have "fmlookup (db_dict (dbs s1 ! j)) key = None" using j by (simp add: s1_def dbDelete_def dbs_upd_db)
  moreover have "ready_keys s1 = ready_keys s" by (simp add: s1_def dbDelete_def frame_simps)
  ultimately show thesis using that by (simp add: hollow_at_def lost_def list_at_def)
next
  case False
  have "drop_empty j key s = Some s" using k False by (simp add: drop_empty_def listTypeLength_def sees_def)
  moreover have "\<not> hollow_at s j key" using k False by (simp add: sees_hollow(1) [OF k])
  moreover have "\<not> lost s j key" using w False by (simp add: lost_def)
  ultimately show thesis using that handled_refl [OF ok rd] by blast
qed

lemma handle_key_ok:
  assumes full: "srv_full s" and rd: "ready_in A (insert (j, key) L) s" and n: "(j, key) \<notin> L"
  obtains s' where "handle_key j key s = Some s'" and "handled A L {} s s'"
    and "ready_keys s' = ready_keys s \<or> nblocked s' < nblocked s"
proof -
  have ok: "srv_ok s" and j: "j < length (dbs s)" using srv_full_ok [OF full] rd by (simp_all add: ready_in_def)
  define s1 where "s1 = upd_db j (\<lambda>d. d\<lparr>db_ready := db_ready d |-| {|key|}\<rparr>) s"
  note h1 = unready_handled [OF ok rd n, folded s1_def]
  obtain s2 where s2: "lookupKeyWrite j key s1 = Some (visible s1 j key, s2)" "handled A L {(j, key)} s1 s2"
      "sees j key (visible s1 j key) s2" "\<forall>k' v. sees j k' v s1 \<longrightarrow> sees j k' v s2"
      "ready_keys s2 = ready_keys s1" "clients s2 = clients s1"
      "\<forall>i k'. i < length (dbs s1) \<longrightarrow> wlist s2 i k' = wlist s1 i k'"
    by (rule lookup_handled [of s1 j A L key "{(j, key)}"]) (use handledD(1-3) [OF h1(1)] j in auto)
  have h2: "handled A L {(j, key)} s s2" by (rule handled_trans [OF h1(1) s2(2)])
  note m2 = marked_for_handled [OF s2(2) h1(2)]
  have rk2: "ready_keys s2 = ready_keys s" using s2(5) h1(3) by simp
  show thesis
  proof (cases "\<exists>l. visible s1 j key = Some (ListObj l)")
    case True
    then obtain l where l: "visible s1 j key = Some (ListObj l)" by blast
    have k2: "sees j key (Some (ListObj l)) s2" using s2(3) l by simp
    obtain s3 l3 where s3: "serve_clients (length (wlist s2 j key)) j key s2 = Some s3" "handled A L {(j, key)} s2 s3"
        "sees j key (Some (ListObj l3)) s3" "wlist s3 j key = [] \<or> list_elems l3 = []"
        "ready_keys s3 = ready_keys s2 \<or> nblocked s3 < nblocked s2"
      using serve_clients_ok [OF handledD(1,2) [OF h2] k2 m2 refl] by blast
    have h3: "handled A L {(j, key)} s s3" by (rule handled_trans [OF h2 s3(2)])
    obtain s4 where s4: "drop_empty j key s3 = Some s4" "handled A L {(j, key)} s3 s4" "ready_keys s4 = ready_keys s3"
        "\<not> hollow_at s4 j key" "\<not> lost s4 j key"
      by (rule drop_empty_ok [OF handledD(1,2) [OF h3] s3(3) marked_for_handled [OF s3(2) m2] s3(4)])
    have "handled A L {} s s4" by (rule handled_close [OF handled_trans [OF h3 s4(2)] s4(4,5)])
    moreover have "(case fmlookup (db_blocking (dbs s2 ! j)) key of
        None \<Rightarrow> Some s2 | Some cs \<Rightarrow> serve_clients (length cs) j key s2) = Some s3"
      using s3(1) by (cases "fmlookup (db_blocking (dbs s2 ! j)) key") (simp_all add: wlist_def)
    then have "handle_key j key s = Some s4" using s2(1) l s4(1) by (simp add: handle_key_def s1_def)
    moreover have "ready_keys s4 = ready_keys s \<or> nblocked s4 < nblocked s"
      using s3(5) s4(3) rk2 handledD(5) [OF h2] handledD(5) [OF s4(2)] by auto
    ultimately show thesis using that by blast
  next
    case False
    have "\<not> lost s2 j key" using False s2(3) by (auto simp: lost_def list_at_def sees_def)
    moreover have "\<not> hollow_at s2 j key"
    proof -
      have "hollow_at s1 j key = hollow_at s j key" using j by (simp add: hollow_at_def s1_def dbs_upd_db frame_simps)
      moreover have "fmlookup (db_dict (dbs s1 ! j)) key = Some v" if "visible s1 j key = Some v" for v
        using that by (auto simp: visible_def db_visible_def split: option.splits if_splits)
      ultimately show ?thesis using full s2(3) h1(1) handledD(3) j by (auto simp: srv_full_def hollow_at_def sees_def)
    qed
    ultimately have "handled A L {} s s2" using handled_close [OF h2] by blast
    moreover have "handle_key j key s = Some s2"
      using s2(1) False by (simp add: handle_key_def s1_def split: option.split robj.split)
    ultimately show thesis using that rk2 by blast
  qed
qed

lemma handled_full: "handled A L {} s s' \<Longrightarrow> srv_full s \<Longrightarrow> srv_full s'"
  by (simp add: handled_def srv_full_def)

lemma handle_keys_ok:
  assumes "srv_full s" and "ready_in A (set ks) s" and "distinct ks"
  shows "\<exists>s'. handle_keys ks s = Some s' \<and> handled A {} {} s s' \<and>
    (ready_keys s' = ready_keys s \<or> nblocked s' < nblocked s)"
  using assms
proof (induction ks arbitrary: s)
  case Nil
  then show ?case using handled_refl srv_full_ok by auto
next
  case (Cons jk ks)
  obtain j key where jk: "jk = (j, key)" by (cases jk)
  obtain s1 where s1: "handle_key j key s = Some s1" "handled A (set ks) {} s s1"
      "ready_keys s1 = ready_keys s \<or> nblocked s1 < nblocked s"
    by (rule handle_key_ok [of s A j key "set ks"]) (use Cons.prems jk in auto)
  obtain s2 where s2: "handle_keys ks s1 = Some s2" "handled A {} {} s1 s2"
      "ready_keys s2 = ready_keys s1 \<or> nblocked s2 < nblocked s1"
    using Cons.IH [OF handled_full [OF s1(2) Cons.prems(1)] handledD(2) [OF s1(2)]] Cons.prems(3) by auto
  have "ready_keys s2 = ready_keys s \<or> nblocked s2 < nblocked s"
    using s1(3) s2(3) handledD(5) [OF s1(2)] handledD(5) [OF s2(2)] by auto
  then show ?case using s1(1) s2(1) handled_trans [OF s1(2) s2(2)] by (auto simp: jk)
qed

text \<open>Every round of the outer loop but the last serves a client.\<close>

lemma take_ready:
  assumes "srv_full s" and rd: "ready_in A {} s"
  defines "s' \<equiv> s\<lparr>ready_keys := []\<rparr>"
  shows "handled A (set (ready_keys s)) {} s s'" and "srv_full s'" and "ready_keys s' = []"
proof -
  have v: "visible s' j k = visible s j k" for j k by (rule same_dbs_visible) (simp_all add: s'_def)
  have sh: "same_shape s s'" by (simp add: same_shape_def s'_def)
  have h: "hollow_at s' j k = hollow_at s j k" "lost s' j k = lost s j k" for j k
    by (simp_all add: s'_def hollow_at_def lost_def list_at_def wlist_def)
  have ok: "srv_ok s'"
    using srv_full_ok [OF assms(1)] watch_ok_cong [OF _ same_shape_parts(1) [OF sh]] blocking_ok_cong [OF _ same_shape_parts(2) [OF sh]]
    by (simp add: srv_ok_def expires_ok_def objects_ok_def clients_ok_def) (simp add: s'_def)
  moreover have "ready_in A (set (ready_keys s)) s'"
    using rd by (simp add: ready_in_def s'_def marked_for_def watches_def)
  ultimately show "handled A (set (ready_keys s)) {} s s'"
    using same_shape_nblocked [OF sh] by (simp add: handled_def h kept_def v) (simp add: s'_def same_size_def)
  show "srv_full s'" using assms(1) ok by (simp add: srv_full_def h)
  show "ready_keys s' = []" by (simp add: s'_def)
qed

lemma handleClientsBlockedOnLists_ok:
  assumes "srv_full s" and "ready_in A {} s"
  shows "\<exists>s'. handleClientsBlockedOnLists s = Some s' \<and> handled A {} {} s s' \<and> ready_keys s' = []"
  using assms
proof (induction "nblocked s" arbitrary: s rule: less_induct)
  case less
  show ?case
  proof (cases "ready_keys s = []")
    case True
    then have "handleClientsBlockedOnLists s = Some s" by (subst handleClientsBlockedOnLists.simps) simp
    then show ?thesis using True less.prems handled_refl srv_full_ok by blast
  next
    case False
    define s1 where "s1 = s\<lparr>ready_keys := []\<rparr>"
    note t = take_ready [OF less.prems, folded s1_def]
    have "distinct (ready_keys s)" using less.prems(2) by (simp add: ready_in_def)
    then obtain s2 where s2: "handle_keys (ready_keys s) s1 = Some s2" "handled A {} {} s1 s2"
        "ready_keys s2 = ready_keys s1 \<or> nblocked s2 < nblocked s1"
      using handle_keys_ok [OF t(2) handledD(2) [OF t(1)]] by blast
    have h2: "handled A {} {} s s2" by (rule handled_trans [OF t(1) s2(2)])
    have e: "handleClientsBlockedOnLists s = handleClientsBlockedOnLists s2"
      using False s2(1) by (subst handleClientsBlockedOnLists.simps) (simp add: s1_def)
    show ?thesis
    proof (cases "ready_keys s2 = []")
      case True
      have "handleClientsBlockedOnLists s2 = Some s2" using True by (subst handleClientsBlockedOnLists.simps) simp
      then show ?thesis using True e h2 by simp
    next
      case False
      then have "nblocked s2 < nblocked s" using s2(3) t(3) handledD(5) [OF t(1)] by simp
      then obtain s3 where "handleClientsBlockedOnLists s2 = Some s3" "handled A {} {} s2 s3" "ready_keys s3 = []"
        using less.hyps handled_full [OF h2 less.prems(1)] handledD(2) [OF h2] by blast
      then show ?thesis using e handled_trans [OF h2] by auto
    qed
  qed
qed

section \<open>After a command\<close>

lemma ready_in_all: "ready_in {} {} s \<longleftrightarrow> ready_ok s"
  by (auto simp: ready_in_def ready_ok_def marked_for_def)

text \<open>The command of client \<open>c\<close> has marked the watchers of the keys it has made ready.\<close>

lemma ready_marked:
  assumes st: "step_ok c s s1" and r: "ready_ok s" and e: "ready_keys s = []"
  shows "ready_in (- {c}) {} s1"
proof -
  have len: "length (dbs s1) = length (dbs s)" "length (clients s1) = length (clients s)" and r1: "ready_ok s1"
    using st r by (simp_all add: step_ok_def same_size_def)
  have "marked_for (- {c}) s1 j k" if jk: "(j, k) \<in> set (ready_keys s1)" for j k
    unfolding marked_for_def len
  proof (intro allI impI)
    fix a
    assume a: "a < length (clients s)" "a \<in> - {c}" "watches s1 a j k"
    have k: "kept a s s1" using st a by (simp add: step_ok_def)
    then have "watches s a j k" using a(3) by (simp add: kept_def watches_def)
    moreover have "j < length (dbs s)" using r1 jk len by (auto simp: ready_ok_def)
    ultimately show "c_dirty_cas (clients s1 ! a)" using k jk e unfolding kept_def by auto
  qed
  then show ?thesis using r1 by (auto simp: ready_in_def ready_ok_def)
qed

text \<open>A command and the service of the clients it wakes are a step of its client.\<close>

lemma handle_step:
  assumes st: "step_ok c s s1" and r: "ready_ok s" and e: "ready_keys s = []"
  obtains s2 where "handleClientsBlockedOnLists s1 = Some s2" and "step_ok c s s2" and "ready_keys s2 = []"
    and "\<forall>a < length (clients s). c_commands (clients s2 ! a) = c_commands (clients s1 ! a)"
proof -
  obtain s2 where s2: "handleClientsBlockedOnLists s1 = Some s2" "handled (- {c}) {} {} s1 s2" "ready_keys s2 = []"
    using handleClientsBlockedOnLists_ok [OF step_ok_full [OF st] ready_marked [OF assms]] by blast
  have "ready_ok s2" using handledD(2) [OF s2(2)] by (auto simp: ready_in_def ready_ok_def)
  then have "step_ok c s1 s2"
    using s2(2) handled_full [OF s2(2) step_ok_full [OF st]] by (simp add: step_ok_def handled_def)
  then show thesis using that s2 step_ok_trans [OF st] step_ok_len [OF st] by (simp add: handled_def)
qed

end
