(* ===== verification/Multi.thy ===== *)
theory Multi
  imports T_list_serving
begin

text \<open>
  Transactions (multi.c) and the dispatch of a request (redis.c \<open>call\<close>, \<open>processCommand\<close>).

  A command table is a list of rows, as in redis.c; this theory is parametric in the table. The
  locale \<open>command_table\<close> states what the transactions need of the commands: those that touch
  data are safe in the sense of Db_Safety. Its theorems say what a client can rely on while other
  clients run commands (\<open>kept\<close>). MONITOR, the slow log and the statistics of commands are left
  out.
\<close>

section \<open>The command table\<close>

text \<open>A row: name, handler, arity, flags. A negative arity is a minimum.\<close>

record redisCommand =
  cmd_name :: string
  cmd_proc :: "nat \<Rightarrow> redisServer \<Rightarrow> redisServer option"
  cmd_arity :: int
  cmd_sflags :: string

definition cmd_row :: "string \<Rightarrow> (nat \<Rightarrow> redisServer \<Rightarrow> redisServer option) \<Rightarrow> int \<Rightarrow> string \<Rightarrow> redisCommand" where
  "cmd_row n p a f = \<lparr>cmd_name = n, cmd_proc = p, cmd_arity = a, cmd_sflags = f\<rparr>"

text \<open>\<open>populateCommandTable\<close> turns the letters into flags.\<close>

definition REDIS_CMD_WRITE :: "redisCommand \<Rightarrow> bool" where
  "REDIS_CMD_WRITE row \<longleftrightarrow> CHR ''w'' \<in> set (cmd_sflags row)"
definition REDIS_CMD_READONLY :: "redisCommand \<Rightarrow> bool" where
  "REDIS_CMD_READONLY row \<longleftrightarrow> CHR ''r'' \<in> set (cmd_sflags row)"
definition REDIS_CMD_LOADING :: "redisCommand \<Rightarrow> bool" where
  "REDIS_CMD_LOADING row \<longleftrightarrow> CHR ''l'' \<in> set (cmd_sflags row)"
definition REDIS_CMD_STALE :: "redisCommand \<Rightarrow> bool" where
  "REDIS_CMD_STALE row \<longleftrightarrow> CHR ''t'' \<in> set (cmd_sflags row)"

text \<open>The row of the command a client has looked up, and the lookup of a request, which ignores case.\<close>

definition row_of :: "redisCommand list \<Rightarrow> string \<Rightarrow> redisCommand option" where
  "row_of rows n = List.find (\<lambda>r. cmd_name r = n) rows"

definition lookupCommand :: "redisCommand list \<Rightarrow> bytes \<Rightarrow> redisCommand option" where
  "lookupCommand rows name = List.find (\<lambda>r. strcasecmp_eq name (ascii (cmd_name r))) rows"

section \<open>Watched keys\<close>

definition watchForKey :: "nat \<Rightarrow> bytes \<Rightarrow> redisServer \<Rightarrow> redisServer" where
  "watchForKey c key s =
     (let i = cur_db s c
      in if (key, i) \<in> set (c_watched (clients s ! c)) then s
         else let cs = (case fmlookup (db_watched (dbs s ! i)) key of None \<Rightarrow> [] | Some cs \<Rightarrow> cs);
                  s = upd_db i (\<lambda>d. d\<lparr>db_watched := fmupd key (cs @ [c]) (db_watched d)\<rparr>) s
              in upd_client c (\<lambda>cl. cl\<lparr>c_watched := c_watched cl @ [(key, i)]\<rparr>) s)"

text \<open>The loop over the keys a client watches; a missing list of clients fails the assertion.\<close>

fun unwatch_loop :: "nat \<Rightarrow> (bytes \<times> nat) list \<Rightarrow> redisServer \<Rightarrow> redisServer option" where
  "unwatch_loop c [] s = Some s"
| "unwatch_loop c ((key, i) # ws) s =
     (case fmlookup (db_watched (dbs s ! i)) key of
        None \<Rightarrow> None
      | Some cs \<Rightarrow>
        if c \<notin> set cs then None
        else let s = upd_db i (\<lambda>d. d\<lparr>db_watched :=
                       (if remove1 c cs = [] then fmdrop key (db_watched d)
                        else fmupd key (remove1 c cs) (db_watched d))\<rparr>) s;
                 s = upd_client c (\<lambda>cl. cl\<lparr>c_watched := tl (c_watched cl)\<rparr>) s
             in unwatch_loop c ws s)"

definition unwatchAllKeys :: "nat \<Rightarrow> redisServer \<Rightarrow> redisServer option" where
  "unwatchAllKeys c s = unwatch_loop c (c_watched (clients s ! c)) s"

section \<open>The state of a transaction\<close>

definition initClientMultiState :: "nat \<Rightarrow> redisServer \<Rightarrow> redisServer" where
  "initClientMultiState c = upd_client c (\<lambda>cl. cl\<lparr>c_commands := []\<rparr>)"

definition queueMultiCommand :: "nat \<Rightarrow> redisServer \<Rightarrow> redisServer" where
  "queueMultiCommand c = upd_client c (\<lambda>cl. cl\<lparr>c_commands := c_commands cl @ [(c_cmd cl, c_argv cl)]\<rparr>)"

definition discardTransaction :: "nat \<Rightarrow> redisServer \<Rightarrow> redisServer option" where
  "discardTransaction c s =
     (let s = initClientMultiState c s;
          s = upd_client c (\<lambda>cl. cl\<lparr>c_multi := False, c_dirty_cas := False, c_dirty_exec := False\<rparr>) s
      in unwatchAllKeys c s)"

definition flagTransaction :: "nat \<Rightarrow> redisServer \<Rightarrow> redisServer" where
  "flagTransaction c = upd_client c (\<lambda>cl. if c_multi cl then cl\<lparr>c_dirty_exec := True\<rparr> else cl)"

section \<open>Commands\<close>

definition multiCommand :: "nat \<Rightarrow> redisServer \<Rightarrow> redisServer option" where
  "multiCommand c s =
     (if c_multi (clients s ! c) then Some (addReply c (Error ''ERR MULTI calls can not be nested'') s)
      else Some (addReply c ok_reply (upd_client c (\<lambda>cl. cl\<lparr>c_multi := True\<rparr>) s)))"

definition discardCommand :: "nat \<Rightarrow> redisServer \<Rightarrow> redisServer option" where
  "discardCommand c s =
     (if \<not> c_multi (clients s ! c) then Some (addReply c (Error ''ERR DISCARD without MULTI'') s)
      else do { s \<leftarrow> discardTransaction c s; Some (addReply c ok_reply s) })"

definition watchCommand :: "nat \<Rightarrow> redisServer \<Rightarrow> redisServer option" where
  "watchCommand c s =
     (if c_multi (clients s ! c) then Some (addReply c (Error ''ERR WATCH inside MULTI is not allowed'') s)
      else Some (addReply c ok_reply (fold (watchForKey c) (tl (c_argv (clients s ! c))) s)))"

definition unwatchCommand :: "nat \<Rightarrow> redisServer \<Rightarrow> redisServer option" where
  "unwatchCommand c s = do {
     s \<leftarrow> unwatchAllKeys c s;
     let s = upd_client c (\<lambda>cl. cl\<lparr>c_dirty_cas := False\<rparr>) s;
     Some (addReply c ok_reply s) }"

definition execCommandPropagateMulti :: "nat \<Rightarrow> redisServer \<Rightarrow> redisServer" where
  "execCommandPropagateMulti c s = propagate (cur_db s c) [ascii ''MULTI''] s"

text \<open>A command that has changed the data is propagated, with the arguments it has left.\<close>

definition call :: "redisCommand list \<Rightarrow> nat \<Rightarrow> redisServer \<Rightarrow> redisServer option" where
  "call rows c s = do {
     let before = dirty s;
     row \<leftarrow> row_of rows (c_cmd (clients s ! c));
     s \<leftarrow> cmd_proc row c s;
     Some (if dirty s \<noteq> before then propagate (cur_db s c) (c_argv (clients s ! c)) s else s) }"

text \<open>The loop over the queue; the flag is \<open>must_propagate\<close>. What the commands leave in their
  arguments is dropped with the queue.\<close>

fun exec_loop ::
  "redisCommand list \<Rightarrow> nat \<Rightarrow> (string \<times> bytes list) list \<Rightarrow> bool \<Rightarrow> redisServer \<Rightarrow> (bool \<times> redisServer) option" where
  "exec_loop rows c [] must s = Some (must, s)"
| "exec_loop rows c ((x, av) # q) must s = do {
     let s = upd_client c (\<lambda>cl. cl\<lparr>c_argv := av, c_cmd := x\<rparr>) s;
     row \<leftarrow> row_of rows x;
     let first = (\<not> must \<and> \<not> REDIS_CMD_READONLY row);
     let s = (if first then execCommandPropagateMulti c s else s);
     s \<leftarrow> call rows c s;
     exec_loop rows c q (must \<or> first) s }"

definition execaborterr :: reply where
  "execaborterr = Error ''EXECABORT Transaction discarded because of previous errors.''"

text \<open>The rest of EXEC when the transaction is not refused.\<close>

definition exec_queue :: "redisCommand list \<Rightarrow> nat \<Rightarrow> redisServer \<Rightarrow> redisServer option" where
  "exec_queue rows c s = do {
     let cl = clients s ! c;
     s \<leftarrow> unwatchAllKeys c s;
     let s = addReply c (MultiBulkLen (int (length (c_commands (clients s ! c))))) s;
     (must_propagate, s) \<leftarrow> exec_loop rows c (c_commands (clients s ! c)) False s;
     let s = upd_client c (\<lambda>cl'. cl'\<lparr>c_argv := c_argv cl, c_cmd := c_cmd cl\<rparr>) s;
     s \<leftarrow> discardTransaction c s;
     Some (if must_propagate then add_dirty 1 s else s) }"

definition execCommand :: "redisCommand list \<Rightarrow> nat \<Rightarrow> redisServer \<Rightarrow> redisServer option" where
  "execCommand rows c s =
     (let cl = clients s ! c
      in if \<not> c_multi cl then Some (addReply c (Error ''ERR EXEC without MULTI'') s)
         else if c_dirty_cas cl \<or> c_dirty_exec cl then
           discardTransaction c (addReply c (if c_dirty_exec cl then execaborterr else NullMultiBulk) s)
         else exec_queue rows c s)"

section \<open>Requests\<close>

text \<open>What \<open>processCommand\<close> asks of the configuration, the replication and the connection. The memory
  limit is off.\<close>

record conditions =
  requirepass :: bool
  authenticated :: bool
  stop_writes_on_bgsave_err :: bool
  saveparamslen :: nat
  lastbgsave_err :: bool
  repl_min_slaves_to_write :: nat
  repl_min_slaves_max_lag :: nat
  repl_good_slaves_count :: nat
  repl_slave_ro :: bool
  client_is_master :: bool
  subscriptions :: nat
  repl_connected :: bool
  repl_serve_stale_data :: bool
  lua_timedout :: bool

text \<open>The checks before a known command runs, in order: the error reply and whether an open transaction
  is flagged.\<close>

definition command_refused ::
  "conditions \<Rightarrow> redisCommand \<Rightarrow> bytes list \<Rightarrow> redisServer \<Rightarrow> (string \<times> bool) option" where
  "command_refused cd row av s =
     (let n = cmd_name row
      in if requirepass cd \<and> \<not> authenticated cd \<and> n \<noteq> ''auth''
         then Some (''NOAUTH Authentication required.'', True)
         else if stop_writes_on_bgsave_err cd \<and> saveparamslen cd > 0 \<and> lastbgsave_err cd \<and> masterhost s \<and>
           (REDIS_CMD_WRITE row \<or> n = ''ping'')
         then Some (''MISCONF Redis is configured to save RDB snapshots, but is currently not able to persist on disk. Commands that may modify the data set are disabled. Please check Redis logs for details about the error.'', True)
         else if repl_min_slaves_to_write cd \<noteq> 0 \<and> repl_min_slaves_max_lag cd \<noteq> 0 \<and> REDIS_CMD_WRITE row \<and>
           repl_good_slaves_count cd < repl_min_slaves_to_write cd
         then Some (''NOREPLICAS Not enough good slaves to write.'', True)
         else if masterhost s \<and> repl_slave_ro cd \<and> \<not> client_is_master cd \<and> REDIS_CMD_WRITE row
         then Some (''READONLY You can't write against a read only slave.'', False)
         else if subscriptions cd > 0 \<and> n \<notin> {''subscribe'', ''unsubscribe'', ''psubscribe'', ''punsubscribe''}
         then Some (''ERR only (P)SUBSCRIBE / (P)UNSUBSCRIBE / QUIT allowed in this context'', False)
         else if masterhost s \<and> \<not> repl_connected cd \<and> \<not> repl_serve_stale_data cd \<and> \<not> REDIS_CMD_STALE row
         then Some (''MASTERDOWN Link with MASTER is down and slave-serve-stale-data is set to 'no'.'', True)
         else if loading s \<and> \<not> REDIS_CMD_LOADING row
         then Some (''LOADING Redis is loading the dataset in memory'', False)
         else if lua_timedout cd \<and> n \<noteq> ''auth'' \<and> n \<noteq> ''replconf'' \<and>
           \<not> (n = ''shutdown'' \<and> length av = 2 \<and> av ! 1 \<noteq> [] \<and> tolower (uint (hd (av ! 1))) = 110) \<and>
           \<not> (n = ''script'' \<and> length av = 2 \<and> av ! 1 \<noteq> [] \<and> tolower (uint (hd (av ! 1))) = 107)
         then Some (''BUSY Redis is busy running a script.'', True)
         else None)"

text \<open>\<^term>\<open>True\<close> is \<open>REDIS_OK\<close>: the client stays connected. The empty name is the null pointer.\<close>

definition processCommand :: "redisCommand list \<Rightarrow> conditions \<Rightarrow> nat \<Rightarrow> redisServer \<Rightarrow> (bool \<times> redisServer) option" where
  "processCommand rows cd c s =
     (let av = c_argv (clients s ! c)
      in if strcasecmp_eq (av ! 0) (ascii ''quit'') then Some (False, addReply c ok_reply s)
         else (case lookupCommand rows (av ! 0) of
           None \<Rightarrow>
           let s = upd_client c (\<lambda>cl. cl\<lparr>c_cmd := [], c_lastcmd := []\<rparr>) s
           in Some (True, addReply c (Error ''ERR unknown command'') (flagTransaction c s))
         | Some row \<Rightarrow>
           let s = upd_client c (\<lambda>cl. cl\<lparr>c_cmd := cmd_name row, c_lastcmd := cmd_name row\<rparr>) s
           in if \<not> arity_ok (cmd_arity row) (length av)
              then Some (True, addReply c (Error ''ERR wrong number of arguments'') (flagTransaction c s))
              else (case command_refused cd row av s of
                Some (msg, flag) \<Rightarrow>
                  Some (True, addReply c (Error msg) (if flag then flagTransaction c s else s))
              | None \<Rightarrow>
                if c_multi (clients s ! c) \<and> cmd_name row \<notin> {''exec'', ''discard'', ''multi'', ''watch''}
                then Some (True, addReply c (Status ''QUEUED'') (queueMultiCommand c s))
                else do {
                  s \<leftarrow> call rows c s;
                  s \<leftarrow> (if ready_keys s \<noteq> [] then handleClientsBlockedOnLists s else Some s);
                  Some (True, s) })))"

section \<open>Steps on watched keys\<close>

text \<open>A change of the watch lists of a database does not change what clients see.\<close>

lemma visible_watched: "visible (upd_db i (\<lambda>d. d\<lparr>db_watched := g d\<rparr>) s) j k = visible s j k"
proof (cases "i < length (dbs s)")
  case True
  then show ?thesis
    by (cases "j = i") (simp_all add: visible_def due_upd_db dbs_upd_db db_visible_def split: option.split)
qed (simp add: upd_db_def visible_def due_def [abs_def] list_update_beyond)

text \<open>Watching or unwatching one key: the client's list \<open>ws\<close> and the key's list \<open>cs\<close> change
  together.\<close>

definition set_watch :: "nat \<Rightarrow> nat \<Rightarrow> bytes \<Rightarrow> nat list \<Rightarrow> (bytes \<times> nat) list \<Rightarrow> redisServer \<Rightarrow> redisServer" where
  "set_watch c i key cs ws s =
     upd_client c (\<lambda>cl. cl\<lparr>c_watched := ws\<rparr>)
       (upd_db i (\<lambda>d. d\<lparr>db_watched := (if cs = [] then fmdrop key (db_watched d) else fmupd key cs (db_watched d))\<rparr>) s)"

lemma set_watch_frame:
  "length (dbs (set_watch c i key cs ws s)) = length (dbs s)"
  "length (clients (set_watch c i key cs ws s)) = length (clients s)"
  "a \<noteq> c \<Longrightarrow> clients (set_watch c i key cs ws s) ! a = clients s ! a"
  "c < length (clients s) \<Longrightarrow> c_watched (clients (set_watch c i key cs ws s) ! c) = ws"
  "cur_db (set_watch c i key cs ws s) a = cur_db s a"
  "visible (set_watch c i key cs ws s) j k = visible s j k"
  "mstime (set_watch c i key cs ws s) = mstime s" "loading (set_watch c i key cs ws s) = loading s"
  "masterhost (set_watch c i key cs ws s) = masterhost s" "ready_keys (set_watch c i key cs ws s) = ready_keys s"
proof -
  have "visible (set_watch c i key cs ws s) j k =
      visible (upd_db i (\<lambda>d. d\<lparr>db_watched := (if cs = [] then fmdrop key (db_watched d) else fmupd key cs (db_watched d))\<rparr>) s) j k"
    unfolding set_watch_def by (rule same_dbs_visible) (simp_all add: frame_simps)
  then show "visible (set_watch c i key cs ws s) j k = visible s j k" by (simp only: visible_watched)
  show "cur_db (set_watch c i key cs ws s) a = cur_db s a"
    using client_field_upd [of c_db "\<lambda>cl. cl\<lparr>c_watched := ws\<rparr>" c] by (simp add: set_watch_def cur_db_def frame_simps)
qed (simp_all add: set_watch_def frame_simps, simp_all add: upd_client_def frame_simps)

lemma set_watch_db:
  assumes "i < length (dbs s)" and "j < length (dbs s)"
  shows "fmlookup (db_watched (dbs (set_watch c i key cs ws s) ! j)) k =
    (if j = i \<and> k = key then (if cs = [] then None else Some cs) else fmlookup (db_watched (dbs s ! j)) k)"
    "db_dict (dbs (set_watch c i key cs ws s) ! j) = db_dict (dbs s ! j)"
    "db_expires (dbs (set_watch c i key cs ws s) ! j) = db_expires (dbs s ! j)"
    "db_blocking (dbs (set_watch c i key cs ws s) ! j) = db_blocking (dbs s ! j)"
    "db_ready (dbs (set_watch c i key cs ws s) ! j) = db_ready (dbs s ! j)"
  using assms by (auto simp: set_watch_def frame_simps dbs_upd_db)

lemma set_watch_own:
  "c_blocked (clients (set_watch c i key cs ws s) ! a) = c_blocked (clients s ! a)"
  "c_bpop_keys (clients (set_watch c i key cs ws s) ! a) = c_bpop_keys (clients s ! a)"
  "c_db (clients (set_watch c i key cs ws s) ! a) = c_db (clients s ! a)"
  "c_multi (clients (set_watch c i key cs ws s) ! a) = c_multi (clients s ! a)"
  "c_unblocked (clients (set_watch c i key cs ws s) ! a) = c_unblocked (clients s ! a)"
  "unblocked_clients (set_watch c i key cs ws s) = unblocked_clients s"
  using client_field_upd [of c_blocked "\<lambda>cl. cl\<lparr>c_watched := ws\<rparr>" c] client_field_upd [of c_db "\<lambda>cl. cl\<lparr>c_watched := ws\<rparr>" c]
    client_field_upd [of c_bpop_keys "\<lambda>cl. cl\<lparr>c_watched := ws\<rparr>" c] client_field_upd [of c_unblocked "\<lambda>cl. cl\<lparr>c_watched := ws\<rparr>" c]
    client_field_upd [of c_multi "\<lambda>cl. cl\<lparr>c_watched := ws\<rparr>" c]
  by (simp_all add: set_watch_def frame_simps)

text \<open>Nothing else changes.\<close>

definition only_watches :: "redisServer \<Rightarrow> redisServer \<Rightarrow> bool" where
  "only_watches s s' \<longleftrightarrow> s'\<lparr>dbs := [], clients := []\<rparr> = s\<lparr>dbs := [], clients := []\<rparr> \<and>
     map (\<lambda>d. d\<lparr>db_watched := fmempty\<rparr>) (dbs s') = map (\<lambda>d. d\<lparr>db_watched := fmempty\<rparr>) (dbs s) \<and>
     map (\<lambda>cl. cl\<lparr>c_watched := []\<rparr>) (clients s') = map (\<lambda>cl. cl\<lparr>c_watched := []\<rparr>) (clients s)"

lemma only_watches_refl [simp]: "only_watches s s"
  by (simp add: only_watches_def)

lemma only_watches_trans: "only_watches s s1 \<Longrightarrow> only_watches s1 s2 \<Longrightarrow> only_watches s s2"
  by (simp add: only_watches_def)

lemma map_update_same: "f y = f (xs ! n) \<Longrightarrow> map f (xs[n := y]) = map f xs"
  by (cases "n < length xs") (simp_all add: map_update list_update_beyond list_update_same_conv)

lemma only_watches_set_watch: "only_watches s (set_watch c i key cs ws s)"
  unfolding only_watches_def set_watch_def upd_client_def upd_db_def
  by (simp add: map_update_same)

lemma only_watchesD:
  assumes "only_watches s s'"
  shows "length (dbs s') = length (dbs s)" "length (clients s') = length (clients s)"
    "j < length (dbs s) \<Longrightarrow> db_dict (dbs s' ! j) = db_dict (dbs s ! j)"
    "j < length (dbs s) \<Longrightarrow> db_expires (dbs s' ! j) = db_expires (dbs s ! j)"
    "a < length (clients s) \<Longrightarrow> (clients s' ! a)\<lparr>c_watched := []\<rparr> = (clients s ! a)\<lparr>c_watched := []\<rparr>"
    "dirty s' = dirty s" "propagated s' = propagated s" "notifications s' = notifications s"
proof -
  let ?f = "\<lambda>d :: redisDb. d\<lparr>db_watched := fmempty\<rparr>" and ?g = "\<lambda>cl :: redisClient. cl\<lparr>c_watched := []\<rparr>"
  have d: "map ?f (dbs s') = map ?f (dbs s)" and c: "map ?g (clients s') = map ?g (clients s)"
    and r: "s'\<lparr>dbs := [], clients := []\<rparr> = s\<lparr>dbs := [], clients := []\<rparr>"
    using assms by (simp_all add: only_watches_def)
  show l: "length (dbs s') = length (dbs s)" "length (clients s') = length (clients s)"
    using d c map_eq_imp_length_eq by blast+
  have f: "?f (dbs s' ! j) = ?f (dbs s ! j)" if "j < length (dbs s)"
    using that l(1) arg_cong [OF d, of "\<lambda>xs. xs ! j"] by simp
  show "db_dict (dbs s' ! j) = db_dict (dbs s ! j)" if "j < length (dbs s)"
    using arg_cong [OF f [OF that], of db_dict] by simp
  show "db_expires (dbs s' ! j) = db_expires (dbs s ! j)" if "j < length (dbs s)"
    using arg_cong [OF f [OF that], of db_expires] by simp
  show "?g (clients s' ! a) = ?g (clients s ! a)" if "a < length (clients s)"
    using that l(2) arg_cong [OF c, of "\<lambda>xs. xs ! a"] by simp
  show "dirty s' = dirty s" using arg_cong [OF r, of dirty] by simp
  show "propagated s' = propagated s" using arg_cong [OF r, of propagated] by simp
  show "notifications s' = notifications s" using arg_cong [OF r, of notifications] by simp
qed

lemma set_watch_step:
  assumes ok: "srv_full s" and c: "c < length (clients s)" and i: "i < length (dbs s)"
    and d: "distinct ws" "\<forall>(k, j) \<in> set ws. j < length (dbs s)" "distinct cs"
    and m: "set cs = {a. a < length (clients s) \<and> (if a = c then (key, i) \<in> set ws else watches s a i key)}"
    and o: "\<And>k j. (k, j) \<noteq> (key, i) \<Longrightarrow> (k, j) \<in> set ws \<longleftrightarrow> watches s c j k"
  shows "step_ok c s (set_watch c i key cs ws s)"
proof -
  let ?s = "set_watch c i key cs ws s"
  have w: "watches ?s a j k \<longleftrightarrow> (if a = c then (k, j) \<in> set ws else watches s a j k)" for a j k
    using c set_watch_frame(3,4) by (simp add: watches_def)
  have m': "set cs = {a. a < length (clients ?s) \<and> watches ?s a i key}"
    using m w by (simp add: set_watch_frame)
  have o': "watches ?s a j k = watches s a j k" if "(k, j) \<noteq> (key, i)" for a j k
    using w o [OF that] by simp
  have "watch_ok ?s"
    unfolding watch_ok_def
  proof (intro conjI allI impI)
    fix j k
    assume "j < length (dbs ?s)"
    then have j: "j < length (dbs s)" by (simp add: set_watch_frame)
    show "case fmlookup (db_watched (dbs ?s ! j)) k of None \<Rightarrow> \<forall>a < length (clients ?s). \<not> watches ?s a j k
      | Some cs \<Rightarrow> cs \<noteq> [] \<and> distinct cs \<and> set cs = {a. a < length (clients ?s) \<and> watches ?s a j k}"
    proof (cases "(k, j) = (key, i)")
      case True
      then show ?thesis using m' d(3) set_watch_db(1) [OF i j] by auto
    next
      case False
      then have e: "fmlookup (db_watched (dbs ?s ! j)) k = fmlookup (db_watched (dbs s ! j)) k"
        using set_watch_db(1) [OF i j, of c key cs ws k] by auto
      have "case fmlookup (db_watched (dbs s ! j)) k of None \<Rightarrow> \<forall>a < length (clients s). \<not> watches s a j k
          | Some cs \<Rightarrow> cs \<noteq> [] \<and> distinct cs \<and> set cs = {a. a < length (clients s) \<and> watches s a j k}"
        using srv_full_ok [OF ok] j unfolding srv_ok_def watch_ok_def by blast
      then show ?thesis unfolding e o' [OF False] set_watch_frame(2) .
    qed
  next
    show "\<forall>cl \<in> set (clients ?s). distinct (c_watched cl) \<and>
        (\<forall>(k, j) \<in> set (c_watched cl). j < length (dbs ?s))"
    proof
    fix cl
    assume "cl \<in> set (clients ?s)"
    then obtain a where a: "a < length (clients s)" "cl = clients ?s ! a"
      by (auto simp: in_set_conv_nth set_watch_frame)
    have "distinct (c_watched cl) \<and> (\<forall>(k, j) \<in> set (c_watched cl). j < length (dbs s))"
    proof (cases "a = c")
      case True
      then show ?thesis using d a c by (simp add: set_watch_frame)
    next
      case False
      have "clients s ! a \<in> set (clients s)" using a(1) by simp
      then have "distinct (c_watched (clients s ! a)) \<and> (\<forall>(k, j) \<in> set (c_watched (clients s ! a)). j < length (dbs s))"
        using srv_full_ok [OF ok] unfolding srv_ok_def watch_ok_def by blast
      then show ?thesis unfolding a(2) set_watch_frame(3) [OF False] .
    qed
    then show "distinct (c_watched cl) \<and> (\<forall>(k, j) \<in> set (c_watched cl). j < length (dbs ?s))"
      by (simp add: set_watch_frame)
    qed
  qed
  moreover have "same_waits s ?s"
    using i c by (auto simp: same_waits_def set_watch_frame set_watch_db set_watch_own)
  then have "blocking_ok ?s" using blocking_ok_cong srv_full_ok [OF ok] by (auto simp: srv_ok_def)
  moreover have "same_data s ?s"
    using i by (simp add: same_data_def same_size_def set_watch_frame set_watch_db)
  ultimately show ?thesis
    using c by (intro list_step [OF ok]) (simp_all add: set_watch_frame set_watch_own)
qed

lemma watched_db:
  "srv_full s \<Longrightarrow> c < length (clients s) \<Longrightarrow> (k, j) \<in> set (c_watched (clients s ! c)) \<Longrightarrow> j < length (dbs s)"
  "srv_full s \<Longrightarrow> c < length (clients s) \<Longrightarrow> distinct (c_watched (clients s ! c))"
  using nth_mem [of c "clients s"] unfolding srv_full_def srv_ok_def watch_ok_def by blast+

lemma watchForKey_set_watch:
  "(key, cur_db s c) \<notin> set (c_watched (clients s ! c)) \<Longrightarrow> watchForKey c key s =
     set_watch c (cur_db s c) key
       ((case fmlookup (db_watched (dbs s ! cur_db s c)) key of None \<Rightarrow> [] | Some cs \<Rightarrow> cs) @ [c])
       (c_watched (clients s ! c) @ [(key, cur_db s c)]) s"
  by (simp add: watchForKey_def set_watch_def Let_def upd_client_def frame_simps)

lemma watch_step:
  assumes ok: "srv_full s" and c: "c < length (clients s)"
  shows "step_ok c s (watchForKey c key s)" and "watches (watchForKey c key s) c (cur_db s c) key"
    and "cur_db (watchForKey c key s) a = cur_db s a"
proof -
  define i where "i = cur_db s c"
  have i: "i < length (dbs s)" using cur_db_less [OF srv_full_ok [OF ok] c] by (simp add: i_def)
  have "step_ok c s (watchForKey c key s) \<and> watches (watchForKey c key s) c i key \<and>
      cur_db (watchForKey c key s) a = cur_db s a"
  proof (cases "(key, i) \<in> set (c_watched (clients s ! c))")
    case True
    then show ?thesis using ok by (simp add: watchForKey_def i_def step_ok_refl watches_def)
  next
    case False
    define cs where "cs = (case fmlookup (db_watched (dbs s ! i)) key of None \<Rightarrow> [] | Some cs \<Rightarrow> cs)"
    have w: "watch_ok s" using srv_full_ok [OF ok] by (simp add: srv_ok_def)
    have cs: "distinct cs" "set cs = {a. a < length (clients s) \<and> watches s a i key}"
      using watch_okD [OF w i, of key] by (cases "fmlookup (db_watched (dbs s ! i)) key"; force simp: cs_def)+
    have e: "watchForKey c key s = set_watch c i key (cs @ [c]) (c_watched (clients s ! c) @ [(key, i)]) s"
      using watchForKey_set_watch [of key s c] False by (simp add: i_def cs_def)
    have "step_ok c s (watchForKey c key s)"
      unfolding e using False cs c watched_db [OF ok c] i
      by (intro set_watch_step [OF ok c i]) (auto simp: watches_def)
    then show ?thesis unfolding e using c by (simp add: set_watch_frame watches_def)
  qed
  then show "step_ok c s (watchForKey c key s)" "watches (watchForKey c key s) c (cur_db s c) key"
    "cur_db (watchForKey c key s) a = cur_db s a" by (simp_all add: i_def)
qed

lemma unwatch_loop_step:
  assumes "srv_full s" and "c < length (clients s)" and "c_watched (clients s ! c) = ws"
  shows "\<exists>s'. unwatch_loop c ws s = Some s' \<and> step_ok c s s' \<and> only_watches s s' \<and> c_watched (clients s' ! c) = []"
  using assms
proof (induction ws arbitrary: s)
  case (Cons w ws)
  obtain key i where w: "w = (key, i)" by (cases w)
  note ok = Cons.prems(1) and c = Cons.prems(2) and cw = Cons.prems(3) [unfolded w]
  have i: "i < length (dbs s)" using watched_db(1) [OF ok c, of key i] cw by simp
  have wo: "watch_ok s" using srv_full_ok [OF ok] by (simp add: srv_ok_def)
  have "watches s c i key" using cw by (simp add: watches_def)
  then obtain cs where l: "fmlookup (db_watched (dbs s ! i)) key = Some cs"
    using watch_okD(1) [OF wo i, of key c] c by fastforce
  then have cs: "distinct cs" "set cs = {a. a < length (clients s) \<and> watches s a i key}"
    using watch_okD(2) [OF wo i l] by simp_all
  have cin: "c \<in> set cs" using cs(2) c \<open>watches s c i key\<close> by simp
  have dws: "distinct ((key, i) # ws)" using watched_db(2) [OF ok c] cw by simp
  let ?s = "set_watch c i key (remove1 c cs) ws s"
  have e: "unwatch_loop c (w # ws) s = unwatch_loop c ws ?s"
    using l cin cw by (simp add: w set_watch_def Let_def upd_client_def frame_simps)
  have st: "step_ok c s ?s"
    using dws cs c watched_db(1) [OF ok c] cw
    by (intro set_watch_step [OF ok c i]) (auto simp: watches_def)
  have "\<exists>s'. unwatch_loop c ws ?s = Some s' \<and> step_ok c ?s s' \<and> only_watches ?s s' \<and>
      c_watched (clients s' ! c) = []"
    using c by (intro Cons.IH step_ok_full [OF st]) (simp_all add: set_watch_frame)
  then show ?case unfolding e using step_ok_trans [OF st] only_watches_trans [OF only_watches_set_watch] by blast
qed (simp add: step_ok_refl)

lemma unwatchAllKeys_step:
  assumes "srv_full s" and "c < length (clients s)"
  obtains s' where "unwatchAllKeys c s = Some s'" and "step_ok c s s'" and "only_watches s s'"
    and "c_watched (clients s' ! c) = []"
  using unwatch_loop_step [OF assms refl] unfolding unwatchAllKeys_def by blast

lemma only_watches_fields:
  assumes "only_watches s s'" and "a < length (clients s)"
  shows "c_commands (clients s' ! a) = c_commands (clients s ! a)" "c_multi (clients s' ! a) = c_multi (clients s ! a)"
    "c_dirty_cas (clients s' ! a) = c_dirty_cas (clients s ! a)" "c_argv (clients s' ! a) = c_argv (clients s ! a)"
    "c_dirty_exec (clients s' ! a) = c_dirty_exec (clients s ! a)" "c_db (clients s' ! a) = c_db (clients s ! a)"
    "c_replies (clients s' ! a) = c_replies (clients s ! a)" "c_cmd (clients s' ! a) = c_cmd (clients s ! a)"
    "c_blocked (clients s' ! a) = c_blocked (clients s ! a)"
proof -
  show "c_commands (clients s' ! a) = c_commands (clients s ! a)" "c_multi (clients s' ! a) = c_multi (clients s ! a)"
    "c_dirty_cas (clients s' ! a) = c_dirty_cas (clients s ! a)" "c_argv (clients s' ! a) = c_argv (clients s ! a)"
    "c_dirty_exec (clients s' ! a) = c_dirty_exec (clients s ! a)" "c_db (clients s' ! a) = c_db (clients s ! a)"
    "c_replies (clients s' ! a) = c_replies (clients s ! a)" "c_cmd (clients s' ! a) = c_cmd (clients s ! a)"
    "c_blocked (clients s' ! a) = c_blocked (clients s ! a)"
    using arg_cong [OF only_watchesD(5) [OF assms], of c_commands] arg_cong [OF only_watchesD(5) [OF assms], of c_multi]
      arg_cong [OF only_watchesD(5) [OF assms], of c_dirty_cas] arg_cong [OF only_watchesD(5) [OF assms], of c_argv]
      arg_cong [OF only_watchesD(5) [OF assms], of c_dirty_exec] arg_cong [OF only_watchesD(5) [OF assms], of c_db]
      arg_cong [OF only_watchesD(5) [OF assms], of c_replies] arg_cong [OF only_watchesD(5) [OF assms], of c_cmd]
      arg_cong [OF only_watchesD(5) [OF assms], of c_blocked]
    by simp_all
qed

lemma only_watches_visible:
  assumes "only_watches s s'" and "j < length (dbs s)"
  shows "visible s' j k = visible s j k"
proof -
  have r: "s'\<lparr>dbs := [], clients := []\<rparr> = s\<lparr>dbs := [], clients := []\<rparr>" using assms(1) by (simp add: only_watches_def)
  have d: "due s' = due s"
    using arg_cong [OF r, of mstime] arg_cong [OF r, of loading] arg_cong [OF r, of masterhost]
    by (simp add: due_def [abs_def])
  show ?thesis unfolding visible_def db_visible_def only_watchesD(3,4) [OF assms] d ..
qed

section \<open>Ending a transaction\<close>

lemma discardTransaction_ok:
  assumes "srv_full s" and "c < length (clients s)"
  obtains s' where "discardTransaction c s = Some s'" and "step_ok c s s'"
    and "c_commands (clients s' ! c) = []" and "\<not> c_multi (clients s' ! c)" and "c_watched (clients s' ! c) = []"
    and "c_replies (clients s' ! c) = c_replies (clients s ! c)"
    and "\<forall>j k. j < length (dbs s) \<longrightarrow> visible s' j k = visible s j k" and "dirty s' = dirty s" and "propagated s' = propagated s"
proof -
  define s1 where "s1 = upd_client c (\<lambda>cl. cl\<lparr>c_multi := False, c_dirty_cas := False, c_dirty_exec := False\<rparr>)
    (initClientMultiState c s)"
  have s1': "s1 = upd_client c (\<lambda>cl. cl\<lparr>c_commands := [], c_multi := False, c_dirty_cas := False, c_dirty_exec := False\<rparr>) s"
    using assms(2) by (simp add: s1_def initClientMultiState_def upd_client_def)
  have st1: "step_ok c s s1" unfolding s1' by (rule own_step [OF assms(1)]) simp_all
  have c1: "c < length (clients s1)" using assms(2) by (simp add: s1' frame_simps)
  obtain s2 where s2: "unwatchAllKeys c s1 = Some s2" "step_ok c s1 s2" "only_watches s1 s2" "c_watched (clients s2 ! c) = []"
    by (rule unwatchAllKeys_step [OF step_ok_full [OF st1] c1])
  note f = only_watches_fields [OF s2(3) c1] only_watchesD [OF s2(3)]
  show thesis
  proof (rule that)
    show "discardTransaction c s = Some s2" using s2(1) by (simp add: discardTransaction_def s1_def Let_def)
    show "step_ok c s s2" by (rule step_ok_trans [OF st1 s2(2)])
    have "visible s2 j k = visible s j k" if "j < length (dbs s)" for j k
    proof -
      have "visible s1 j k = visible s j k" by (rule same_dbs_visible) (simp_all add: s1' frame_simps)
      then show ?thesis using only_watches_visible [OF s2(3)] that by (simp add: s1' frame_simps)
    qed
    then show "\<forall>j k. j < length (dbs s) \<longrightarrow> visible s2 j k = visible s j k" by blast
  qed (use f s2(4) assms(2) in \<open>simp_all add: s1' clients_upd_client frame_simps\<close>)
qed

lemma reply_fields [simp]:
  "c_commands (clients (addReply c r s) ! a) = c_commands (clients s ! a)"
  "c_multi (clients (addReply c r s) ! a) = c_multi (clients s ! a)"
  "c_watched (clients (addReply c r s) ! a) = c_watched (clients s ! a)"
  "c_cmd (clients (addReply c r s) ! a) = c_cmd (clients s ! a)"
  "c_dirty_cas (clients (addReply c r s) ! a) = c_dirty_cas (clients s ! a)"
  "c_dirty_exec (clients (addReply c r s) ! a) = c_dirty_exec (clients s ! a)"
  "c_blocked (clients (addReply c r s) ! a) = c_blocked (clients s ! a)"
  "length (clients (addReply c r s)) = length (clients s)" "length (dbs (addReply c r s)) = length (dbs s)"
  "dirty (addReply c r s) = dirty s" "visible (addReply c r s) i k = visible s i k"
proof -
  let ?f = "\<lambda>cl. cl\<lparr>c_replies := c_replies cl @ [r]\<rparr>"
  show "c_commands (clients (addReply c r s) ! a) = c_commands (clients s ! a)"
    "c_multi (clients (addReply c r s) ! a) = c_multi (clients s ! a)"
    "c_watched (clients (addReply c r s) ! a) = c_watched (clients s ! a)"
    "c_cmd (clients (addReply c r s) ! a) = c_cmd (clients s ! a)"
    "c_dirty_cas (clients (addReply c r s) ! a) = c_dirty_cas (clients s ! a)"
    "c_dirty_exec (clients (addReply c r s) ! a) = c_dirty_exec (clients s ! a)"
    "c_blocked (clients (addReply c r s) ! a) = c_blocked (clients s ! a)"
    using client_field_upd [of c_commands ?f c s a] client_field_upd [of c_multi ?f c s a]
      client_field_upd [of c_watched ?f c s a] client_field_upd [of c_cmd ?f c s a]
      client_field_upd [of c_dirty_cas ?f c s a] client_field_upd [of c_dirty_exec ?f c s a]
      client_field_upd [of c_blocked ?f c s a]
    by (simp_all add: addReply_def)
  show "visible (addReply c r s) i k = visible s i k"
    by (rule same_dbs_visible) (simp_all add: addReply_def frame_simps)
qed (simp_all add: addReply_def frame_simps)

lemma unwatch_step: "step_for n unwatchCommand"
  unfolding step_for_def
proof (intro allI impI)
  fix s c
  assume a: "srv_full s" "c < length (clients s)" "\<not> c_blocked (clients s ! c)"
  obtain s1 where s1: "unwatchAllKeys c s = Some s1" "step_ok c s s1" "only_watches s s1"
    by (rule unwatchAllKeys_step [OF a(1,2)])
  let ?f = "\<lambda>cl. cl\<lparr>c_dirty_cas := False\<rparr>" and ?s2 = "upd_client c (\<lambda>cl. cl\<lparr>c_dirty_cas := False\<rparr>) s1"
  have st: "step_ok c s1 ?s2" by (rule own_step [OF step_ok_full [OF s1(2)]]) simp_all
  have "step_ok c s (addReply c ok_reply ?s2)"
    by (rule step_ok_trans [OF s1(2) step_ok_trans [OF st log_step(1) [OF step_ok_full [OF st]]]])
  moreover have "c_commands (clients ?s2 ! c) = c_commands (clients s ! c)"
    "c_multi (clients ?s2 ! c) = c_multi (clients s ! c)" "c_blocked (clients ?s2 ! c) = c_blocked (clients s ! c)"
    using only_watches_fields [OF s1(3) a(2)] client_field_upd [of c_commands ?f c s1 c]
      client_field_upd [of c_multi ?f c s1 c] client_field_upd [of c_blocked ?f c s1 c] by simp_all
  ultimately show "\<exists>s'. unwatchCommand c s = Some s' \<and> step_ok c s s' \<and> c_commands (clients s' ! c) = c_commands (clients s ! c) \<and>
      c_multi (clients s' ! c) = c_multi (clients s ! c) \<and> (c_multi (clients s ! c) \<longrightarrow> \<not> c_blocked (clients s' ! c))"
    using s1(1) a(3) by (simp add: unwatchCommand_def)
qed

lemma watch_more:
  assumes "c < length (clients s)"
  shows "only_watches s (watchForKey c key s)" and "watches s c i k \<Longrightarrow> watches (watchForKey c key s) c i k"
proof -
  have "only_watches s (watchForKey c key s) \<and> (watches s c i k \<longrightarrow> watches (watchForKey c key s) c i k)"
  proof (cases "(key, cur_db s c) \<in> set (c_watched (clients s ! c))")
    case True
    then have "watchForKey c key s = s" by (simp add: watchForKey_def Let_def)
    then show ?thesis by simp
  next
    case False
    show ?thesis
      unfolding watchForKey_set_watch [OF False]
      using assms by (simp add: only_watches_set_watch watches_def set_watch_frame)
  qed
  then show "only_watches s (watchForKey c key s)" "watches s c i k \<Longrightarrow> watches (watchForKey c key s) c i k" by simp_all
qed

lemma watch_keys:
  assumes "srv_full s" and "c < length (clients s)"
  shows "step_ok c s (fold (watchForKey c) keys s)" and "only_watches s (fold (watchForKey c) keys s)"
    and "\<forall>key \<in> set keys. watches (fold (watchForKey c) keys s) c (cur_db s c) key"
proof -
  have "step_ok c s (fold (watchForKey c) keys s) \<and> only_watches s (fold (watchForKey c) keys s) \<and>
      cur_db (fold (watchForKey c) keys s) c = cur_db s c \<and>
      (\<forall>key \<in> set keys. watches (fold (watchForKey c) keys s) c (cur_db s c) key)"
  proof (induction keys rule: rev_induct)
    case (snoc key keys)
    let ?s = "fold (watchForKey c) keys s"
    have st: "step_ok c s ?s" "only_watches s ?s" "cur_db ?s c = cur_db s c"
      "\<forall>key \<in> set keys. watches ?s c (cur_db s c) key" using snoc by blast+
    have c1: "c < length (clients ?s)" using st(1) assms(2) step_ok_len by metis
    note w = watch_step [OF step_ok_full [OF st(1)] c1, of key] and m = watch_more [OF c1]
    show ?case
      using step_ok_trans [OF st(1) w(1)] only_watches_trans [OF st(2) m(1)] w(2,3) st(3,4) m(2) by auto
  qed (simp add: step_ok_refl assms)
  then show "step_ok c s (fold (watchForKey c) keys s)" "only_watches s (fold (watchForKey c) keys s)"
    "\<forall>key \<in> set keys. watches (fold (watchForKey c) keys s) c (cur_db s c) key" by simp_all
qed

lemma watchCommand_ok:
  assumes "srv_full s" and "c < length (clients s)"
  shows "\<exists>s'. watchCommand c s = Some s' \<and> step_ok c s s' \<and> c_commands (clients s' ! c) = c_commands (clients s ! c)"
proof (cases "c_multi (clients s ! c)")
  case True
  then show ?thesis by (simp add: watchCommand_def log_step(1) assms)
next
  case False
  note w = watch_keys [OF assms, of "tl (c_argv (clients s ! c))"]
  show ?thesis
    using False step_ok_trans [OF w(1) log_step(1) [OF step_ok_full [OF w(1)]]] only_watches_fields(1) [OF w(2) assms(2)]
    by (simp add: watchCommand_def)
qed

lemma multiCommand_ok:
  assumes "srv_full s"
  shows "\<exists>s'. multiCommand c s = Some s' \<and> step_ok c s s' \<and> c_commands (clients s' ! c) = c_commands (clients s ! c)"
proof -
  have st: "step_ok c s (upd_client c (\<lambda>cl. cl\<lparr>c_multi := True\<rparr>) s)" by (rule own_step [OF assms]) simp_all
  show ?thesis
    using step_ok_trans [OF st log_step(1) [OF step_ok_full [OF st]]] log_step(1) [OF assms]
      client_field_upd [of c_commands "\<lambda>cl. cl\<lparr>c_multi := True\<rparr>" c s c]
    by (simp add: multiCommand_def)
qed

lemma discardCommand_ok:
  assumes "srv_full s" and "c < length (clients s)"
  shows "\<exists>s'. discardCommand c s = Some s' \<and> step_ok c s s' \<and>
    (c_commands (clients s' ! c) = [] \<or> c_commands (clients s' ! c) = c_commands (clients s ! c))"
proof (cases "c_multi (clients s ! c)")
  case True
  obtain s1 where s1: "discardTransaction c s = Some s1" "step_ok c s s1" "c_commands (clients s1 ! c) = []"
    by (rule discardTransaction_ok [OF assms])
  then show ?thesis using True step_ok_trans [OF s1(2) log_step(1) [OF step_ok_full [OF s1(2)]]]
    by (simp add: discardCommand_def)
qed (simp add: discardCommand_def log_step(1) assms)

text \<open>A transaction that has been flagged is not run.\<close>

lemma exec_refused:
  assumes "srv_full s" and "c < length (clients s)" and "c_multi (clients s ! c)"
    and "c_dirty_cas (clients s ! c) \<or> c_dirty_exec (clients s ! c)"
  shows "\<exists>s'. execCommand rows c s = Some s' \<and> srv_full s' \<and>
    last (c_replies (clients s' ! c)) = (if c_dirty_exec (clients s ! c) then execaborterr else NullMultiBulk) \<and>
    \<not> c_multi (clients s' ! c) \<and> c_commands (clients s' ! c) = [] \<and> c_watched (clients s' ! c) = [] \<and>
    (\<forall>j k. j < length (dbs s) \<longrightarrow> visible s' j k = visible s j k) \<and> dirty s' = dirty s"
proof -
  let ?r = "if c_dirty_exec (clients s ! c) then execaborterr else NullMultiBulk"
  have st: "step_ok c s (addReply c ?r s)" by (rule log_step(1) [OF assms(1)])
  have c1: "c < length (clients (addReply c ?r s))" using assms(2) by simp
  note d = discardTransaction_ok [OF step_ok_full [OF st] c1]
  obtain s' where s': "discardTransaction c (addReply c ?r s) = Some s'" "step_ok c (addReply c ?r s) s'"
      "c_commands (clients s' ! c) = []" "\<not> c_multi (clients s' ! c)" "c_watched (clients s' ! c) = []"
      "c_replies (clients s' ! c) = c_replies (clients (addReply c ?r s) ! c)"
      "\<forall>j k. j < length (dbs (addReply c ?r s)) \<longrightarrow> visible s' j k = visible (addReply c ?r s) j k"
      "dirty s' = dirty (addReply c ?r s)" "propagated s' = propagated (addReply c ?r s)"
    by (rule d)
  have "execCommand rows c s = Some s'" using s'(1) assms(3,4) by (auto simp: execCommand_def Let_def)
  moreover have "visible s' j k = visible s j k" if "j < length (dbs s)" for j k using s'(7) that by simp
  ultimately show ?thesis using s' step_ok_full [OF s'(2)] last_reply [OF assms(2), of ?r] by simp
qed

section \<open>Requests of clients\<close>

text \<open>A queue that EXEC can run: commands of the set \<open>safe\<close> with arguments that fit their arity.\<close>

definition runnable :: "redisCommand list \<Rightarrow> string set \<Rightarrow> string \<Rightarrow> nat \<Rightarrow> bool" where
  "runnable rows safe x n \<longleftrightarrow> x \<in> safe \<and> (\<forall>row. row_of rows x = Some row \<longrightarrow> arity_ok (cmd_arity row) n)"

definition queue_ok :: "redisCommand list \<Rightarrow> string set \<Rightarrow> (string \<times> bytes list) list \<Rightarrow> bool" where
  "queue_ok rows safe q \<longleftrightarrow> (\<forall>(x, av) \<in> set q. runnable rows safe x (length av))"

definition queues_ok :: "redisCommand list \<Rightarrow> string set \<Rightarrow> redisServer \<Rightarrow> bool" where
  "queues_ok rows safe s \<longleftrightarrow> (\<forall>cl \<in> set (clients s). queue_ok rows safe (c_commands cl))"

definition exec_table :: "redisCommand list \<Rightarrow> redisCommand list" where
  "exec_table rows = rows @ [cmd_row ''exec'' (execCommand rows) 1 ''sM'']"

text \<open>The next request in a client's input (\<open>processInputBuffer\<close>): it is left there while the client is
  blocked.\<close>

definition request :: "redisCommand list \<Rightarrow> conditions \<Rightarrow> nat \<Rightarrow> bytes list \<Rightarrow> redisServer \<Rightarrow> (bool \<times> redisServer) option" where
  "request rows cd c av s =
     (if c_blocked (clients s ! c) then Some (True, s)
      else processCommand (exec_table rows) cd c (upd_client c (\<lambda>cl. cl\<lparr>c_argv := av\<rparr>) s))"

fun requests :: "redisCommand list \<Rightarrow> conditions \<Rightarrow> (nat \<times> bytes list) list \<Rightarrow> redisServer \<Rightarrow> redisServer option" where
  "requests rows cd [] s = Some s"
| "requests rows cd ((c, av) # rs) s = do { (_, s) \<leftarrow> request rows cd c av s; requests rows cd rs s }"

definition transaction_commands :: "string set" where
  "transaction_commands = {''exec'', ''discard'', ''multi'', ''watch''}"

text \<open>A request for a command of \<open>safe\<close>, for a command of transactions, or for none.\<close>

definition allowed :: "redisCommand list \<Rightarrow> string set \<Rightarrow> (nat \<times> bytes list) \<Rightarrow> bool" where
  "allowed rows safe r \<longleftrightarrow> snd r \<noteq> [] \<and> (\<forall>row. lookupCommand (exec_table rows) (hd (snd r)) = Some row \<longrightarrow>
     cmd_name row \<in> safe \<union> transaction_commands)"

section \<open>Running commands\<close>

locale command_table =
  fixes rows :: "redisCommand list" and safe :: "string set"
  assumes safe_row: "n \<in> safe \<Longrightarrow> \<exists>row. row_of rows n = Some row \<and> step_for (cmd_arity row) (cmd_proc row)"

context command_table
begin

lemma call_safe:
  assumes "srv_full s" and "c < length (clients s)" and "\<not> c_blocked (clients s ! c)"
    and "runnable rows safe (c_cmd (clients s ! c)) (argc s c)"
  obtains s' where "call rows c s = Some s'" and "step_ok c s s'" and "c_commands (clients s' ! c) = c_commands (clients s ! c)"
    and "c_multi (clients s' ! c) = c_multi (clients s ! c)" and "c_multi (clients s ! c) \<longrightarrow> \<not> c_blocked (clients s' ! c)"
proof -
  obtain row where row: "row_of rows (c_cmd (clients s ! c)) = Some row" "step_for (cmd_arity row) (cmd_proc row)"
    using safe_row assms(4) unfolding runnable_def by blast
  have ar: "arity_ok (cmd_arity row) (argc s c)" using row(1) assms(4) unfolding runnable_def by blast
  obtain s1 where s1: "cmd_proc row c s = Some s1" "step_ok c s s1" "c_commands (clients s1 ! c) = c_commands (clients s ! c)"
      "c_multi (clients s1 ! c) = c_multi (clients s ! c)" "c_multi (clients s ! c) \<longrightarrow> \<not> c_blocked (clients s1 ! c)"
    using row(2) assms(1-3) ar unfolding step_for_def by blast
  let ?s2 = "if dirty s1 \<noteq> dirty s then propagate (cur_db s1 c) (c_argv (clients s1 ! c)) s1 else s1"
  have "call rows c s = Some ?s2" using row(1) s1(1) by (simp add: call_def)
  then show ?thesis
    using s1(2-5) step_ok_trans [OF s1(2) log_step(3) [OF step_ok_full [OF s1(2)]]]
    by (intro that [of ?s2]) (auto simp: propagate_def)
qed

lemma queue_ok_Nil: "queue_ok rows safe []"
  by (simp add: queue_ok_def)

lemma exec_loop_step:
  assumes "srv_full s" and "c < length (clients s)" and "c_multi (clients s ! c)" and "\<not> c_blocked (clients s ! c)"
    and "queue_ok rows safe q"
  shows "\<exists>b s'. exec_loop rows c q must s = Some (b, s') \<and> step_ok c s s'"
  using assms
proof (induction q arbitrary: must s)
  case Nil
  then show ?case by (simp add: step_ok_refl)
next
  case (Cons w q)
  obtain x av where w: "w = (x, av)" by (cases w)
  have x: "runnable rows safe x (length av)" "queue_ok rows safe q"
    using Cons.prems(5) by (auto simp: w queue_ok_def)
  obtain row where row: "row_of rows x = Some row" using x(1) safe_row [of x] unfolding runnable_def by blast
  define first where "first = (\<not> must \<and> \<not> REDIS_CMD_READONLY row)"
  define s1 where "s1 = upd_client c (\<lambda>cl. cl\<lparr>c_argv := av, c_cmd := x\<rparr>) s"
  define s2 where "s2 = (if first then execCommandPropagateMulti c s1 else s1)"
  have st1: "step_ok c s s1" unfolding s1_def by (rule own_step [OF Cons.prems(1)]) simp_all
  then have st2: "step_ok c s s2"
    unfolding s2_def execCommandPropagateMulti_def using step_ok_trans [OF st1 log_step(3) [OF step_ok_full [OF st1]]] by simp
  have cl2: "clients s2 = clients s1" by (simp add: s2_def execCommandPropagateMulti_def propagate_def)
  have f: "c < length (clients s2)" "c_cmd (clients s2 ! c) = x" "argc s2 c = length av" "c_multi (clients s2 ! c)"
    "\<not> c_blocked (clients s2 ! c)"
    using Cons.prems(2-4) unfolding argc_def cl2 by (simp_all add: s1_def clients_upd_client frame_simps)
  obtain s3 where s3: "call rows c s2 = Some s3" "step_ok c s2 s3" "c_commands (clients s3 ! c) = c_commands (clients s2 ! c)"
      "c_multi (clients s3 ! c) = c_multi (clients s2 ! c)" "c_multi (clients s2 ! c) \<longrightarrow> \<not> c_blocked (clients s3 ! c)"
    by (rule call_safe [OF step_ok_full [OF st2] f(1,5)]) (use f x(1) in simp_all)
  have st3: "step_ok c s s3" by (rule step_ok_trans [OF st2 s3(2)])
  have "c < length (clients s3)" "c_multi (clients s3 ! c)" "\<not> c_blocked (clients s3 ! c)"
    using s3(4,5) f(4) step_ok_len [OF st3] Cons.prems(2) by simp_all
  then obtain b s4 where "exec_loop rows c q (must \<or> first) s3 = Some (b, s4)" "step_ok c s3 s4"
    using Cons.IH [OF step_ok_full [OF st3] _ _ _ x(2)] by blast
  then show ?case
    using row s3(1) step_ok_trans [OF st3] by (auto simp: w Let_def simp flip: s1_def first_def s2_def)
qed

text \<open>EXEC, refused or not, leaves the client without a transaction.\<close>

lemma exec_ok:
  assumes "srv_full s" and "c < length (clients s)" and "\<not> c_blocked (clients s ! c)" and "queue_ok rows safe (c_commands (clients s ! c))"
  shows "\<exists>s'. execCommand rows c s = Some s' \<and> step_ok c s s' \<and>
    (c_commands (clients s' ! c) = [] \<or> c_commands (clients s' ! c) = c_commands (clients s ! c))"
proof -
  let ?cl = "clients s ! c"
  consider "\<not> c_multi ?cl" | r where "c_multi ?cl" "execCommand rows c s = discardTransaction c (addReply c r s)"
    | "c_multi ?cl" "\<not> c_dirty_cas ?cl" "\<not> c_dirty_exec ?cl"
    by (cases "c_multi ?cl"; cases "c_dirty_cas ?cl \<or> c_dirty_exec ?cl") (auto simp: execCommand_def Let_def)
  then show ?thesis
  proof cases
    case 1
    then show ?thesis by (simp add: execCommand_def log_step(1) assms)
  next
    case 2
    have st: "step_ok c s (addReply c r s)" by (rule log_step(1) [OF assms(1)])
    obtain s1 where s1: "discardTransaction c (addReply c r s) = Some s1" "step_ok c (addReply c r s) s1"
        "c_commands (clients s1 ! c) = []"
      using discardTransaction_ok [OF step_ok_full [OF st], of c] assms(2) by (metis reply_fields(8))
    then show ?thesis using 2(2) step_ok_trans [OF st] by auto
  next
    case 3
    obtain s1 where s1: "unwatchAllKeys c s = Some s1" "step_ok c s s1" "only_watches s s1"
      by (rule unwatchAllKeys_step [OF assms(1,2)])
    define s2 where "s2 = addReply c (MultiBulkLen (int (length (c_commands (clients s1 ! c))))) s1"
    have st2: "step_ok c s s2" unfolding s2_def
      by (rule step_ok_trans [OF s1(2) log_step(1) [OF step_ok_full [OF s1(2)]]])
    have c2: "c < length (clients s2)" using step_ok_len [OF st2] assms(2) by simp
    have q: "queue_ok rows safe (c_commands (clients s2 ! c))"
      using only_watches_fields(1) [OF s1(3) assms(2)] assms(4) by (simp add: s2_def)
    have m2: "c_multi (clients s2 ! c)" "\<not> c_blocked (clients s2 ! c)"
      using only_watches_fields [OF s1(3) assms(2)] assms(3) 3(1) by (simp_all add: s2_def)
    obtain b s3 where s3: "exec_loop rows c (c_commands (clients s2 ! c)) False s2 = Some (b, s3)" "step_ok c s2 s3"
      using exec_loop_step [OF step_ok_full [OF st2] c2 m2 q] by blast
    define s4 where "s4 = upd_client c (\<lambda>cl. cl\<lparr>c_argv := c_argv ?cl, c_cmd := c_cmd ?cl\<rparr>) s3"
    have st4: "step_ok c s s4"
      unfolding s4_def
      by (rule step_ok_trans [OF step_ok_trans [OF st2 s3(2)] own_step [OF step_ok_full [OF s3(2)]]]) simp_all
    have c4: "c < length (clients s4)" using step_ok_len [OF st4] assms(2) by simp
    obtain s5 where s5: "discardTransaction c s4 = Some s5" "step_ok c s4 s5" "c_commands (clients s5 ! c) = []"
      by (rule discardTransaction_ok [OF step_ok_full [OF st4] c4])
    have cc: "c_commands (clients s2 ! c) = c_commands (clients s1 ! c)" by (simp add: s2_def)
    have e: "execCommand rows c s = Some (if b then add_dirty 1 s5 else s5)"
      using 3 s1(1) s3(1) [unfolded cc] s5(1) [unfolded s4_def] by (simp add: execCommand_def exec_queue_def Let_def flip: s2_def)
    have "step_ok c s5 (if b then add_dirty 1 s5 else s5)"
      using step_ok_full [OF s5(2)] by (simp add: log_step step_ok_refl)
    then show ?thesis
      unfolding e using step_ok_trans [OF step_ok_trans [OF st4 s5(2)]] s5(3) by (auto simp: add_dirty_def)
  qed
qed

end

locale redis_table = command_table rows safe for rows safe +
  assumes multi_row: "\<exists>row. row_of rows ''multi'' = Some row \<and> cmd_proc row = multiCommand"
    and discard_row: "\<exists>row. row_of rows ''discard'' = Some row \<and> cmd_proc row = discardCommand"
    and watch_row: "\<exists>row. row_of rows ''watch'' = Some row \<and> cmd_proc row = watchCommand"
    and exec_row: "row_of rows ''exec'' = None"
    and safe_data: "safe \<inter> transaction_commands = {}"
    and names: "distinct (map cmd_name rows)"

lemma find_append:
  "List.find P (xs @ ys) = (case List.find P xs of None \<Rightarrow> List.find P ys | Some x \<Rightarrow> Some x)"
  by (induction xs) simp_all

context redis_table
begin

lemma row_of_exec_table:
  "row_of rows n = Some row \<Longrightarrow> row_of (exec_table rows) n = Some row"
  "row_of (exec_table rows) ''exec'' = Some (cmd_row ''exec'' (execCommand rows) 1 ''sM'')"
  using exec_row by (auto simp: row_of_def exec_table_def cmd_row_def find_append split: option.split)

lemma row_of_lookup:
  assumes "lookupCommand (exec_table rows) n = Some row" and "cmd_name row \<noteq> ''exec''"
  shows "row_of rows (cmd_name row) = Some row"
proof -
  have "row \<in> set rows"
    using assms by (auto simp: lookupCommand_def exec_table_def find_append cmd_row_def find_Some_iff
        split: option.splits if_splits)
  then obtain i where i: "i < length rows" "rows ! i = row" by (auto simp: in_set_conv_nth)
  have "cmd_name (rows ! j) \<noteq> cmd_name row" if "j < i" for j
    using names i that by (auto simp: distinct_conv_nth)
  then show ?thesis using i unfolding row_of_def find_Some_iff by blast
qed

text \<open>Every command of the table is answered.\<close>

lemma call_ok:
  assumes "srv_full s" and "c < length (clients s)" and "\<not> c_blocked (clients s ! c)"
    and "queue_ok rows safe (c_commands (clients s ! c))"
    and "runnable rows safe (c_cmd (clients s ! c)) (argc s c) \<or> c_cmd (clients s ! c) \<in> transaction_commands"
  shows "\<exists>s'. call (exec_table rows) c s = Some s' \<and> step_ok c s s' \<and>
    (c_commands (clients s' ! c) = [] \<or> c_commands (clients s' ! c) = c_commands (clients s ! c))"
proof -
  have fin: "\<exists>s'. call (exec_table rows) c s = Some s' \<and> step_ok c s s' \<and>
      (c_commands (clients s' ! c) = [] \<or> c_commands (clients s' ! c) = c_commands (clients s ! c))"
    if "row_of (exec_table rows) (c_cmd (clients s ! c)) = Some row" "cmd_proc row c s = Some s1" "step_ok c s s1"
      "c_commands (clients s1 ! c) = [] \<or> c_commands (clients s1 ! c) = c_commands (clients s ! c)" for row s1
    using that step_ok_trans [OF that(3) log_step(3) [OF step_ok_full [OF that(3)]]] by (auto simp: call_def propagate_def)
  show ?thesis
  proof (cases "runnable rows safe (c_cmd (clients s ! c)) (argc s c)")
    case True
    then obtain row where row: "row_of rows (c_cmd (clients s ! c)) = Some row" "step_for (cmd_arity row) (cmd_proc row)"
      using safe_row unfolding runnable_def by blast
    then obtain s1 where "cmd_proc row c s = Some s1" "step_ok c s s1" "c_commands (clients s1 ! c) = c_commands (clients s ! c)"
      using assms(1-3) True unfolding step_for_def runnable_def by blast
    then show ?thesis using fin [OF row_of_exec_table(1) [OF row(1)]] by blast
  next
    case False
    then consider "c_cmd (clients s ! c) = ''exec''" | "c_cmd (clients s ! c) = ''discard''"
      | "c_cmd (clients s ! c) = ''multi''" | "c_cmd (clients s ! c) = ''watch''"
      using assms(5) by (auto simp: transaction_commands_def)
    then show ?thesis
    proof cases
      case 1
      show ?thesis
        using exec_ok [OF assms(1-4)] fin [OF row_of_exec_table(2) [folded 1]] by (auto simp: cmd_row_def)
    next
      case 2
      then show ?thesis
        using discard_row discardCommand_ok [OF assms(1,2)] fin [OF row_of_exec_table(1)] by metis
    next
      case 3
      then show ?thesis
        using multi_row multiCommand_ok [OF assms(1)] fin [OF row_of_exec_table(1)] by metis
    next
      case 4
      then show ?thesis
        using watch_row watchCommand_ok [OF assms(1,2)] fin [OF row_of_exec_table(1)] by metis
    qed
  qed
qed

lemma queues_okI:
  assumes "queues_ok rows safe s" and "step_ok c s s'" and "queue_ok rows safe (c_commands (clients s' ! c))"
  shows "queues_ok rows safe s'"
proof -
  have "queue_ok rows safe (c_commands (clients s' ! a))" if "a < length (clients s)" for a
    using that assms unfolding queues_ok_def step_ok_def kept_def by (cases "a = c") (auto simp: all_set_conv_all_nth)
  then show ?thesis using step_ok_len [OF assms(2)] by (simp add: queues_ok_def all_set_conv_all_nth)
qed

lemma flag_step:
  assumes "srv_full s"
  shows "step_ok c s (flagTransaction c s)" and "c_commands (clients (flagTransaction c s) ! a) = c_commands (clients s ! a)"
    and "ready_keys (flagTransaction c s) = ready_keys s"
  using client_field_upd [of c_commands "\<lambda>cl. if c_multi cl then cl\<lparr>c_dirty_exec := True\<rparr> else cl" c s a]
  by (auto simp: flagTransaction_def frame_simps intro!: own_step assms split: if_splits)

lemma request_ok:
  assumes ok: "srv_full s" and rd: "ready_ok s" "ready_keys s = []" and q: "queues_ok rows safe s"
    and c: "c < length (clients s)" and al: "allowed rows safe (c, av)"
  shows "\<exists>b s'. request rows cd c av s = Some (b, s') \<and> step_ok c s s' \<and> ready_keys s' = [] \<and> queues_ok rows safe s'"
proof -
  have blocked: ?thesis if "c_blocked (clients s ! c)"
    using that q rd step_ok_refl [OF ok] by (auto simp: request_def)
  define s0 where "s0 = upd_client c (\<lambda>cl. cl\<lparr>c_argv := av\<rparr>) s"
  have st0: "step_ok c s s0" unfolding s0_def by (rule own_step [OF ok]) simp_all
  have rk0: "ready_keys s0 = []" using rd(2) by (simp add: s0_def frame_simps)
  have f0: "c_commands (clients s0 ! a) = c_commands (clients s ! a)" for a
    unfolding s0_def using client_field_upd [of c_commands "\<lambda>cl. cl\<lparr>c_argv := av\<rparr>" c s a] by simp
  have a0: "c_argv (clients s0 ! c) = av" using c by (simp add: s0_def clients_upd_client)
  have qc: "queue_ok rows safe (c_commands (clients s ! c))" using q c by (simp add: queues_ok_def all_set_conv_all_nth)
  have fin: "\<exists>b' s'. Some (b, s2) = Some (b', s') \<and> step_ok c s s' \<and> ready_keys s' = [] \<and> queues_ok rows safe s'"
    if "step_ok c s s2" "ready_keys s2 = []" "queue_ok rows safe (c_commands (clients s2 ! c))" for b s2
    using that queues_okI [OF q that(1,3)] by blast
  have reply: "\<exists>b' s'. Some (b, addReply c r s2) = Some (b', s') \<and> step_ok c s s' \<and> ready_keys s' = [] \<and> queues_ok rows safe s'"
    if "step_ok c s s2" "ready_keys s2 = []" "queue_ok rows safe (c_commands (clients s2 ! c))" for b r s2
  proof (rule fin [OF step_ok_trans [OF that(1) log_step(1) [OF step_ok_full [OF that(1)]]]])
    show "ready_keys (addReply c r s2) = []" using that(2) by (simp add: addReply_def frame_simps)
    show "queue_ok rows safe (c_commands (clients (addReply c r s2) ! c))" using that(3) by simp
  qed
  have flag: "\<exists>b' s'. Some (b, addReply c r (flagTransaction c s2)) = Some (b', s') \<and> step_ok c s s' \<and> ready_keys s' = [] \<and> queues_ok rows safe s'"
    if "step_ok c s s2" "ready_keys s2 = []" "queue_ok rows safe (c_commands (clients s2 ! c))" for b r s2
    using that flag_step [OF step_ok_full [OF that(1)]] by (intro reply step_ok_trans [OF that(1)]) simp_all
  have run: ?thesis if nb: "\<not> c_blocked (clients s ! c)"
  proof (cases "strcasecmp_eq (av ! 0) (ascii ''quit'')")
    case True
    then have e: "request rows cd c av s = Some (False, addReply c ok_reply s0)"
      by (simp add: request_def nb processCommand_def a0 flip: s0_def)
    show ?thesis unfolding e by (rule reply [OF st0 rk0]) (simp add: f0 qc)
  next
    case nq: False
    show ?thesis
    proof (cases "lookupCommand (exec_table rows) (av ! 0)")
      case None
      define s1 where "s1 = upd_client c (\<lambda>cl. cl\<lparr>c_cmd := [], c_lastcmd := []\<rparr>) s0"
      have st1: "step_ok c s s1"
        unfolding s1_def by (rule step_ok_trans [OF st0 own_step [OF step_ok_full [OF st0]]]) simp_all
      have f1: "c_commands (clients s1 ! c) = c_commands (clients s ! c)"
        unfolding s1_def using client_field_upd [of c_commands "\<lambda>cl. cl\<lparr>c_cmd := [], c_lastcmd := []\<rparr>" c s0 c] f0 by simp
      have e: "request rows cd c av s = Some (True, addReply c (Error ''ERR unknown command'') (flagTransaction c s1))"
        using nq None by (simp add: request_def nb processCommand_def a0 s1_def flip: s0_def)
      show ?thesis unfolding e by (rule flag [OF st1]) (simp_all add: s1_def frame_simps rk0 f1 [unfolded s1_def] qc)
    next
      case (Some row)
      define s1 where "s1 = upd_client c (\<lambda>cl. cl\<lparr>c_cmd := cmd_name row, c_lastcmd := cmd_name row\<rparr>) s0"
      have st1: "step_ok c s s1"
        unfolding s1_def by (rule step_ok_trans [OF st0 own_step [OF step_ok_full [OF st0]]]) simp_all
      have f1: "c_commands (clients s1 ! c) = c_commands (clients s ! c)"
        unfolding s1_def using client_field_upd [of c_commands "\<lambda>cl. cl\<lparr>c_cmd := cmd_name row, c_lastcmd := cmd_name row\<rparr>" c s0 c] f0 by simp
      have c1: "c < length (clients s1)" "c_cmd (clients s1 ! c) = cmd_name row" "\<not> c_blocked (clients s1 ! c)"
        using c nb by (simp_all add: s1_def s0_def frame_simps clients_upd_client)
      have rk1: "ready_keys s1 = []" using rk0 by (simp add: s1_def frame_simps)
      have nm: "cmd_name row \<in> safe \<union> transaction_commands"
        using al Some by (simp add: allowed_def hd_conv_nth)
      have ac: "argc s1 c = length av" "c_argv (clients s1 ! c) = av"
        using c by (simp_all add: s1_def s0_def frame_simps clients_upd_client argc_def)
      have rn: "runnable rows safe (cmd_name row) (length av) \<or> cmd_name row \<in> transaction_commands"
        if "arity_ok (cmd_arity row) (length av)"
        using that nm row_of_lookup [OF Some] by (auto simp: runnable_def transaction_commands_def)
      have go: "\<exists>b' s'. (do {
            s \<leftarrow> call (exec_table rows) c s1;
            s \<leftarrow> (if ready_keys s \<noteq> [] then handleClientsBlockedOnLists s else Some s);
            Some (True, s) }) = Some (b', s') \<and> step_ok c s s' \<and> ready_keys s' = [] \<and> queues_ok rows safe s'"
        if ar: "arity_ok (cmd_arity row) (length av)"
      proof -
        obtain s2 where s2: "call (exec_table rows) c s1 = Some s2" "step_ok c s1 s2"
            "c_commands (clients s2 ! c) = [] \<or> c_commands (clients s2 ! c) = c_commands (clients s1 ! c)"
          using call_ok [OF step_ok_full [OF st1] c1(1,3)] qc f1 c1(2) ac rn [OF ar] by metis
        have st2: "step_ok c s s2" by (rule step_ok_trans [OF st1 s2(2)])
        obtain s3 where s3: "handleClientsBlockedOnLists s2 = Some s3" "step_ok c s s3" "ready_keys s3 = []"
            "\<forall>a < length (clients s). c_commands (clients s3 ! a) = c_commands (clients s2 ! a)"
          by (rule handle_step [OF st2 rd])
        have q2: "queue_ok rows safe (c_commands (clients s2 ! c))" using s2(3) qc f1 queue_ok_Nil by auto
        then have q3: "queue_ok rows safe (c_commands (clients s3 ! c))" using s3(4) c by simp
        show ?thesis
          using s2(1) s3(1) fin [OF st2 _ q2, of True] fin [OF s3(2,3) q3, of True] by (cases "ready_keys s2 = []") auto
      qed
      have queue: "\<exists>b' s'. Some (True, addReply c r (queueMultiCommand c s1)) = Some (b', s') \<and> step_ok c s s' \<and>
          ready_keys s' = [] \<and> queues_ok rows safe s'"
        if "cmd_name row \<notin> {''exec'', ''discard'', ''multi'', ''watch''}" "arity_ok (cmd_arity row) (length av)" for r
      proof (rule reply)
        show "step_ok c s (queueMultiCommand c s1)"
          unfolding queueMultiCommand_def by (rule step_ok_trans [OF st1 own_step [OF step_ok_full [OF st1]]]) simp_all
        show "ready_keys (queueMultiCommand c s1) = []" by (simp add: queueMultiCommand_def frame_simps rk1)
        show "queue_ok rows safe (c_commands (clients (queueMultiCommand c s1) ! c))"
          using that(1) rn [OF that(2)] qc f1 c1 ac
          by (auto simp: queueMultiCommand_def clients_upd_client queue_ok_def transaction_commands_def)
      qed
      have "request rows cd c av s = (if \<not> arity_ok (cmd_arity row) (length av)
              then Some (True, addReply c (Error ''ERR wrong number of arguments'') (flagTransaction c s1))
              else (case command_refused cd row av s1 of
                Some (msg, flag) \<Rightarrow>
                  Some (True, addReply c (Error msg) (if flag then flagTransaction c s1 else s1))
              | None \<Rightarrow>
                if c_multi (clients s1 ! c) \<and> cmd_name row \<notin> {''exec'', ''discard'', ''multi'', ''watch''}
                then Some (True, addReply c (Status ''QUEUED'') (queueMultiCommand c s1))
                else do {
                  s \<leftarrow> call (exec_table rows) c s1;
                  s \<leftarrow> (if ready_keys s \<noteq> [] then handleClientsBlockedOnLists s else Some s);
                  Some (True, s) }))"
        using nq Some by (cases "command_refused cd row av s1")
          (simp_all add: request_def nb processCommand_def a0 Let_def flip: s0_def s1_def)
      moreover have "queue_ok rows safe (c_commands (clients s1 ! c))" using qc f1 by simp
      ultimately show ?thesis
        using go queue flag [OF st1 rk1] reply [OF st1 rk1] by (auto split: option.split)
    qed
  qed
  show ?thesis using blocked run by blast
qed

lemma requests_ok:
  assumes "srv_full s" and "ready_ok s" and "ready_keys s = []" and "queues_ok rows safe s"
    and "list_all (allowed rows safe) rs" and "list_all (\<lambda>r. fst r < length (clients s)) rs"
  shows "\<exists>s'. requests rows cd rs s = Some s' \<and> srv_full s' \<and> ready_ok s' \<and> ready_keys s' = [] \<and>
    queues_ok rows safe s' \<and> same_size s s' \<and>
    (\<forall>a < length (clients s). a \<notin> fst ` set rs \<longrightarrow> kept a s s')"
  using assms
proof (induction rs arbitrary: s)
  case Nil
  then show ?case by (simp add: same_size_def)
next
  case (Cons r rs)
  obtain c av where r: "r = (c, av)" by (cases r)
  have "c < length (clients s)" "allowed rows safe (c, av)" using Cons.prems(5,6) by (simp_all add: r)
  note request_ok [OF Cons.prems(1-4) this]
  then obtain b s1 where s1: "request rows cd c av s = Some (b, s1)" "step_ok c s s1" "ready_keys s1 = []"
      "queues_ok rows safe s1"
    by blast
  have r1: "ready_ok s1" using s1(2) Cons.prems(2) by (simp add: step_ok_def)
  have sz: "same_size s s1" "length (clients s1) = length (clients s)" "length (dbs s1) = length (dbs s)"
    using s1(2) by (simp_all add: step_ok_def same_size_def)
  have "list_all (allowed rows safe) rs" "list_all (\<lambda>r. fst r < length (clients s1)) rs"
    using Cons.prems(5,6) sz(2) by simp_all
  note Cons.IH [OF step_ok_full [OF s1(2)] r1 s1(3,4) this]
  then obtain s2 where s2: "requests rows cd rs s1 = Some s2" "srv_full s2" "ready_ok s2" "ready_keys s2 = []"
      "queues_ok rows safe s2" "same_size s1 s2"
      "\<forall>a < length (clients s1). a \<notin> fst ` set rs \<longrightarrow> kept a s1 s2" by blast
  have k: "kept a s s2" if "a < length (clients s)" "a \<notin> fst ` set (r # rs)" for a
  proof (rule kept_trans [of a s s1])
    show "kept a s s1" using that s1(2) by (simp add: step_ok_def r)
    show "kept a s1 s2" using that s2(7) sz(2) by simp
  qed (rule sz(3))
  have "requests rows cd (r # rs) s = Some s2" using s1(1) s2(1) by (simp add: r)
  then show ?case using s2(2-5) same_size_trans [OF sz(1) s2(6)] k by blast
qed

end

end
