(* ===== verification/Commands.thy ===== *)
theory Commands
  imports T_string T_set T_hash T_list Bitops Multi
begin

text \<open>
  The command table of redis.c, with the commands modelled here, and what holds of the server as a
  whole: the interpretation of the interface of Multi on the table, and the guarantees of
  transactions that rest on it.
\<close>

section \<open>The table\<close>

definition redisCommandTable :: "redisCommand list" where
  "redisCommandTable =
    [cmd_row ''get'' getCommand 2 ''r'',
     cmd_row ''set'' setCommand (- 3) ''wm'',
     cmd_row ''setnx'' setnxCommand 3 ''wm'',
     cmd_row ''setex'' setexCommand 4 ''wm'',
     cmd_row ''psetex'' psetexCommand 4 ''wm'',
     cmd_row ''append'' appendCommand 3 ''wm'',
     cmd_row ''strlen'' strlenCommand 2 ''r'',
     cmd_row ''del'' delCommand (- 2) ''w'',
     cmd_row ''exists'' existsCommand 2 ''r'',
     cmd_row ''setbit'' setbitCommand 4 ''wm'',
     cmd_row ''getbit'' getbitCommand 3 ''r'',
     cmd_row ''setrange'' setrangeCommand 4 ''wm'',
     cmd_row ''getrange'' getrangeCommand 4 ''r'',
     cmd_row ''substr'' getrangeCommand 4 ''r'',
     cmd_row ''incr'' incrCommand 2 ''wm'',
     cmd_row ''decr'' decrCommand 2 ''wm'',
     cmd_row ''mget'' mgetCommand (- 2) ''r'',
     cmd_row ''rpush'' rpushCommand (- 3) ''wm'',
     cmd_row ''lpush'' lpushCommand (- 3) ''wm'',
     cmd_row ''rpushx'' rpushxCommand 3 ''wm'',
     cmd_row ''lpushx'' lpushxCommand 3 ''wm'',
     cmd_row ''linsert'' linsertCommand 5 ''wm'',
     cmd_row ''rpop'' rpopCommand 2 ''w'',
     cmd_row ''lpop'' lpopCommand 2 ''w'',
     cmd_row ''brpop'' brpopCommand (- 3) ''ws'',
     cmd_row ''brpoplpush'' brpoplpushCommand 4 ''wms'',
     cmd_row ''blpop'' blpopCommand (- 3) ''ws'',
     cmd_row ''llen'' llenCommand 2 ''r'',
     cmd_row ''lindex'' lindexCommand 3 ''r'',
     cmd_row ''lset'' lsetCommand 4 ''wm'',
     cmd_row ''lrange'' lrangeCommand 4 ''r'',
     cmd_row ''ltrim'' ltrimCommand 4 ''w'',
     cmd_row ''lrem'' lremCommand 4 ''w'',
     cmd_row ''rpoplpush'' rpoplpushCommand 3 ''wm'',
     cmd_row ''sadd'' saddCommand (- 3) ''wm'',
     cmd_row ''srem'' sremCommand (- 3) ''w'',
     cmd_row ''smove'' smoveCommand 4 ''w'',
     cmd_row ''sismember'' sismemberCommand 3 ''r'',
     cmd_row ''scard'' scardCommand 2 ''r'',
     cmd_row ''spop'' spopCommand 2 ''wRs'',
     cmd_row ''sinter'' sinterCommand (- 2) ''rS'',
     cmd_row ''sinterstore'' sinterstoreCommand (- 3) ''wm'',
     cmd_row ''sunion'' sunionCommand (- 2) ''rS'',
     cmd_row ''sunionstore'' sunionstoreCommand (- 3) ''wm'',
     cmd_row ''sdiff'' sdiffCommand (- 2) ''rS'',
     cmd_row ''sdiffstore'' sdiffstoreCommand (- 3) ''wm'',
     cmd_row ''smembers'' sinterCommand 2 ''rS'',
     cmd_row ''hset'' hsetCommand 4 ''wm'',
     cmd_row ''hsetnx'' hsetnxCommand 4 ''wm'',
     cmd_row ''hget'' hgetCommand 3 ''r'',
     cmd_row ''hmset'' hmsetCommand (- 4) ''wm'',
     cmd_row ''hmget'' hmgetCommand (- 3) ''r'',
     cmd_row ''hincrby'' hincrbyCommand 4 ''wm'',
     cmd_row ''hdel'' hdelCommand (- 3) ''w'',
     cmd_row ''hlen'' hlenCommand 2 ''r'',
     cmd_row ''hkeys'' hkeysCommand 2 ''rS'',
     cmd_row ''hvals'' hvalsCommand 2 ''rS'',
     cmd_row ''hgetall'' hgetallCommand 2 ''r'',
     cmd_row ''hexists'' hexistsCommand 3 ''r'',
     cmd_row ''incrby'' incrbyCommand 3 ''wm'',
     cmd_row ''decrby'' decrbyCommand 3 ''wm'',
     cmd_row ''getset'' getsetCommand 3 ''wm'',
     cmd_row ''mset'' msetCommand (- 3) ''wm'',
     cmd_row ''msetnx'' msetnxCommand (- 3) ''wm'',
     cmd_row ''select'' selectCommand 2 ''rl'',
     cmd_row ''move'' moveCommand 3 ''w'',
     cmd_row ''rename'' renameCommand 3 ''w'',
     cmd_row ''renamenx'' renamenxCommand 3 ''w'',
     cmd_row ''expire'' expireCommand 3 ''w'',
     cmd_row ''expireat'' expireatCommand 3 ''w'',
     cmd_row ''pexpire'' pexpireCommand 3 ''w'',
     cmd_row ''pexpireat'' pexpireatCommand 3 ''w'',
     cmd_row ''dbsize'' dbsizeCommand 1 ''r'',
     cmd_row ''type'' typeCommand 2 ''r'',
     cmd_row ''multi'' multiCommand 1 ''rs'',
     cmd_row ''discard'' discardCommand 1 ''rs'',
     cmd_row ''flushdb'' flushdbCommand 1 ''w'',
     cmd_row ''flushall'' flushallCommand 1 ''w'',
     cmd_row ''ttl'' ttlCommand 2 ''r'',
     cmd_row ''pttl'' pttlCommand 2 ''r'',
     cmd_row ''persist'' persistCommand 2 ''w'',
     cmd_row ''watch'' watchCommand (- 2) ''rs'',
     cmd_row ''unwatch'' unwatchCommand 1 ''rs'',
     cmd_row ''bitop'' bitopCommand (- 4) ''wm'',
     cmd_row ''bitcount'' bitcountCommand (- 2) ''r'']"

text \<open>The commands on data that are safe for any arguments.\<close>

definition safe_names :: "string set" where
  "safe_names = set (map cmd_name redisCommandTable) - transaction_commands -
     {''setrange'', ''getrange'', ''substr'', ''move'', ''persist''}"

section \<open>The interface of transactions\<close>

lemma row_of_set: "row_of rows n = Some row \<Longrightarrow> row \<in> set rows \<and> cmd_name row = n"
  by (auto simp: row_of_def find_Some_iff)

lemma row_of_ex: "n \<in> set (map cmd_name rows) \<Longrightarrow> \<exists>row. row_of rows n = Some row"
  by (cases "row_of rows n") (auto simp: row_of_def find_None_iff)

lemma safe_namesD: "n \<in> safe_names \<Longrightarrow> n \<notin> {''exec'', ''discard'', ''multi'', ''watch'', ''setrange'', ''getrange'', ''substr'', ''move'', ''persist''}"
  by (auto simp: safe_names_def transaction_commands_def)

lemma safe_rows: "\<forall>row \<in> set redisCommandTable. cmd_name row \<in> safe_names \<longrightarrow> step_for (cmd_arity row) (cmd_proc row)"
proof -
  have "\<forall>row \<in> set redisCommandTable. cmd_name row \<notin> {''exec'', ''discard'', ''multi'', ''watch'', ''setrange'', ''getrange'', ''substr'', ''move'', ''persist''} \<longrightarrow>
      step_for (cmd_arity row) (cmd_proc row)"
    by (simp add: step_for_safe safe_for_command redisCommandTable_def cmd_row_def key_safe string_safe set_safe safe_sadd
        hash_safe list_safe bit_safe blocking_steps unwatch_step)
  then show ?thesis using safe_namesD by blast
qed

lemma transaction_rows:
  "row_of redisCommandTable ''multi'' = Some (cmd_row ''multi'' multiCommand 1 ''rs'')"
  "row_of redisCommandTable ''discard'' = Some (cmd_row ''discard'' discardCommand 1 ''rs'')"
  "row_of redisCommandTable ''watch'' = Some (cmd_row ''watch'' watchCommand (- 2) ''rs'')"
  "row_of redisCommandTable ''unwatch'' = Some (cmd_row ''unwatch'' unwatchCommand 1 ''rs'')"
  "row_of redisCommandTable ''exec'' = None"
  by (simp_all add: row_of_def redisCommandTable_def cmd_row_def)

interpretation redis: redis_table redisCommandTable safe_names
proof unfold_locales
  fix n
  assume n: "n \<in> safe_names"
  then obtain row where row: "row_of redisCommandTable n = Some row"
    using row_of_ex [of n redisCommandTable] by (auto simp: safe_names_def)
  then show "\<exists>row. row_of redisCommandTable n = Some row \<and> step_for (cmd_arity row) (cmd_proc row)"
    using safe_rows row_of_set [OF row] n by auto
next
  show "distinct (map cmd_name redisCommandTable)" by (simp add: redisCommandTable_def cmd_row_def)
qed (auto simp: transaction_rows cmd_row_def safe_names_def)

section \<open>Well-formed servers\<close>

text \<open>Between two requests no key is ready.\<close>

definition well_formed :: "redisServer \<Rightarrow> bool" where
  "well_formed s \<longleftrightarrow> srv_full s \<and> ready_ok s \<and> ready_keys s = [] \<and> queues_ok redisCommandTable safe_names s"

lemma well_formed_requests:
  assumes "well_formed s" and "list_all (allowed redisCommandTable safe_names) rs"
    and "list_all (\<lambda>r. fst r < length (clients s)) rs"
  obtains s' where "requests redisCommandTable cd rs s = Some s'" and "well_formed s'" and "same_size s s'"
    and "\<forall>a < length (clients s). a \<notin> fst ` set rs \<longrightarrow> kept a s s'"
  using redis.requests_ok [of s rs cd] assms unfolding well_formed_def by blast

lemma well_formed_request:
  assumes "well_formed s" and "c < length (clients s)" and "allowed redisCommandTable safe_names (c, av)"
  obtains b s' where "request redisCommandTable cd c av s = Some (b, s')" and "well_formed s'" and "step_ok c s s'"
  using redis.request_ok [of s c av cd] assms unfolding well_formed_def step_ok_def by blast

section \<open>An example\<close>

text \<open>The second client watches the key and has opened a transaction; the first one deletes the key.\<close>

definition open_conditions :: conditions where
  "open_conditions = \<lparr>requirepass = False, authenticated = False, stop_writes_on_bgsave_err = False,
     saveparamslen = 0, lastbgsave_err = False, repl_min_slaves_to_write = 0, repl_min_slaves_max_lag = 0,
     repl_good_slaves_count = 0, repl_slave_ro = False, client_is_master = False, subscriptions = 0,
     repl_connected = False, repl_serve_stale_data = False, lua_timedout = False\<rparr>"

definition waiting_server :: redisServer where
  "waiting_server = upd_client 1 (\<lambda>cl. cl\<lparr>c_multi := True\<rparr>) (watched_server [] [])"

lemma lookup_del: "map_option cmd_name (lookupCommand (exec_table redisCommandTable) (ascii ''DEL'')) = Some ''del''"
  by code_simp

lemma run_del: "case requests redisCommandTable open_conditions [(0, [ascii ''DEL'', key_k])] waiting_server of
   Some s' \<Rightarrow> visible s' 0 key_k = None | None \<Rightarrow> False"
  by code_simp

lemma waiting_server_ok:
  "well_formed waiting_server" "length (clients waiting_server) = 2"
  "length (dbs waiting_server) = 2" "c_multi (clients waiting_server ! 1)" "watches waiting_server 1 0 key_k"
  "visible waiting_server 0 key_k \<noteq> None"
proof -
  have "step_ok 1 (watched_server [] []) waiting_server"
    unfolding waiting_server_def by (rule own_step [OF watched_server_full]) simp_all
  then have "srv_full waiting_server" by (rule step_ok_full)
  moreover have "queues_ok redisCommandTable safe_names waiting_server" "ready_ok waiting_server" "ready_keys waiting_server = []"
    by (auto simp: queues_ok_def queue_ok_def ready_ok_def waiting_server_def watched_server_def upd_client_def idle_client_def less_Suc_eq)
  ultimately show "well_formed waiting_server" by (simp add: well_formed_def)
qed (code_simp+)

lemma allowed_del: "list_all (allowed redisCommandTable safe_names) [(0, [ascii ''DEL'', key_k])]"
proof -
  have "''del'' \<in> safe_names"
    by (simp add: safe_names_def redisCommandTable_def cmd_row_def transaction_commands_def)
  then show ?thesis using lookup_del by (auto simp: allowed_def)
qed

section \<open>Guarantees\<close>

text \<open>C3: A server that starts well formed answers every sequence of requests for the commands of the
  table but SETRANGE, GETRANGE, SUBSTR, MOVE and PERSIST (\<open>allowed\<close>), inside and outside transactions, whatever their
  arguments: no assertion fails, expires belong to existing keys, the watch lists of keys and clients
  agree, and the clients' databases exist.\<close>

theorem requests_answered:
  assumes "well_formed s"
    and "list_all (allowed redisCommandTable safe_names) rs" and "list_all (\<lambda>r. fst r < length (clients s)) rs"
  shows "\<exists>s'. requests redisCommandTable cd rs s = Some s' \<and> well_formed s'"
  using well_formed_requests [OF assms, of cd] by blast

theorem requests_answered_witness:
  "\<exists>s'. requests redisCommandTable open_conditions [(0, [ascii ''DEL'', key_k])] waiting_server = Some s' \<and> well_formed s'"
  using requests_answered [OF waiting_server_ok(1) allowed_del] waiting_server_ok(2) by fastforce

text \<open>C1: WATCH protects a transaction. A client that watches a key and has opened a transaction waits
  while the other clients send requests, any but SETRANGE, GETRANGE, SUBSTR, MOVE and PERSIST (\<open>allowed\<close>;
  \<open>move_unsignalled\<close> and \<open>persist_resurrects\<close> show why the last two break the promise). If what clients see under the key has changed (an
  object counts without its encoding),
  EXEC of the waiting client runs nothing: it replies a nil or an error, leaves every key as it is,
  and ends the transaction.\<close>

theorem watch_protects:
  assumes "well_formed s" and "a < length (clients s)" and "i < length (dbs s)"
    and "c_multi (clients s ! a)" and "watches s a i k"
    and "list_all (allowed redisCommandTable safe_names) rs" and "list_all (\<lambda>r. fst r < length (clients s)) rs"
    and "a \<notin> fst ` set rs"
  shows "\<exists>s'. requests redisCommandTable cd rs s = Some s' \<and>
    (seen s' i k \<noteq> seen s i k \<longrightarrow>
      (\<exists>s''. execCommand redisCommandTable a s' = Some s'' \<and>
        last (c_replies (clients s'' ! a)) \<in> {NullMultiBulk, execaborterr} \<and>
        (\<forall>j k'. j < length (dbs s') \<longrightarrow> visible s'' j k' = visible s' j k') \<and>
        dirty s'' = dirty s' \<and> \<not> c_multi (clients s'' ! a)))"
proof -
  obtain s' where s': "requests redisCommandTable cd rs s = Some s'" "well_formed s'" "same_size s s'" "kept a s s'"
    using well_formed_requests [OF assms(1,6,7), of cd] assms(2,8) by metis
  have m: "a < length (clients s')" "c_multi (clients s' ! a)"
    using s'(3,4) assms(2,4) by (simp_all add: same_size_def kept_def)
  have "c_dirty_cas (clients s' ! a)" if "seen s' i k \<noteq> seen s i k"
    using that s'(4) assms(3,5) unfolding kept_def by blast
  moreover have "srv_full s'" using s'(2) by (simp add: well_formed_def)
  ultimately show ?thesis using s'(1) exec_refused [OF _ m, of redisCommandTable] by auto
qed

theorem watch_protects_witness:
  "\<exists>s' s''. requests redisCommandTable open_conditions [(0, [ascii ''DEL'', key_k])] waiting_server = Some s' \<and>
     visible s' 0 key_k = None \<and> execCommand redisCommandTable 1 s' = Some s'' \<and>
     last (c_replies (clients s'' ! 1)) \<in> {NullMultiBulk, execaborterr}"
  using watch_protects [OF waiting_server_ok(1) _ _ waiting_server_ok(4,5) allowed_del, of open_conditions]
    waiting_server_ok(2,3,6) run_del by (auto split: option.splits)

text \<open>C39: A write that is refused because the server is a read-only slave (and passes the checks before that
  one) does not flag the open transaction of its client: the queue, the flags and the data stay as they
  are, so that EXEC runs the queue around the refused command.\<close>

theorem readonly_refusal_unflagged:
  assumes "c < length (clients s)" and "c_multi (clients s ! c)"
    and "masterhost s" and "repl_slave_ro cd" and "\<not> client_is_master cd"
    and "\<not> strcasecmp_eq (argv s c 0) (ascii ''quit'')" and "lookupCommand (exec_table rows) (argv s c 0) = Some row"
    and "REDIS_CMD_WRITE row" and "arity_ok (cmd_arity row) (argc s c)"
    and "authenticated cd \<or> \<not> requirepass cd" and "\<not> (stop_writes_on_bgsave_err cd \<and> lastbgsave_err cd)"
    and "repl_min_slaves_to_write cd \<le> repl_good_slaves_count cd"
  shows "\<exists>s'. processCommand (exec_table rows) cd c s = Some (True, s') \<and>
    last (c_replies (clients s' ! c)) = Error ''READONLY You can't write against a read only slave.'' \<and>
    c_multi (clients s' ! c) \<and> c_commands (clients s' ! c) = c_commands (clients s ! c) \<and>
    c_dirty_cas (clients s' ! c) = c_dirty_cas (clients s ! c) \<and>
    c_dirty_exec (clients s' ! c) = c_dirty_exec (clients s ! c) \<and> dbs s' = dbs s \<and>
    (\<not> c_dirty_cas (clients s ! c) \<longrightarrow> \<not> c_dirty_exec (clients s ! c) \<longrightarrow> execCommand rows c s' = exec_queue rows c s')"
proof -
  define s1 where "s1 = upd_client c (\<lambda>cl. cl\<lparr>c_cmd := cmd_name row, c_lastcmd := cmd_name row\<rparr>) s"
  define s2 where "s2 = addReply c (Error ''READONLY You can't write against a read only slave.'') s1"
  have m: "masterhost s1" using assms(3) by (simp add: s1_def frame_simps)
  have "command_refused cd row (c_argv (clients s ! c)) s1 = Some (''READONLY You can't write against a read only slave.'', False)"
    using assms(4,5,8,10-12) m by (auto simp: command_refused_def Let_def)
  then have e: "processCommand (exec_table rows) cd c s = Some (True, s2)"
    using assms(6,7,9) by (simp add: processCommand_def argv_def argc_def Let_def s1_def s2_def)
  have f: "clients s1 ! c = (clients s ! c)\<lparr>c_cmd := cmd_name row, c_lastcmd := cmd_name row\<rparr>" "c < length (clients s1)" "dbs s1 = dbs s"
    using assms(1) by (simp_all add: s1_def clients_upd_client frame_simps)
  have "dbs s2 = dbs s" by (simp add: s2_def addReply_def frame_simps f(3))
  then show ?thesis
    using e assms(2) last_reply [OF f(2)] by (intro exI [of _ s2]) (simp add: s2_def f(1) execCommand_def)
qed

theorem readonly_refusal_unflagged_witness:
  "\<exists>s'. request redisCommandTable (open_conditions\<lparr>repl_slave_ro := True\<rparr>) 1 [ascii ''SET'', key_k, key_k]
      (waiting_server\<lparr>masterhost := True\<rparr>) = Some (True, s') \<and>
     execCommand redisCommandTable 1 s' = exec_queue redisCommandTable 1 s'"
proof -
  define s where "s = upd_client 1 (\<lambda>cl. cl\<lparr>c_argv := [ascii ''SET'', key_k, key_k]\<rparr>) (waiting_server\<lparr>masterhost := True\<rparr>)"
  define cd where "cd = open_conditions\<lparr>repl_slave_ro := True\<rparr>"
  have "map_option (\<lambda>r. (cmd_arity r, cmd_sflags r)) (lookupCommand (exec_table redisCommandTable) (ascii ''SET'')) = Some (- 3, ''wm'')"
    by code_simp
  then obtain row where row: "lookupCommand (exec_table redisCommandTable) (ascii ''SET'') = Some row" "cmd_arity row = - 3" "cmd_sflags row = ''wm''"
    by auto
  have w: "REDIS_CMD_WRITE row" using row(3) by (simp add: REDIS_CMD_WRITE_def)
  have c: "1 < length (clients s)" "c_multi (clients s ! 1)" "masterhost s" "\<not> strcasecmp_eq (argv s 1 0) (ascii ''quit'')"
      "argv s 1 0 = ascii ''SET''" "argc s 1 = 3" "\<not> c_dirty_cas (clients s ! 1)" "\<not> c_dirty_exec (clients s ! 1)"
      "\<not> c_blocked (clients (waiting_server\<lparr>masterhost := True\<rparr>) ! 1)"
    unfolding s_def by code_simp+
  have ar: "arity_ok (cmd_arity row) (argc s 1)" unfolding row(2) c(6) by (simp add: arity_ok_def)
  have cds: "repl_slave_ro cd" "\<not> client_is_master cd" "authenticated cd \<or> \<not> requirepass cd"
      "\<not> (stop_writes_on_bgsave_err cd \<and> lastbgsave_err cd)" "repl_min_slaves_to_write cd \<le> repl_good_slaves_count cd"
    by (simp_all add: open_conditions_def cd_def)
  note r = readonly_refusal_unflagged [OF c(1-3) cds(1,2) c(4) row(1) [folded c(5)] w ar cds(3-5)]
  from r obtain s' where p: "processCommand (exec_table redisCommandTable) cd 1 s = Some (True, s')"
      "execCommand redisCommandTable 1 s' = exec_queue redisCommandTable 1 s'"
    using c(7,8) by (elim exE conjE) blast
  have "request redisCommandTable cd 1 [ascii ''SET'', key_k, key_k] (waiting_server\<lparr>masterhost := True\<rparr>) = Some (True, s')"
    unfolding request_def if_not_P [OF c(9)] s_def [symmetric] by (rule p(1))
  with p(2) show ?thesis unfolding cd_def by blast
qed

end
