(* ===== verification/Networking.thy ===== *)
theory Networking
  imports Commands
begin

text \<open>
  The life of a client (networking.c \<open>createClient\<close>, \<open>freeClient\<close>, \<open>processInputBuffer\<close>) and
  the turn of the event loop of redis.c: \<open>beforeSleep\<close> reads on the input of clients that no longer
  wait. A client is a place in the list of the server: a new client has a new place. The input of a client is
  the list of the requests it has sent and that are not yet read (Protocol parses them from bytes); an
  empty request is one without arguments. A client that has been freed has no input (\<^term>\<open>None\<close>), its
  place is blank and never used again: to take it from the list of unblocked clients is a use of freed memory,
  and fails.

  \<open>net_step\<close> is one event of the server; what holds of all states reachable from a fresh server
  follows by rule induction.
\<close>

section \<open>Clients\<close>

type_synonym inputs = "bytes list list option list"

definition new_client :: redisClient where
  "new_client = \<lparr>c_db = 0, c_argv = [], c_cmd = [], c_lastcmd = [], c_multi = False, c_dirty_cas = False,
     c_dirty_exec = False, c_commands = [], c_watched = [], c_blocked = False, c_unblocked = False, c_bpop_keys = [],
     c_bpop_timeout = 0, c_bpop_target = None, c_replies = []\<rparr>"

definition createClient :: "redisServer \<Rightarrow> redisServer" where
  "createClient s = s\<lparr>clients := clients s @ [new_client]\<rparr>"

text \<open>What freeing a client does to the server. The assertion is that a client marked as unblocked is in the list
  of unblocked clients; one entry is removed. The memory of the client goes with its input, which the
  callers below and in Protocol discard.\<close>

definition freeClient :: "nat \<Rightarrow> redisServer \<Rightarrow> redisServer option" where
  "freeClient c s = do {
     s \<leftarrow> (if c_blocked (clients s ! c) then unblockClientWaitingData c s else Some s);
     s \<leftarrow> unwatchAllKeys c s;
     s \<leftarrow> (if c_unblocked (clients s ! c)
           then if c \<in> set (unblocked_clients s) then Some (s\<lparr>unblocked_clients := remove1 c (unblocked_clients s)\<rparr>) else None
           else Some s);
     Some (upd_client c (\<lambda>_. new_client) s) }"

definition resetClient :: "nat \<Rightarrow> redisServer \<Rightarrow> redisServer" where
  "resetClient c = upd_client c (\<lambda>cl. cl\<lparr>c_argv := []\<rparr>)"

text \<open>The result is the input that is left. After QUIT the rest is never read.\<close>

fun processInputBuffer ::
  "redisCommand list \<Rightarrow> conditions \<Rightarrow> nat \<Rightarrow> bytes list list \<Rightarrow> redisServer \<Rightarrow> (bytes list list \<times> redisServer) option" where
  "processInputBuffer rows cd c [] s = Some ([], s)"
| "processInputBuffer rows cd c (av # avs) s =
     (if c_blocked (clients s ! c) then Some (av # avs, s)
      else if av = [] then processInputBuffer rows cd c avs (resetClient c s)
      else do {
        (ok, s) \<leftarrow> processCommand rows cd c (upd_client c (\<lambda>cl. cl\<lparr>c_argv := av\<rparr>) s);
        if ok then processInputBuffer rows cd c avs (resetClient c s) else Some ([], s) })"

definition take_unblocked :: "nat \<Rightarrow> nat list \<Rightarrow> redisServer \<Rightarrow> redisServer" where
  "take_unblocked c cs s = upd_client c (\<lambda>cl. cl\<lparr>c_unblocked := False\<rparr>) (s\<lparr>unblocked_clients := cs\<rparr>)"

text \<open>The fast expire cycle in front of the loop and the flush of the append only file behind it are left out.\<close>

partial_function (option) beforeSleep ::
  "redisCommand list \<Rightarrow> conditions \<Rightarrow> inputs \<Rightarrow> redisServer \<Rightarrow> (inputs \<times> redisServer) option" where
  "beforeSleep rows cd bufs s =
     (case unblocked_clients s of
        [] \<Rightarrow> Some (bufs, s)
      | c # cs \<Rightarrow>
          (case bufs ! c of
             None \<Rightarrow> None
           | Some buf \<Rightarrow>
               (case processInputBuffer rows cd c buf (take_unblocked c cs s) of
                  None \<Rightarrow> None
                | Some (buf, s) \<Rightarrow> beforeSleep rows cd (bufs[c := Some buf]) s)))"

declare beforeSleep.simps [code]

section \<open>The start\<close>

definition empty_db :: redisDb where
  "empty_db = \<lparr>db_dict = fmempty, db_expires = fmempty, db_watched = fmempty, db_blocking = fmempty, db_ready = {||}\<rparr>"

text \<open>The configuration has been read before; the clocks are those of the machine.\<close>

definition initServer :: "nat \<Rightarrow> u64 \<Rightarrow> u64 \<Rightarrow> redisServer \<Rightarrow> redisServer" where
  "initServer dbnum now ms s = s\<lparr>clients := [], unblocked_clients := [], ready_keys := [],
     dbs := replicate dbnum empty_db, dirty := 0, stat_expiredkeys := 0, stat_misses := 0, stat_hits := 0,
     unixtime := now, mstime := ms\<rparr>"

section \<open>Events\<close>

abbreviation table :: "redisCommand list" where "table \<equiv> exec_table redisCommandTable"

definition readable :: "nat \<Rightarrow> bytes list \<Rightarrow> bool" where
  "readable c av \<longleftrightarrow> av = [] \<or> allowed redisCommandTable safe_names (c, av)"

text \<open>A client connects, sends requests, times out or is freed; the loop goes to sleep; time passes. The
  conditions of a request may differ from one event to the next.\<close>

inductive net_step :: "inputs \<times> redisServer \<Rightarrow> inputs \<times> redisServer \<Rightarrow> bool" where
  accept: "net_step (bufs, s) (bufs @ [Some []], createClient s)"
| read: "c < length (clients s) \<Longrightarrow> bufs ! c = Some b \<Longrightarrow> list_all (readable c) avs \<Longrightarrow>
    processInputBuffer table cd c (b @ avs) s = Some (buf, s') \<Longrightarrow> net_step (bufs, s) (bufs[c := Some buf], s')"
| timeout: "c < length (clients s) \<Longrightarrow> bufs ! c = Some b \<Longrightarrow> clientsCronHandleTimeout c s = Some s' \<Longrightarrow>
    net_step (bufs, s) (bufs, s')"
| free: "c < length (clients s) \<Longrightarrow> bufs ! c = Some b \<Longrightarrow> freeClient c s = Some s' \<Longrightarrow> net_step (bufs, s) (bufs[c := None], s')"
| sleep: "beforeSleep table cd bufs s = Some (bufs', s') \<Longrightarrow> net_step (bufs, s) (bufs', s')"
| clock: "net_step (bufs, s) (bufs, s\<lparr>unixtime := now, mstime := ms\<rparr>)"

inductive_cases net_stepE: "net_step st st'"

text \<open>What is kept of the input and the place of a client: a client that has been freed waits for nothing and watches nothing.\<close>

definition place_ok :: "nat \<Rightarrow> inputs \<times> redisServer \<Rightarrow> bool" where
  "place_ok c st \<longleftrightarrow>
     (fst st ! c = None \<longrightarrow> c_watched (clients (snd st) ! c) = [] \<and> \<not> c_blocked (clients (snd st) ! c)) \<and>
     (\<forall>b. fst st ! c = Some b \<longrightarrow> list_all (readable c) b)"

definition net_ok :: "inputs \<times> redisServer \<Rightarrow> bool" where
  "net_ok st \<longleftrightarrow> (case st of (bufs, s) \<Rightarrow> well_formed s \<and> dbs s \<noteq> [] \<and> length bufs = length (clients s) \<and>
     (\<forall>c < length bufs. place_ok c (bufs, s)))"

text \<open>No client that has been freed is left in the list of unblocked clients.\<close>

definition listed_live :: "inputs \<times> redisServer \<Rightarrow> bool" where
  "listed_live st \<longleftrightarrow> (\<forall>c \<in> set (unblocked_clients (snd st)). fst st ! c \<noteq> None)"

section \<open>Clients come and go\<close>

lemma new_client_simps [simp]:
  "c_watched new_client = []" "c_bpop_keys new_client = []" "c_blocked new_client = False" "c_unblocked new_client = False"
  "c_commands new_client = []" "c_db new_client = 0"
  by (simp_all add: new_client_def)

lemma createClient_ok:
  assumes "well_formed s" and "dbs s \<noteq> []"
  shows "well_formed (createClient s)"
proof -
  let ?s = "createClient s" and ?n = "length (clients s)"
  have ok: "srv_ok s" "\<forall>i k. \<not> hollow_at s i k" and q: "queues_ok redisCommandTable safe_names s"
    using assms(1) by (simp_all add: well_formed_def srv_full_def)
  have f: "dbs ?s = dbs s" "ready_keys ?s = ready_keys s" "unblocked_clients ?s = unblocked_clients s"
      "length (clients ?s) = Suc ?n" "set (clients ?s) = insert new_client (set (clients s))"
    by (simp_all add: createClient_def)
  have cl: "clients ?s ! a = (if a < ?n then clients s ! a else new_client)" if "a < Suc ?n" for a
    using that by (auto simp: createClient_def nth_append less_Suc_eq)
  have w: "watches ?s a i k \<longleftrightarrow> a < ?n \<and> watches s a i k" "waits ?s a i k \<longleftrightarrow> a < ?n \<and> waits s a i k"
    if "a < Suc ?n" for a i k using cl [OF that] by (simp_all add: watches_def waits_def)
  have S: "{a. a < Suc ?n \<and> watches ?s a i k} = {a. a < ?n \<and> watches s a i k}"
      "{a. a < Suc ?n \<and> waits ?s a i k} = {a. a < ?n \<and> waits s a i k}"
      "(\<forall>a < Suc ?n. \<not> watches ?s a i k) = (\<forall>a < ?n. \<not> watches s a i k)" for i k
    using w by auto
  have "watch_ok ?s" using ok(1) unfolding srv_ok_def watch_ok_def f S by simp
  moreover have "wlist ?s i k = wlist s i k" for i k by (simp add: wlist_def f)
  then have "waits_ok ?s"
    using ok(1) unfolding srv_ok_def blocking_iff waits_ok_def f S by (simp add: cl)
  moreover have "unblocked_ok ?s"
    using ok(1) unfolding srv_ok_def blocking_iff unblocked_ok_def f by (auto simp: cl)
  moreover have "c_blocked (clients ?s ! a) \<longleftrightarrow> c_bpop_keys (clients ?s ! a) \<noteq> []" if "a < Suc ?n" for a
    using ok(1) cl that by (simp add: srv_ok_def blocking_iff)
  moreover have "clients_ok ?s" using ok(1) assms(2) by (simp add: srv_ok_def clients_ok_def f)
  ultimately have "srv_full ?s"
    using ok by (simp add: srv_full_def srv_ok_def expires_ok_def objects_ok_def hollow_at_def blocking_iff f)
  moreover have "queues_ok redisCommandTable safe_names ?s"
    using q by (auto simp: queues_ok_def queue_ok_def f)
  ultimately show ?thesis using assms(1) by (simp add: well_formed_def ready_ok_def f)
qed

text \<open>A client that neither waits nor watches and is not marked leaves a blank place.\<close>

lemma blank_ok:
  assumes ok: "srv_full s" and q: "queues_ok redisCommandTable safe_names s" and rd: "ready_ok s"
    and c: "c < length (clients s)" and cl: "c_watched (clients s ! c) = []" "\<not> c_blocked (clients s ! c)"
    and ub: "set us \<subseteq> set (unblocked_clients s)" "\<forall>a. a \<noteq> c \<longrightarrow> a \<in> set (unblocked_clients s) \<longrightarrow> a \<in> set us"
  shows "srv_full (upd_client c (\<lambda>_. new_client) (s\<lparr>unblocked_clients := us\<rparr>)) \<and>
    queues_ok redisCommandTable safe_names (upd_client c (\<lambda>_. new_client) (s\<lparr>unblocked_clients := us\<rparr>)) \<and>
    ready_ok (upd_client c (\<lambda>_. new_client) (s\<lparr>unblocked_clients := us\<rparr>))"
proof -
  let ?s = "upd_client c (\<lambda>_. new_client) (s\<lparr>unblocked_clients := us\<rparr>)"
  have so: "srv_ok s" by (rule srv_full_ok [OF ok])
  have f: "dbs ?s = dbs s" "ready_keys ?s = ready_keys s" "length (clients ?s) = length (clients s)" "unblocked_clients ?s = us"
    by (simp_all add: upd_client_def)
  have a: "clients ?s ! a = (if a = c then new_client else clients s ! a)" for a
    using c by (simp add: upd_client_def)
  have k: "c_bpop_keys (clients s ! c) = []" using so c cl(2) by (simp add: srv_ok_def blocking_iff)
  have "same_watches s ?s" using cl(1) by (simp add: same_watches_def f a)
  then have "watch_ok ?s" using so watch_ok_cong by (auto simp: srv_ok_def)
  moreover have "waits ?s b i j = waits s b i j" for b i j using k by (simp add: waits_def a)
  then have "waits_ok ?s"
    using so unfolding srv_ok_def blocking_iff waits_ok_def f wlist_def by (auto simp: a)
  moreover have "c_blocked (clients ?s ! b) \<longleftrightarrow> c_bpop_keys (clients ?s ! b) \<noteq> []" if "b < length (clients s)" for b
    using so that by (simp add: srv_ok_def blocking_iff a)
  moreover have "unblocked_ok ?s"
    using so ub unfolding srv_ok_def blocking_iff unblocked_ok_def f by (auto simp: a)
  moreover have "0 < length (dbs s)" using so c by (fastforce simp: srv_ok_def clients_ok_def all_set_conv_all_nth)
  then have "clients_ok ?s" using so by (simp add: srv_ok_def clients_ok_def all_set_conv_all_nth f a)
  ultimately have "srv_full ?s"
    using ok so by (simp add: srv_full_def srv_ok_def expires_ok_def objects_ok_def hollow_at_def blocking_iff f)
  moreover have "queues_ok redisCommandTable safe_names ?s"
    using q by (simp add: queues_ok_def queue_ok_def all_set_conv_all_nth f a)
  moreover have "ready_ok ?s" using rd by (simp add: ready_ok_def f)
  ultimately show ?thesis by blast
qed

text \<open>A step of a client between two requests keeps the server well formed.\<close>

lemma well_formed_step:
  assumes "well_formed s" and "step_ok c s s'" and "ready_keys s' = ready_keys s" and "c < length (clients s)"
    and "c_commands (clients s' ! c) = c_commands (clients s ! c)"
  shows "well_formed s'"
proof -
  have "queue_ok redisCommandTable safe_names (c_commands (clients s ! c))"
    using assms(1,4) by (simp add: well_formed_def queues_ok_def all_set_conv_all_nth)
  then have "queues_ok redisCommandTable safe_names s'"
    using redis.queues_okI [OF _ assms(2)] assms(1,5) by (simp add: well_formed_def)
  then show ?thesis using assms(1-3) by (simp add: well_formed_def step_ok_def)
qed

lemma wait_step_well_formed:
  assumes "well_formed s" and "wait_step c s s'" and "blocking_ok s'" and "c < length (clients s)"
  shows "well_formed s'"
  using well_formed_step [OF assms(1) wait_step_ok [OF _ assms(2,3)] _ assms(4)] assms(1,2)
    wait_fieldsD(4) [OF wait_step_client [OF assms(2)]]
  by (simp add: well_formed_def wait_step_def same_data_def)

lemma well_formed_unblock:
  assumes wf: "well_formed s" and c: "c < length (clients s)" and b: "c_blocked (clients s ! c)"
  obtains s' where "unblockClientWaitingData c s = Some s'" and "well_formed s'" and "step_ok c s s'"
    and "\<not> c_blocked (clients s' ! c)" and "unblocked_clients s' = unblocked_clients s @ [c]" and "c_unblocked (clients s' ! c)"
proof -
  have full: "srv_full s" using wf by (simp add: well_formed_def)
  have bo: "blocking_ok s" and i: "cur_db s c < length (dbs s)"
    using srv_full_ok [OF full] c by (simp_all add: srv_ok_def clients_ok_def cur_db_def all_set_conv_all_nth)
  obtain s' where s': "unblockClientWaitingData c s = Some s'" "wait_step c s s'" "blocking_ok s'"
      "\<forall>j k. j < length (dbs s) \<longrightarrow> wlist s' j k = remove1 c (wlist s j k)" "\<not> c_blocked (clients s' ! c)"
      "nblocked s' < nblocked s" "unblocked_clients s' = unblocked_clients s @ [c]"
    by (rule unblock_ok [OF bo c i b])
  have "c < length (clients s')" using c wait_step_len [OF s'(2)] by simp
  then have "c_unblocked (clients s' ! c)" using s'(1)
    by (auto simp: unblockClientWaitingData_def Let_def bind_eq_Some_conv clients_upd_client upd_client_def split: if_splits)
  then show thesis using that s' wait_step_well_formed [OF wf s'(2,3) c] wait_step_ok [OF full s'(2,3)] by blast
qed

lemma unwatch_well_formed:
  assumes wf: "well_formed s" and c: "c < length (clients s)"
  obtains s' where "unwatchAllKeys c s = Some s'" and "well_formed s'" and "step_ok c s s'"
    and "c_watched (clients s' ! c) = []" and "c_blocked (clients s' ! c) = c_blocked (clients s ! c)"
    and "c_unblocked (clients s' ! c) = c_unblocked (clients s ! c)" and "unblocked_clients s' = unblocked_clients s"
proof -
  have full: "srv_full s" using wf by (simp add: well_formed_def)
  obtain s' where s': "unwatchAllKeys c s = Some s'" "step_ok c s s'" "only_watches s s'" "c_watched (clients s' ! c) = []"
    by (rule unwatchAllKeys_step [OF full c])
  have "s'\<lparr>dbs := [], clients := []\<rparr> = s\<lparr>dbs := [], clients := []\<rparr>" using s'(3) by (simp add: only_watches_def)
  from arg_cong [OF this, of ready_keys] arg_cong [OF this, of unblocked_clients]
  have r: "ready_keys s' = ready_keys s" "unblocked_clients s' = unblocked_clients s" by simp_all
  note f = only_watches_fields [OF s'(3) c]
  have u: "c_unblocked (clients s' ! c) = c_unblocked (clients s ! c)"
    using arg_cong [OF only_watchesD(5) [OF s'(3) c], of c_unblocked] by simp
  show thesis by (rule that [OF s'(1) well_formed_step [OF wf s'(2) r(1) c f(1)] s'(2,4) f(9) u r(2)])
qed

lemma freeClient_ok:
  assumes wf: "well_formed s" and c: "c < length (clients s)"
  obtains s' where "freeClient c s = Some s'" and "well_formed s'" and "length (clients s') = length (clients s)"
    and "length (dbs s') = length (dbs s)" and "clients s' ! c = new_client"
    and "\<forall>a < length (clients s). a \<noteq> c \<longrightarrow> kept a s s'"
    and "c \<notin> set (unblocked_clients s) \<longrightarrow> c \<notin> set (unblocked_clients s')"
proof -
  have "unblocked_ok s" using wf by (simp add: well_formed_def srv_full_def srv_ok_def blocking_iff)
  then have flag: "c_unblocked (clients s ! c) \<longrightarrow> c \<in> set (unblocked_clients s)" using c by (simp add: unblocked_ok_def)
  obtain s1 where s1: "(if c_blocked (clients s ! c) then unblockClientWaitingData c s else Some s) = Some s1"
      "well_formed s1" "step_ok c s s1" "\<not> c_blocked (clients s1 ! c)"
      "unblocked_clients s1 = unblocked_clients s @ [c] \<and> c_unblocked (clients s1 ! c) \<or>
       unblocked_clients s1 = unblocked_clients s \<and> c_unblocked (clients s1 ! c) = c_unblocked (clients s ! c)"
  proof (cases "c_blocked (clients s ! c)")
    case True
    then show ?thesis using well_formed_unblock [OF wf c] that by metis
  next
    case False
    then show ?thesis using that [of s] wf by (simp add: step_ok_refl well_formed_def)
  qed
  have c1: "c < length (clients s1)" using c step_ok_len [OF s1(3)] by simp
  obtain s2 where s2: "unwatchAllKeys c s1 = Some s2" "well_formed s2" "step_ok c s1 s2"
      "c_watched (clients s2 ! c) = []" "c_blocked (clients s2 ! c) = c_blocked (clients s1 ! c)"
      "c_unblocked (clients s2 ! c) = c_unblocked (clients s1 ! c)" "unblocked_clients s2 = unblocked_clients s1"
    by (rule unwatch_well_formed [OF s1(2) c1])
  note st = step_ok_trans [OF s1(3) s2(3)]
  have c2: "c < length (clients s2)" using c1 step_ok_len [OF s2(3)] by simp
  have len: "length (clients s2) = length (clients s)" "length (dbs s2) = length (dbs s)"
    using st by (simp_all add: step_ok_def same_size_def)
  define us where "us = (if c_unblocked (clients s2 ! c) then remove1 c (unblocked_clients s2) else unblocked_clients s2)"
  define s3 where "s3 = upd_client c (\<lambda>_. new_client) (s2\<lparr>unblocked_clients := us\<rparr>)"
  have "unblocked_ok s2" using s2(2) by (simp add: well_formed_def srv_full_def srv_ok_def blocking_iff)
  then have "c_unblocked (clients s2 ! c) \<longrightarrow> c \<in> set (unblocked_clients s2)" using c2 by (simp add: unblocked_ok_def)
  then have e: "freeClient c s = Some s3"
    using s1(1) s2(1) by (simp add: freeClient_def s3_def us_def)
  have us: "set us \<subseteq> set (unblocked_clients s2)" "\<forall>a. a \<noteq> c \<longrightarrow> a \<in> set (unblocked_clients s2) \<longrightarrow> a \<in> set us"
    using set_remove1_subset [of c "unblocked_clients s2"] by (auto simp: us_def)
  then have "srv_full s3 \<and> queues_ok redisCommandTable safe_names s3 \<and> ready_ok s3"
    unfolding s3_def using s2(2,4,5) s1(4) c2 by (intro blank_ok) (simp_all add: well_formed_def)
  moreover have "ready_keys s3 = []" using s2(2) by (simp add: s3_def frame_simps well_formed_def)
  ultimately have wf3: "well_formed s3" by (simp add: well_formed_def)
  have v: "visible s3 j k = visible s2 j k" for j k
    by (rule same_dbs_visible) (simp_all add: s3_def frame_simps)
  have k: "kept a s s3" if "a < length (clients s)" "a \<noteq> c" for a
  proof (rule kept_trans)
    show "kept a s s2" using st that by (simp add: step_ok_def)
    show "kept a s2 s3" using that us(1) c2 by (auto simp: kept_def v) (auto simp: s3_def upd_client_def)
  qed (rule len(2))
  have n: "c \<notin> set us" if "c \<notin> set (unblocked_clients s)"
    using that s1(5) s2(6,7) flag by (auto simp: us_def remove1_append)
  show thesis by (rule that [OF e wf3]) (use len c2 k n in \<open>simp_all add: s3_def upd_client_def\<close>)
qed

lemma timeout_well_formed:
  assumes wf: "well_formed s" and c: "c < length (clients s)"
  obtains s' where "clientsCronHandleTimeout c s = Some s'" and "well_formed s'" and "step_ok c s s'"
proof -
  have full: "srv_full s" using wf by (simp add: well_formed_def)
  define s1 where "s1 = addReply c NullMultiBulk s"
  have st: "step_ok c s s1" unfolding s1_def by (rule log_step(1) [OF full])
  have wf1: "well_formed s1" by (rule well_formed_step [OF wf st _ c]) (simp_all add: s1_def addReply_def [of _ NullMultiBulk] frame_simps client_field_upd)
  show thesis
  proof (cases "c_blocked (clients s ! c) \<and> c_bpop_timeout (clients s ! c) \<noteq> 0 \<and> sint (c_bpop_timeout (clients s ! c)) < sint (unixtime s)")
    case True
    then have "c < length (clients s1)" "c_blocked (clients s1 ! c)" using c by (simp_all add: s1_def)
    then obtain s2 where s2: "unblockClientWaitingData c s1 = Some s2" "well_formed s2" "step_ok c s1 s2"
        "\<not> c_blocked (clients s2 ! c)"
      by (rule well_formed_unblock [OF wf1])
    then show ?thesis using that [of s2] True step_ok_trans [OF st] by (simp add: clientsCronHandleTimeout_def s1_def)
  next
    case False
    then show ?thesis using that [of s] wf step_ok_refl [OF full] by (auto simp: clientsCronHandleTimeout_def Let_def)
  qed
qed

section \<open>Reading the input\<close>

lemma reset_ok:
  assumes "well_formed s" and "c < length (clients s)"
  shows "well_formed (resetClient c s)" and "step_ok c s (resetClient c s)"
proof -
  show st: "step_ok c s (resetClient c s)"
    unfolding resetClient_def by (rule own_step) (use assms in \<open>simp_all add: well_formed_def\<close>)
  show "well_formed (resetClient c s)"
    by (rule well_formed_step [OF assms(1) st _ assms(2)]) (simp_all add: resetClient_def frame_simps client_field_upd)
qed

lemma processInputBuffer_ok:
  assumes "well_formed s" and "c < length (clients s)" and "list_all (readable c) avs"
  shows "\<exists>buf s'. processInputBuffer table cd c avs s = Some (buf, s') \<and> well_formed s' \<and> step_ok c s s' \<and>
    set buf \<subseteq> set avs \<and> (length buf < length avs \<or> buf = avs \<and> s' = s)"
  using assms
proof (induction avs arbitrary: s)
  case Nil
  then show ?case by (simp add: step_ok_refl well_formed_def)
next
  case (Cons av avs)
  have full: "srv_full s" using Cons.prems(1) by (simp add: well_formed_def)
  have rest: "\<exists>buf s'. processInputBuffer table cd c avs (resetClient c s1) = Some (buf, s') \<and> well_formed s' \<and>
      step_ok c s s' \<and> set buf \<subseteq> set (av # avs) \<and> length buf < length (av # avs)"
    if s1: "well_formed s1" "step_ok c s s1" for s1
  proof -
    have c1: "c < length (clients s1)" using Cons.prems(2) step_ok_len [OF s1(2)] by simp
    note r = reset_ok [OF s1(1) c1]
    have c2: "c < length (clients (resetClient c s1))" using c1 step_ok_len [OF r(2)] by simp
    obtain buf s' where b: "processInputBuffer table cd c avs (resetClient c s1) = Some (buf, s')" "well_formed s'"
        "step_ok c (resetClient c s1) s'" "set buf \<subseteq> set avs" "length buf \<le> length avs"
      using Cons.IH [OF r(1) c2] Cons.prems(3) by fastforce
    then show ?thesis using step_ok_trans [OF step_ok_trans [OF s1(2) r(2)] b(3)] by auto
  qed
  show ?case
  proof (cases "c_blocked (clients s ! c)")
    case True
    then show ?thesis using Cons.prems(1) by (simp add: step_ok_refl full)
  next
    case nb: False
    show ?thesis
    proof (cases "av = []")
      case True
      then show ?thesis using rest [OF Cons.prems(1) step_ok_refl [OF full]] nb by auto
    next
      case False
      then have "allowed redisCommandTable safe_names (c, av)" using Cons.prems(3) by (simp add: readable_def)
      then obtain ok s1 where s1: "request redisCommandTable cd c av s = Some (ok, s1)" "well_formed s1" "step_ok c s s1"
        by (rule well_formed_request [OF Cons.prems(1,2)])
      then have "processInputBuffer table cd c (av # avs) s =
          (if ok then processInputBuffer table cd c avs (resetClient c s1) else Some ([], s1))"
        using nb False by (simp add: request_def)
      then show ?thesis using rest [OF s1(2,3)] s1(2,3) by (cases ok) auto
    qed
  qed
qed

section \<open>A turn of the event loop\<close>

lemma take_unblocked_ok:
  assumes wf: "well_formed s" and u: "unblocked_clients s = c # cs"
  shows "well_formed (take_unblocked c cs s)" and "step_ok c s (take_unblocked c cs s)"
    and "c < length (clients s)" and "unblocked_clients (take_unblocked c cs s) = cs"
proof -
  let ?s = "take_unblocked c cs s"
  have full: "srv_full s" and bo: "blocking_ok s" using wf by (simp_all add: well_formed_def srv_full_def srv_ok_def)
  show c: "c < length (clients s)" using bo u by (simp add: blocking_iff unblocked_ok_def)
  have f: "dbs ?s = dbs s" "length (clients ?s) = length (clients s)" "ready_keys ?s = ready_keys s" "same_size s ?s"
    by (simp_all add: take_unblocked_def upd_client_def same_size_def)
  show us: "unblocked_clients ?s = cs" by (simp add: take_unblocked_def upd_client_def)
  have cl: "clients ?s ! a = (if a = c then (clients s ! c)\<lparr>c_unblocked := False\<rparr> else clients s ! a)" for a
    using c by (simp add: take_unblocked_def upd_client_def)
  have "wlist ?s i k = wlist s i k" "waits ?s a i k = waits s a i k" for i k a by (simp_all add: wlist_def waits_def f cl)
  then have "waits_ok ?s" using bo by (simp add: blocking_iff waits_ok_def f cl)
  moreover have "unblocked_ok ?s" using bo u by (auto simp: blocking_iff unblocked_ok_def f us cl)
  ultimately have bo': "blocking_ok ?s" using bo by (simp add: blocking_iff f cl)
  have w: "wait_step c s ?s" using f(4) us u by (simp add: wait_step_def same_data_def f cl wait_fields_def)
  show "well_formed ?s" by (rule wait_step_well_formed [OF wf w bo' c])
  show "step_ok c s ?s" by (rule wait_step_ok [OF full w bo'])
qed

lemma net_okD:
  assumes "net_ok (bufs, s)"
  shows "well_formed s" and "dbs s \<noteq> []" and "length bufs = length (clients s)"
    and "c < length (clients s) \<Longrightarrow> place_ok c (bufs, s)"
    and "c < length (clients s) \<Longrightarrow> bufs ! c = Some b \<Longrightarrow> list_all (readable c) b"
  using assms by (simp_all add: net_ok_def place_ok_def)

text \<open>A step of client \<open>c\<close> on the server leaves the other places as they are.\<close>

lemma place_kept:
  assumes "place_ok a (bufs, s)" and "kept a s s'" and "bufs' ! a = bufs ! a"
  shows "place_ok a (bufs', s')"
  using assms by (auto simp: place_ok_def kept_def)

lemma listed_kept:
  assumes "listed_live (bufs, s)" and "net_ok (bufs, s)" and "length (clients s') = length (clients s)"
    and k: "\<forall>a < length (clients s). a \<noteq> c \<longrightarrow> kept a s s' \<and> bufs' ! a = bufs ! a"
    and c: "c \<in> set (unblocked_clients s') \<longrightarrow> bufs' ! c \<noteq> None" and "blocking_ok s'"
  shows "listed_live (bufs', s')"
  unfolding listed_live_def fst_conv snd_conv
proof
  fix a
  assume a: "a \<in> set (unblocked_clients s')"
  then have l: "a < length (clients s)" using assms(3,6) by (auto simp: blocking_iff unblocked_ok_def)
  show "bufs' ! a \<noteq> None"
  proof (cases "a = c")
    case False
    then have "a \<in> set (unblocked_clients s) \<or> c_blocked (clients s ! a)" "bufs' ! a = bufs ! a"
      using k l a by (auto simp: kept_def)
    then show ?thesis using assms(1) net_okD(4) [OF assms(2) l] by (auto simp: listed_live_def place_ok_def)
  qed (use a c in simp)
qed

lemma well_formed_blocking: "well_formed s \<Longrightarrow> blocking_ok s"
  by (simp add: well_formed_def srv_full_def srv_ok_def)

lemma net_ok_update:
  assumes n: "net_ok (bufs, s)" and wf: "well_formed s'" and st: "step_ok c s s'" and "set buf \<subseteq> set b \<union> set avs"
    and "list_all (readable c) avs" and c: "c < length (clients s)" "bufs ! c = Some b"
  shows "net_ok (bufs[c := Some buf], s')" and "listed_live (bufs, s) \<Longrightarrow> listed_live (bufs[c := Some buf], s')"
proof -
  have sz: "length (dbs s') = length (dbs s)" "length (clients s') = length (clients s)"
    and k: "\<forall>a < length (clients s). a \<noteq> c \<longrightarrow> kept a s s'"
    using st by (simp_all add: step_ok_def same_size_def)
  have "list_all (readable c) buf" using net_okD(5) [OF n c] assms(4,5) by (auto simp: list_all_iff)
  then have "place_ok c (bufs[c := Some buf], s')" using c(1) net_okD(3) [OF n] by (simp add: place_ok_def)
  then have "place_ok a (bufs[c := Some buf], s')" if "a < length bufs" for a
    using that k place_kept [OF net_okD(4) [OF n], of a s' "bufs[c := Some buf]"] net_okD(3) [OF n] by (cases "a = c") auto
  then show "net_ok (bufs[c := Some buf], s')" using n wf sz by (auto simp: net_ok_def)
  show "listed_live (bufs, s) \<Longrightarrow> listed_live (bufs[c := Some buf], s')"
    by (rule listed_kept [OF _ n sz(2), where c = c]) (use k c net_okD(3) [OF n] well_formed_blocking [OF wf] in auto)
qed

lemma read_ok:
  assumes n: "net_ok (bufs, s)" and c: "c < length (clients s)" "bufs ! c = Some b" and avs: "list_all (readable c) avs"
  obtains buf s' where "processInputBuffer table cd c (b @ avs) s = Some (buf, s')"
    and "net_ok (bufs[c := Some buf], s')" and "listed_live (bufs, s) \<longrightarrow> listed_live (bufs[c := Some buf], s')"
    and "length buf < length (b @ avs) \<or> buf = b @ avs \<and> s' = s" and "same_size s s'"
proof -
  have "list_all (readable c) (b @ avs)" using net_okD(5) [OF n c] avs by simp
  then obtain buf s' where p: "processInputBuffer table cd c (b @ avs) s = Some (buf, s')" "well_formed s'" "step_ok c s s'"
      "set buf \<subseteq> set (b @ avs)" "length buf < length (b @ avs) \<or> buf = b @ avs \<and> s' = s"
    using processInputBuffer_ok [OF net_okD(1) [OF n] c(1)] by blast
  note u = net_ok_update [OF n p(2,3) _ avs c, of buf]
  show thesis by (rule that [OF p(1) u(1)]) (use p(3-5) u(2) in \<open>auto simp: step_ok_def\<close>)
qed

definition unread :: "inputs \<Rightarrow> nat" where
  "unread bufs = sum_list (map (\<lambda>b. case b of None \<Rightarrow> 0 | Some b \<Rightarrow> length b) bufs)"

lemma unread_update:
  assumes "c < length bufs" and "bufs ! c = Some b" and "length buf < length b"
  shows "unread (bufs[c := Some buf]) < unread bufs"
  using assms elem_le_sum_list [of c "map (\<lambda>b. case b of None \<Rightarrow> 0 | Some b \<Rightarrow> length b) bufs"]
  by (simp add: unread_def map_update sum_list_update)

text \<open>Every round either takes a client from the list or reads some input.\<close>

lemma beforeSleep_ok:
  assumes "net_ok (bufs, s)" and "listed_live (bufs, s)"
  shows "\<exists>bufs' s'. beforeSleep table cd bufs s = Some (bufs', s') \<and> net_ok (bufs', s') \<and> listed_live (bufs', s') \<and>
    unblocked_clients s' = [] \<and> same_size s s'"
  using assms
proof (induction "(unread bufs, length (unblocked_clients s))" arbitrary: bufs s
    rule: wf_induct_rule [OF wf_lex_prod [OF wf_less_than wf_less_than]])
  case (1 bufs s)
  show ?case
  proof (cases "unblocked_clients s")
    case Nil
    then show ?thesis using 1(2,3) by (subst beforeSleep.simps) simp
  next
    case (Cons c cs)
    let ?s1 = "take_unblocked c cs s"
    note t = take_unblocked_ok [OF net_okD(1) [OF 1(2)] Cons]
    obtain b where b: "bufs ! c = Some b" using 1(3) Cons by (auto simp: listed_live_def)
    have bb: "bufs[c := Some b] = bufs" using b by (simp add: list_update_same_conv net_okD(3) [OF 1(2)] t(3))
    note u = net_ok_update [OF 1(2) t(1,2) _ _ t(3) b, of b "[]", unfolded bb]
    have n1: "net_ok (bufs, ?s1)" "listed_live (bufs, ?s1)" using u 1(3) by simp_all
    have sz: "same_size s ?s1" using t(2) by (simp add: step_ok_def)
    then have c1: "c < length (clients ?s1)" using t(3) by (simp add: same_size_def)
    obtain buf s2 where r: "processInputBuffer table cd c (b @ []) ?s1 = Some (buf, s2)" "net_ok (bufs[c := Some buf], s2)"
        "listed_live (bufs, ?s1) \<longrightarrow> listed_live (bufs[c := Some buf], s2)"
        "length buf < length (b @ []) \<or> buf = b @ [] \<and> s2 = ?s1" "same_size ?s1 s2"
      by (rule read_ok [OF n1(1) c1 b, of "[]" cd]) simp_all
    have c2: "c < length bufs" using net_okD(3) [OF n1(1)] c1 by simp
    have "((unread (bufs[c := Some buf]), length (unblocked_clients s2)),
        (unread bufs, length (unblocked_clients s))) \<in> less_than <*lex*> less_than"
      using r(4) unread_update [OF c2 b, of buf] Cons t(4) bb by auto
    from 1(1) [OF this r(2)] n1(2) r(3) obtain bufs' s' where r2: "beforeSleep table cd (bufs[c := Some buf]) s2 = Some (bufs', s')"
        "net_ok (bufs', s')" "listed_live (bufs', s')" "unblocked_clients s' = []" "same_size s2 s'" by blast
    have "beforeSleep table cd bufs s = Some (bufs', s')"
      using Cons b r(1) r2(1) by (subst beforeSleep.simps) simp
    then show ?thesis using r2(2-4) same_size_trans [OF same_size_trans [OF sz r(5)] r2(5)] by blast
  qed
qed

text \<open>Whenever the turn of the loop ends, it has kept the invariant.\<close>

lemma beforeSleep_net_ok:
  "beforeSleep table cd bufs s = Some (bufs', s') \<Longrightarrow> net_ok (bufs, s) \<Longrightarrow> net_ok (bufs', s')"
proof (induction "(unread bufs, length (unblocked_clients s))" arbitrary: bufs s
    rule: wf_induct_rule [OF wf_lex_prod [OF wf_less_than wf_less_than]])
  case (1 bufs s)
  show ?case
  proof (cases "unblocked_clients s")
    case Nil
    then show ?thesis using 1(2,3) by (subst (asm) beforeSleep.simps) simp
  next
    case (Cons c cs)
    let ?s1 = "take_unblocked c cs s"
    note t = take_unblocked_ok [OF net_okD(1) [OF 1(3)] Cons]
    show ?thesis
    proof (cases "bufs ! c")
      case None
      then show ?thesis using 1(2) Cons by (subst (asm) beforeSleep.simps) simp
    next
      case b: (Some b)
      have bb: "bufs[c := Some b] = bufs" using b by (simp add: list_update_same_conv net_okD(3) [OF 1(3)] t(3))
      have n1: "net_ok (bufs, ?s1)" using net_ok_update(1) [OF 1(3) t(1,2) _ _ t(3) b, of b "[]", unfolded bb] by simp
      have c1: "c < length (clients ?s1)" using t(2,3) by (simp add: step_ok_def same_size_def)
      obtain buf s2 where r: "processInputBuffer table cd c (b @ []) ?s1 = Some (buf, s2)" "net_ok (bufs[c := Some buf], s2)"
          "length buf < length (b @ []) \<or> buf = b @ [] \<and> s2 = ?s1"
        by (rule read_ok [OF n1 c1 b, of "[]" cd]) simp_all
      have c2: "c < length bufs" using net_okD(3) [OF n1] c1 by simp
      have "((unread (bufs[c := Some buf]), length (unblocked_clients s2)),
          (unread bufs, length (unblocked_clients s))) \<in> less_than <*lex*> less_than"
        using r(3) unread_update [OF c2 b, of buf] Cons t(4) bb by auto
      moreover have "beforeSleep table cd (bufs[c := Some buf]) s2 = Some (bufs', s')"
        using 1(2) Cons b r(1) by (subst (asm) beforeSleep.simps) simp
      ultimately show ?thesis using 1(1) r(2) by blast
    qed
  qed
qed

section \<open>Reachable states\<close>

lemma net_ok_free:
  assumes n: "net_ok (bufs, s)" and c: "c < length (clients s)"
  obtains s' where "freeClient c s = Some s'" and "net_ok (bufs[c := None], s')"
    and "listed_live (bufs, s) \<Longrightarrow> c \<notin> set (unblocked_clients s) \<Longrightarrow> listed_live (bufs[c := None], s')"
proof -
  obtain s' where f: "freeClient c s = Some s'" "well_formed s'" "length (clients s') = length (clients s)"
      "length (dbs s') = length (dbs s)" "clients s' ! c = new_client" "\<forall>a < length (clients s). a \<noteq> c \<longrightarrow> kept a s s'"
      "c \<notin> set (unblocked_clients s) \<longrightarrow> c \<notin> set (unblocked_clients s')"
    by (rule freeClient_ok [OF net_okD(1) [OF n] c])
  have "place_ok a (bufs[c := None], s')" if "a < length bufs" for a
    using that f(5,6) place_kept [OF net_okD(4) [OF n], of a s' "bufs[c := None]"] net_okD(3) [OF n]
    by (cases "a = c") (auto simp: place_ok_def)
  then have "net_ok (bufs[c := None], s')" using n f(2-4) by (auto simp: net_ok_def)
  moreover have "listed_live (bufs[c := None], s')" if "listed_live (bufs, s)" "c \<notin> set (unblocked_clients s)"
    by (rule listed_kept [OF that(1) n f(3), where c = c]) (use that f(6,7) well_formed_blocking [OF f(2)] in auto)
  ultimately show thesis using that f(1) by blast
qed

lemma net_ok_timeout:
  assumes n: "net_ok (bufs, s)" and c: "c < length (clients s)" "bufs ! c = Some b"
  obtains s' where "clientsCronHandleTimeout c s = Some s'" and "net_ok (bufs, s')"
    and "listed_live (bufs, s) \<Longrightarrow> listed_live (bufs, s')"
proof -
  obtain s' where t: "clientsCronHandleTimeout c s = Some s'" "well_formed s'" "step_ok c s s'"
    by (rule timeout_well_formed [OF net_okD(1) [OF n] c(1)])
  have bb: "bufs[c := Some b] = bufs" using c by (simp add: list_update_same_conv net_okD(3) [OF n])
  show thesis by (rule that [OF t(1)]) (use net_ok_update [OF n t(2,3) _ _ c, of b "[]", unfolded bb] in simp_all)
qed

lemma net_step_ok:
  assumes "net_step st st'" and "net_ok st"
  shows "net_ok st'"
  using assms
proof (induction rule: net_step.induct)
  case (accept bufs s)
  then show ?case
    using createClient_ok [of s] by (auto simp: net_ok_def place_ok_def createClient_def nth_append less_Suc_eq)
next
  case (read c s bufs b avs cd buf s')
  then show ?case using read_ok [OF read.prems read.hyps(1-3), of cd] by auto
next
  case (timeout c s bufs b s')
  then show ?case using net_ok_timeout [OF timeout.prems timeout.hyps(1,2)] by auto
next
  case (free c s bufs b s')
  then show ?case using net_ok_free [OF free.prems free.hyps(1)] by auto
next
  case (sleep cd bufs s bufs' s')
  then show ?case using beforeSleep_net_ok by blast
next
  case (clock bufs s ms now)
  let ?s = "s\<lparr>unixtime := now, mstime := ms\<rparr>"
  have "same_watches s ?s" "same_waits s ?s" by (simp_all add: same_watches_def same_waits_def)
  note c = watch_ok_cong [OF _ this(1)] blocking_ok_cong [OF _ this(2)]
  have "srv_ok ?s" using net_okD(1) [OF clock] c
    by (simp add: well_formed_def srv_full_def srv_ok_def expires_ok_def clients_ok_def objects_ok_def)
  then have "well_formed ?s" using net_okD(1) [OF clock]
    by (simp add: well_formed_def srv_full_def hollow_at_def ready_ok_def queues_ok_def)
  then show ?case using clock by (simp add: net_ok_def place_ok_def)
qed

lemma init_ok: "0 < dbnum \<Longrightarrow> net_ok ([], initServer dbnum now ms s)"
  by (auto simp: net_ok_def well_formed_def srv_full_def srv_ok_def expires_ok_def watch_ok_def clients_ok_def objects_ok_def
      blocking_ok_def unblocked_ok_def hollow_at_def ready_ok_def queues_ok_def initServer_def empty_db_def)

lemma reachable_ok: "net_step\<^sup>*\<^sup>* ([], initServer dbnum now ms s) st \<Longrightarrow> 0 < dbnum \<Longrightarrow> net_ok st"
  by (induction rule: rtranclp_induct) (auto intro: init_ok net_step_ok)

lemma one_client: "net_step\<^sup>*\<^sup>* ([], s) ([Some []], createClient s)"
  using r_into_rtranclp [of net_step, OF net_step.accept [of "[]" s]] by simp

text \<open>C8: In every state that a fresh server reaches by events of its clients (they come, send requests for
  any modelled command but SETRANGE, GETRANGE, SUBSTR, MOVE and PERSIST, time out and are freed): the lists of
  waiting and watching clients agree with the clients' own records, expires belong to
  existing keys, every hash encoded as a ziplist has each field once, no key holds an empty aggregate, every
  client is on an existing database and no key is left ready. A client that has been freed is in no list of waiting or
  watching clients.\<close>

theorem reachable_well_formed:
  assumes "0 < dbnum" and "net_step\<^sup>*\<^sup>* ([], initServer dbnum now ms conf) (bufs, s)"
  shows "watch_ok s \<and> blocking_ok s \<and> expires_ok s \<and> objects_ok s \<and> clients_ok s \<and> ready_keys s = [] \<and>
    (\<forall>i k. \<not> hollow_at s i k) \<and>
    (\<forall>c < length (clients s). bufs ! c = None \<longrightarrow> (\<forall>i k. \<not> watches s c i k \<and> \<not> waits s c i k))"
proof -
  have n: "net_ok (bufs, s)" by (rule reachable_ok [OF assms(2,1)])
  have "\<not> watches s c i k \<and> \<not> waits s c i k" if c: "c < length (clients s)" "bufs ! c = None" for c i k
  proof -
    have "c_watched (clients s ! c) = []" "\<not> c_blocked (clients s ! c)" using net_okD(4) [OF n c(1)] c(2) by (simp_all add: place_ok_def)
    moreover have "c_bpop_keys (clients s ! c) = []"
      using calculation(2) c(1) well_formed_blocking [OF net_okD(1) [OF n]] by (simp add: blocking_iff)
    ultimately show ?thesis by (simp add: watches_def waits_def)
  qed
  then show ?thesis using net_okD(1) [OF n] by (simp add: well_formed_def srv_full_def srv_ok_def)
qed

theorem reachable_well_formed_witness: "blocking_ok (createClient (initServer 16 0 0 (watched_server [] [])))"
  using reachable_well_formed [OF _ one_client, where dbnum = 16 and now = 0 and ms = 0 and conf = "watched_server [] []"] by simp

text \<open>C7: In every reachable state the client of any open connection can be freed, can time out and can send
  any requests for the commands of the table but SETRANGE, GETRANGE, SUBSTR, MOVE and PERSIST, without a failed
  assertion; and the turn of the event loop ends with nobody left in the list of unblocked clients, unless a
  client that has been freed is still in it, which only freeing a client that is in the list can
  bring about (\<open>freed_client_used\<close> shows that it does).\<close>

theorem never_stuck:
  assumes "0 < dbnum" and "net_step\<^sup>*\<^sup>* ([], initServer dbnum now ms conf) (bufs, s)"
    and "c < length (clients s)" and "bufs ! c = Some b" and "list_all (readable c) avs"
  shows "(\<exists>s'. freeClient c s = Some s' \<and>
      (listed_live (bufs, s) \<longrightarrow> c \<notin> set (unblocked_clients s) \<longrightarrow> listed_live (bufs[c := None], s'))) \<and>
    (\<exists>s'. clientsCronHandleTimeout c s = Some s' \<and> (listed_live (bufs, s) \<longrightarrow> listed_live (bufs, s'))) \<and>
    (\<exists>buf s'. processInputBuffer table cd c (b @ avs) s = Some (buf, s') \<and>
      (listed_live (bufs, s) \<longrightarrow> listed_live (bufs[c := Some buf], s'))) \<and>
    (listed_live (bufs, s) \<longrightarrow> (\<exists>bufs' s'. beforeSleep table cd bufs s = Some (bufs', s') \<and> unblocked_clients s' = []))"
proof -
  have n: "net_ok (bufs, s)" by (rule reachable_ok [OF assms(2,1)])
  show ?thesis
    using net_ok_free [OF n assms(3)] net_ok_timeout [OF n assms(3,4)] read_ok [OF n assms(3-5), of cd] beforeSleep_ok [OF n, of cd]
    by (metis (no_types, lifting))
qed

theorem never_stuck_witness:
  "freeClient 0 (createClient (initServer 16 0 0 (watched_server [] []))) \<noteq> None \<and>
   (\<exists>bufs' s'. beforeSleep table open_conditions [Some []] (createClient (initServer 16 0 0 (watched_server [] []))) = Some (bufs', s'))"
proof -
  let ?s = "createClient (initServer 16 0 0 (watched_server [] []))"
  have "0 < length (clients ?s)" "listed_live ([Some []], ?s)" by (simp_all add: createClient_def initServer_def listed_live_def)
  then show ?thesis
    using never_stuck [OF _ one_client, where dbnum = 16 and now = 0 and ms = 0 and conf = "watched_server [] []" and c = 0
        and b = "[]" and avs = "[]" and cd = open_conditions] by auto
qed

end
