(* ===== verification/Blocking_spec.thy ===== *)
theory Blocking_spec
  imports Networking
begin

text \<open>
  What the blocking operations of t_list.c promise: clients that wait for a key get the elements pushed
  to it, in the order in which they came, and no client is left waiting for a key that was ready and
  holds a list. Two behaviours that break the promise close the theory.
\<close>

section \<open>The order of service\<close>

text \<open>The specification: the clients in turn take an element from the end their command names.\<close>

fun deal :: "list_end list \<Rightarrow> bytes list \<Rightarrow> bytes list \<times> bytes list" where
  "deal [] xs = ([], xs)"
| "deal (w # ws) xs =
     (if xs = [] then ([], [])
      else if w = REDIS_HEAD then apfst (Cons (hd xs)) (deal ws (tl xs))
      else apfst (Cons (last xs)) (deal ws (butlast xs)))"

lemma deal_length: "length (fst (deal ws xs)) = min (length ws) (length xs)"
  by (induction ws xs rule: deal.induct) (auto simp: apfst_def map_prod_def neq_Nil_conv min_def split: prod.splits)

lemma deal_heads: "deal (replicate n REDIS_HEAD) xs = (take n xs, drop n xs)"
  by (induction n arbitrary: xs) (auto simp: take_Suc drop_Suc)

lemma pop_deal:
  assumes "listTypePop l w = (Some v, l1)"
  shows "deal (w # ws) (list_elems l) = apfst (Cons v) (deal ws (list_elems l1))" and "list_elems l \<noteq> []"
  using assms by (cases "w = REDIS_HEAD"; auto simp: listTypePop_def Let_def split: if_splits)+

definition bpop_answer :: "bytes \<Rightarrow> bytes \<Rightarrow> reply list" where
  "bpop_answer key v = [MultiBulkLen 2, Bulk key, Bulk v]"

text \<open>One client that waits with BLPOP or BRPOP is answered; nothing else changes.\<close>

lemma deliver_one:
  assumes ok: "srv_ok s" and k: "sees j key (Some (ListObj l)) s" and w: "wlist s j key = r # cs"
    and t: "c_bpop_target (clients s ! r) = None"
  obtains s' where "deliver j key r v e s = Some s'" and "srv_ok s'" and "sees j key (Some (ListObj l)) s'"
    and "wlist s' j key = cs" and "\<forall>a. a \<noteq> r \<longrightarrow> clients s' ! a = clients s ! a"
    and "c_replies (clients s' ! r) = c_replies (clients s ! r) @ bpop_answer key v" and "\<not> c_blocked (clients s' ! r)"
    and "ready_keys s' = ready_keys s"
proof -
  have j: "j < length (dbs s)" using k by (simp add: sees_def)
  have r: "r < length (clients s)" "cur_db s r = j" "c_blocked (clients s ! r)" using wlist_waits [OF ok j, of r key] w by simp_all
  have b: "blocking_ok s" and rj: "cur_db s r < length (dbs s)" using ok r(2) j by (simp_all add: srv_ok_def)
  obtain s1 where s1: "unblockClientWaitingData r s = Some s1" "wait_step r s s1" "blocking_ok s1"
      "\<forall>j k. j < length (dbs s) \<longrightarrow> wlist s1 j k = remove1 r (wlist s j k)" "\<not> c_blocked (clients s1 ! r)"
      "nblocked s1 < nblocked s" "unblocked_clients s1 = unblocked_clients s @ [r]"
    by (rule unblock_ok [OF b r(1) rj r(3)])
  have d: "same_data s s1" using s1(2) by (simp add: wait_step_def)
  have ok1: "srv_ok s1" by (rule wait_step_srv(1) [OF ok s1(2,3)])
  have k1: "sees j key (Some (ListObj l)) s1"
    using k d same_data_visible [OF d j] by (simp add: sees_def same_data_def same_size_def)
  define s2 where "s2 = propagate j [pop_name e, key] s1"
  define s' where "s' = addReply r (Bulk v) (addReply r (Bulk key) (addReply r (MultiBulkLen 2) s2))"
  have e: "deliver j key r v e s = Some s'"
    using s1(1) t by (simp add: deliver_def serveClientBlockedOnList_def Let_def s'_def s2_def)
  have "upd j {} s1 s'" unfolding s'_def s2_def by (intro upd_intros upd_refl ok1)
  then have ok': "srv_ok s'" by (rule upd_srv_ok)
  have k': "sees j key (Some (ListObj l)) s'" using k1 by (simp add: s'_def s2_def)
  have r2: "r < length (clients s2)" using r(1) wait_step_len [OF s1(2)] by (simp add: s2_def propagate_def)
  have "wlist s' j key = wlist s1 j key" by (simp add: wlist_def s'_def s2_def addReply_def propagate_def frame_simps)
  then have w': "wlist s' j key = cs" using s1(4) j w by simp
  have c2: "clients s2 = clients s1" by (simp add: s2_def propagate_def)
  have o: "\<forall>a. a \<noteq> r \<longrightarrow> clients s' ! a = clients s ! a"
    using s1(2) r2 by (simp add: s'_def addReply_def clients_upd_client frame_simps c2 wait_step_def)
  have rp: "c_replies (clients s' ! r) = c_replies (clients s ! r) @ bpop_answer key v"
    using wait_fieldsD(7) [OF wait_step_client [OF s1(2)], of r] r2
    by (simp add: s'_def addReply_def clients_upd_client frame_simps c2 bpop_answer_def)
  have nb: "\<not> c_blocked (clients s' ! r)" using s1(5) by (simp add: s'_def c2)
  have "ready_keys s' = ready_keys s" using d by (simp add: s'_def s2_def addReply_def propagate_def frame_simps same_data_def)
  then show thesis by (rule that [OF e ok' k' w' o rp nb])
qed

lemma serve_in_order:
  assumes "srv_ok s" and "sees j key (Some (ListObj l)) s" and "wlist s j key = cs"
    and "\<forall>r \<in> set cs. c_bpop_target (clients s ! r) = None" and "distinct cs"
  shows "\<exists>s' l'. serve_clients (length cs) j key s = Some s' \<and> srv_ok s' \<and> sees j key (Some (ListObj l')) s' \<and>
    ready_keys s' = ready_keys s \<and>
    (let (vs, rest) = deal (map (\<lambda>r. wait_end (clients s ! r)) cs) (list_elems l)
     in list_elems l' = rest \<and> wlist s' j key = drop (length vs) cs \<and>
       (\<forall>m < length vs. c_replies (clients s' ! (cs ! m)) = c_replies (clients s ! (cs ! m)) @ bpop_answer key (vs ! m) \<and>
         \<not> c_blocked (clients s' ! (cs ! m))) \<and>
       (\<forall>a. a \<notin> set (take (length vs) cs) \<longrightarrow> clients s' ! a = clients s ! a))"
  using assms
proof (induction cs arbitrary: s l)
  case Nil
  then show ?case by auto
next
  case (Cons r cs)
  have bl: "fmlookup (db_blocking (dbs s ! j)) key = Some (r # cs)"
    using Cons.prems(3) by (auto simp: wlist_def split: option.splits)
  have dk: "fmlookup (db_dict (dbs s ! j)) key = Some (ListObj l)" using Cons.prems(2) by (simp add: sees_def)
  define e where "e = wait_end (clients s ! r)"
  show ?case
  proof (cases "list_elems l = []")
    case True
    then have "serve_clients (length (r # cs)) j key s = Some s" using bl dk by (simp add: listTypePop_def Let_def)
    then show ?thesis using Cons.prems(1-3) True by auto
  next
    case False
    then obtain v l1 where p: "listTypePop l e = (Some v, l1)"
      by (cases "e = REDIS_HEAD") (auto simp: listTypePop_def Let_def)
    define s1 where "s1 = storeObject j key (ListObj l1) s"
    have j: "j < length (dbs s)" using Cons.prems(2) by (simp add: sees_def)
    have "upd j {key} s s1" unfolding s1_def by (rule upd_store1(1) [OF upd_refl [OF Cons.prems(1)] j Cons.prems(2)]) simp
    then have ok1: "srv_ok s1" by (rule upd_srv_ok)
    have k1: "sees j key (Some (ListObj l1)) s1" unfolding s1_def by (rule sees_store [OF Cons.prems(2)])
    have c1: "clients s1 = clients s" by (simp add: s1_def storeObject_def frame_simps)
    have w1: "wlist s1 j key = r # cs"
      using Cons.prems(3) by (auto simp: s1_def storeObject_def wlist_def dbs_upd_any)
    have rk1: "ready_keys s1 = ready_keys s" by (simp add: s1_def storeObject_def frame_simps)
    have t1: "c_bpop_target (clients s1 ! r) = None" using Cons.prems(4) by (simp add: c1)
    obtain s2 where s2: "deliver j key r v e s1 = Some s2" "srv_ok s2" "sees j key (Some (ListObj l1)) s2"
        "wlist s2 j key = cs" "\<forall>a. a \<noteq> r \<longrightarrow> clients s2 ! a = clients s1 ! a"
        "c_replies (clients s2 ! r) = c_replies (clients s1 ! r) @ bpop_answer key v" "\<not> c_blocked (clients s2 ! r)"
        "ready_keys s2 = ready_keys s1"
      by (rule deliver_one [OF ok1 k1 w1 t1])
    have r: "r \<notin> set cs" "distinct cs" using Cons.prems(5) by simp_all
    have o: "clients s2 ! a = clients s ! a" if "a \<in> set cs" for a using s2(5) r that by (auto simp: c1)
    have t2: "\<forall>a \<in> set cs. c_bpop_target (clients s2 ! a) = None" using Cons.prems(4) o by simp
    have m: "map (\<lambda>a. wait_end (clients s2 ! a)) cs = map (\<lambda>a. wait_end (clients s ! a)) cs" using o by simp
    obtain vs rest where d: "deal (map (\<lambda>a. wait_end (clients s ! a)) cs) (list_elems l1) = (vs, rest)" by fastforce
    obtain s3 l3 where s3: "serve_clients (length cs) j key s2 = Some s3" "srv_ok s3" "sees j key (Some (ListObj l3)) s3"
        "ready_keys s3 = ready_keys s2" "list_elems l3 = rest" "wlist s3 j key = drop (length vs) cs"
        "\<forall>m < length vs. c_replies (clients s3 ! (cs ! m)) = c_replies (clients s2 ! (cs ! m)) @ bpop_answer key (vs ! m) \<and>
           \<not> c_blocked (clients s3 ! (cs ! m))"
        "\<forall>a. a \<notin> set (take (length vs) cs) \<longrightarrow> clients s3 ! a = clients s2 ! a"
      using Cons.IH [OF s2(2-4) t2 r(2)] unfolding m d Let_def prod.case by blast
    have e': "serve_clients (length (r # cs)) j key s = Some s3"
      using bl dk p s2(1) s3(1) by (simp add: e_def s1_def)
    have dl: "deal (map (\<lambda>a. wait_end (clients s ! a)) (r # cs)) (list_elems l) = (v # vs, rest)"
      using pop_deal(1) [OF p] d by (simp add: e_def)
    have len: "length vs \<le> length cs" using deal_length [of "map (\<lambda>a. wait_end (clients s ! a)) cs" "list_elems l1"] d by simp
    have rs: "clients s3 ! r = clients s2 ! r" using s3(8) r(1) by (meson in_set_takeD)
    have g: "c_replies (clients s3 ! ((r # cs) ! m)) = c_replies (clients s ! ((r # cs) ! m)) @ bpop_answer key ((v # vs) ! m) \<and>
        \<not> c_blocked (clients s3 ! ((r # cs) ! m))" if "m < length (v # vs)" for m
    proof (cases m)
      case 0
      then show ?thesis using s2(6,7) rs by (simp add: c1)
    next
      case (Suc i)
      then have "cs ! i \<in> set cs" "i < length vs" using that len by simp_all
      then show ?thesis using s3(7) o Suc by simp
    qed
    have f: "clients s3 ! a = clients s ! a" if "a \<notin> set (take (length (v # vs)) (r # cs))" for a
      using that s3(8) s2(5) by (simp add: c1)
    show ?thesis unfolding dl Let_def prod.case using e' s3(2-6) s2(8) rk1 g f by (intro exI [of _ s3] exI [of _ l3]) auto
  qed
qed

text \<open>A key that holds elements \<open>xs\<close> and its clients that wait with BLPOP or BRPOP: the elements are dealt to
  the clients in their order, and the key holds the rest.\<close>

definition served :: "nat \<Rightarrow> bytes \<Rightarrow> bytes list \<Rightarrow> redisServer \<Rightarrow> redisServer \<Rightarrow> bool" where
  "served j key xs s s' \<longleftrightarrow>
    (let (vs, rest) = deal (map (\<lambda>r. wait_end (clients s ! r)) (wlist s j key)) xs; cs = wlist s j key
     in (case visible s' j key of None \<Rightarrow> rest = [] | Some v \<Rightarrow> rest \<noteq> [] \<and> (\<exists>l'. v = ListObj l' \<and> list_elems l' = rest)) \<and>
       wlist s' j key = drop (length vs) cs \<and>
       (\<forall>m < length vs. c_replies (clients s' ! (cs ! m)) = c_replies (clients s ! (cs ! m)) @ bpop_answer key (vs ! m) \<and>
         \<not> c_blocked (clients s' ! (cs ! m))) \<and>
       (\<forall>a. a \<notin> set (take (length vs) cs) \<longrightarrow> clients s' ! a = clients s ! a))"

lemma drop_empty_visible:
  assumes "srv_ok s" and "sees j key (Some (ListObj l)) s"
  obtains s' where "drop_empty j key s = Some s'" and "ready_keys s' = ready_keys s" and "clients s' = clients s"
    and "visible s' j key = (if list_elems l = [] then None else Some (ListObj l))" and "wlist s' j key = wlist s j key"
proof (cases "list_elems l = []")
  case True
  have j: "j < length (dbs s)" using assms(2) by (simp add: sees_def)
  have "visible (snd (dbDelete j key s)) j key = None" using visible_dbDelete [OF j] by simp
  then show ?thesis
    by (intro that [of "snd (dbDelete j key s)"])
      (use True assms(2) in \<open>simp_all add: drop_empty_def listTypeLength_def sees_def\<close>,
        simp_all add: dbDelete_def frame_simps wlist_def dbs_upd_any)
qed (use that [of s] assms in \<open>simp add: drop_empty_def listTypeLength_def sees_def\<close>)

lemma handle_key_in_order:
  assumes full: "srv_full s" and rd: "ready_in {} {(j, key)} s" and v: "visible s j key = Some (ListObj l)"
    and t: "\<forall>r \<in> set (wlist s j key). c_bpop_target (clients s ! r) = None"
  shows "\<exists>s'. handle_key j key s = Some s' \<and> ready_keys s' = ready_keys s \<and>
    served j key (list_elems l) s s'"
proof -
  have ok: "srv_ok s" and j: "j < length (dbs s)" using srv_full_ok [OF full] rd by (simp_all add: ready_in_def)
  define s1 where "s1 = upd_db j (\<lambda>d. d\<lparr>db_ready := db_ready d |-| {|key|}\<rparr>) s"
  have h1: "handled {} {} {(j, key)} s s1" and rk1: "ready_keys s1 = ready_keys s"
    using unready_handled [OF ok, of "{}" j key "{}"] rd by (simp_all add: s1_def)
  note h1 = handledD [OF h1]
  have c1: "clients s1 = clients s" by (simp add: s1_def frame_simps)
  have v1: "visible s1 j key = Some (ListObj l)"
    using v j by (simp add: visible_def db_visible_def due_upd_db dbs_upd_db s1_def cong: option.case_cong if_cong)
  have w1: "wlist s1 j key = wlist s j key" by (simp add: wlist_def s1_def dbs_upd_any)
  obtain s2 where s2: "lookupKeyWrite j key s1 = Some (visible s1 j key, s2)" "handled {} {} {(j, key)} s1 s2"
      "sees j key (visible s1 j key) s2" "\<forall>k' v. sees j k' v s1 \<longrightarrow> sees j k' v s2"
      "ready_keys s2 = ready_keys s1" "clients s2 = clients s1"
      "\<forall>i k'. i < length (dbs s1) \<longrightarrow> wlist s2 i k' = wlist s1 i k'"
    by (rule lookup_handled [of s1 j "{}" "{}" key "{(j, key)}"]) (use h1 j in auto)
  define cs where "cs = wlist s j key"
  have w2: "wlist s2 j key = cs" using s2(7) j h1(3) w1 by (simp add: cs_def)
  have ok2: "srv_ok s2" by (rule handledD(1) [OF s2(2)])
  have k2: "sees j key (Some (ListObj l)) s2" using s2(3) v1 by simp
  have t2: "\<forall>r \<in> set cs. c_bpop_target (clients s2 ! r) = None" using t s2(6) c1 by (simp add: cs_def)
  have "blocking_ok s" using ok by (simp add: srv_ok_def)
  then have dc: "distinct cs" using wlist_lookup(3) [OF _ j, of key] by (simp add: cs_def blocking_iff)
  obtain vs rest where d: "deal (map (\<lambda>r. wait_end (clients s ! r)) cs) (list_elems l) = (vs, rest)" by fastforce
  have d2: "deal (map (\<lambda>r. wait_end (clients s2 ! r)) cs) (list_elems l) = (vs, rest)" using d s2(6) c1 by simp
  obtain s3 l3 where s3: "serve_clients (length cs) j key s2 = Some s3" "srv_ok s3" "sees j key (Some (ListObj l3)) s3"
      "ready_keys s3 = ready_keys s2" "list_elems l3 = rest" "wlist s3 j key = drop (length vs) cs"
      "\<forall>m < length vs. c_replies (clients s3 ! (cs ! m)) = c_replies (clients s2 ! (cs ! m)) @ bpop_answer key (vs ! m) \<and>
         \<not> c_blocked (clients s3 ! (cs ! m))"
      "\<forall>a. a \<notin> set (take (length vs) cs) \<longrightarrow> clients s3 ! a = clients s2 ! a"
    using serve_in_order [OF ok2 k2 w2 t2 dc] unfolding d2 Let_def prod.case by blast
  obtain s4 where s4: "drop_empty j key s3 = Some s4" "ready_keys s4 = ready_keys s3" "clients s4 = clients s3"
      "visible s4 j key = (if list_elems l3 = [] then None else Some (ListObj l3))" "wlist s4 j key = wlist s3 j key"
    by (rule drop_empty_visible [OF s3(2,3)])
  have "(case fmlookup (db_blocking (dbs s2 ! j)) key of
      None \<Rightarrow> Some s2 | Some cs \<Rightarrow> serve_clients (length cs) j key s2) = Some s3"
    using s3(1) w2 by (cases "fmlookup (db_blocking (dbs s2 ! j)) key") (auto simp: wlist_def)
  then have e: "handle_key j key s = Some s4" using s2(1) v1 s4(1) by (simp add: handle_key_def s1_def)
  show ?thesis
    unfolding served_def cs_def [symmetric] d Let_def prod.case
    using e s4 s3(4-8) s2(5,6) rk1 c1 by (intro exI [of _ s4]) auto
qed

section \<open>An example\<close>

text \<open>A fresh server with two databases and three clients.\<close>

definition three_clients :: redisServer where
  "three_clients = createClient (createClient (createClient (initServer 2 1400000000 1400000000000 (watched_server [] []))))"

definition ask :: "(nat \<times> bytes list) list \<Rightarrow> redisServer option" where
  "ask rs = requests redisCommandTable open_conditions rs three_clients"

definition key_q :: bytes where "key_q = ascii ''q''"

text \<open>Numerals of natural numbers are unary for the code generator; those of integers are not.\<close>

lemma over_63_bits: "(n > 2 ^ 63) = (int n > 9223372036854775808)" "(n \<ge> 2 ^ 63) = (int n \<ge> 9223372036854775808)" for n :: nat
  by simp_all

lemma strtoll10_binary [code]:
  "strtoll10 s =
     (let r = dropWhile isspace (takeWhile (\<lambda>c. c \<noteq> 0) s);
          neg = (r \<noteq> [] \<and> hd r = MINUS);
          r = (if r \<noteq> [] \<and> (hd r = MINUS \<or> hd r = 43) then tl r else r);
          ds = takeWhile (char_in ZERO NINE) r;
          rest = dropWhile (char_in ZERO NINE) r;
          n = dec_value 0 ds
      in if ds = [] then (0, takeWhile (\<lambda>c. c \<noteq> 0) s, False)
         else if neg then (if int n > 9223372036854775808 then (LLONG_MIN, rest, True) else (- of_nat n, rest, False))
         else if int n \<ge> 9223372036854775808 then (LLONG_MAX, rest, True) else (of_nat n, rest, False))"
  unfolding strtoll10_def over_63_bits by (rule refl)

lemma three_clients_ok: "well_formed three_clients" "length (clients three_clients) = 3"
proof -
  have "well_formed (initServer 2 n m (watched_server [] []))" for n m using net_okD(1) [OF init_ok] by simp
  moreover have "dbs (initServer 2 n m (watched_server [] [])) \<noteq> []" for n m by (simp add: initServer_def)
  ultimately show "well_formed three_clients"
    unfolding three_clients_def by (intro createClient_ok) (simp_all add: createClient_def)
  show "length (clients three_clients) = 3" by (simp add: three_clients_def createClient_def initServer_def)
qed

text \<open>Two clients wait for the key, the first at the head and the second at the tail; a third one has pushed
  three elements.\<close>

definition two_wait :: "(nat \<times> bytes list) list" where
  "two_wait = [(1, [ascii ''BLPOP'', key_k, ascii ''0'']), (2, [ascii ''BRPOP'', key_k, ascii ''0''])]"

definition pushed :: "redisServer option" where
  "pushed = do {
     s \<leftarrow> ask two_wait;
     lpushCommand 0 (upd_client 0 (\<lambda>cl. cl\<lparr>c_argv := [ascii ''LPUSH'', key_k, ascii ''a'', ascii ''b'', ascii ''c'']\<rparr>) s) }"

lemma two_wait_allowed: "list_all (allowed redisCommandTable safe_names) two_wait"
proof -
  have "''blpop'' \<in> safe_names" "''brpop'' \<in> safe_names"
    by (simp_all add: safe_names_def redisCommandTable_def cmd_row_def transaction_commands_def)
  moreover have "map_option cmd_name (lookupCommand (exec_table redisCommandTable) (ascii ''BLPOP'')) = Some ''blpop''"
    "map_option cmd_name (lookupCommand (exec_table redisCommandTable) (ascii ''BRPOP'')) = Some ''brpop''"
    by code_simp+
  ultimately show ?thesis by (auto simp: allowed_def two_wait_def)
qed

lemma two_wait_free: "case ask two_wait of None \<Rightarrow> False | Some s \<Rightarrow> \<not> c_blocked (clients s ! 0)"
  by code_simp

lemma pushed_ok:
  obtains s where "pushed = Some s" and "srv_full s" and "ready_ok s" and "length (clients s) = 3"
proof -
  obtain s0 where s0: "ask two_wait = Some s0" "well_formed s0" "same_size three_clients s0"
    using well_formed_requests [OF three_clients_ok(1) two_wait_allowed, of open_conditions] three_clients_ok(2)
    by (auto simp: ask_def two_wait_def)
  define av where "av = [ascii ''LPUSH'', key_k, ascii ''a'', ascii ''b'', ascii ''c'']"
  define s1 where "s1 = upd_client 0 (\<lambda>cl. cl\<lparr>c_argv := av\<rparr>) s0"
  have full: "srv_full s0" and c: "0 < length (clients s0)"
    using s0(2,3) three_clients_ok(2) by (simp_all add: well_formed_def same_size_def)
  have st: "step_ok 0 s0 s1" unfolding s1_def by (rule own_step [OF full]) simp_all
  have c1: "0 < length (clients s1)" using c step_ok_len [OF st] by simp
  have "argc s1 0 = 5" using c by (simp add: s1_def argc_def clients_upd_client av_def)
  moreover have nb: "\<not> c_blocked (clients s1 ! 0)"
    using two_wait_free [unfolded s0(1) option.case] c by (simp add: s1_def clients_upd_client)
  ultimately have ar: "arity_ok (- 3) (argc s1 0)" by (simp add: arity_ok_def)
  obtain s2 where s2: "lpushCommand 0 s1 = Some s2" "upd (cur_db s1 0) {} s1 s2"
    using list_safe(13) step_ok_full [OF st] c1 nb ar unfolding safe_for_def by blast
  have "ready_ok s1" using st s0(2) by (simp add: step_ok_def well_formed_def)
  then have "ready_ok s2" "srv_full s2" using upd_ready_ok [OF s2(2)] upd_full [OF s2(2) step_ok_full [OF st]] by simp_all
  moreover have "pushed = Some s2" using s0(1) s2(1) by (simp add: pushed_def s1_def av_def)
  moreover have "length (clients s2) = 3"
    using upd_shape [OF s2(2)] step_ok_len [OF st] s0(3) three_clients_ok(2) by (simp add: same_shape_def same_size_def)
  ultimately show thesis by (intro that)
qed

lemma pushed_values:
  "case pushed of None \<Rightarrow> False
   | Some s \<Rightarrow> ready_keys s = [(0, key_k)] \<and> wlist s 0 key_k = [1, 2] \<and> c_bpop_target (clients s ! 1) = None \<and>
       c_bpop_target (clients s ! 2) = None \<and> visible s 0 key_k = Some (ListObj (ZipList [ascii ''c'', ascii ''b'', ascii ''a''])) \<and>
       wait_end (clients s ! 1) = REDIS_HEAD \<and> wait_end (clients s ! 2) = REDIS_TAIL \<and> c_replies (clients s ! 1) = [] \<and>
       c_replies (clients s ! 2) = []"
  by code_simp

text \<open>C9: When exactly one key is ready, it holds a list, and every client that waits for it does so with BLPOP or BRPOP
  (none with BRPOPLPUSH, whose target may have the wrong type), these clients are served: the first to
  come first, each with the element at its own end, one element each, until there are no more clients or
  no more elements. Those served no longer wait, the others wait on with nothing changed, and the key goes with
  the last element.\<close>

theorem blocked_served_in_order:
  assumes "srv_full s" and "ready_ok s" and "ready_keys s = [(j, key)]" and "visible s j key = Some (ListObj l)"
    and "\<forall>r \<in> set (wlist s j key). c_bpop_target (clients s ! r) = None"
  shows "\<exists>s'. handleClientsBlockedOnLists s = Some s' \<and>
    served j key (list_elems l) s s'"
proof -
  define s1 where "s1 = s\<lparr>ready_keys := []\<rparr>"
  have "ready_in {} {} s" using assms(2) by (simp add: ready_in_all)
  note t = take_ready [OF assms(1) this, folded s1_def]
  have rd: "ready_in {} {(j, key)} s1" using handledD(2) [OF t(1)] assms(3) by simp
  have e: "visible s1 j key = visible s j key" "wlist s1 j key = wlist s j key" "clients s1 = clients s"
    by (auto simp: s1_def wlist_def intro: same_dbs_visible)
  have sv: "served j key xs s1 s2 = served j key xs s s2" for xs s2 by (simp add: served_def e)
  have "visible s1 j key = Some (ListObj l)" "\<forall>r \<in> set (wlist s1 j key). c_bpop_target (clients s1 ! r) = None"
    using assms(4,5) by (simp_all add: e)
  from handle_key_in_order [OF t(2) rd this] obtain s2 where s2: "handle_key j key s1 = Some s2" "ready_keys s2 = []"
      "served j key (list_elems l) s s2" unfolding sv t(3) by blast
  have "handleClientsBlockedOnLists s = handleClientsBlockedOnLists s2"
    using s2(1) assms(3) by (subst handleClientsBlockedOnLists.simps) (simp add: s1_def)
  also have "\<dots> = Some s2" using s2(2) by (subst handleClientsBlockedOnLists.simps) simp
  finally show ?thesis using s2(3) by blast
qed


theorem blocked_served_in_order_witness:
  "\<exists>s s'. pushed = Some s \<and> handleClientsBlockedOnLists s = Some s' \<and>
     c_replies (clients s' ! 1) = bpop_answer key_k (ascii ''c'') \<and> c_replies (clients s' ! 2) = bpop_answer key_k (ascii ''a'')"
proof -
  obtain s where s: "pushed = Some s" "srv_full s" "ready_ok s" by (rule pushed_ok)
  have v: "ready_keys s = [(0, key_k)]" "wlist s 0 key_k = [1, 2]"
      "visible s 0 key_k = Some (ListObj (ZipList [ascii ''c'', ascii ''b'', ascii ''a'']))"
      "\<forall>r \<in> set (wlist s 0 key_k). c_bpop_target (clients s ! r) = None"
      "wait_end (clients s ! 1) = REDIS_HEAD" "wait_end (clients s ! 2) = REDIS_TAIL"
      "c_replies (clients s ! 1) = []" "c_replies (clients s ! 2) = []"
    using pushed_values unfolding s(1) option.case by simp_all
  from blocked_served_in_order [OF s(2,3) v(1,3,4)] obtain s' where "handleClientsBlockedOnLists s = Some s'"
      "served 0 key_k [ascii ''c'', ascii ''b'', ascii ''a''] s s'" by auto
  then show ?thesis using s(1) v(2,5-) by (auto simp: served_def less_Suc_eq numeral_2_eq_2 all_conj_distrib)
qed

section \<open>No client is forgotten\<close>

text \<open>C10: The service of the clients that wait ends, whatever is pushed on by BRPOPLPUSH on the way, and
  leaves no key ready; then no client waits for a key that was ready and holds a list.\<close>

theorem ready_lists_served:
  assumes "srv_full s" and "ready_ok s"
  shows "\<exists>s'. handleClientsBlockedOnLists s = Some s' \<and> ready_keys s' = [] \<and> srv_full s' \<and>
    (\<forall>(j, k) \<in> set (ready_keys s). \<forall>l. fmlookup (db_dict (dbs s' ! j)) k = Some (ListObj l) \<longrightarrow>
       (\<forall>c < length (clients s'). \<not> waits s' c j k))"
proof -
  obtain s' where s': "handleClientsBlockedOnLists s = Some s'" "handled {} {} {} s s'" "ready_keys s' = []"
    using handleClientsBlockedOnLists_ok [of s "{}"] assms by (auto simp: ready_in_all)
  have full: "srv_full s'" by (rule handled_full [OF s'(2) assms(1)])
  have "\<not> waits s' c j k" if jk: "(j, k) \<in> set (ready_keys s)" and l: "fmlookup (db_dict (dbs s' ! j)) k = Some (ListObj l)"
    and c: "c < length (clients s')" for c j k l
  proof -
    have j: "j < length (dbs s')" "k |\<in>| db_ready (dbs s ! j)" "k |\<notin>| db_ready (dbs s' ! j)"
      using assms(2) jk handledD(2,3) [OF s'(2)] s'(3) by (auto simp: ready_ok_def ready_in_def)
    then have "\<not> lost s' j k" using s'(2) by (auto simp: handled_def lost_def)
    then have "wlist s' j k = []" using j l by (simp add: lost_def list_at_def)
    then show ?thesis using wlist_lookup(2) [of s' j k] srv_full_ok [OF full] j c by (auto simp: srv_ok_def blocking_iff)
  qed
  then show ?thesis using s'(1,3) full by auto
qed

theorem ready_lists_served_witness:
  "\<exists>s s'. pushed = Some s \<and> ready_keys s = [(0, key_k)] \<and> handleClientsBlockedOnLists s = Some s' \<and> ready_keys s' = []"
proof -
  obtain s where s: "pushed = Some s" "srv_full s" "ready_ok s" by (rule pushed_ok)
  then show ?thesis using ready_lists_served [OF s(2,3)] pushed_values [unfolded s(1) option.case] by auto
qed

lemma renamed:
  assumes ok: "srv_ok s" and c: "c < length (clients s)" and ne: "argv s c 1 \<noteq> argv s c 2"
    and v: "visible s (cur_db s c) (argv s c 1) = Some v" and r: "renameCommand c s = Some s'"
  shows "fmlookup (db_dict (dbs s' ! cur_db s c)) (argv s c 2) = Some v" and "ready_keys s' = ready_keys s"
proof -
  define i src dst where "i = cur_db s c" and "src = argv s c 1" and "dst = argv s c 2"
  note names = i_def [symmetric] src_def [symmetric] dst_def [symmetric]
  have i: "i < length (dbs s)" using cur_db_less [OF ok c] by (simp add: i_def)
  obtain s1 where s1: "lookupKeyWrite i src s = Some (Some v, s1)" "quiet i s s1"
    using lookupKeyWrite_ok [OF ok i, of src] v [unfolded names] by metis
  note q1 = quietD [OF s1(2)]
  have i1: "i < length (dbs s1)" using i q1 by simp
  obtain o2 s2 where s2: "lookupKeyWrite i dst s1 = Some (o2, s2)" "quiet i s1 s2"
    by (rule lookupKeyWrite_ok [OF q1(5) i1, of dst])
  note q2 = quietD [OF s2(2)]
  have args: "argv s1 c 1 = src" "argv s1 c 2 = dst" "argv s2 c 1 = src" "argv s2 c 2 = dst"
    using same_argsD [OF q1(2)] same_argsD [OF q2(2)] by (simp_all add: src_def dst_def)
  let ?s3 = "if o2 \<noteq> None then snd (dbDelete i dst s2) else s2"
  have a3: "argv (if B then snd (dbDelete i k s2) else s2) c j = argv s2 c j"
      "(if B then snd (dbDelete i (argv s2 c 2) s2) else s2) = (if B then snd (dbDelete i dst s2) else s2)" for B k j
    by (simp_all add: args)
  have s1': "lookupKeyWriteOrReply c src (Error ''ERR no such key'') s = Some (Some v, s1)"
    using s1(1) by (simp add: lookupKeyWriteOrReply_def i_def)
  obtain e s4 s5 where st: "dbAdd i dst v ?s3 = Some s4" "(if e \<noteq> - 1 then setExpire i (argv s4 c 2) e s4 else Some s4) = Some s5"
      "s' = addReply c ok_reply (add_dirty 1 (notifyKeyspaceEvent NGeneric ''rename_to'' (argv s5 c 2) i
         (notifyKeyspaceEvent NGeneric ''rename_from'' (argv s5 c 1) i (signalModifiedKey i (argv s5 c 2)
           (signalModifiedKey i (argv s5 c 1) (snd (dbDelete i (argv s5 c 1) s5)))))))"
    using r ne unfolding renameCommand_def renameGenericCommand_def names Let_def
    by (auto simp: s1' s2(1) args a3 bind_eq_Some_conv simp del: One_nat_def split del: if_split)
  have a4: "argv s4 c j = argv s2 c j" for j using st(1) a3 by (auto simp: dbAdd_def split: if_splits)
  have a5: "argv s5 c j = argv s2 c j" for j using st(2) a4 by (auto simp: setExpire_def split: if_splits)
  note st = s2(1) st(1) st(2) [unfolded a4 args] st(3) [unfolded a5 args]
  have o1: "only_key i src s s1" by (rule only_key_lookup [OF only_key_refl s1(1)])
  have o2: "only_key i dst s1 s2" by (rule only_key_lookup [OF only_key_refl st(1)])
  then have "only_key i dst s1 (if o2 \<noteq> None then snd (dbDelete i dst s2) else s2)" by (simp add: only_key_steps)
  then have o4: "only_key i dst s1 s4" using st(2) by (rule only_key_opts(1))
  then have o5: "only_key i dst s1 s5" using st(3) only_key_opts(3) by (auto split: if_splits)
  have o6: "only_key i src s5 s'" unfolding st(4) by (intro only_key_steps only_key_signal only_key_refl)
  show "ready_keys s' = ready_keys s" using only_keyD(2) [OF o1] only_keyD(2) [OF o5] only_keyD(2) [OF o6] by simp
  have i4: "i < length (dbs (if o2 \<noteq> None then snd (dbDelete i dst s2) else s2))"
    using i only_keyD(1) [OF o1] only_keyD(1) [OF o2] by (simp add: dbDelete_def frame_simps)
  have "fmlookup (db_dict (dbs s4 ! i)) dst = Some v"
    using st(2) i4 by (auto simp: dbAdd_def dbs_upd_any split: if_splits)
  then have "fmlookup (db_dict (dbs s5 ! i)) dst = Some v"
    using st(3) by (auto simp: setExpire_def dbs_upd_any split: if_splits)
  moreover have "entry s' i dst = entry s5 i dst" using ne by (intro only_keyD(4) [OF o6]) (simp add: src_def dst_def)
  ultimately show "fmlookup (db_dict (dbs s' ! cur_db s c)) (argv s c 2) = Some v"
    by (simp add: entry_def i_def dst_def)
qed

text \<open>Client 1 waits for one key; there is a list under another, which client 0 is about to rename.\<close>

definition about_to_rename :: "redisServer option" where
  "about_to_rename = do {
     s \<leftarrow> ask [(1, [ascii ''BLPOP'', key_k, ascii ''0'']), (0, [ascii ''RPUSH'', key_q, ascii ''x''])];
     Some (upd_client 0 (\<lambda>cl. cl\<lparr>c_argv := [ascii ''RENAME'', key_q, key_k]\<rparr>) s) }"

lemma about_to_rename_ok:
  obtains s where "about_to_rename = Some s" and "srv_full s"
proof -
  let ?rs = "[(1, [ascii ''BLPOP'', key_k, ascii ''0'']), (0, [ascii ''RPUSH'', key_q, ascii ''x''])]"
  have "''rpush'' \<in> safe_names" "''blpop'' \<in> safe_names"
    by (simp_all add: safe_names_def redisCommandTable_def cmd_row_def transaction_commands_def)
  moreover have "map_option cmd_name (lookupCommand (exec_table redisCommandTable) (ascii ''RPUSH'')) = Some ''rpush''"
    "map_option cmd_name (lookupCommand (exec_table redisCommandTable) (ascii ''BLPOP'')) = Some ''blpop''"
    by code_simp+
  ultimately have al: "list_all (allowed redisCommandTable safe_names) ?rs" by (auto simp: allowed_def)
  obtain s0 where s0: "ask ?rs = Some s0" "well_formed s0"
    using well_formed_requests [OF three_clients_ok(1) al, of open_conditions] three_clients_ok(2) by (auto simp: ask_def)
  show thesis
    by (rule that [of "upd_client 0 (\<lambda>cl. cl\<lparr>c_argv := [ascii ''RENAME'', key_q, key_k]\<rparr>) s0"])
      (use s0 in \<open>auto simp: about_to_rename_def well_formed_def intro!: step_ok_full [OF own_step]\<close>)
qed

lemma about_to_rename_values:
  "case about_to_rename of None \<Rightarrow> False
   | Some s \<Rightarrow> cur_db s 0 = 0 \<and> argv s 0 1 = key_q \<and> argv s 0 2 = key_k \<and> 0 < length (clients s) \<and> 1 < length (clients s) \<and>
       \<not> c_blocked (clients s ! 0) \<and> c_blocked (clients s ! 1) \<and> wlist s 0 key_k = [1] \<and> ready_keys s = [] \<and> 0 < length (dbs s) \<and>
       visible s 0 key_q = Some (ListObj (ZipList [ascii ''x'']))"
  by code_simp

text \<open>C40: RENAME puts a list under a key without making the key ready: whoever waits for the key when it is
  renamed still waits afterwards, although the key holds a list, and the service of ready keys behind the command has nothing
  to do.\<close>

theorem rename_starves:
  assumes "srv_full s" and "c < length (clients s)" and "\<not> c_blocked (clients s ! c)" and "argv s c 1 \<noteq> argv s c 2"
    and "visible s (cur_db s c) (argv s c 1) = Some (ListObj l)" and "ready_keys s = []"
  shows "\<exists>s'. renameCommand c s = Some s' \<and> handleClientsBlockedOnLists s' = Some s' \<and>
    fmlookup (db_dict (dbs s' ! cur_db s c)) (argv s c 2) = Some (ListObj l) \<and>
    (\<forall>j k. j < length (dbs s) \<longrightarrow> wlist s' j k = wlist s j k) \<and>
    (\<forall>a < length (clients s). c_blocked (clients s' ! a) = c_blocked (clients s ! a))"
proof -
  obtain s' where s': "renameCommand c s = Some s'" "upd (cur_db s c) {} s s'"
    using safe_rename [of False] assms(1-3) unfolding safe_command_def renameCommand_def by blast
  note r = renamed [OF srv_full_ok [OF assms(1)] assms(2,4,5) s'(1)]
  note sh = upd_shape [OF s'(2)]
  have "handleClientsBlockedOnLists s' = Some s'" using r(2) assms(6) by (subst handleClientsBlockedOnLists.simps) simp
  then show ?thesis using s'(1) r(1) same_shape_wlist [OF sh] sh by (auto simp: same_shape_def)
qed

theorem rename_starves_witness:
  "\<exists>s s'. about_to_rename = Some s \<and> renameCommand 0 s = Some s' \<and> c_blocked (clients s' ! 1) \<and> wlist s' 0 key_k = [1] \<and>
     fmlookup (db_dict (dbs s' ! 0)) key_k = Some (ListObj (ZipList [ascii ''x'']))"
proof -
  obtain s where s: "about_to_rename = Some s" "srv_full s" by (rule about_to_rename_ok)
  have v: "cur_db s 0 = 0" "argv s 0 1 = key_q" "argv s 0 2 = key_k" "0 < length (clients s)" "1 < length (clients s)"
      "\<not> c_blocked (clients s ! 0)" "c_blocked (clients s ! 1)" "wlist s 0 key_k = [1]" "ready_keys s = []" "0 < length (dbs s)"
      "visible s 0 key_q = Some (ListObj (ZipList [ascii ''x'']))"
    using about_to_rename_values unfolding s(1) option.case by blast+
  have "argv s 0 1 \<noteq> argv s 0 2" unfolding v(2,3) by code_simp
  moreover have "visible s (cur_db s 0) (argv s 0 1) = Some (ListObj (ZipList [ascii ''x'']))" unfolding v(1,2) by (rule v(11))
  ultimately obtain s' where s': "renameCommand 0 s = Some s'"
      "fmlookup (db_dict (dbs s' ! cur_db s 0)) (argv s 0 2) = Some (ListObj (ZipList [ascii ''x'']))"
      "\<forall>j k. j < length (dbs s) \<longrightarrow> wlist s' j k = wlist s j k"
      "\<forall>a < length (clients s). c_blocked (clients s' ! a) = c_blocked (clients s ! a)"
    using rename_starves [OF s(2) v(4,6) _ _ v(9)] by blast
  show ?thesis
    using s(1) s'(1) s'(2) [unfolded v(1,3)] s'(3) [rule_format, OF v(10), of key_k] s'(4) [rule_format, OF v(5)] v(7,8) by auto
qed

text \<open>A client that is unblocked twice in one turn of the event loop is listed twice among the unblocked
  clients; when it is freed, one entry for it stays, and the next turn of the loop uses the freed client.\<close>

lemma freed_client_listed:
  "case ask [(1, [ascii ''BLPOP'', key_k, ascii ''0'']), (0, [ascii ''RPUSH'', key_k, ascii ''x'']),
     (1, [ascii ''BLPOP'', key_k, ascii ''0'']), (0, [ascii ''RPUSH'', key_k, ascii ''y''])] of
     None \<Rightarrow> False
   | Some s \<Rightarrow> unblocked_clients s = [1, 1] \<and>
       (case freeClient 1 s of None \<Rightarrow> False | Some s' \<Rightarrow> clients s' ! 1 = new_client \<and> unblocked_clients s' = [1])"
  by code_simp

lemma freed_client_used: "unblocked_clients s = [1] \<Longrightarrow> beforeSleep table cd [Some [], None, Some []] s = None"
  by (subst beforeSleep.simps) simp

end
