(* ===== verification/Sds.thy ===== *)
theory Sds
  imports Server
begin

text \<open>
  The operations of sds.c that the request parser uses: \<open>sdsrange\<close>, \<open>sdssplitargs\<close>, which splits a line
  into arguments that may be quoted, and its inverse \<open>sdscatrepr\<close>.

  A line is read up to its first NUL byte; the pointer into it is the rest of the line. The
  result \<^term>\<open>None\<close> of \<open>sdssplitargs\<close> is its null pointer.
\<close>

section \<open>Ranges\<close>

definition sdsrange :: "bytes \<Rightarrow> int \<Rightarrow> int \<Rightarrow> bytes" where
  "sdsrange s start end =
     (let len = int (length s)
      in if len = 0 then s
         else let start = (if start < 0 then max 0 (len + start) else start);
                  end = (if end < 0 then max 0 (len + end) else end);
                  newlen = (if start > end then 0 else end - start + 1);
                  (start, newlen) =
                    (if newlen \<noteq> 0 then
                       (if start \<ge> len then (start, 0)
                        else if end \<ge> len then (start, if start > len - 1 then 0 else len - 1 - start + 1)
                        else (start, newlen))
                     else (0, newlen))
              in take (nat newlen) (drop (nat start) s))"

lemma sdsrange_drop [simp]: "sdsrange s (int n) (- 1) = drop n s"
  by (auto simp: sdsrange_def Let_def)

section \<open>Quoted arguments\<close>

definition is_hex_digit :: "byte \<Rightarrow> bool" where
  "is_hex_digit c \<longleftrightarrow> 48 \<le> c \<and> c \<le> 57 \<or> 97 \<le> c \<and> c \<le> 102 \<or> 65 \<le> c \<and> c \<le> 70"

definition hex_digit_to_int :: "byte \<Rightarrow> nat" where
  "hex_digit_to_int c =
     (if 48 \<le> c \<and> c \<le> 57 then unat (c - 48)
      else if 97 \<le> c \<and> c \<le> 102 then 10 + unat (c - 97)
      else if 65 \<le> c \<and> c \<le> 70 then 10 + unat (c - 65) else 0)"

definition BACKSLASH :: byte where "BACKSLASH = 92"
definition QUOTE :: byte where "QUOTE = 34"
definition APOS :: byte where "APOS = 39"

text \<open>The letters n, r, t, b and a after a backslash.\<close>

definition escaped :: "byte \<Rightarrow> byte" where
  "escaped c = (if c = 110 then 10 else if c = 114 then 13 else if c = 116 then 9
     else if c = 98 then 8 else if c = 97 then 7 else c)"

datatype quoting = Plain | Inq | Insq

text \<open>A token, read into \<open>cur\<close>: the token and the rest of the line.\<close>

function sds_token :: "quoting \<Rightarrow> bytes \<Rightarrow> bytes \<Rightarrow> (bytes \<times> bytes) option" where
  "sds_token Plain cur p =
     (case p of [] \<Rightarrow> Some (cur, [])
      | c # p \<Rightarrow>
          if c = 32 \<or> c = 10 \<or> c = 13 \<or> c = 9 then Some (cur, p)
          else if c = QUOTE then sds_token Inq cur p
          else if c = APOS then sds_token Insq cur p
          else sds_token Plain (cur @ [c]) p)"
| "sds_token Inq cur p =
     (case p of [] \<Rightarrow> None
      | c # q \<Rightarrow>
          if c = BACKSLASH \<and> length q \<ge> 3 \<and> q ! 0 = 120 \<and> is_hex_digit (q ! 1) \<and> is_hex_digit (q ! 2)
          then sds_token Inq (cur @ [of_nat (hex_digit_to_int (q ! 1) * 16 + hex_digit_to_int (q ! 2))]) (drop 3 q)
          else if c = BACKSLASH \<and> q \<noteq> [] then sds_token Inq (cur @ [escaped (hd q)]) (tl q)
          else if c = QUOTE then (if q \<noteq> [] \<and> \<not> isspace (hd q) then None else Some (cur, q))
          else sds_token Inq (cur @ [c]) q)"
| "sds_token Insq cur p =
     (case p of [] \<Rightarrow> None
      | c # q \<Rightarrow>
          if c = BACKSLASH \<and> q \<noteq> [] \<and> hd q = APOS then sds_token Insq (cur @ [APOS]) (tl q)
          else if c = APOS then (if q \<noteq> [] \<and> \<not> isspace (hd q) then None else Some (cur, q))
          else sds_token Insq (cur @ [c]) q)"
  by pat_completeness auto

termination sds_token by (relation "measure (\<lambda>(_, _, p). length p)") (auto simp: neq_Nil_conv)

lemma sds_token_length: "sds_token m cur p = Some (t, r) \<Longrightarrow> length r \<le> length p \<and> (p \<noteq> [] \<longrightarrow> length r < length p)"
proof (induction m cur p rule: sds_token.induct)
  case (1 cur p)
  then show ?case by (cases p) (fastforce split: if_splits)+
next
  case (2 cur p)
  show ?case
  proof (cases p)
    case (Cons c q)
    then show ?thesis using 2 by (fastforce split: if_splits)
  qed (use 2 in simp)
next
  case (3 cur p)
  then show ?case by (cases p) (fastforce split: if_splits)+
qed

function split_line :: "bytes \<Rightarrow> bytes list option" where
  "split_line line =
     (let p = dropWhile isspace line
      in if p = [] then Some []
         else case sds_token Plain [] p of None \<Rightarrow> None
              | Some (t, r) \<Rightarrow> map_option (Cons t) (split_line r))"
  by pat_completeness auto

termination split_line
proof (relation "measure length")
  fix line p t r and x :: "bytes \<times> bytes"
  assume a: "p = dropWhile isspace line" "p \<noteq> []" "sds_token Plain [] p = Some x" "(t, r) = x"
  have "length r < length p" using sds_token_length [of Plain "[]" p t r] a by simp
  also have "\<dots> \<le> length line" by (simp add: a(1) length_dropWhile_le)
  finally show "(r, line) \<in> measure length" by simp
qed simp

declare sds_token.simps [simp del] split_line.simps [simp del]

definition sdssplitargs :: "bytes \<Rightarrow> bytes list option" where
  "sdssplitargs line = split_line (takeWhile (\<lambda>c. c \<noteq> 0) line)"

text \<open>\<open>isprint\<close> in the C locale, and \<open>%02x\<close>.\<close>

definition isprint :: "byte \<Rightarrow> bool" where
  "isprint c \<longleftrightarrow> 32 \<le> c \<and> c \<le> 126"

definition hex_digit :: "nat \<Rightarrow> byte" where
  "hex_digit n = (if n < 10 then 48 + of_nat n else 97 + of_nat (n - 10))"

definition repr_byte :: "byte \<Rightarrow> bytes" where
  "repr_byte c =
     (if c = BACKSLASH \<or> c = QUOTE then [BACKSLASH, c]
      else if c = 10 then [BACKSLASH, 110] else if c = 13 then [BACKSLASH, 114]
      else if c = 9 then [BACKSLASH, 116] else if c = 7 then [BACKSLASH, 97] else if c = 8 then [BACKSLASH, 98]
      else if isprint c then [c]
      else [BACKSLASH, 120, hex_digit (unat c div 16), hex_digit (unat c mod 16)])"

definition sdscatrepr :: "bytes \<Rightarrow> bytes \<Rightarrow> bytes" where
  "sdscatrepr s p = s @ [QUOTE] @ concat (map repr_byte p) @ [QUOTE]"

section \<open>Splitting inverts quoting\<close>

lemma hex_digit_table:
  "\<forall>n \<in> {..<16}. is_hex_digit (hex_digit n) \<and> hex_digit_to_int (hex_digit n) = n \<and> hex_digit n \<noteq> 0"
  by code_simp

lemma hex_digit:
  assumes "n < 16"
  shows "is_hex_digit (hex_digit n)" and "hex_digit_to_int (hex_digit n) = n" and "hex_digit n \<noteq> 0"
  using hex_digit_table assms by auto

lemma hex_byte: "of_nat (unat (c :: byte) div 16 * 16 + unat c mod 16) = c"
  by simp

lemma byte_16: "unat (c :: byte) div 16 < 16"
proof -
  have "unat c < 2 ^ LENGTH(8)" by (rule unsigned_less)
  then show ?thesis by (simp add: less_mult_imp_div_less)
qed

lemma token_repr: "sds_token Inq cur (repr_byte c @ p) = sds_token Inq (cur @ [c]) p"
proof (cases "c = BACKSLASH \<or> c = QUOTE \<or> c = 10 \<or> c = 13 \<or> c = 9 \<or> c = 7 \<or> c = 8")
  case True
  then show ?thesis
    by (subst sds_token.simps) (auto simp: repr_byte_def escaped_def BACKSLASH_def QUOTE_def)
next
  case False
  show ?thesis
  proof (cases "isprint c")
    case True
    then show ?thesis using False by (subst sds_token.simps) (simp add: repr_byte_def)
  next
    case np: False
    show ?thesis
      using False np hex_digit [OF byte_16, of c] hex_digit [of "unat c mod 16"] hex_byte [of c]
      by (subst sds_token.simps) (simp add: repr_byte_def del: unat_div unat_mod)
  qed
qed

lemma token_reprs:
  "p = [] \<or> isspace (hd p) \<Longrightarrow> sds_token Inq cur (concat (map repr_byte s) @ QUOTE # p) = Some (cur @ s, p)"
proof (induction s arbitrary: cur)
  case Nil
  then show ?case by (subst sds_token.simps) (auto simp: BACKSLASH_def QUOTE_def)
qed (simp add: token_repr)

fun quoted_line :: "bytes list \<Rightarrow> bytes" where
  "quoted_line [] = []"
| "quoted_line (a # as) = sdscatrepr [] a @ (if as = [] then [] else 32 # quoted_line as)"

lemma split_quoted_arg:
  assumes r: "r = [] \<or> isspace (hd r)"
  shows "split_line (sdscatrepr [] a @ r) = map_option (Cons a) (split_line r)"
    and "split_line (32 # sdscatrepr [] a @ r) = map_option (Cons a) (split_line r)"
proof -
  have q: "\<not> isspace QUOTE" "isspace 32" by (simp_all add: isspace_def QUOTE_def)
  have t: "sds_token Plain [] (QUOTE # concat (map repr_byte a) @ QUOTE # r) = Some (a, r)"
    using token_reprs [OF r, of "[]" a]
    by (subst sds_token.simps) (auto simp: QUOTE_def APOS_def isspace_def)
  have d: "dropWhile isspace (sdscatrepr [] a @ r) = sdscatrepr [] a @ r"
      "dropWhile isspace (32 # sdscatrepr [] a @ r) = sdscatrepr [] a @ r"
    by (simp_all add: q sdscatrepr_def)
  have t': "sds_token Plain [] (sdscatrepr [] a @ r) = Some (a, r)" "sdscatrepr [] a @ r \<noteq> []"
    using t by (simp_all add: sdscatrepr_def)
  show "split_line (sdscatrepr [] a @ r) = map_option (Cons a) (split_line r)"
    unfolding split_line.simps [of "sdscatrepr [] a @ r"] Let_def d by (simp only: t' if_False option.case prod.case)
  show "split_line (32 # sdscatrepr [] a @ r) = map_option (Cons a) (split_line r)"
    unfolding split_line.simps [of "32 # sdscatrepr [] a @ r"] Let_def d by (simp only: t' if_False option.case prod.case)
qed

lemma split_nil: "split_line [] = Some []"
  by (subst split_line.simps) simp

lemma split_quoted: "split_line (quoted_line as) = Some as"
  and "as \<noteq> [] \<Longrightarrow> split_line (32 # quoted_line as) = Some as"
proof (induction as)
  case (Cons a as)
  let ?r = "if as = [] then [] else 32 # quoted_line as"
  have r: "?r = [] \<or> isspace (hd ?r)" by (simp add: isspace_def)
  have "split_line ?r = Some as" using Cons.IH(2) by (simp add: split_nil)
  then show "split_line (quoted_line (a # as)) = Some (a # as)"
    "split_line (32 # quoted_line (a # as)) = Some (a # as)"
    using split_quoted_arg [OF r, of a] by simp_all
qed (simp_all add: split_nil)

lemma repr_no_nul: "0 \<notin> set (repr_byte c)"
  using hex_digit(3) [OF byte_16, of c] hex_digit(3) [of "unat c mod 16"]
  by (auto simp: repr_byte_def isprint_def BACKSLASH_def QUOTE_def simp del: unat_div unat_mod)

lemma quoted_line_no_nul: "0 \<notin> set (quoted_line as)"
  using repr_no_nul by (induction as) (auto simp: sdscatrepr_def QUOTE_def)

text \<open>C29: Splitting a line of quoted arguments gives the arguments back, whatever bytes they hold: quotes,
  backslashes, blanks, line ends, NUL bytes and the empty string.\<close>

theorem sdssplitargs_inverts_repr: "sdssplitargs (quoted_line as) = Some as"
proof -
  have "\<forall>c \<in> set (quoted_line as). c \<noteq> 0" using quoted_line_no_nul [of as] by auto
  then have l: "takeWhile (\<lambda>c. c \<noteq> 0) (quoted_line as) = quoted_line as" by (simp only: takeWhile_eq_all_conv)
  show ?thesis unfolding sdssplitargs_def l by (rule split_quoted)
qed

end
