(* ===== verification/Protocol.thy ===== *)
theory Protocol
  imports Networking Sds
begin

text \<open>
  The request parser of networking.c: the query buffer of a client, \<open>processInlineBuffer\<close>,
  \<open>processMultibulkBuffer\<close>, \<open>readQueryFromClient\<close> and the byte level of \<open>processInputBuffer\<close>, and
  \<open>catAppendOnlyGenericCommand\<close> of aof.c, which writes a request the way clients do.

  The handlers return REDIS\_OK or REDIS\_ERR in C; here they return a value of \<open>parsed\<close>: a request,
  or more input is needed, or the message of a protocol error. \<^term>\<open>None\<close> is a failed assertion.
\<close>

section \<open>The query buffer\<close>

datatype request_type = Unknown | Req_inline | Req_multibulk

record input =
  querybuf :: bytes
  reqtype :: request_type
  multibulklen :: nat
  bulklen :: int
  in_argv :: "bytes list"
  close_after_reply :: bool

definition new_input :: input where
  "new_input = \<lparr>querybuf = [], reqtype = Unknown, multibulklen = 0, bulklen = - 1, in_argv = [], close_after_reply = False\<rparr>"

definition reset_input :: "input \<Rightarrow> input" where
  "reset_input i = i\<lparr>reqtype := Unknown, multibulklen := 0, bulklen := - 1, in_argv := []\<rparr>"

datatype parsed = More input | Bad string input | Ready input

definition REDIS_INLINE_MAX_SIZE :: nat where "REDIS_INLINE_MAX_SIZE = 1024 * 64"
definition REDIS_MBULK_BIG_ARG :: int where "REDIS_MBULK_BIG_ARG = 1024 * 32"
definition REDIS_IOBUF_LEN :: nat where "REDIS_IOBUF_LEN = 1024 * 16"
definition REDIS_MAX_QUERYBUF_LEN :: nat where "REDIS_MAX_QUERYBUF_LEN = 1024 * 1024 * 1024"

definition CR :: byte where "CR = 13"
definition LF :: byte where "LF = 10"
definition DOLLAR :: byte where "DOLLAR = 36"

lemmas byte_defs = CR_def LF_def DOLLAR_def

text \<open>The place of a byte in the C string that the buffer holds, which ends at its first NUL byte.\<close>

fun strchr :: "byte \<Rightarrow> bytes \<Rightarrow> nat option" where
  "strchr c [] = None"
| "strchr c (x # xs) = (if x = c then Some 0 else if x = 0 then None else map_option Suc (strchr c xs))"

definition setProtocolError :: "nat \<Rightarrow> input \<Rightarrow> input" where
  "setProtocolError pos i = i\<lparr>close_after_reply := True, querybuf := sdsrange (querybuf i) (int pos) (- 1)\<rparr>"

definition trim :: "nat \<Rightarrow> input \<Rightarrow> input" where
  "trim pos i = (if pos = 0 then i else i\<lparr>querybuf := sdsrange (querybuf i) (int pos) (- 1)\<rparr>)"

section \<open>Inline requests\<close>

definition processInlineBuffer :: "input \<Rightarrow> parsed" where
  "processInlineBuffer i =
     (case strchr LF (querybuf i) of
        None \<Rightarrow>
          if length (querybuf i) > REDIS_INLINE_MAX_SIZE
          then Bad ''Protocol error: too big inline request'' (setProtocolError 0 i) else More i
      | Some newline \<Rightarrow>
          let querylen = (if newline \<noteq> 0 \<and> querybuf i ! (newline - 1) = CR then newline - 1 else newline)
          in case sdssplitargs (take querylen (querybuf i)) of
               None \<Rightarrow> Bad ''Protocol error: unbalanced quotes in request'' (setProtocolError 0 i)
             | Some args \<Rightarrow>
                 Ready (i\<lparr>querybuf := sdsrange (querybuf i) (int (querylen + 2)) (- 1), in_argv := filter (\<lambda>a. a \<noteq> []) args\<rparr>))"

section \<open>Multi bulk requests\<close>

text \<open>The message with the byte found: a NUL byte ends it, and line ends become blanks.\<close>

definition expected_dollar :: "byte \<Rightarrow> string" where
  "expected_dollar c = ''Protocol error: expected '$', got '' @
     CHR 0x27 # (if c = 0 then [] else if c = CR \<or> c = LF then [CHR 0x20, CHR 0x27] else [char_of (unat c), CHR 0x27])"

text \<open>The length of the next argument, unless it is known. On the left the result of the whole handler,
  on the right the new place in the buffer.\<close>

definition bulk_header :: "nat \<Rightarrow> input \<Rightarrow> parsed + nat \<times> input" where
  "bulk_header pos i =
     (if bulklen i \<noteq> - 1 then Inr (pos, i)
      else case strchr CR (drop pos (querybuf i)) of
        None \<Rightarrow>
          Inl (if length (querybuf i) > REDIS_INLINE_MAX_SIZE
               then Bad ''Protocol error: too big bulk count string'' (trim pos (setProtocolError 0 i)) else More (trim pos i))
      | Some n \<Rightarrow>
          if int (pos + n) > int (length (querybuf i)) - 2 then Inl (More (trim pos i))
          else if querybuf i ! pos \<noteq> DOLLAR then Inl (Bad (expected_dollar (querybuf i ! pos)) (setProtocolError pos i))
          else case string2ll (take (n - 1) (drop (pos + 1) (querybuf i))) of
            None \<Rightarrow> Inl (Bad ''Protocol error: invalid bulk length'' (setProtocolError pos i))
          | Some ll \<Rightarrow>
              if sint ll < 0 \<or> sint ll > 512 * 1024 * 1024
              then Inl (Bad ''Protocol error: invalid bulk length'' (setProtocolError pos i))
              else if sint ll \<ge> REDIS_MBULK_BIG_ARG
              then Inr (0, i\<lparr>querybuf := sdsrange (querybuf i) (int (pos + n + 2)) (- 1), bulklen := sint ll\<rparr>)
              else Inr (pos + n + 2, i\<lparr>bulklen := sint ll\<rparr>))"

text \<open>The argument itself. If the buffer is just a big argument it becomes the argument.\<close>

definition bulk_arg :: "nat \<Rightarrow> input \<Rightarrow> (nat \<times> input) option" where
  "bulk_arg pos i =
     (if length (querybuf i) - pos < nat (bulklen i + 2) then None
      else let i' = i\<lparr>bulklen := - 1, multibulklen := multibulklen i - 1\<rparr>
           in if pos = 0 \<and> bulklen i \<ge> REDIS_MBULK_BIG_ARG \<and> int (length (querybuf i)) = bulklen i + 2
              then Some (0, i'\<lparr>in_argv := in_argv i @ [take (length (querybuf i) - 2) (querybuf i)], querybuf := []\<rparr>)
              else Some (pos + nat (bulklen i + 2),
                i'\<lparr>in_argv := in_argv i @ [take (nat (bulklen i)) (drop pos (querybuf i))]\<rparr>))"

function mb_loop :: "nat \<Rightarrow> input \<Rightarrow> parsed" where
  "mb_loop pos i =
     (if multibulklen i = 0 then Ready (trim pos i)
      else case bulk_header pos i of
        Inl r \<Rightarrow> r
      | Inr (pos, i) \<Rightarrow>
          (case bulk_arg pos i of None \<Rightarrow> More (trim pos i) | Some (pos, i) \<Rightarrow> mb_loop pos i))"
  by pat_completeness auto

termination
  by (relation "measure (\<lambda>(_, i). multibulklen i)")
    (auto simp: bulk_header_def bulk_arg_def Let_def split: if_splits option.splits)

declare mb_loop.simps [simp del]

definition processMultibulkBuffer :: "input \<Rightarrow> parsed option" where
  "processMultibulkBuffer i =
     (if multibulklen i = 0 then
        if in_argv i \<noteq> [] then None
        else case strchr CR (querybuf i) of
          None \<Rightarrow>
            Some (if length (querybuf i) > REDIS_INLINE_MAX_SIZE
                  then Bad ''Protocol error: too big mbulk count string'' (setProtocolError 0 i) else More i)
        | Some newline \<Rightarrow>
            if int newline > int (length (querybuf i)) - 2 then Some (More i)
            else if querybuf i ! 0 \<noteq> STAR then None
            else case string2ll (take (newline - 1) (drop 1 (querybuf i))) of
              None \<Rightarrow> Some (Bad ''Protocol error: invalid multibulk length'' (setProtocolError 0 i))
            | Some ll \<Rightarrow>
                if sint ll > 1024 * 1024
                then Some (Bad ''Protocol error: invalid multibulk length'' (setProtocolError 0 i))
                else if sint ll \<le> 0
                then Some (Ready (i\<lparr>querybuf := sdsrange (querybuf i) (int (newline + 2)) (- 1)\<rparr>))
                else Some (mb_loop (newline + 2) (i\<lparr>multibulklen := nat (sint ll)\<rparr>))
      else Some (mb_loop 0 i))"

section \<open>Reading\<close>

definition get_request :: "input \<Rightarrow> parsed option" where
  "get_request i =
     (let i = (if reqtype i = Unknown
               then i\<lparr>reqtype := if querybuf i ! 0 = STAR then Req_multibulk else Req_inline\<rparr> else i)
      in if reqtype i = Req_inline then Some (processInlineBuffer i) else processMultibulkBuffer i)"

text \<open>\<open>processInputBuffer\<close>. A request that is not REDIS\_OK is QUIT, which has asked to close.\<close>

partial_function (option) processQuerybuf ::
  "redisCommand list \<Rightarrow> conditions \<Rightarrow> nat \<Rightarrow> input \<Rightarrow> redisServer \<Rightarrow> (input \<times> redisServer) option" where
  "processQuerybuf rows cd c i s =
     (if querybuf i = [] \<or> c_blocked (clients s ! c) \<or> close_after_reply i then Some (i, s)
      else case get_request i of
        None \<Rightarrow> None
      | Some (More i) \<Rightarrow> Some (i, s)
      | Some (Bad e i) \<Rightarrow> Some (i, addReply c (Error (''ERR '' @ e)) s)
      | Some (Ready i) \<Rightarrow>
          if in_argv i = [] then processQuerybuf rows cd c (reset_input i) (resetClient c s)
          else case processCommand rows cd c (upd_client c (\<lambda>cl. cl\<lparr>c_argv := in_argv i\<rparr>) s) of
            None \<Rightarrow> None
          | Some (ok, s) \<Rightarrow>
              if ok then processQuerybuf rows cd c (reset_input i) (resetClient c s)
              else processQuerybuf rows cd c (i\<lparr>close_after_reply := True\<rparr>) s)"

declare processQuerybuf.simps [code]

definition readlen :: "input \<Rightarrow> int" where
  "readlen i =
     (if reqtype i = Req_multibulk \<and> multibulklen i \<noteq> 0 \<and> bulklen i \<noteq> - 1 \<and> bulklen i \<ge> REDIS_MBULK_BIG_ARG
      then min (int REDIS_IOBUF_LEN) (bulklen i + 2 - int (length (querybuf i))) else int REDIS_IOBUF_LEN)"

text \<open>What \<open>read\<close> returns: bytes (none when the other side has closed), EAGAIN, or another error. The
  result \<^term>\<open>Inl\<close> is a client that has been freed.\<close>

datatype read_result = Read bytes | Again | Failed

definition readQueryFromClient ::
  "redisCommand list \<Rightarrow> conditions \<Rightarrow> nat \<Rightarrow> read_result \<Rightarrow> input \<Rightarrow> redisServer \<Rightarrow> (redisServer + input \<times> redisServer) option" where
  "readQueryFromClient rows cd c r i s =
     (case r of
        Again \<Rightarrow> Some (Inr (i, s))
      | Failed \<Rightarrow> map_option Inl (freeClient c s)
      | Read nread \<Rightarrow>
          if nread = [] then map_option Inl (freeClient c s)
          else let i = i\<lparr>querybuf := querybuf i @ nread\<rparr>
               in if length (querybuf i) > REDIS_MAX_QUERYBUF_LEN then map_option Inl (freeClient c s)
                  else map_option Inr (processQuerybuf rows cd c i s))"

section \<open>Writing a request\<close>

definition catAppendOnlyGenericCommand :: "bytes \<Rightarrow> bytes list \<Rightarrow> bytes" where
  "catAppendOnlyGenericCommand dst args =
     foldl (\<lambda>dst a. dst @ (DOLLAR # ll2string 31 (of_nat (length a)) @ [CR, LF]) @ a @ [CR, LF])
       (dst @ STAR # ll2string 31 (of_nat (length args)) @ [CR, LF]) args"

definition crlf :: bytes where "crlf = [CR, LF]"
definition bulk :: "bytes \<Rightarrow> bytes" where "bulk a = DOLLAR # dec (length a) @ crlf @ a @ crlf"
definition bulks :: "bytes list \<Rightarrow> bytes" where "bulks as = concat (map bulk as)"
definition wire :: "bytes list list \<Rightarrow> bytes" where
  "wire reqs = concat (map (catAppendOnlyGenericCommand []) reqs)"

definition request_ok :: "bytes list \<Rightarrow> bool" where
  "request_ok r \<longleftrightarrow> length r \<le> 1024 * 1024 \<and> list_all (\<lambda>a. length a \<le> 512 * 1024 * 1024) r"

lemma bulks_simps [simp]: "bulks [] = []" "bulks (a # as) = bulk a @ bulks as"
  by (simp_all add: bulks_def)

lemma wire_simps [simp]: "wire [] = []" "wire (r # rs) = catAppendOnlyGenericCommand [] r @ wire rs"
  by (simp_all add: wire_def)

lemma ll2string_nat: "n < 2 ^ 63 \<Longrightarrow> ll2string 31 (of_nat n) = dec n"
  by (simp add: ll2string_rep llrep_def unat_of_nat)

lemma string2ll_dec_nat: "n < 2 ^ 63 \<Longrightarrow> string2ll (dec n) = Some (of_nat n)"
  using string2ll_rep [of "of_nat n"] by (simp add: llrep_def unat_of_nat)

lemma cat_bulks:
  assumes "list_all (\<lambda>a. length a \<le> 512 * 1024 * 1024) as"
  shows "foldl (\<lambda>dst a. dst @ (DOLLAR # ll2string 31 (of_nat (length a)) @ [CR, LF]) @ a @ [CR, LF]) dst as = dst @ bulks as"
  using assms by (induction as arbitrary: dst) (simp_all add: ll2string_nat bulk_def crlf_def)

lemma cat_request:
  "request_ok r \<Longrightarrow> catAppendOnlyGenericCommand dst r = dst @ STAR # dec (length r) @ crlf @ bulks r"
  using cat_bulks [of r "dst @ STAR # ll2string 31 (of_nat (length r)) @ [CR, LF]"]
  by (simp add: catAppendOnlyGenericCommand_def request_ok_def ll2string_nat crlf_def)

section \<open>Finding the end of a header\<close>

lemma dec_plain: "c \<in> set (dec n) \<Longrightarrow> c \<noteq> CR \<and> c \<noteq> 0"
  using dec_digits [of n] by (auto simp: digit_def CR_def)

lemma strchr_skip:
  assumes "\<forall>x \<in> set h. x \<noteq> c \<and> x \<noteq> 0"
  shows "strchr c (h @ p) = map_option ((+) (length h)) (strchr c p)"
  using assms by (induction h) (auto simp: option.map_comp o_def map_option_case split: option.splits)

lemma strchr_none: "\<forall>x \<in> set h. x \<noteq> c \<and> x \<noteq> 0 \<Longrightarrow> strchr c h = None"
  by (induction h) auto

text \<open>A buffer that begins with a header \<open>b # dec n @ crlf\<close>, as far as it has been received.\<close>

lemma header_split:
  assumes p: "p @ rest = b # dec n @ crlf @ q" and b: "b \<noteq> CR" "b \<noteq> 0"
  shows "length p \<le> length (dec n) + 2 \<and> rest \<noteq> [] \<and>
      (strchr CR p = None \<or> (\<exists>k. strchr CR p = Some k \<and> int k > int (length p) - 2)) \<or>
    (\<exists>p'. p = b # dec n @ crlf @ p' \<and> p' @ rest = q \<and> strchr CR p = Some (Suc (length (dec n))))"
proof -
  let ?h = "b # dec n @ [CR]"
  have h: "\<forall>x \<in> set (b # dec n). x \<noteq> CR \<and> x \<noteq> 0" using b dec_plain by auto
  have e: "p @ rest = (b # dec n) @ CR # LF # q" using p by (simp add: crlf_def)
  show ?thesis
  proof (cases "length p \<le> length (dec n) + 2")
    case True
    then have r: "rest \<noteq> []" using p by (auto simp: crlf_def)
    show ?thesis
    proof (cases "length p \<le> length (dec n) + 1")
      case True
      then have "p = take (length p) (b # dec n)"
        using arg_cong [OF e, of "take (length p)"] unfolding take_append by simp
      then have "set p \<subseteq> set (b # dec n)" by (metis set_take_subset)
      then have "strchr CR p = None" using h by (intro strchr_none) blast
      then show ?thesis using True r by simp
    next
      case False
      then have "length p = length (dec n) + 2" using True by simp
      then have "p = (b # dec n) @ [CR]" using arg_cong [OF e, of "take (length p)"] by simp
      then have "strchr CR p = Some (Suc (length (dec n)))" using strchr_skip [OF h, of "[CR]"] by simp
      then show ?thesis using True False r by simp
    qed
  next
    case False
    let ?h = "b # dec n @ [CR, LF]"
    have "take (length ?h) (p @ rest) = ?h" "drop (length ?h) (p @ rest) = q" using e by simp_all
    then have "take (length ?h) p = ?h" "drop (length ?h) p @ rest = q" using False by simp_all
    then obtain p' where "p = ?h @ p'" and q: "p' @ rest = q" by (metis append_take_drop_id)
    then have p': "p = (b # dec n) @ [CR, LF] @ p'" by simp
    then have "strchr CR p = Some (Suc (length (dec n)))" using strchr_skip [OF h, of "CR # LF # p'"] by simp
    then show ?thesis using p' q by (auto simp: crlf_def)
  qed
qed

section \<open>The arguments of a request\<close>

text \<open>What is still to come of a request: the arguments \<open>as\<close>, of which the first may have its header read.
  \<open>T\<close> follows the request and \<open>rest\<close> has not yet been received.\<close>

definition busy :: "nat \<Rightarrow> input \<Rightarrow> bytes list \<Rightarrow> bytes \<Rightarrow> bytes \<Rightarrow> bool" where
  "busy pos i as rest T \<longleftrightarrow>
     multibulklen i = length as \<and> (bulklen i = - 1 \<or> as \<noteq> [] \<and> bulklen i = int (length (hd as))) \<and>
     drop pos (querybuf i) @ rest = (if bulklen i = - 1 then bulks as else hd as @ crlf @ bulks (tl as)) @ T \<and>
     pos \<le> length (querybuf i) \<and> list_all (\<lambda>a. length a \<le> 512 * 1024 * 1024) as"

definition small :: "nat \<Rightarrow> input \<Rightarrow> bytes \<Rightarrow> bool" where
  "small pos i rest \<longleftrightarrow> length (querybuf i) \<le> REDIS_INLINE_MAX_SIZE \<or> rest = [] \<or>
     pos = 0 \<and> bulklen i \<ge> REDIS_MBULK_BIG_ARG \<and> int (length (querybuf i)) \<le> bulklen i + 2"

definition short :: "input \<Rightarrow> bool" where
  "short i \<longleftrightarrow> int (length (querybuf i)) < max REDIS_MBULK_BIG_ARG (bulklen i + 2)"

lemma trim_drop: "trim pos i = i\<lparr>querybuf := drop pos (querybuf i)\<rparr>"
  by (simp add: trim_def)

lemma bulk_header_cases:
  assumes b: "bulklen i = - 1" and p: "drop pos (querybuf i) @ rest = bulk a @ T" and pos: "pos \<le> length (querybuf i)"
    and a: "length a \<le> 512 * 1024 * 1024" and sm: "length (querybuf i) \<le> REDIS_INLINE_MAX_SIZE \<or> rest = []"
  shows "bulk_header pos i = Inl (More (trim pos i)) \<and> rest \<noteq> [] \<and> length (querybuf i) - pos \<le> 12 \<or>
    (\<exists>pos' qb. bulk_header pos i = Inr (pos', i\<lparr>querybuf := qb, bulklen := int (length a)\<rparr>) \<and>
       drop pos' qb @ rest = a @ crlf @ T \<and> pos' \<le> length qb \<and> length qb \<le> length (querybuf i))"
proof -
  let ?p = "drop pos (querybuf i)" and ?n = "length (dec (length a))"
  have e: "?p @ rest = DOLLAR # dec (length a) @ crlf @ (a @ crlf @ T)" using p by (simp add: bulk_def)
  have l: "?n \<le> 10" using length_dec [of "length a" 9] a by simp
  have d: "DOLLAR \<noteq> CR" "DOLLAR \<noteq> 0" by (simp_all add: byte_defs)
  consider (part) "length ?p \<le> ?n + 2" "rest \<noteq> []" "strchr CR ?p = None \<or> (\<exists>k. strchr CR ?p = Some k \<and> int k > int (length ?p) - 2)"
    | (whole) p' where "?p = DOLLAR # dec (length a) @ crlf @ p'" "p' @ rest = a @ crlf @ T" "strchr CR ?p = Some (Suc ?n)"
    using header_split [OF e d] by blast
  then show ?thesis
  proof cases
    case part
    then have "bulk_header pos i = Inl (More (trim pos i))"
      using b sm pos by (auto simp: bulk_header_def of_nat_diff)
    then show ?thesis using part l by simp
  next
    case (whole p')
    have len: "length (querybuf i) = pos + ?n + 3 + length p'"
      using arg_cong [OF whole(1), of length] pos by (simp add: crlf_def)
    have at: "querybuf i ! pos = DOLLAR" using arg_cong [OF whole(1), of hd] len by (simp add: hd_drop_conv_nth)
    have num: "take ?n (drop (pos + 1) (querybuf i)) = dec (length a)"
      using arg_cong [OF whole(1), of "\<lambda>p. take ?n (tl p)"] by (simp add: drop_Suc drop_tl crlf_def)
    have rst: "drop (pos + ?n + 3) (querybuf i) = p'"
      using arg_cong [OF whole(1), of "drop (Suc (?n + 2))"] by (simp add: crlf_def ac_simps numeral_3_eq_3)
    have ll: "string2ll (dec (length a)) = Some (of_nat (length a))" "sint (of_nat (length a) :: u64) = int (length a)"
      using a by (simp_all add: string2ll_dec_nat sint_of_nat)
    have sd: "sdsrange (querybuf i) (int (pos + Suc ?n + 2)) (- 1) = drop (pos + ?n + 3) (querybuf i)"
      by (simp only: sdsrange_drop) (simp add: numeral_3_eq_3)
    have hd: "bulk_header pos i =
        (if int (length a) \<ge> REDIS_MBULK_BIG_ARG
         then Inr (0, i\<lparr>querybuf := drop (pos + ?n + 3) (querybuf i), bulklen := int (length a)\<rparr>)
         else Inr (pos + ?n + 3, i\<lparr>bulklen := int (length a)\<rparr>))"
      using b whole(3) len at num ll a sd by (simp add: bulk_header_def del: sdsrange_drop)
    have tl: "drop (pos + ?n + 3) (querybuf i) @ rest = a @ crlf @ T" using rst whole(2) by simp
    show ?thesis
    proof (cases "int (length a) \<ge> REDIS_MBULK_BIG_ARG")
      case True
      then show ?thesis using hd tl
        by (intro disjI2 exI [of _ 0] exI [of _ "drop (pos + ?n + 3) (querybuf i)"]) simp
    next
      case False
      then show ?thesis using hd tl len
        by (intro disjI2 exI [of _ "pos + ?n + 3"] exI [of _ "querybuf i"]) simp
    qed
  qed
qed

lemma bulk_arg_cases:
  assumes b: "bulklen i = int (length a)" and p: "drop pos (querybuf i) @ rest = a @ crlf @ T" and pos: "pos \<le> length (querybuf i)"
  shows "bulk_arg pos i = None \<and> rest \<noteq> [] \<and> length (querybuf i) - pos < length a + 2 \<or>
    (\<exists>pos' qb. bulk_arg pos i = Some (pos', i\<lparr>querybuf := qb, bulklen := - 1, multibulklen := multibulklen i - 1,
         in_argv := in_argv i @ [a]\<rparr>) \<and> drop pos' qb @ rest = T \<and> pos' \<le> length qb \<and> length qb \<le> length (querybuf i) \<and>
       (small pos i rest \<longrightarrow> length qb \<le> REDIS_INLINE_MAX_SIZE \<or> rest = []))"
proof (cases "length (querybuf i) - pos < length a + 2")
  case True
  have "length (drop pos (querybuf i) @ rest) \<ge> length a + 2" unfolding p by (simp add: crlf_def)
  then show ?thesis using True b by (auto simp: bulk_arg_def)
next
  case False
  let ?p = "drop pos (querybuf i)"
  have "take (length a + 2) (?p @ rest) = a @ crlf" "drop (length a + 2) (?p @ rest) = T" unfolding p by (simp_all add: crlf_def)
  then have t: "take (length a + 2) ?p = a @ crlf" and d: "drop (length a + 2) ?p @ rest = T" using False by simp_all
  have ta: "take (length a) ?p = a" using arg_cong [OF t, of "take (length a)"] by (simp add: min_def)
  show ?thesis
  proof (cases "pos = 0 \<and> int (length a) \<ge> REDIS_MBULK_BIG_ARG \<and> length (querybuf i) = length a + 2")
    case True
    then have "querybuf i = a @ crlf" using t by simp
    then have "take (length (querybuf i) - 2) (querybuf i) = a" "T = rest" using p True by (simp_all add: crlf_def)
    then show ?thesis using True b by (simp add: bulk_arg_def REDIS_INLINE_MAX_SIZE_def)
  next
    case opt: False
    have "bulk_arg pos i = Some (pos + (length a + 2), i\<lparr>bulklen := - 1, multibulklen := multibulklen i - 1,
        in_argv := in_argv i @ [a]\<rparr>)"
      using False opt b ta by (auto simp: bulk_arg_def Let_def nat_add_distrib)
    moreover have "drop (pos + (length a + 2)) (querybuf i) @ rest = T" using d by (simp add: add.commute)
    moreover have "length (querybuf i) \<le> REDIS_INLINE_MAX_SIZE \<or> rest = []" if "small pos i rest"
      using that opt False b by (auto simp: small_def)
    ultimately show ?thesis using False pos by (intro disjI2 exI [of _ "pos + (length a + 2)"] exI [of _ "querybuf i"]) auto
  qed
qed

text \<open>The loop takes all the arguments, or as many as have been received.\<close>

definition stopped :: "input \<Rightarrow> input \<Rightarrow> bytes list \<Rightarrow> bytes \<Rightarrow> bytes \<Rightarrow> bool" where
  "stopped i j as rest T \<longleftrightarrow> rest \<noteq> [] \<and> short j \<and> reqtype j = reqtype i \<and> close_after_reply j = close_after_reply i \<and>
     (\<exists>todo. in_argv j @ todo = in_argv i @ as \<and> todo \<noteq> [] \<and> busy 0 j todo rest T)"

lemma mb_loop_cases:
  assumes "busy pos i as rest T" and "small pos i rest"
  shows "(\<exists>qb. mb_loop pos i = Ready (i\<lparr>querybuf := qb, bulklen := - 1, multibulklen := 0, in_argv := in_argv i @ as\<rparr>) \<and>
      qb @ rest = T) \<or> (\<exists>j. mb_loop pos i = More j \<and> stopped i j as rest T)"
  using assms
proof (induction as arbitrary: pos i)
  case Nil
  then have "mb_loop pos i = Ready (i\<lparr>querybuf := drop pos (querybuf i), bulklen := - 1, multibulklen := 0, in_argv := in_argv i @ []\<rparr>)"
    by (subst mb_loop.simps) (simp add: busy_def trim_drop)
  then show ?case using Nil by (auto simp: busy_def)
next
  case (Cons a as)
  have a: "length a \<le> 512 * 1024 * 1024" and n: "multibulklen i \<noteq> 0" and pos: "pos \<le> length (querybuf i)"
    using Cons.prems(1) by (simp_all add: busy_def)
  have body: "(\<exists>qb. (case bulk_arg pos' i' of None \<Rightarrow> More (trim pos' i') | Some (pos, i) \<Rightarrow> mb_loop pos i) =
        Ready (i\<lparr>querybuf := qb, bulklen := - 1, multibulklen := 0, in_argv := in_argv i @ a # as\<rparr>) \<and> qb @ rest = T) \<or>
      (\<exists>j. (case bulk_arg pos' i' of None \<Rightarrow> More (trim pos' i') | Some (pos, i) \<Rightarrow> mb_loop pos i) = More j \<and> stopped i j (a # as) rest T)"
    if i': "i' = i\<lparr>querybuf := qb, bulklen := int (length a)\<rparr>" and p: "drop pos' qb @ rest = a @ crlf @ bulks as @ T"
      and pos': "pos' \<le> length qb" and sm: "small pos' i' rest" for pos' i' qb
  proof -
    have p': "bulklen i' = int (length a)" "drop pos' (querybuf i') @ rest = a @ crlf @ (bulks as @ T)" "pos' \<le> length (querybuf i')"
      using i' p pos' by simp_all
    from bulk_arg_cases [OF p'] show ?thesis
    proof (elim disjE exE conjE)
      assume n: "bulk_arg pos' i' = None" "rest \<noteq> []" "length (querybuf i') - pos' < length a + 2"
      have "busy 0 (trim pos' i') (a # as) rest T"
        using Cons.prems(1) i' p by (simp add: busy_def trim_drop)
      then have "stopped i (trim pos' i') (a # as) rest T"
        using n i' by (auto simp: stopped_def short_def trim_drop)
      then show ?thesis using n(1) by simp
    next
      fix pos'' qb'
      assume s: "bulk_arg pos' i' = Some (pos'', i'\<lparr>querybuf := qb', bulklen := - 1, multibulklen := multibulklen i' - 1,
          in_argv := in_argv i' @ [a]\<rparr>)" "drop pos'' qb' @ rest = bulks as @ T" "pos'' \<le> length qb'"
        "small pos' i' rest \<longrightarrow> length qb' \<le> REDIS_INLINE_MAX_SIZE \<or> rest = []"
      let ?i = "i'\<lparr>querybuf := qb', bulklen := - 1, multibulklen := multibulklen i' - 1, in_argv := in_argv i' @ [a]\<rparr>"
      have "busy pos'' ?i as rest T" using Cons.prems(1) s i' by (simp add: busy_def)
      moreover have "small pos'' ?i rest" using s(4) sm by (auto simp: small_def)
      ultimately show ?thesis using Cons.IH [of pos'' ?i] s(1) i' by (simp add: stopped_def)
    qed
  qed
  show ?case
  proof (cases "bulklen i = - 1")
    case True
    then have h: "drop pos (querybuf i) @ rest = bulk a @ (bulks as @ T)" "length (querybuf i) \<le> REDIS_INLINE_MAX_SIZE \<or> rest = []"
      using Cons.prems by (auto simp: busy_def small_def REDIS_MBULK_BIG_ARG_def)
    from bulk_header_cases [OF True h(1) pos a h(2)] show ?thesis
    proof (elim disjE exE conjE)
      assume m: "bulk_header pos i = Inl (More (trim pos i))" "rest \<noteq> []" "length (querybuf i) - pos \<le> 12"
      have "busy 0 (trim pos i) (a # as) rest T" using Cons.prems(1) by (simp add: busy_def trim_drop)
      then have "stopped i (trim pos i) (a # as) rest T"
        using m(2,3) by (auto simp: stopped_def short_def trim_drop REDIS_MBULK_BIG_ARG_def)
      then show ?thesis using m(1) n by (subst (1 2) mb_loop.simps) simp
    next
      fix pos' qb
      assume g: "bulk_header pos i = Inr (pos', i\<lparr>querybuf := qb, bulklen := int (length a)\<rparr>)"
        "drop pos' qb @ rest = a @ crlf @ bulks as @ T" "pos' \<le> length qb" "length qb \<le> length (querybuf i)"
      have "small pos' (i\<lparr>querybuf := qb, bulklen := int (length a)\<rparr>) rest" using g(4) h(2) by (auto simp: small_def)
      from body [OF refl g(2,3) this] show ?thesis using g(1) n by (subst (1 2) mb_loop.simps) simp
    qed
  next
    case False
    then have b: "bulklen i = int (length a)" "drop pos (querybuf i) @ rest = a @ crlf @ bulks as @ T"
      using Cons.prems(1) by (simp_all add: busy_def)
    then have "i = i\<lparr>querybuf := querybuf i, bulklen := int (length a)\<rparr>" by simp
    from body [OF this b(2) pos Cons.prems(2)] show ?thesis
      using False n by (subst (1 2) mb_loop.simps) (simp add: bulk_header_def)
  qed
qed

section \<open>Requests to come\<close>

text \<open>The requests \<open>reqs\<close> are still to be read; what has been received of them is in the buffer, \<open>rest\<close> is
  under way.\<close>

definition awaits :: "input \<Rightarrow> bytes list list \<Rightarrow> bytes \<Rightarrow> bool" where
  "awaits i reqs rest \<longleftrightarrow> \<not> close_after_reply i \<and> list_all request_ok reqs \<and>
     (if multibulklen i = 0
      then in_argv i = [] \<and> bulklen i = - 1 \<and> reqtype i \<noteq> Req_inline \<and> querybuf i @ rest = wire reqs \<and>
        (querybuf i = [] \<longrightarrow> reqtype i = Unknown)
      else reqtype i = Req_multibulk \<and>
        (\<exists>todo rs. reqs = (in_argv i @ todo) # rs \<and> todo \<noteq> [] \<and> busy 0 i todo rest (wire rs)))"

lemma wire_Nil: "list_all request_ok reqs \<Longrightarrow> wire reqs = [] \<Longrightarrow> reqs = []"
  by (cases reqs) (auto simp: cat_request)

lemma busy_nonempty: "busy pos i todo rest T \<Longrightarrow> todo \<noteq> [] \<Longrightarrow> length T < length (drop pos (querybuf i) @ rest)"
  by (cases todo) (auto simp: busy_def bulk_def crlf_def)

lemma awaits_all:
  assumes "awaits i reqs []" and "querybuf i = []"
  shows "reqs = []"
proof (cases "multibulklen i = 0")
  case False
  then obtain todo rs where "todo \<noteq> []" "busy 0 i todo [] (wire rs)" using assms(1) by (auto simp: awaits_def)
  then show ?thesis using busy_nonempty [of 0 i todo "[]" "wire rs"] assms(2) by simp
qed (use assms wire_Nil in \<open>simp add: awaits_def\<close>)

lemma reset_input_simps [simp]:
  "querybuf (reset_input i) = querybuf i" "close_after_reply (reset_input i) = close_after_reply i"
  "multibulklen (reset_input i) = 0" "in_argv (reset_input i) = []" "bulklen (reset_input i) = - 1"
  "reqtype (reset_input i) = Unknown"
  by (simp_all add: reset_input_def)

lemma stopped_awaits:
  assumes "stopped i j as rest (wire rs)" and "reqtype i = Req_multibulk" and "\<not> close_after_reply i"
    and "list_all request_ok ((in_argv i @ as) # rs)"
  shows "awaits j ((in_argv i @ as) # rs) rest" and "short j" and "rest \<noteq> []"
proof -
  obtain todo where t: "in_argv i @ as = in_argv j @ todo" "todo \<noteq> []" "busy 0 j todo rest (wire rs)"
    using assms(1) unfolding stopped_def by metis
  moreover have "multibulklen j \<noteq> 0" using t(2,3) by (simp add: busy_def)
  ultimately show "awaits j ((in_argv i @ as) # rs) rest"
    using assms unfolding awaits_def by (auto simp: stopped_def)
  show "short j" "rest \<noteq> []" using assms(1) by (simp_all add: stopped_def)
qed

definition complete :: "input \<Rightarrow> input \<Rightarrow> bytes list list \<Rightarrow> bytes \<Rightarrow> bool" where
  "complete i j reqs rest \<longleftrightarrow> reqs = in_argv j # tl reqs \<and> awaits (reset_input j) (tl reqs) rest \<and>
     length (querybuf j) < length (querybuf i) \<and> (length (querybuf j) \<le> REDIS_INLINE_MAX_SIZE \<or> rest = [])"

lemma busy_big:
  assumes "busy 0 i todo rest T" and "todo \<noteq> []" and "qb @ rest = T" and "small 0 i rest"
  shows "length qb \<le> REDIS_INLINE_MAX_SIZE \<or> rest = []"
proof -
  have l: "length qb + length rest = length T" using assms(3) by (metis length_append)
  show ?thesis
  proof (cases "bulklen i \<ge> REDIS_MBULK_BIG_ARG \<and> int (length (querybuf i)) \<le> bulklen i + 2")
    case True
    then have b: "bulklen i = int (length (hd todo))" "querybuf i @ rest = hd todo @ crlf @ bulks (tl todo) @ T"
      using assms(1,2) by (auto simp: busy_def REDIS_MBULK_BIG_ARG_def)
    have "length (querybuf i) + length rest = length (hd todo) + 2 + length (bulks (tl todo)) + length T"
      using arg_cong [OF b(2), of length] by (simp add: crlf_def)
    then show ?thesis using l b(1) True by (simp add: REDIS_INLINE_MAX_SIZE_def)
  next
    case False
    then show ?thesis using assms(4) busy_nonempty [OF assms(1,2)] l by (auto simp: small_def)
  qed
qed

lemma processMultibulkBuffer_busy:
  assumes "awaits i reqs rest" and "small 0 i rest" and "multibulklen i \<noteq> 0"
  shows "(\<exists>j. processMultibulkBuffer i = Some (Ready j) \<and> complete i j reqs rest) \<or>
    (\<exists>j. processMultibulkBuffer i = Some (More j) \<and> awaits j reqs rest \<and> short j \<and> rest \<noteq> [])"
proof -
  obtain todo rs where t: "reqs = (in_argv i @ todo) # rs" "todo \<noteq> []" "busy 0 i todo rest (wire rs)"
      and i: "reqtype i = Req_multibulk" "\<not> close_after_reply i" "list_all request_ok reqs"
    using assms(1,3) by (auto simp: awaits_def)
  have p: "processMultibulkBuffer i = Some (mb_loop 0 i)" using assms(3) by (simp add: processMultibulkBuffer_def)
  from mb_loop_cases [OF t(3) assms(2)] show ?thesis
  proof (elim disjE exE conjE)
    fix qb assume r: "mb_loop 0 i = Ready (i\<lparr>querybuf := qb, bulklen := - 1, multibulklen := 0, in_argv := in_argv i @ todo\<rparr>)"
      "qb @ rest = wire rs"
    have "length qb + length rest = length (wire rs)" using r(2) by (metis length_append)
    then have "length qb < length (querybuf i)" using busy_nonempty [OF t(3,2)] by simp
    then show ?thesis using p r t(1) i busy_big [OF t(3,2) r(2) assms(2)] by (simp add: complete_def awaits_def)
  next
    fix j assume "mb_loop 0 i = More j" "stopped i j todo rest (wire rs)"
    then show ?thesis using p stopped_awaits [of i j todo rest rs] t(1) i by auto
  qed
qed

lemma processMultibulkBuffer_idle:
  assumes aw: "awaits i reqs rest" and sm: "small 0 i rest" and n: "multibulklen i = 0" and q: "querybuf i \<noteq> []"
    and rt: "reqtype i = Req_multibulk"
  shows "(\<exists>j. processMultibulkBuffer i = Some (Ready j) \<and> complete i j reqs rest) \<or>
    (\<exists>j. processMultibulkBuffer i = Some (More j) \<and> awaits j reqs rest \<and> short j \<and> rest \<noteq> [])"
proof -
  have i: "in_argv i = []" "bulklen i = - 1" "\<not> close_after_reply i" "list_all request_ok reqs" "querybuf i @ rest = wire reqs"
    using aw n by (simp_all add: awaits_def)
  then obtain r rs where reqs: "reqs = r # rs" using q by (cases reqs) auto
  have ok: "request_ok r" "list_all request_ok rs" using i(4) reqs by simp_all
  let ?n = "length (dec (length r))"
  have e: "querybuf i @ rest = STAR # dec (length r) @ crlf @ (bulks r @ wire rs)"
    using i(5) reqs cat_request [OF ok(1), of "[]"] by simp
  have l: "?n \<le> 7" using length_dec [of "length r" 6] ok(1) by (simp add: request_ok_def)
  have d: "STAR \<noteq> CR" "STAR \<noteq> 0" by (simp_all add: byte_defs)
  have sz: "length (querybuf i) \<le> REDIS_INLINE_MAX_SIZE \<or> rest = []"
    using sm i(2) by (auto simp: small_def REDIS_MBULK_BIG_ARG_def)
  consider (part) "length (querybuf i) \<le> ?n + 2" "rest \<noteq> []"
      "strchr CR (querybuf i) = None \<or> (\<exists>k. strchr CR (querybuf i) = Some k \<and> int k > int (length (querybuf i)) - 2)"
    | (whole) p' where "querybuf i = STAR # dec (length r) @ crlf @ p'" "p' @ rest = bulks r @ wire rs"
      "strchr CR (querybuf i) = Some (Suc ?n)"
    using header_split [OF e d] by blast
  then show ?thesis
  proof cases
    case part
    then have "processMultibulkBuffer i = Some (More i)"
      using n i(1) sz by (auto simp: processMultibulkBuffer_def)
    moreover have "short i" using part(1) l i(2) by (simp add: short_def REDIS_MBULK_BIG_ARG_def)
    ultimately show ?thesis using aw part(2) by auto
  next
    case (whole p')
    have len: "length (querybuf i) = ?n + 3 + length p'" using arg_cong [OF whole(1), of length] by (simp add: crlf_def)
    have at: "querybuf i ! 0 = STAR" using whole(1) by simp
    have num: "take ?n (drop 1 (querybuf i)) = dec (length r)" using whole(1) by simp
    have rst: "drop (Suc ?n + 2) (querybuf i) = p'" unfolding whole(1) by (simp add: crlf_def)
    have ll: "string2ll (dec (length r)) = Some (of_nat (length r))" "sint (of_nat (length r) :: u64) = int (length r)"
      using ok(1) by (simp_all add: string2ll_dec_nat sint_of_nat request_ok_def)
    have sd: "sdsrange (querybuf i) (int (Suc ?n + 2)) (- 1) = p'" by (simp only: sdsrange_drop rst)
    let ?i = "i\<lparr>multibulklen := length r\<rparr>"
    have p: "processMultibulkBuffer i =
        (if r = [] then Some (Ready (i\<lparr>querybuf := p'\<rparr>)) else Some (mb_loop (Suc ?n + 2) ?i))"
      using n i(1) whole(3) len at num ll ok(1) sd
      by (cases "r = []") (simp_all add: processMultibulkBuffer_def request_ok_def)
    show ?thesis
    proof (cases "r = []")
      case True
      then have "complete i (i\<lparr>querybuf := p'\<rparr>) reqs rest"
        using i ok len reqs whole(2) sz by (auto simp: complete_def awaits_def)
      then show ?thesis using p True by auto
    next
      case False
      have b: "busy (Suc ?n + 2) ?i r rest (wire rs)"
        using i(2) ok(1) rst whole(2) len by (simp add: busy_def request_ok_def)
      have "small (Suc ?n + 2) ?i rest" using sz by (simp add: small_def)
      from mb_loop_cases [OF b this] show ?thesis
      proof (elim disjE exE conjE)
        fix qb assume m: "mb_loop (Suc ?n + 2) ?i = Ready (?i\<lparr>querybuf := qb, bulklen := - 1, multibulklen := 0, in_argv := in_argv ?i @ r\<rparr>)"
          "qb @ rest = wire rs"
        have "length qb < length (querybuf i)"
          using arg_cong [OF m(2), of length] arg_cong [OF e, of length] by simp
        then show ?thesis using p False m i ok reqs sz by (auto simp: complete_def awaits_def)
      next
        fix j assume "mb_loop (Suc ?n + 2) ?i = More j" "stopped ?i j r rest (wire rs)"
        then show ?thesis using p False stopped_awaits [of ?i j r rest rs] rt i reqs by auto
      qed
    qed
  qed
qed

lemma get_request_cases:
  assumes aw: "awaits i reqs rest" and sm: "small 0 i rest" and q: "querybuf i \<noteq> []"
  shows "(\<exists>j. get_request i = Some (Ready j) \<and> complete i j reqs rest) \<or>
    (\<exists>j. get_request i = Some (More j) \<and> awaits j reqs rest \<and> short j \<and> rest \<noteq> [])"
proof (cases "multibulklen i = 0")
  case True
  let ?i = "i\<lparr>reqtype := Req_multibulk\<rparr>"
  have i: "list_all request_ok reqs" "querybuf i @ rest = wire reqs" "reqtype i \<noteq> Req_inline"
    using aw True by (simp_all add: awaits_def)
  then obtain r rs where "reqs = r # rs" "request_ok r" using q by (cases reqs) auto
  then have "hd (querybuf i @ rest) = STAR" using i(2) by (simp add: cat_request)
  then have st: "querybuf i ! 0 = STAR" using q by (simp add: hd_conv_nth nth_append)
  have same: "?i = i" if "reqtype i = Req_multibulk" using that by (cases i) simp
  have g: "get_request i = processMultibulkBuffer ?i"
  proof (cases "reqtype i")
    case Req_multibulk
    then show ?thesis unfolding same [OF Req_multibulk] by (simp add: get_request_def)
  qed (use st i(3) in \<open>simp_all add: get_request_def\<close>)
  have "awaits ?i reqs rest" "small 0 ?i rest" using aw sm True q by (auto simp: awaits_def small_def)
  from processMultibulkBuffer_idle [OF this] show ?thesis using True q unfolding g by (simp add: complete_def)
next
  case False
  then have "get_request i = processMultibulkBuffer i" using aw by (auto simp: get_request_def awaits_def)
  then show ?thesis using processMultibulkBuffer_busy [OF aw sm False] by simp
qed

section \<open>Requests in pieces\<close>

text \<open>The requests that a client reads when it is never blocked: \<open>processInputBuffer\<close> without their
  execution.\<close>

partial_function (option) drain :: "bytes list list \<Rightarrow> input \<Rightarrow> (bytes list list \<times> input) option" where
  "drain rs i =
     (if querybuf i = [] \<or> close_after_reply i then Some (rs, i)
      else case get_request i of
        None \<Rightarrow> None
      | Some (More i) \<Rightarrow> Some (rs, i)
      | Some (Bad e i) \<Rightarrow> Some (rs, i)
      | Some (Ready i) \<Rightarrow> drain (rs @ [in_argv i]) (reset_input i))"

declare drain.simps [code]

text \<open>A connection: each call of \<open>read\<close> returns as much as the network has, at most what the client asks for.
  \<^term>\<open>None\<close> is a client that is freed, as it is when it asks for nothing or has too much.\<close>

function connection :: "nat list \<Rightarrow> bytes \<Rightarrow> bytes list list \<Rightarrow> input \<Rightarrow> (bytes list list \<times> input) option" where
  "connection ns bs rs i =
     (if bs = [] then Some (rs, i)
      else let k = (case ns of [] \<Rightarrow> nat (readlen i) | n # _ \<Rightarrow> min (Suc n) (nat (readlen i)));
               j = i\<lparr>querybuf := querybuf i @ take k bs\<rparr>
           in if k = 0 \<or> length (querybuf j) > REDIS_MAX_QUERYBUF_LEN then None
              else case drain rs j of None \<Rightarrow> None | Some (rs, j) \<Rightarrow> connection (tl ns) (drop k bs) rs j)"
  by pat_completeness auto

termination by (relation "measure (\<lambda>(_, bs, _, _). length bs)") auto

declare connection.simps [simp del]

lemma awaits_new:
  assumes "awaits i [] []"
  shows "i = new_input"
proof -
  have "multibulklen i = 0" using assms by (auto simp: awaits_def split: if_splits)
  then show ?thesis using assms by (cases i) (simp add: awaits_def new_input_def)
qed

lemma drain_ok:
  assumes "awaits i reqs rest" and "small 0 i rest" and "short i \<or> querybuf i \<noteq> []"
  shows "\<exists>rs reqs' j. drain log i = Some (log @ rs, j) \<and> reqs = rs @ reqs' \<and> awaits j reqs' rest \<and>
    (if rest = [] then querybuf j = [] else short j)"
  using assms
proof (induction "length (querybuf i)" arbitrary: i reqs log rule: less_induct)
  case less
  have cl: "\<not> close_after_reply i" using less.prems(1) by (simp add: awaits_def)
  show ?case
  proof (cases "querybuf i = []")
    case True
    then show ?thesis using less.prems by (subst drain.simps) auto
  next
    case False
    from get_request_cases [OF less.prems(1,2) False] show ?thesis
    proof (elim disjE exE conjE)
      fix j assume g: "get_request i = Some (Ready j)" "complete i j reqs rest"
      have "length (querybuf j) \<le> REDIS_INLINE_MAX_SIZE \<or> rest = []" using g(2) by (simp add: complete_def)
      then have sm: "small 0 (reset_input j) rest" "short (reset_input j) \<or> querybuf (reset_input j) \<noteq> []"
        by (auto simp: small_def short_def REDIS_MBULK_BIG_ARG_def)
      have c: "reqs = in_argv j # tl reqs" "awaits (reset_input j) (tl reqs) rest" "length (querybuf (reset_input j)) < length (querybuf i)"
        using g(2) by (simp_all add: complete_def)
      obtain rs reqs' j' where d: "drain (log @ [in_argv j]) (reset_input j) = Some ((log @ [in_argv j]) @ rs, j')" "tl reqs = rs @ reqs'"
          "awaits j' reqs' rest" "if rest = [] then querybuf j' = [] else short j'"
        using less.hyps [OF c(3,2) sm] by blast
      have "drain log i = Some (log @ in_argv j # rs, j')" using False cl g(1) d(1) by (subst drain.simps) simp
      moreover have "reqs = (in_argv j # rs) @ reqs'" using c(1) d(2) by simp
      ultimately show ?thesis using d(3,4) by blast
    next
      fix j assume "get_request i = Some (More j)" "awaits j reqs rest" "short j" "rest \<noteq> []"
      then show ?thesis using False cl by (subst drain.simps) auto
    qed
  qed
qed

lemma readlen_room:
  assumes "awaits i reqs rest" and "short i" and "0 < k" and "int k \<le> readlen i"
  shows "length (querybuf i) + k \<le> REDIS_INLINE_MAX_SIZE \<or>
    bulklen i \<ge> REDIS_MBULK_BIG_ARG \<and> int (length (querybuf i) + k) \<le> bulklen i + 2"
proof -
  have "bulklen i \<ge> REDIS_MBULK_BIG_ARG \<longrightarrow> reqtype i = Req_multibulk \<and> multibulklen i \<noteq> 0"
    using assms(1) by (auto simp: awaits_def REDIS_MBULK_BIG_ARG_def split: if_splits)
  then show ?thesis
    using assms(2-4)
    by (auto simp: readlen_def short_def REDIS_MBULK_BIG_ARG_def REDIS_IOBUF_LEN_def REDIS_INLINE_MAX_SIZE_def split: if_splits)
qed

lemma readlen_pos: "short i \<Longrightarrow> 0 < readlen i"
  by (auto simp: readlen_def short_def REDIS_MBULK_BIG_ARG_def REDIS_IOBUF_LEN_def)

lemma awaits_bulklen: "awaits i reqs rest \<Longrightarrow> bulklen i \<le> 512 * 1024 * 1024"
  by (auto simp: awaits_def busy_def hd_in_set list_all_iff split: if_splits)

lemma awaits_receive: "awaits i reqs (q @ rest) \<Longrightarrow> awaits (i\<lparr>querybuf := querybuf i @ q\<rparr>) reqs rest"
  by (auto simp: awaits_def busy_def split: if_splits)

lemma connection_ok:
  assumes "awaits i reqs bs" and "short i" and "bs = [] \<Longrightarrow> querybuf i = []"
  shows "connection ns bs log i = Some (log @ reqs, new_input)"
  using assms
proof (induction "length bs" arbitrary: ns bs log i reqs rule: less_induct)
  case less
  show ?case
  proof (cases "bs = []")
    case True
    then have "reqs = []" using less.prems awaits_all by blast
    then show ?thesis using less.prems(1) True awaits_new by (subst connection.simps) simp
  next
    case False
    define k where "k = (case ns of [] \<Rightarrow> nat (readlen i) | n # _ \<Rightarrow> min (Suc n) (nat (readlen i)))"
    let ?j = "i\<lparr>querybuf := querybuf i @ take k bs\<rparr>" and ?bs = "drop k bs"
    have k: "0 < k" "int k \<le> readlen i" using readlen_pos [OF less.prems(2)] by (auto simp: k_def split: list.splits)
    have tk: "0 < length (take k bs)" "int (length (take k bs)) \<le> readlen i" "length ?bs < length bs"
      using k False by auto
    have aw: "awaits ?j reqs ?bs" using less.prems(1) by (intro awaits_receive) simp
    note room = readlen_room [OF less.prems(1,2) tk(1,2)]
    have sm: "small 0 ?j ?bs" using room by (auto simp: small_def)
    have mx: "\<not> length (querybuf ?j) > REDIS_MAX_QUERYBUF_LEN"
      using room awaits_bulklen [OF less.prems(1)] by (auto simp: REDIS_INLINE_MAX_SIZE_def REDIS_MAX_QUERYBUF_LEN_def)
    have ne: "short ?j \<or> querybuf ?j \<noteq> []" using tk(1) by auto
    obtain rs reqs' j where d: "drain log ?j = Some (log @ rs, j)" "reqs = rs @ reqs'" "awaits j reqs' ?bs"
        "if ?bs = [] then querybuf j = [] else short j"
      using drain_ok [OF aw sm ne] by blast
    have "short j" using d(4) by (auto simp: short_def REDIS_MBULK_BIG_ARG_def split: if_splits)
    then have c: "connection (tl ns) ?bs (log @ rs) j = Some ((log @ rs) @ reqs', new_input)"
      using less.hyps [OF tk(3) d(3)] d(4) by simp
    have "connection ns bs log i = connection (tl ns) ?bs (log @ rs) j"
      using False k(1) mx d(1) unfolding connection.simps [of ns bs log i] Let_def k_def [symmetric] by simp
    then show ?thesis using c d(2) by simp
  qed
qed

text \<open>C11: However the network cuts a stream of requests into pieces, a client that is not blocked reads
  exactly these requests, whatever bytes their arguments hold, and is left as it was at the start: no
  piece is too big for the query buffer and no protocol error is raised, for requests of up to 1024 * 1024
  arguments of up to 512 MB.\<close>

theorem requests_in_pieces:
  assumes "list_all request_ok reqs"
  shows "connection ns (wire reqs) [] new_input = Some (reqs, new_input)"
proof -
  have "awaits new_input reqs (wire reqs)" using assms by (simp add: awaits_def new_input_def)
  moreover have "short new_input" by (simp add: short_def new_input_def REDIS_MBULK_BIG_ARG_def)
  ultimately show ?thesis using connection_ok [of new_input reqs "wire reqs" ns "[]"] by (simp add: new_input_def)
qed

theorem requests_in_pieces_witness:
  "connection [0, 3] (wire [[ascii ''GET'', [0, 13, 10]], [], [ascii ''PING'']]) [] new_input =
    Some ([[ascii ''GET'', [0, 13, 10]], [], [ascii ''PING'']], new_input)"
  by (rule requests_in_pieces) (simp add: request_ok_def ascii_def)

section \<open>Any bytes\<close>

text \<open>What holds between two calls of the parser whatever has been received.\<close>

definition input_ok :: "input \<Rightarrow> bool" where
  "input_ok i \<longleftrightarrow> close_after_reply i \<or>
     (if multibulklen i = 0
      then in_argv i = [] \<and> bulklen i = - 1 \<and> (reqtype i = Req_multibulk \<longrightarrow> querybuf i \<noteq> [] \<and> hd (querybuf i) = STAR)
      else reqtype i = Req_multibulk \<and> bulklen i \<ge> - 1)"

definition parsed_ok :: "input \<Rightarrow> parsed \<Rightarrow> bool" where
  "parsed_ok i r \<longleftrightarrow> (case r of More j \<Rightarrow> input_ok j | Bad e j \<Rightarrow> close_after_reply j | Ready j \<Rightarrow> length (querybuf j) < length (querybuf i))"

lemma close_setProtocolError [simp]: "close_after_reply (setProtocolError pos i)" "close_after_reply (trim p i) = close_after_reply i"
  by (simp_all add: setProtocolError_def trim_def)

lemma bulk_header_any:
  assumes "pos \<le> length (querybuf i)" and "bulklen i \<ge> - 1"
  shows "case bulk_header pos i of
      Inl r \<Rightarrow> r = More (trim pos i) \<or> (\<exists>e j. r = Bad e j \<and> close_after_reply j)
    | Inr (pos', i') \<Rightarrow> i' = i\<lparr>querybuf := querybuf i', bulklen := bulklen i'\<rparr> \<and> bulklen i' \<ge> 0 \<and> pos' \<le> length (querybuf i') \<and>
        length (querybuf i') - pos' \<le> length (querybuf i) - pos"
proof -
  have sd: "sdsrange (querybuf i) (int (pos + n + 2)) (- 1) = drop (pos + n + 2) (querybuf i)" for n
    by (simp only: sdsrange_drop)
  show ?thesis
    unfolding bulk_header_def sd using assms by (auto split: option.splits)
qed

lemma bulk_arg_any:
  assumes "pos \<le> length (querybuf i)" and "bulklen i \<ge> 0" and "bulk_arg pos i = Some (pos', i')"
  shows "pos' \<le> length (querybuf i') \<and> length (querybuf i') - pos' < length (querybuf i) - pos \<and> bulklen i' = - 1 \<and>
    multibulklen i' = multibulklen i - 1 \<and> reqtype i' = reqtype i \<and> close_after_reply i' = close_after_reply i"
  using assms by (auto simp: bulk_arg_def Let_def split: if_splits)

lemma mb_loop_any:
  assumes "pos \<le> length (querybuf i)" and "bulklen i \<ge> - 1" and "reqtype i = Req_multibulk"
  shows "case mb_loop pos i of
      More j \<Rightarrow> input_ok j
    | Bad e j \<Rightarrow> close_after_reply j
    | Ready j \<Rightarrow> length (querybuf j) + (if multibulklen i = 0 then 0 else 1) \<le> length (querybuf i) - pos"
  using assms
proof (induction "multibulklen i" arbitrary: pos i)
  case 0
  then show ?case by (subst mb_loop.simps) (simp add: trim_drop)
next
  case (Suc n)
  have n: "multibulklen i \<noteq> 0" using Suc.hyps(2) by simp
  have more: "input_ok (trim p j)" if "j = i\<lparr>querybuf := querybuf j, bulklen := bulklen j\<rparr>" "bulklen j \<ge> - 1" for p j
  proof -
    have "multibulklen j = multibulklen i" "reqtype j = reqtype i"
      using arg_cong [OF that(1), of multibulklen] arg_cong [OF that(1), of reqtype] by simp_all
    then show ?thesis using that(2) n Suc.prems(3) by (simp add: input_ok_def trim_drop)
  qed
  note h = bulk_header_any [OF Suc.prems(1,2)]
  show ?case
  proof (cases "bulk_header pos i")
    case (Inl r)
    then show ?thesis using h n more [of i pos] Suc.prems(2) by (subst mb_loop.simps) auto
  next
    case (Inr x)
    obtain p j where x: "x = (p, j)" by (cases x)
    have j: "j = i\<lparr>querybuf := querybuf j, bulklen := bulklen j\<rparr>" "bulklen j \<ge> 0" "p \<le> length (querybuf j)"
        "length (querybuf j) - p \<le> length (querybuf i) - pos"
      using h unfolding Inr x by simp_all
    have same: "multibulklen j = multibulklen i" "reqtype j = reqtype i"
      using arg_cong [OF j(1), of multibulklen] arg_cong [OF j(1), of reqtype] by simp_all
    show ?thesis
    proof (cases "bulk_arg p j")
      case None
      have "mb_loop pos i = More (trim p j)" using Inr x n None by (subst mb_loop.simps) simp
      then show ?thesis using more [OF j(1)] j(2) by simp
    next
      case (Some y)
      obtain p' j' where y: "y = (p', j')" by (cases y)
      have e: "mb_loop pos i = mb_loop p' j'" using Inr x n Some y by (subst mb_loop.simps) simp
      note b = bulk_arg_any [OF j(3,2), of p' j'] 
      have "case mb_loop p' j' of More j \<Rightarrow> input_ok j | Bad e j \<Rightarrow> close_after_reply j
        | Ready j'' \<Rightarrow> length (querybuf j'') + (if multibulklen j' = 0 then 0 else 1) \<le> length (querybuf j') - p'"
        using Suc.hyps b Some y same Suc.prems(3) by simp
      then show ?thesis
        unfolding e using b Some y j(4) n by (auto split: parsed.splits if_splits)
    qed
  qed
qed

lemma strchr_less: "strchr c s = Some n \<Longrightarrow> n < length s"
  by (induction s arbitrary: n) (auto split: if_splits)

lemma processInlineBuffer_any:
  assumes "input_ok i"
  shows "parsed_ok i (processInlineBuffer i)"
proof -
  have sd: "sdsrange (querybuf i) (int (n + 2)) (- 1) = drop (n + 2) (querybuf i)" for n by (simp only: sdsrange_drop)
  show ?thesis
    unfolding processInlineBuffer_def sd Let_def using assms strchr_less [of LF "querybuf i"]
    by (auto simp: parsed_ok_def split: option.splits)
qed

lemma processMultibulkBuffer_any:
  assumes ok: "input_ok i" and cl: "\<not> close_after_reply i" and q: "querybuf i \<noteq> []" and rt: "reqtype i = Req_multibulk"
  shows "\<exists>r. processMultibulkBuffer i = Some r \<and> parsed_ok i r"
proof (cases "multibulklen i = 0")
  case False
  then have "bulklen i \<ge> - 1" using ok cl by (simp add: input_ok_def)
  then show ?thesis
    using mb_loop_any [of 0 i] rt False by (auto simp: processMultibulkBuffer_def parsed_ok_def split: parsed.splits)
next
  case True
  then have i: "in_argv i = []" "bulklen i = - 1" "querybuf i ! 0 = STAR"
    using ok cl rt q by (simp_all add: input_ok_def hd_conv_nth)
  have sd: "sdsrange (querybuf i) (int (n + 2)) (- 1) = drop (n + 2) (querybuf i)" for n by (simp only: sdsrange_drop)
  have len: "n + 2 \<le> length (querybuf i)" if "\<not> int (length (querybuf i)) - 2 < int n" for n using that by simp
  have loop: "parsed_ok i (mb_loop (n + 2) (i\<lparr>multibulklen := m\<rparr>))" if "n + 2 \<le> length (querybuf i)" for n m
    using mb_loop_any [of "n + 2" "i\<lparr>multibulklen := m\<rparr>"] that i(2) rt by (auto simp: parsed_ok_def split: parsed.splits if_splits)
  show ?thesis
    unfolding processMultibulkBuffer_def sd using True i ok loop len q
    by (auto simp: parsed_ok_def split: option.splits)
qed

lemma get_request_any:
  assumes "input_ok i" and "\<not> close_after_reply i" and "querybuf i \<noteq> []"
  shows "\<exists>r. get_request i = Some r \<and> parsed_ok i r"
proof -
  define j where "j = (if reqtype i = Unknown then i\<lparr>reqtype := if querybuf i ! 0 = STAR then Req_multibulk else Req_inline\<rparr> else i)"
  have j: "input_ok j" "\<not> close_after_reply j" "querybuf j = querybuf i" "reqtype j \<noteq> Unknown"
    using assms by (auto simp: j_def input_ok_def hd_conv_nth split: if_splits)
  have "get_request i = (if reqtype j = Req_inline then Some (processInlineBuffer j) else processMultibulkBuffer j)"
    by (simp add: get_request_def j_def)
  moreover have "parsed_ok j r = parsed_ok i r" for r by (cases r) (simp_all add: parsed_ok_def j(3))
  ultimately show ?thesis
    using processInlineBuffer_any [OF j(1)] processMultibulkBuffer_any [OF j(1,2)] j(3,4) assms(3) by (cases "reqtype j") auto
qed

lemma drain_any:
  assumes "input_ok i"
  shows "\<exists>rs j. drain log i = Some (rs, j) \<and> input_ok j"
  using assms
proof (induction "length (querybuf i)" arbitrary: i log rule: less_induct)
  case less
  show ?case
  proof (cases "querybuf i = [] \<or> close_after_reply i")
    case True
    then show ?thesis using less.prems by (subst drain.simps) auto
  next
    case False
    then obtain r where r: "get_request i = Some r" "parsed_ok i r" using get_request_any less.prems by blast
    show ?thesis
    proof (cases r)
      case (Ready j)
      have "input_ok (reset_input j)" by (simp add: input_ok_def)
      moreover have "length (querybuf (reset_input j)) < length (querybuf i)" using r(2) Ready by (simp add: parsed_ok_def)
      ultimately show ?thesis using less.hyps False r(1) Ready by (subst drain.simps) simp
    qed (use False r in \<open>auto simp: drain.simps [of log i] parsed_ok_def input_ok_def\<close>)
  qed
qed

text \<open>The client receives pieces of any size, as it does while it is blocked and its input piles up.\<close>

fun arrivals :: "bytes list \<Rightarrow> bytes list list \<Rightarrow> input \<Rightarrow> (bytes list list \<times> input) option" where
  "arrivals [] rs i = Some (rs, i)"
| "arrivals (p # ps) rs i =
     (case drain rs (i\<lparr>querybuf := querybuf i @ p\<rparr>) of None \<Rightarrow> None | Some (rs, i) \<Rightarrow> arrivals ps rs i)"

lemma input_ok_receive: "input_ok i \<Longrightarrow> input_ok (i\<lparr>querybuf := querybuf i @ p\<rparr>)"
  by (auto simp: input_ok_def)

text \<open>C13: Whatever bytes a client sends, in pieces of any size, the parser comes to an end on each piece and no
  assertion of it fails.\<close>

theorem parser_total: "\<exists>rs i. arrivals ps [] new_input = Some (rs, i)"
proof -
  have "\<exists>rs j. arrivals ps log i = Some (rs, j)" if "input_ok i" for log i
    using that
  proof (induction ps arbitrary: log i)
    case (Cons p ps)
    then show ?case using drain_any [OF input_ok_receive [OF Cons.prems], of log p] by fastforce
  qed simp
  then show ?thesis by (simp add: input_ok_def new_input_def)
qed

section \<open>Bytes and requests\<close>

text \<open>A client that has received complete requests.\<close>

definition received :: "bytes list list \<Rightarrow> input" where
  "received reqs = new_input\<lparr>querybuf := wire reqs\<rparr>"

lemma received_simps [simp]:
  "querybuf (received reqs) = wire reqs" "close_after_reply (received reqs) = False"
  by (simp_all add: received_def new_input_def)

lemma received_request:
  assumes "list_all request_ok (r # rs)"
  obtains j where "get_request (received (r # rs)) = Some (Ready j)" and "in_argv j = r" and "reset_input j = received rs"
    and "wire (r # rs) \<noteq> []"
proof -
  have aw: "awaits (received (r # rs)) (r # rs) []" using assms by (simp add: awaits_def received_def new_input_def)
  have q: "wire (r # rs) \<noteq> []" using awaits_all [OF aw] by fastforce
  then obtain j where j: "get_request (received (r # rs)) = Some (Ready j)" "in_argv j = r" "awaits (reset_input j) rs []"
    using get_request_cases [OF aw] by (auto simp: small_def complete_def)
  have "reset_input j = received rs"
    using j(3) by (cases j) (simp add: awaits_def received_def new_input_def reset_input_def)
  then show thesis using that j(1,2) q by blast
qed

text \<open>C12: On the bytes of complete requests, \<open>processInputBuffer\<close> with the parser does what it does on the
  list of these requests: the same commands run, the server ends in the same state or the same assertion
  fails, and the buffer keeps the bytes of the requests that are not yet read because the client is
  blocked; after QUIT the client is to be closed.\<close>

theorem bytes_refine_requests:
  assumes "list_all request_ok avs"
  shows "case processInputBuffer rows cd c avs s of
      None \<Rightarrow> processQuerybuf rows cd c (received avs) s = None
    | Some (avs', s') \<Rightarrow> (\<exists>i. processQuerybuf rows cd c (received avs) s = Some (i, s') \<and>
        (close_after_reply i \<and> avs' = [] \<or> i = received avs'))"
  using assms
proof (induction avs arbitrary: s)
  case Nil
  then show ?case by (subst processQuerybuf.simps) simp
next
  case (Cons av avs)
  obtain j where j: "get_request (received (av # avs)) = Some (Ready j)" "in_argv j = av" "reset_input j = received avs"
      "wire (av # avs) \<noteq> []"
    by (rule received_request [OF Cons.prems])
  have unfold: "processQuerybuf rows cd c (received (av # avs)) s =
     (if c_blocked (clients s ! c) then Some (received (av # avs), s)
      else if av = [] then processQuerybuf rows cd c (received avs) (resetClient c s)
      else case processCommand rows cd c (upd_client c (\<lambda>cl. cl\<lparr>c_argv := av\<rparr>) s) of
          None \<Rightarrow> None
        | Some (ok, s) \<Rightarrow>
            if ok then processQuerybuf rows cd c (received avs) (resetClient c s)
            else processQuerybuf rows cd c (j\<lparr>close_after_reply := True\<rparr>) s)"
    unfolding processQuerybuf.simps [of rows cd c "received (av # avs)" s] j(1) option.case parsed.case j(2,3)
    using j(4) by (simp del: wire_simps)
  have closed: "processQuerybuf rows cd c (j\<lparr>close_after_reply := True\<rparr>) s = Some (j\<lparr>close_after_reply := True\<rparr>, s)" for s
    by (subst processQuerybuf.simps) simp
  have IH: "processInputBuffer rows cd c avs s = None \<Longrightarrow> processQuerybuf rows cd c (received avs) s = None"
      "processInputBuffer rows cd c avs s = Some (avs', s') \<Longrightarrow> \<exists>i. processQuerybuf rows cd c (received avs) s = Some (i, s') \<and>
        (close_after_reply i \<and> avs' = [] \<or> i = received avs')" for s avs' s'
    using Cons.IH [of s] Cons.prems by auto
  show ?case
    unfolding unfold closed by (auto split: option.splits prod.splits intro: IH)
qed

theorem bytes_refine_requests_witness:
  "\<exists>i s'. processQuerybuf table open_conditions 0 (received [[ascii ''DEL'', key_k]]) waiting_server = Some (i, s')"
proof -
  obtain avs s' where "processInputBuffer table open_conditions 0 [[ascii ''DEL'', key_k]] waiting_server = Some (avs, s')"
    using processInputBuffer_ok [OF waiting_server_ok(1), of 0 "[[ascii ''DEL'', key_k]]" open_conditions] allowed_del
      waiting_server_ok(2) by (auto simp: readable_def)
  then show ?thesis
    using bytes_refine_requests [of "[[ascii ''DEL'', key_k]]" table open_conditions 0 waiting_server]
    by (auto simp: request_ok_def ascii_def key_k_def)
qed

section \<open>A line feed alone\<close>

text \<open>An inline request may end in a bare line feed, but two bytes are always removed after it: the first byte
  of the next request is lost, here the P of the second PING.\<close>

lemma inline_line_feed:
  "get_request (new_input\<lparr>querybuf := ascii ''PING'' @ [LF] @ ascii ''PING'' @ [CR, LF]\<rparr>) =
    Some (Ready (new_input\<lparr>querybuf := ascii ''ING'' @ [CR, LF], reqtype := Req_inline, in_argv := [ascii ''PING'']\<rparr>))"
  by code_simp

end
