(* ===== verification/Pubsub.thy ===== *)
theory Pubsub
  imports Db_Commands Util_Match
begin

text \<open>
  pubsub.c: subscriptions to channels and to patterns, and the delivery of messages. Each
  subscription is recorded twice, with the client and with the server; the invariant \<open>ps_ok\<close> says that
  the two agree, and holds in every state that clients reach by subscribing, unsubscribing,
  publishing and leaving.

  The state is a pair of the record below, the fields that only this file uses, and the server, to
  which replies are added. Return values that no caller reads are left out. On \<^term>\<open>None\<close> see the root theory.
\<close>

section \<open>State\<close>

record pubsub =
  pubsub_channels :: "(bytes, nat list) fmap"
  pubsub_patterns :: "(nat \<times> bytes) list"
  client_channels :: "nat \<Rightarrow> bytes fset"
  client_patterns :: "nat \<Rightarrow> bytes list"

definition new_pubsub :: pubsub where
  "new_pubsub = \<lparr>pubsub_channels = fmempty, pubsub_patterns = [], client_channels = (\<lambda>_. {||}), client_patterns = (\<lambda>_. [])\<rparr>"

definition add_replies :: "nat \<Rightarrow> reply list \<Rightarrow> redisServer \<Rightarrow> redisServer" where
  "add_replies c rs s = foldl (\<lambda>s r. addReply c r s) s rs"

definition subscriptions_of :: "nat \<Rightarrow> pubsub \<Rightarrow> nat" where
  "subscriptions_of c ps = fcard (client_channels ps c) + length (client_patterns ps c)"

definition notify_client :: "nat \<Rightarrow> string \<Rightarrow> reply \<Rightarrow> pubsub \<Rightarrow> redisServer \<Rightarrow> redisServer" where
  "notify_client c kind what ps =
     add_replies c [MultiBulkLen 3, Bulk (ascii kind), what, Integer (int (subscriptions_of c ps))]"

section \<open>Channels\<close>

definition pubsubSubscribeChannel :: "nat \<Rightarrow> bytes \<Rightarrow> pubsub \<times> redisServer \<Rightarrow> pubsub \<times> redisServer" where
  "pubsubSubscribeChannel c channel st =
     (case st of (ps, s) \<Rightarrow>
        let ps = (if channel |\<in>| client_channels ps c then ps
                  else ps\<lparr>client_channels := (client_channels ps)(c := finsert channel (client_channels ps c)),
                    pubsub_channels := fmupd channel
                      ((case fmlookup (pubsub_channels ps) channel of None \<Rightarrow> [] | Some cs \<Rightarrow> cs) @ [c]) (pubsub_channels ps)\<rparr>)
        in (ps, notify_client c ''subscribe'' (Bulk channel) ps s))"

text \<open>The two assertions are that the channel is known and that the client is in its list.\<close>

definition unsubscribe_channel :: "nat \<Rightarrow> bytes \<Rightarrow> pubsub \<Rightarrow> pubsub option" where
  "unsubscribe_channel c channel ps =
     (let ps = ps\<lparr>client_channels := (client_channels ps)(c := client_channels ps c |-| {|channel|})\<rparr>
      in case fmlookup (pubsub_channels ps) channel of
           None \<Rightarrow> None
         | Some cs \<Rightarrow>
             if c \<notin> set cs then None
             else let cs = remove1 c cs
                  in Some (ps\<lparr>pubsub_channels := if cs = [] then fmdrop channel (pubsub_channels ps)
                                                else fmupd channel cs (pubsub_channels ps)\<rparr>))"

definition pubsubUnsubscribeChannel ::
  "nat \<Rightarrow> bytes \<Rightarrow> bool \<Rightarrow> pubsub \<times> redisServer \<Rightarrow> (nat \<times> pubsub \<times> redisServer) option" where
  "pubsubUnsubscribeChannel c channel notify st =
     (case st of (ps, s) \<Rightarrow> do {
        (retval, ps) \<leftarrow> (if channel |\<in>| client_channels ps c
                        then map_option (Pair 1) (unsubscribe_channel c channel ps) else Some (0, ps));
        Some (retval, ps, if notify then notify_client c ''unsubscribe'' (Bulk channel) ps s else s) })"

fun unsubscribe_channels ::
  "nat \<Rightarrow> bytes list \<Rightarrow> bool \<Rightarrow> nat \<Rightarrow> pubsub \<times> redisServer \<Rightarrow> (nat \<times> pubsub \<times> redisServer) option" where
  "unsubscribe_channels c [] notify count st = Some (count, st)"
| "unsubscribe_channels c (channel # channels) notify count st = do {
     (retval, st) \<leftarrow> pubsubUnsubscribeChannel c channel notify st;
     unsubscribe_channels c channels notify (count + retval) st }"

definition pubsubUnsubscribeAllChannels ::
  "nat \<Rightarrow> bool \<Rightarrow> pubsub \<times> redisServer \<Rightarrow> (pubsub \<times> redisServer) option" where
  "pubsubUnsubscribeAllChannels c notify st = do {
     (count, ps, s) \<leftarrow> unsubscribe_channels c (dict_order (snd st) (client_channels (fst st) c)) notify 0 st;
     Some (ps, if notify \<and> count = 0 then notify_client c ''unsubscribe'' NullBulk ps s else s) }"

section \<open>Patterns\<close>

definition pubsubSubscribePattern :: "nat \<Rightarrow> bytes \<Rightarrow> pubsub \<times> redisServer \<Rightarrow> pubsub \<times> redisServer" where
  "pubsubSubscribePattern c pattern st =
     (case st of (ps, s) \<Rightarrow>
        let ps = (if pattern \<in> set (client_patterns ps c) then ps
                  else ps\<lparr>client_patterns := (client_patterns ps)(c := client_patterns ps c @ [pattern]),
                    pubsub_patterns := pubsub_patterns ps @ [(c, pattern)]\<rparr>)
        in (ps, notify_client c ''psubscribe'' (Bulk pattern) ps s))"

text \<open>The node of the server's list is deleted without a test: its absence would be an access through a null
  pointer.\<close>

definition pubsubUnsubscribePattern ::
  "nat \<Rightarrow> bytes \<Rightarrow> bool \<Rightarrow> pubsub \<times> redisServer \<Rightarrow> (nat \<times> pubsub \<times> redisServer) option" where
  "pubsubUnsubscribePattern c pattern notify st =
     (case st of (ps, s) \<Rightarrow> do {
        (retval, ps) \<leftarrow>
          (if pattern \<notin> set (client_patterns ps c) then Some (0, ps)
           else if (c, pattern) \<notin> set (pubsub_patterns ps) then None
           else Some (1, ps\<lparr>client_patterns := (client_patterns ps)(c := remove1 pattern (client_patterns ps c)),
                    pubsub_patterns := remove1 (c, pattern) (pubsub_patterns ps)\<rparr>));
        Some (retval, ps, if notify then notify_client c ''punsubscribe'' (Bulk pattern) ps s else s) })"

fun unsubscribe_patterns ::
  "nat \<Rightarrow> bytes list \<Rightarrow> bool \<Rightarrow> nat \<Rightarrow> pubsub \<times> redisServer \<Rightarrow> (nat \<times> pubsub \<times> redisServer) option" where
  "unsubscribe_patterns c [] notify count st = Some (count, st)"
| "unsubscribe_patterns c (pattern # patterns) notify count st = do {
     (retval, st) \<leftarrow> pubsubUnsubscribePattern c pattern notify st;
     unsubscribe_patterns c patterns notify (count + retval) st }"

definition pubsubUnsubscribeAllPatterns ::
  "nat \<Rightarrow> bool \<Rightarrow> pubsub \<times> redisServer \<Rightarrow> (pubsub \<times> redisServer) option" where
  "pubsubUnsubscribeAllPatterns c notify st = do {
     (count, ps, s) \<leftarrow> unsubscribe_patterns c (client_patterns (fst st) c) notify 0 st;
     Some (ps, if notify \<and> count = 0 then notify_client c ''punsubscribe'' NullBulk ps s else s) }"

section \<open>Messages\<close>

definition message :: "bytes \<Rightarrow> bytes \<Rightarrow> reply list" where
  "message channel msg = [MultiBulkLen 3, Bulk (ascii ''message''), Bulk channel, Bulk msg]"

definition pmessage :: "bytes \<Rightarrow> bytes \<Rightarrow> bytes \<Rightarrow> reply list" where
  "pmessage pattern channel msg = [MultiBulkLen 4, Bulk (ascii ''pmessage''), Bulk pattern, Bulk channel, Bulk msg]"

fun send_channel :: "nat list \<Rightarrow> bytes \<Rightarrow> bytes \<Rightarrow> nat \<Rightarrow> redisServer \<Rightarrow> nat \<times> redisServer" where
  "send_channel [] channel msg receivers s = (receivers, s)"
| "send_channel (c # cs) channel msg receivers s =
     send_channel cs channel msg (receivers + 1) (add_replies c (message channel msg) s)"

fun send_patterns :: "(nat \<times> bytes) list \<Rightarrow> bytes \<Rightarrow> bytes \<Rightarrow> nat \<Rightarrow> redisServer \<Rightarrow> (nat \<times> redisServer) option" where
  "send_patterns [] channel msg receivers s = Some (receivers, s)"
| "send_patterns ((c, pattern) # pats) channel msg receivers s = do {
     matches \<leftarrow> stringmatchlen pattern channel False;
     if matches then send_patterns pats channel msg (receivers + 1) (add_replies c (pmessage pattern channel msg) s)
     else send_patterns pats channel msg receivers s }"

definition pubsubPublishMessage :: "bytes \<Rightarrow> bytes \<Rightarrow> pubsub \<Rightarrow> redisServer \<Rightarrow> (nat \<times> redisServer) option" where
  "pubsubPublishMessage channel msg ps s =
     (let (receivers, s) =
        (case fmlookup (pubsub_channels ps) channel of None \<Rightarrow> (0, s) | Some cs \<Rightarrow> send_channel cs channel msg 0 s)
      in send_patterns (pubsub_patterns ps) channel msg receivers s)"

section \<open>Commands\<close>

definition subscribeCommand :: "nat \<Rightarrow> pubsub \<times> redisServer \<Rightarrow> pubsub \<times> redisServer" where
  "subscribeCommand c st = foldl (\<lambda>st channel. pubsubSubscribeChannel c channel st) st (tl (c_argv (clients (snd st) ! c)))"

definition unsubscribeCommand :: "nat \<Rightarrow> pubsub \<times> redisServer \<Rightarrow> (pubsub \<times> redisServer) option" where
  "unsubscribeCommand c st =
     (if argc (snd st) c = 1 then pubsubUnsubscribeAllChannels c True st
      else map_option snd (unsubscribe_channels c (tl (c_argv (clients (snd st) ! c))) True 0 st))"

definition psubscribeCommand :: "nat \<Rightarrow> pubsub \<times> redisServer \<Rightarrow> pubsub \<times> redisServer" where
  "psubscribeCommand c st = foldl (\<lambda>st pattern. pubsubSubscribePattern c pattern st) st (tl (c_argv (clients (snd st) ! c)))"

definition punsubscribeCommand :: "nat \<Rightarrow> pubsub \<times> redisServer \<Rightarrow> (pubsub \<times> redisServer) option" where
  "punsubscribeCommand c st =
     (if argc (snd st) c = 1 then pubsubUnsubscribeAllPatterns c True st
      else map_option snd (unsubscribe_patterns c (tl (c_argv (clients (snd st) ! c))) True 0 st))"

definition publishCommand :: "nat \<Rightarrow> pubsub \<times> redisServer \<Rightarrow> (pubsub \<times> redisServer) option" where
  "publishCommand c st =
     (case st of (ps, s) \<Rightarrow> do {
        (receivers, s) \<leftarrow> pubsubPublishMessage (argv s c 1) (argv s c 2) ps s;
        Some (ps, addReply c (Integer (int receivers)) s) })"

fun matching_channels :: "bytes option \<Rightarrow> bytes list \<Rightarrow> bytes list option" where
  "matching_channels pat [] = Some []"
| "matching_channels pat (channel # channels) = do {
     matches \<leftarrow> (case pat of None \<Rightarrow> Some True | Some p \<Rightarrow> stringmatchlen p channel False);
     chs \<leftarrow> matching_channels pat channels;
     Some (if matches then channel # chs else chs) }"

definition numsub_reply :: "pubsub \<Rightarrow> bytes \<Rightarrow> reply list" where
  "numsub_reply ps channel =
     [Bulk channel, Bulk (ll2string 32 (of_nat (length (case fmlookup (pubsub_channels ps) channel of None \<Rightarrow> [] | Some cs \<Rightarrow> cs))))]"

definition pubsubCommand :: "nat \<Rightarrow> pubsub \<times> redisServer \<Rightarrow> (pubsub \<times> redisServer) option" where
  "pubsubCommand c st =
     (case st of (ps, s) \<Rightarrow>
        let sub = takeWhile (\<lambda>b. b \<noteq> 0) (argv s c 1); args = drop 2 (c_argv (clients s ! c))
        in if strcasecmp_eq sub (ascii ''channels'') \<and> (argc s c = 2 \<or> argc s c = 3) then do {
             chs \<leftarrow> matching_channels (if argc s c = 2 then None else Some (argv s c 2))
                      (dict_order s (fmdom (pubsub_channels ps)));
             Some (ps, add_replies c (MultiBulkLen (int (length chs)) # map Bulk chs) s) }
           else if strcasecmp_eq sub (ascii ''numsub'') \<and> argc s c \<ge> 2 then
             Some (ps, add_replies c (MultiBulkLen (2 * (int (argc s c) - 2)) # concat (map (numsub_reply ps) args)) s)
           else if strcasecmp_eq sub (ascii ''numpat'') \<and> argc s c = 2 then
             Some (ps, addReply c (Integer (int (length (pubsub_patterns ps)))) s)
           else
             Some (ps, addReply c (Error (''ERR Unknown PUBSUB subcommand or wrong number of arguments for '' @
               [CHR 0x27] @ map (\<lambda>b. if b = 13 \<or> b = 10 then CHR 0x20 else char_of (unat b)) sub @ [CHR 0x27])) s))"

text \<open>The part of \<open>freeClient\<close>.\<close>

definition leave :: "nat \<Rightarrow> pubsub \<times> redisServer \<Rightarrow> (pubsub \<times> redisServer) option" where
  "leave c st = do {
     st \<leftarrow> pubsubUnsubscribeAllChannels c False st;
     pubsubUnsubscribeAllPatterns c False st }"

section \<open>The two records of a subscription agree\<close>

definition subscribers :: "pubsub \<Rightarrow> bytes \<Rightarrow> nat list" where
  "subscribers ps ch = (case fmlookup (pubsub_channels ps) ch of None \<Rightarrow> [] | Some cs \<Rightarrow> cs)"

definition channels_ok :: "pubsub \<Rightarrow> bool" where
  "channels_ok ps \<longleftrightarrow> (\<forall>ch c. c \<in> set (subscribers ps ch) \<longleftrightarrow> ch |\<in>| client_channels ps c) \<and>
     (\<forall>ch. distinct (subscribers ps ch)) \<and> (\<forall>ch. fmlookup (pubsub_channels ps) ch \<noteq> Some [])"

definition patterns_ok :: "pubsub \<Rightarrow> bool" where
  "patterns_ok ps \<longleftrightarrow> distinct (pubsub_patterns ps) \<and>
     (\<forall>c. client_patterns ps c = map snd (filter (\<lambda>e. fst e = c) (pubsub_patterns ps)))"

definition ps_ok :: "pubsub \<Rightarrow> bool" where
  "ps_ok ps \<longleftrightarrow> channels_ok ps \<and> patterns_ok ps"

lemma ps_okI [intro]: "\<lbrakk>channels_ok ps; patterns_ok ps\<rbrakk> \<Longrightarrow> ps_ok ps"
  by (simp add: ps_ok_def)

lemma ps_okD [dest]: "ps_ok ps \<Longrightarrow> channels_ok ps \<and> patterns_ok ps"
  by (simp add: ps_ok_def)

text \<open>Each part of the invariant reads its own two fields only.\<close>

lemma channels_ok_cong:
  "\<lbrakk>pubsub_channels ps' = pubsub_channels ps; client_channels ps' = client_channels ps\<rbrakk> \<Longrightarrow>
     channels_ok ps' = channels_ok ps"
  by (simp add: channels_ok_def subscribers_def)

lemma patterns_ok_cong:
  "\<lbrakk>pubsub_patterns ps' = pubsub_patterns ps; client_patterns ps' = client_patterns ps\<rbrakk> \<Longrightarrow>
     patterns_ok ps' = patterns_ok ps"
  by (simp add: patterns_ok_def)

lemma new_pubsub_ok: "ps_ok new_pubsub"
  by (simp add: ps_ok_def channels_ok_def patterns_ok_def new_pubsub_def subscribers_def)

lemma subscribe_channel_ok:
  assumes "ps_ok ps"
  shows "ps_ok (fst (pubsubSubscribeChannel c ch (ps, s)))"
proof -
  have "channels_ok (ps\<lparr>client_channels := (client_channels ps)(c := finsert ch (client_channels ps c)),
      pubsub_channels := fmupd ch (subscribers ps ch @ [c]) (pubsub_channels ps)\<rparr>)" if "ch |\<notin>| client_channels ps c"
    using assms that by (auto simp: ps_ok_def channels_ok_def subscribers_def)
  then show ?thesis
    using assms by (auto simp: pubsubSubscribeChannel_def Let_def subscribers_def patterns_ok_def ps_ok_def)
qed

lemma unsubscribe_channel_ok:
  assumes "ps_ok ps" "ch |\<in>| client_channels ps c"
  shows "\<exists>ps'. unsubscribe_channel c ch ps = Some ps' \<and> ps_ok ps' \<and>
    client_channels ps' = (client_channels ps)(c := client_channels ps c |-| {|ch|}) \<and>
    client_patterns ps' = client_patterns ps \<and> pubsub_patterns ps' = pubsub_patterns ps"
proof -
  have m: "c \<in> set (subscribers ps ch)" and d: "distinct (subscribers ps ch)"
    using assms by (auto simp: ps_ok_def channels_ok_def)
  then obtain cs where l: "fmlookup (pubsub_channels ps) ch = Some cs" and cs: "subscribers ps ch = cs"
    by (auto simp: subscribers_def split: option.splits)
  let ?ps = "ps\<lparr>client_channels := (client_channels ps)(c := client_channels ps c |-| {|ch|}),
    pubsub_channels := if remove1 c cs = [] then fmdrop ch (pubsub_channels ps) else fmupd ch (remove1 c cs) (pubsub_channels ps)\<rparr>"
  have sub: "subscribers ?ps ch' = (if ch' = ch then remove1 c cs else subscribers ps ch')" for ch'
    by (auto simp: subscribers_def)
  have "channels_ok ?ps"
    using assms(1) m d cs unfolding ps_ok_def channels_ok_def sub by (auto simp: set_remove1_eq)
  moreover have "patterns_ok ?ps"
    using assms(1) by (simp add: ps_ok_def patterns_ok_def)
  moreover have "unsubscribe_channel c ch ps = Some ?ps"
    using l m cs by (simp add: unsubscribe_channel_def Let_def)
  ultimately show ?thesis
    by auto
qed

lemma unsubscribe_ok:
  assumes "ps_ok ps"
  shows "\<exists>ret ps'. pubsubUnsubscribeChannel c ch notify (ps, s) =
      Some (ret, ps', if notify then notify_client c ''unsubscribe'' (Bulk ch) ps' s else s) \<and> ps_ok ps' \<and>
    client_channels ps' = (client_channels ps)(c := client_channels ps c |-| {|ch|}) \<and>
    client_patterns ps' = client_patterns ps \<and> pubsub_patterns ps' = pubsub_patterns ps"
proof (cases "ch |\<in>| client_channels ps c")
  case True
  from unsubscribe_channel_ok [OF assms this] show ?thesis
    using True by (cases notify) (auto simp: pubsubUnsubscribeChannel_def)
next
  case False
  then show ?thesis
    using assms by (auto simp: pubsubUnsubscribeChannel_def fun_eq_iff)
qed

lemma unsubscribe_channels_ok:
  "ps_ok ps \<Longrightarrow> \<exists>n ps' s'. unsubscribe_channels c chs notify k (ps, s) = Some (n, ps', s') \<and> ps_ok ps' \<and>
     client_channels ps' = (client_channels ps)(c := client_channels ps c |-| fset_of_list chs) \<and>
     client_patterns ps' = client_patterns ps \<and> pubsub_patterns ps' = pubsub_patterns ps \<and> (\<not> notify \<longrightarrow> s' = s)"
proof (induction chs arbitrary: ps s k)
  case Nil
  then show ?case
    by (auto simp: fun_eq_iff)
next
  case (Cons ch chs)
  obtain ret ps1 s1 where 1: "pubsubUnsubscribeChannel c ch notify (ps, s) = Some (ret, ps1, s1)" "ps_ok ps1"
    "client_channels ps1 = (client_channels ps)(c := client_channels ps c |-| {|ch|})"
    "client_patterns ps1 = client_patterns ps" "pubsub_patterns ps1 = pubsub_patterns ps" "\<not> notify \<longrightarrow> s1 = s"
    using unsubscribe_ok [OF Cons.prems, of c ch notify s] by auto
  obtain n ps2 s2 where 2: "unsubscribe_channels c chs notify (k + ret) (ps1, s1) = Some (n, ps2, s2)" "ps_ok ps2"
    "client_channels ps2 = (client_channels ps1)(c := client_channels ps1 c |-| fset_of_list chs)"
    "client_patterns ps2 = client_patterns ps1" "pubsub_patterns ps2 = pubsub_patterns ps1" "\<not> notify \<longrightarrow> s2 = s1"
    using Cons.IH [OF 1(2), of "k + ret" s1] by blast
  have "client_channels ps2 = (client_channels ps)(c := client_channels ps c |-| fset_of_list (ch # chs))"
    unfolding 2(3) 1(3) by (auto simp: fun_eq_iff)
  then show ?case
    using 1 2 by auto
qed

lemma unsubscribe_all_channels_ok:
  assumes "ps_ok ps"
  shows "\<exists>ps' s'. pubsubUnsubscribeAllChannels c notify (ps, s) = Some (ps', s') \<and> ps_ok ps' \<and>
    client_channels ps' c = {||} \<and> client_patterns ps' = client_patterns ps \<and>
    pubsub_patterns ps' = pubsub_patterns ps \<and> (\<not> notify \<longrightarrow> s' = s)"
proof -
  have "fset_of_list (dict_order s S) = S" for S
    using dict_order_ok [of s] by (simp add: order_ok_def fset_of_list.abs_eq fset_inverse)
  then show ?thesis
    using unsubscribe_channels_ok [OF assms, of c "dict_order s (client_channels ps c)" notify 0 s]
    by (auto simp: pubsubUnsubscribeAllChannels_def)
qed

lemma distinct_client_patterns: "distinct ps \<Longrightarrow> distinct (map snd (filter (\<lambda>e. fst e = c) ps))"
  by (auto simp: distinct_map inj_on_def)

lemma remove1_client_pattern:
  assumes "distinct ps"
  shows "map snd (filter (\<lambda>e. fst e = d) (remove1 (c, p) ps)) =
    (let qs = map snd (filter (\<lambda>e. fst e = d) ps) in if d = c then remove1 p qs else qs)"
proof -
  have "filter (\<lambda>e. fst e = c) (removeAll (c, p) ps) = filter (\<lambda>e. p \<noteq> snd e) (filter (\<lambda>e. fst e = c) ps)"
    "d \<noteq> c \<Longrightarrow> filter (\<lambda>e. fst e = d) (removeAll (c, p) ps) = filter (\<lambda>e. fst e = d) ps"
    unfolding removeAll_filter_not_eq filter_filter by (rule filter_cong; auto)+
  moreover have "remove1 p (map snd (filter (\<lambda>e. fst e = c) ps)) =
      map snd (filter (\<lambda>e. p \<noteq> snd e) (filter (\<lambda>e. fst e = c) ps))"
    unfolding distinct_remove1_removeAll [OF distinct_client_patterns [OF assms]] removeAll_filter_not_eq filter_map o_def ..
  ultimately show ?thesis
    by (auto simp: distinct_remove1_removeAll [OF assms] Let_def)
qed

lemma subscribe_pattern_ok:
  assumes "ps_ok ps"
  shows "ps_ok (fst (pubsubSubscribePattern c p (ps, s)))"
proof -
  have "patterns_ok (ps\<lparr>client_patterns := (client_patterns ps)(c := client_patterns ps c @ [p]),
      pubsub_patterns := pubsub_patterns ps @ [(c, p)]\<rparr>)" if "p \<notin> set (client_patterns ps c)"
    using assms that by (force simp: ps_ok_def patterns_ok_def)
  then show ?thesis
    using assms by (auto simp: pubsubSubscribePattern_def Let_def ps_ok_def channels_ok_def subscribers_def)
qed

lemma unsubscribe_pattern_ok:
  assumes "ps_ok ps"
  shows "\<exists>ret ps'. pubsubUnsubscribePattern c p notify (ps, s) =
      Some (ret, ps', if notify then notify_client c ''punsubscribe'' (Bulk p) ps' s else s) \<and> ps_ok ps' \<and>
    client_patterns ps' = (client_patterns ps)(c := remove1 p (client_patterns ps c)) \<and>
    client_channels ps' = client_channels ps \<and> pubsub_channels ps' = pubsub_channels ps"
proof (cases "p \<in> set (client_patterns ps c)")
  case True
  let ?ps = "ps\<lparr>client_patterns := (client_patterns ps)(c := remove1 p (client_patterns ps c)),
    pubsub_patterns := remove1 (c, p) (pubsub_patterns ps)\<rparr>"
  have "(c, p) \<in> set (pubsub_patterns ps)"
    using assms True by (auto simp: ps_ok_def patterns_ok_def)
  moreover have "patterns_ok ?ps"
    using assms by (auto simp: ps_ok_def patterns_ok_def remove1_client_pattern Let_def)
  moreover have "channels_ok ?ps"
    using assms by (simp add: ps_ok_def channels_ok_def subscribers_def)
  ultimately show ?thesis
    using True by (cases notify) (auto simp: pubsubUnsubscribePattern_def)
next
  case False
  then show ?thesis
    using assms by (auto simp: pubsubUnsubscribePattern_def fun_eq_iff remove1_idem)
qed

lemma unsubscribe_patterns_ok:
  "ps_ok ps \<Longrightarrow> \<exists>n ps' s'. unsubscribe_patterns c pats notify k (ps, s) = Some (n, ps', s') \<and> ps_ok ps' \<and>
     client_patterns ps' c = foldl (\<lambda>qs p. remove1 p qs) (client_patterns ps c) pats \<and>
     client_channels ps' = client_channels ps \<and> pubsub_channels ps' = pubsub_channels ps \<and> (\<not> notify \<longrightarrow> s' = s)"
proof (induction pats arbitrary: ps s k)
  case Nil
  then show ?case
    by auto
next
  case (Cons p pats)
  obtain ret ps1 s1 where 1: "pubsubUnsubscribePattern c p notify (ps, s) = Some (ret, ps1, s1)" "ps_ok ps1"
    "client_patterns ps1 = (client_patterns ps)(c := remove1 p (client_patterns ps c))"
    "client_channels ps1 = client_channels ps" "pubsub_channels ps1 = pubsub_channels ps" "\<not> notify \<longrightarrow> s1 = s"
    using unsubscribe_pattern_ok [OF Cons.prems, of c p notify s] by auto
  from Cons.IH [OF 1(2), of "k + ret" s1] show ?case
    using 1 by auto
qed

lemma remove_all_in_order: "foldl (\<lambda>qs p. remove1 p qs) ps ps = []"
  by (induction ps) auto

lemma unsubscribe_all_patterns_ok:
  assumes "ps_ok ps"
  shows "\<exists>ps' s'. pubsubUnsubscribeAllPatterns c notify (ps, s) = Some (ps', s') \<and> ps_ok ps' \<and>
    client_patterns ps' c = [] \<and> client_channels ps' = client_channels ps \<and>
    pubsub_channels ps' = pubsub_channels ps \<and> (\<not> notify \<longrightarrow> s' = s)"
  using unsubscribe_patterns_ok [OF assms, of c "client_patterns ps c" notify 0 s]
  by (auto simp: pubsubUnsubscribeAllPatterns_def remove_all_in_order)

lemma leave_ok:
  assumes "ps_ok ps"
  shows "\<exists>ps'. leave c (ps, s) = Some (ps', s) \<and> ps_ok ps' \<and> client_channels ps' c = {||} \<and> client_patterns ps' c = []"
proof -
  obtain ps1 where 1: "pubsubUnsubscribeAllChannels c False (ps, s) = Some (ps1, s)" "ps_ok ps1" "client_channels ps1 c = {||}"
    using unsubscribe_all_channels_ok [OF assms, of c False s] by auto
  with unsubscribe_all_patterns_ok [OF 1(2), of c False s] show ?thesis
    by (auto simp: leave_def)
qed

section \<open>The steps\<close>

text \<open>
  A client executes a command on subscriptions or leaves; every other step of the server leaves the
  subscriptions as they are.
\<close>

inductive ps_step :: "pubsub \<times> redisServer \<Rightarrow> pubsub \<times> redisServer \<Rightarrow> bool" where
  subscribe: "ps_step st (subscribeCommand c st)"
| psubscribe: "ps_step st (psubscribeCommand c st)"
| unsubscribe: "unsubscribeCommand c st = Some st' \<Longrightarrow> ps_step st st'"
| punsubscribe: "punsubscribeCommand c st = Some st' \<Longrightarrow> ps_step st st'"
| publish: "publishCommand c st = Some st' \<Longrightarrow> ps_step st st'"
| introspect: "pubsubCommand c st = Some st' \<Longrightarrow> ps_step st st'"
| client_leaves: "leave c st = Some st' \<Longrightarrow> ps_step st st'"
| other: "ps_step (ps, s) (ps, s')"

lemma foldl_invariant: "\<lbrakk>P a; \<And>a x. P a \<Longrightarrow> P (f a x)\<rbrakk> \<Longrightarrow> P (foldl f a xs)"
  by (induction xs arbitrary: a) auto

lemma subscribeCommand_ok: "ps_ok (fst st) \<Longrightarrow> ps_ok (fst (subscribeCommand c st))"
  unfolding subscribeCommand_def
  by (rule foldl_invariant [where P = "\<lambda>st. ps_ok (fst st)"]) (auto intro: subscribe_channel_ok)

lemma psubscribeCommand_ok: "ps_ok (fst st) \<Longrightarrow> ps_ok (fst (psubscribeCommand c st))"
  unfolding psubscribeCommand_def
  by (rule foldl_invariant [where P = "\<lambda>st. ps_ok (fst st)"]) (auto intro: subscribe_pattern_ok)

lemma unsubscribeCommand_ok:
  assumes "ps_ok ps"
  shows "\<exists>ps' s'. unsubscribeCommand c (ps, s) = Some (ps', s') \<and> ps_ok ps'"
  using unsubscribe_all_channels_ok [OF assms, of c True s]
    unsubscribe_channels_ok [OF assms, of c "tl (c_argv (clients s ! c))" True 0 s]
  by (auto simp: unsubscribeCommand_def)

lemma punsubscribeCommand_ok:
  assumes "ps_ok ps"
  shows "\<exists>ps' s'. punsubscribeCommand c (ps, s) = Some (ps', s') \<and> ps_ok ps'"
  using unsubscribe_all_patterns_ok [OF assms, of c True s]
    unsubscribe_patterns_ok [OF assms, of c "tl (c_argv (clients s ! c))" True 0 s]
  by (auto simp: punsubscribeCommand_def)

lemma ps_step_ok: "\<lbrakk>ps_step st st'; ps_ok (fst st)\<rbrakk> \<Longrightarrow> ps_ok (fst st')"
proof (induction rule: ps_step.induct)
  case (unsubscribe c st st')
  then show ?case
    using unsubscribeCommand_ok [of "fst st" c "snd st"] by auto
next
  case (punsubscribe c st st')
  then show ?case
    using punsubscribeCommand_ok [of "fst st" c "snd st"] by auto
next
  case (client_leaves c st st')
  then show ?case
    using leave_ok [of "fst st" c "snd st"] by auto
qed (auto simp: subscribeCommand_ok psubscribeCommand_ok publishCommand_def pubsubCommand_def Let_def
    split: prod.splits if_splits bind_splits)

lemma ps_reachable_ok: "ps_step\<^sup>*\<^sup>* (new_pubsub, s0) st \<Longrightarrow> ps_ok (fst st)"
  by (induction rule: rtranclp_induct) (auto simp: new_pubsub_ok intro: ps_step_ok)

section \<open>Delivery\<close>

definition gets :: "(nat \<Rightarrow> reply list) \<Rightarrow> redisServer \<Rightarrow> redisServer \<Rightarrow> bool" where
  "gets f s s' \<longleftrightarrow> length (clients s') = length (clients s) \<and>
     (\<forall>d < length (clients s). c_replies (clients s' ! d) = c_replies (clients s ! d) @ f d)"

lemma gets_refl: "gets (\<lambda>_. []) s s"
  by (simp add: gets_def)

lemma gets_trans: "\<lbrakk>gets f s s1; gets g s1 s2\<rbrakk> \<Longrightarrow> gets (\<lambda>d. f d @ g d) s s2"
  by (simp add: gets_def)

lemma gets_addReply: "gets (\<lambda>d. if d = c then [r] else []) s (addReply c r s)"
  by (cases "c < length (clients s)") (auto simp: gets_def addReply_def upd_client_def nth_list_update)

lemma gets_add_replies: "gets (\<lambda>d. if d = c then rs else []) s (add_replies c rs s)"
proof (induction rs arbitrary: s)
  case Nil
  then show ?case
    using gets_refl by (simp add: add_replies_def cong: if_cong)
next
  case (Cons r rs)
  have "(\<lambda>d. (if d = c then [r] else []) @ (if d = c then rs else [])) = (\<lambda>d. if d = c then r # rs else [])"
    by auto
  with gets_trans [OF gets_addReply Cons.IH, of c r s] show ?case
    by (simp add: add_replies_def)
qed

lemma send_channel_gets:
  "distinct cs \<Longrightarrow> \<exists>s'. send_channel cs ch msg k s = (k + length cs, s') \<and>
     gets (\<lambda>d. if d \<in> set cs then message ch msg else []) s s'"
proof (induction cs arbitrary: k s)
  case Nil
  then show ?case
    using gets_refl by simp
next
  case (Cons c cs)
  obtain s' where s': "send_channel cs ch msg (k + 1) (add_replies c (message ch msg) s) = (k + 1 + length cs, s')"
    "gets (\<lambda>d. if d \<in> set cs then message ch msg else []) (add_replies c (message ch msg) s) s'"
    using Cons by (metis distinct.simps(2))
  have "(\<lambda>d. (if d = c then message ch msg else []) @ (if d \<in> set cs then message ch msg else [])) =
      (\<lambda>d. if d \<in> set (c # cs) then message ch msg else [])"
    using Cons.prems by auto
  with gets_trans [OF gets_add_replies s'(2)] s'(1) show ?case
    by simp
qed

lemma send_patterns_gets:
  "\<forall>e \<in> set pats. stringmatchlen (snd e) ch False = Some (m (snd e)) \<Longrightarrow>
     \<exists>s'. send_patterns pats ch msg k s = Some (k + length (filter (\<lambda>e. m (snd e)) pats), s') \<and>
       gets (\<lambda>d. concat (map (\<lambda>p. pmessage p ch msg) (filter m (map snd (filter (\<lambda>e. fst e = d) pats))))) s s'"
proof (induction pats arbitrary: k s)
  case Nil
  then show ?case
    using gets_refl by simp
next
  case (Cons e pats)
  obtain c p where e: "e = (c, p)"
    by (cases e)
  let ?s = "if m p then add_replies c (pmessage p ch msg) s else s"
  let ?k = "if m p then k + 1 else k"
  obtain s' where s': "send_patterns pats ch msg ?k ?s = Some (?k + length (filter (\<lambda>e. m (snd e)) pats), s')"
    "gets (\<lambda>d. concat (map (\<lambda>p. pmessage p ch msg) (filter m (map snd (filter (\<lambda>e. fst e = d) pats))))) ?s s'"
    using Cons.IH [of ?k ?s] Cons.prems by auto
  have "gets (\<lambda>d. if d = c \<and> m p then pmessage p ch msg else []) s ?s"
    using gets_add_replies [of c "pmessage p ch msg" s] gets_refl by auto
  from gets_trans [OF this s'(2)] have
    "gets (\<lambda>d. concat (map (\<lambda>p. pmessage p ch msg) (filter m (map snd (filter (\<lambda>e. fst e = d) (e # pats)))))) s s'"
    by (auto simp: gets_def e)
  with s'(1) Cons.prems show ?case
    by (auto simp: e)
qed

section \<open>Properties\<close>

text \<open>C17: In every state that clients reach, the subscriptions recorded with the clients and with the server
  agree; so no assertion of UNSUBSCRIBE and PUNSUBSCRIBE fails, and a client that leaves is freed with
  no reference to it left behind in the server's tables.\<close>

theorem pubsub_consistent:
  assumes "ps_step\<^sup>*\<^sup>* (new_pubsub, s0) (ps, s)"
  shows "ps_ok ps \<and> unsubscribeCommand c (ps, s) \<noteq> None \<and> punsubscribeCommand c (ps, s) \<noteq> None \<and>
    (\<exists>ps'. leave c (ps, s) = Some (ps', s) \<and> (\<forall>ch. c \<notin> set (subscribers ps' ch)) \<and> c \<notin> fst ` set (pubsub_patterns ps'))"
proof -
  have ok: "ps_ok ps"
    using ps_reachable_ok [OF assms] by simp
  obtain ps' where "leave c (ps, s) = Some (ps', s)" "ps_ok ps'" "client_channels ps' c = {||}" "client_patterns ps' c = []"
    using leave_ok [OF ok] by blast
  then have "leave c (ps, s) = Some (ps', s) \<and> (\<forall>ch. c \<notin> set (subscribers ps' ch)) \<and> c \<notin> fst ` set (pubsub_patterns ps')"
    by (auto simp: ps_ok_def channels_ok_def patterns_ok_def filter_empty_conv)
  then show ?thesis
    using ok unsubscribeCommand_ok [OF ok, of c s] punsubscribeCommand_ok [OF ok, of c s] by auto
qed

text \<open>One client subscribes to a channel, then the other to every channel by a pattern.\<close>

definition two_subscribers :: "pubsub \<times> redisServer" where
  "two_subscribers =
     (let s = watched_server [] [ascii ''subscribe'', key_k];
          (ps, s) = subscribeCommand 0 (new_pubsub, s);
          s = upd_client 1 (\<lambda>cl. cl\<lparr>c_argv := [ascii ''psubscribe'', [42]]\<rparr>) s
      in psubscribeCommand 1 (ps, s))"

lemma two_subscribers_reachable: "ps_step\<^sup>*\<^sup>* (new_pubsub, watched_server [] [ascii ''subscribe'', key_k]) (fst two_subscribers, snd two_subscribers)"
proof -
  let ?s = "watched_server [] [ascii ''subscribe'', key_k]"
  let ?st = "subscribeCommand 0 (new_pubsub, ?s)"
  let ?s2 = "upd_client 1 (\<lambda>cl. cl\<lparr>c_argv := [ascii ''psubscribe'', [42]]\<rparr>) (snd ?st)"
  have "ps_step (new_pubsub, ?s) ?st" "ps_step ?st (fst ?st, ?s2)" "ps_step (fst ?st, ?s2) two_subscribers"
    using ps_step.other [of "fst ?st" "snd ?st" ?s2] ps_step.psubscribe [of "(fst ?st, ?s2)" 1]
    by (auto intro: ps_step.subscribe simp: two_subscribers_def Let_def split: prod.splits)
  then show ?thesis
    unfolding prod.collapse by (meson rtranclp.rtrancl_into_rtrancl rtranclp.rtrancl_refl)
qed

lemma two_subscribers_eq:
  "pubsub_channels (fst two_subscribers) = fmap_of_list [(key_k, [0])] \<and> pubsub_patterns (fst two_subscribers) = [(1, [42])]"
  by code_simp

theorem pubsub_consistent_witness:
  "unsubscribeCommand 0 two_subscribers \<noteq> None \<and> 0 \<in> set (subscribers (fst two_subscribers) key_k) \<and>
   (\<exists>ps'. leave 0 two_subscribers = Some (ps', snd two_subscribers) \<and> 0 \<notin> set (subscribers ps' key_k))"
  using pubsub_consistent [OF two_subscribers_reachable, of 0] two_subscribers_eq
  unfolding prod.collapse by (metis fmlookup_of_list list.set_intros(1) map_of_Cons_code(2) option.case(2) subscribers_def)

text \<open>C16: When the matcher returns on every subscribed pattern, PUBLISH sends the message once to each client subscribed to the channel and, after that, once to each
  client for every pattern of it that matches the channel, in the order of its subscriptions; nobody
  else gets anything, and the publisher is told the number of messages.\<close>

theorem publish_delivers:
  assumes "ps_step\<^sup>*\<^sup>* (new_pubsub, s0) (ps, s)"
    and "\<forall>e \<in> set (pubsub_patterns ps). stringmatchlen (snd e) ch False = Some (m (snd e))"
  shows "\<exists>s'. pubsubPublishMessage ch msg ps s =
      Some (length (subscribers ps ch) + length (filter (\<lambda>e. m (snd e)) (pubsub_patterns ps)), s') \<and>
    (\<forall>d < length (clients s). c_replies (clients s' ! d) = c_replies (clients s ! d) @
       (if ch |\<in>| client_channels ps d then message ch msg else []) @
       concat (map (\<lambda>p. pmessage p ch msg) (filter m (client_patterns ps d))))"
proof -
  have ok: "ps_ok ps"
    using ps_reachable_ok [OF assms(1)] by simp
  then have ch: "distinct (subscribers ps ch)" "\<And>d. d \<in> set (subscribers ps ch) \<longleftrightarrow> ch |\<in>| client_channels ps d"
    and pat: "\<And>d. client_patterns ps d = map snd (filter (\<lambda>e. fst e = d) (pubsub_patterns ps))"
    by (auto simp: ps_ok_def channels_ok_def patterns_ok_def)
  obtain s1 where s1: "send_channel (subscribers ps ch) ch msg 0 s = (length (subscribers ps ch), s1)"
    "gets (\<lambda>d. if d \<in> set (subscribers ps ch) then message ch msg else []) s s1"
    using send_channel_gets [OF ch(1), of ch msg 0 s] by auto
  then have "pubsubPublishMessage ch msg ps s = send_patterns (pubsub_patterns ps) ch msg (length (subscribers ps ch)) s1"
    by (auto simp: pubsubPublishMessage_def subscribers_def split: option.splits)
  moreover obtain s' where s': "send_patterns (pubsub_patterns ps) ch msg (length (subscribers ps ch)) s1 =
      Some (length (subscribers ps ch) + length (filter (\<lambda>e. m (snd e)) (pubsub_patterns ps)), s')"
    "gets (\<lambda>d. concat (map (\<lambda>p. pmessage p ch msg) (filter m (client_patterns ps d)))) s1 s'"
    using send_patterns_gets [OF assms(2), of msg "length (subscribers ps ch)" s1] unfolding pat by blast
  moreover have "gets (\<lambda>d. (if ch |\<in>| client_channels ps d then message ch msg else []) @
      concat (map (\<lambda>p. pmessage p ch msg) (filter m (client_patterns ps d)))) s s'"
    using gets_trans [OF s1(2) s'(2)] unfolding ch(2) .
  ultimately show ?thesis
    by (simp add: gets_def)
qed

theorem publish_delivers_witness:
  "\<exists>s'. pubsubPublishMessage key_k [1] (fst two_subscribers) (snd two_subscribers) = Some (2, s') \<and>
     c_replies (clients s' ! 1) = c_replies (clients (snd two_subscribers) ! 1) @ pmessage [42] key_k [1]"
proof -
  have "\<forall>e \<in> set (pubsub_patterns (fst two_subscribers)). stringmatchlen (snd e) key_k False = Some True"
    unfolding conjunct2 [OF two_subscribers_eq] by code_simp
  note del = publish_delivers [OF two_subscribers_reachable this, of "[1]"]
  have "\<exists>s'. pubsubPublishMessage key_k [1] (fst two_subscribers) (snd two_subscribers) =
      Some (length (subscribers (fst two_subscribers) key_k) + length (filter (\<lambda>e. True) (pubsub_patterns (fst two_subscribers))), s') \<and>
    (\<forall>d < length (clients (snd two_subscribers)). c_replies (clients s' ! d) = c_replies (clients (snd two_subscribers) ! d) @
       (if key_k |\<in>| client_channels (fst two_subscribers) d then message key_k [1] else []) @
       concat (map (\<lambda>p. pmessage p key_k [1]) (filter (\<lambda>_. True) (client_patterns (fst two_subscribers) d))))"
    by (rule del)
  moreover have "length (clients (snd two_subscribers)) = 2" "key_k |\<notin>| client_channels (fst two_subscribers) 1"
    "client_patterns (fst two_subscribers) 1 = [[42]]" by code_simp+
  moreover have "subscribers (fst two_subscribers) key_k = [0]" "pubsub_patterns (fst two_subscribers) = [(1, [42])]"
    using two_subscribers_eq by (simp_all add: subscribers_def fmlookup_of_list)
  ultimately show ?thesis
    by (fastforce simp: numeral_2_eq_2)
qed

end
