(* ===== verification/Spec2Isabelle.thy ===== *)
theory Spec2Isabelle
  imports Dict_Scan Intset Util_Match T_list_spec Blocking_spec Protocol Pubsub
begin

text \<open>
  A model of the data core of the Redis server in src/openresty/redis-2.8.3/src, and its proofs.

  \<^bold>\<open>The program.\<close> Clients send requests; \<open>processCommand\<close> (redis.c) looks the command up in the
  table, refuses it or queues it in an open transaction, or lets \<open>call\<close> run its handler on the
  client's database. Handlers reach the data through the key space (db.c), which expires keys lazily
  and whose writes are signalled to the clients that watch a key (multi.c). The objects under the
  keys are built from byte-level structures: hash tables (dict.c), sorted integer arrays (intset.c)
  and strings that may be numbers (object.c, util.c).

  \<^bold>\<open>Theories\<close>, in the order of their imports:
  \<^item> Prelude: machine types, checked byte buffers, little-endian numbers, signed words.
  \<^item> Endianconv: endianconv.c and .h for both kinds of hosts.
  \<^item> Intset: intset.c on its bytes. The operations stay in the allocation and refine insertion,
    removal and membership of strictly sorted lists of integers; the binary search is exact.
  \<^item> Dict: dict.c, chained hash tables with incremental rehashing, for any hash function. The locale
    \<open>finite_map\<close> states what users of a table rely on; its interpretation \<open>dict_map\<close> on the model of
    the code discharges it in every phase of a rehash. Dict_Scan: the cursor of \<open>dictScan\<close>.
  \<^item> Util, Util_Match: conversions between numbers and strings, memory amounts, glob patterns.
  \<^item> Server: the state (redis.h), objects (object.c), replies, events and \<open>signalModifiedKey\<close>.
  \<^item> Db, Db_Safety, Db_Commands: db.c. Lookups, updates, expires, the commands on keys of any type.
  \<^item> Safe_Steps: the rules by which a handler is shown safe, one per primitive.
  \<^item> T_string, T_set, T_hash, T_list: the commands of t_string.c, t_set.c, t_hash.c and t_list.c.
    Bitops: bitops.c, whose word arithmetic is shown equal to counting and combining bit by bit.
    T_list_spec: what the list commands do to the sequence of elements; its locale \<open>deque\<close> is the
    sequence with two ends, interpreted on both encodings.
  \<^item> Client_Steps: what a step of one client leaves to the others.
  \<^item> T_list_blocking: BLPOP, BRPOP and BRPOPLPUSH, the lists of waiting clients, timeouts.
    T_list_serving: \<open>handleClientsBlockedOnLists\<close> ends and keeps the invariants (\<open>handled\<close>).
  \<^item> Multi: multi.c, \<open>call\<close> and \<open>processCommand\<close>, for any table of commands. The locales
    \<open>command_table\<close> and \<open>redis_table\<close> state what transactions need of the commands.
  \<^item> Commands: the table of redis.c, the interpretation of \<open>redis_table\<close> on it, and the guarantees of
    the server as a whole.
  \<^item> Networking: clients come, send, time out and go (networking.c), the turn of the event loop, and the
    states a fresh server reaches (\<open>net_step\<close>). Blocking_spec: what blocked clients are promised.
  \<^item> Sds: splitting lines and quoting (sds.c). Protocol: the request parser of networking.c on the bytes of
    the query buffer, its limits, and the writer of requests of aof.c.
  \<^item> Pubsub: pubsub.c, channels and patterns, with the part of \<open>freeClient\<close> that ends subscriptions, and the
    states these commands reach (\<open>ps_step\<close>). The state of Pub/Sub is kept beside the server's, since
    nothing else reads it; \<open>ps_step\<close> lets the rest of the server do anything between two commands.

  \<^bold>\<open>How code is modelled.\<close> A C struct is a record, an integer a word of its width with the wrap-around
  of its operations; \<open>sint\<close> reads a signed one. A handler is a function from the client's index and
  the server to the server afterwards; every early return is a branch. \<^term>\<open>None\<close> is a failed
  assertion, a panic, or an access outside a buffer, so a theorem that a result is \<^term>\<open>Some\<close> excludes
  them. Loops are recursive functions that terminate, or \<open>partial_function\<close>s whose termination is a theorem
  (\<open>handleClientsBlockedOnLists\<close>, \<open>beforeSleep\<close>); no fuel is used but in the rehashing and scan
  loops, which count what their C loops count. Objects are values: reference counts and access times
  are left out, and an object changed in place is stored back by \<open>storeObject\<close>.

  Between the levels: a database is a finite map, which Dict shows hash tables to refine, and an
  encoded set is the set of its integers, which Intset shows its bytes to refine. The order of the
  iterator over a table is a parameter (\<open>dict_place\<close>), and so are the hash function, the contents of
  uninitialised memory, the clock (\<open>mstime\<close>, constant during a command) and the next random number.

  \<^bold>\<open>Invariants.\<close> \<open>srv_ok\<close>: expires belong to existing keys; the clients listed under a watched key are
  those that have it in their list, once; the clients listed as blocked on a key are those that wait for
  it; the databases clients have selected exist; no ziplist of a hash has a field twice. \<open>srv_full\<close>: in
  addition no key holds an aggregate without elements. \<open>upd i K s s'\<close>: from \<open>s\<close> to \<open>s'\<close> the invariant
  \<open>srv_ok\<close> is kept, and what clients see (\<open>seen\<close>: the value of a key that is not expired, without its
  encoding) changes only for keys that are pending or whose watchers have all been marked; new
  aggregates without elements are only under keys of \<open>K\<close>; and only such keys become ready. The keys of
  \<open>K\<close> in database \<open>i\<close> are pending. A command is safe when it answers and \<open>K\<close> is empty at its end
  (\<open>safe_command\<close>; \<open>safe_for\<close> when it relies on its arity). \<open>step_ok c s s'\<close> is a step of client \<open>c\<close>
  as the other clients rely on it, and \<open>step_for\<close> a command that is such a step.

  The state of \<open>net_step\<close> is the input of each client beside the server. \<^term>\<open>None\<close> stands for the input of a freed client,
  whose place is kept so that indexes stay: no event reads from it, and \<open>beforeSleep\<close> fails when it finds the
  client among the unblocked ones, since the C code then uses freed memory. \<open>listed_live\<close> says that it finds none.

  \<^bold>\<open>What is shown.\<close> Transactions: no request makes an assertion fail, and a changed watched key stops
  EXEC, whatever requests for commands of \<open>safe_names\<close> the other clients send (Commands). The server: every state reachable from a fresh one is
  well formed, and no event gets stuck in one but the turn of the loop with a freed client listed (Networking). Blocking: clients are served in the order they
  came, and none is left waiting for a key that was ready (Blocking_spec). The parser: it ends on any bytes; it
  reads requests the same however they are cut into pieces (the query buffer never passes 64K but inside one
  big argument), and the input loop on bytes refines that on requests (Protocol). Refinement: hash tables are finite maps and intsets
  are sets. Commands: SET, SADD, SREM, HSET, HGETALL, GETRANGE and the counters do what they document on every
  encoding; the list commands act on the sequence of elements, and RPOPLPUSH loses none; set algebra is that of sets; SETBIT,
  BITCOUNT and BITOP act on the bits. Pub/Sub: subscriptions are recorded alike with clients and server, a
  client that leaves is forgotten, and PUBLISH reaches exactly the subscribers. Iteration: SCAN visits what stays, and terminates. The
  theorems on lines that end in a bare line feed, RENAME with blocked clients, clients unblocked twice, MOVE, PERSIST, SELECT, DECRBY, SETRANGE, GETRANGE, LINDEX, glob patterns and SCAN with a shrinking table
  show inputs on which the code goes wrong. SETRANGE, GETRANGE, SUBSTR, MOVE and PERSIST are therefore left out of \<open>safe_names\<close>,
  the commands that the theorems on sequences of requests and on reachable states let clients send; DECRBY, SELECT,
  LINDEX and RENAME are in it, since their faults break no invariant.

  \<^bold>\<open>Not modelled.\<close> Sorted sets, floating point commands, SRANDMEMBER with a count,
  the SCAN family's commands, SORT, the dispatch of Pub/Sub commands (inside transactions, and the refusal of other
  commands to subscribed clients), the files of persistence, replication, scripting, sockets and output buffers, the configuration, eviction;
  in \<open>beforeSleep\<close> the fast expire cycle and the flush of the append only file, in \<open>freeClient\<close> the part on replication, in \<open>clientsCron\<close>
  the closing of idle clients, in PUBLISH the flag that forces its propagation; in dict.c the iterators and random keys. Memory
  allocation does not fail. Everything else in the repository is vendored code (nginx, LuaJIT,
  drizzle, expat) or scripts and configuration.
\<close>

end
